(* ===== verification/OplPrelude.thy ===== *)
theory OplPrelude
  imports Main "HOL-Library.Word" "HOL-Library.Sublist"
begin

text \<open>
  Shared vocabulary of the development: C strings as lists of bytes, the parts of the C
  library the sources call (\<^verbatim>\<open>strchr\<close>, \<^verbatim>\<open>strncpy\<close>, \<^verbatim>\<open>strncmp\<close>, \<^verbatim>\<open>snprintf\<close>, \<^verbatim>\<open>atoi\<close>, the
  \<^verbatim>\<open>ctype.h\<close> tests in the C locale), the collections of rewrite rules the component proofs
  share, and generic lemmas on lists and on decimal numerals.

  A C string is modelled by the bytes before its terminating NUL.  A raw memory buffer, which
  may hold NUL bytes, is a \<^typ>\<open>char list\<close> too; \<open>cstr\<close> reads the C string at its start.
\<close>

named_theorems c_string_simps
  "rewrite rules for the C string functions"

named_theorems opl_defs
  "definitions of the model that are unfolded together"

type_synonym cstring = "char list"
type_synonym u8 = "8 word"
type_synonym u16 = "16 word"
type_synonym u32 = "32 word"

abbreviation NUL :: char where "NUL \<equiv> CHR 0x00"
abbreviation TAB :: char where "TAB \<equiv> CHR 0x09"
abbreviation LF :: char where "LF \<equiv> CHR 0x0A"
abbreviation CR :: char where "CR \<equiv> CHR 0x0D"
abbreviation SPC :: char where "SPC \<equiv> CHR 0x20"
abbreviation DQUOTE :: char where "DQUOTE \<equiv> CHR 0x22"
abbreviation BACKSLASH :: char where "BACKSLASH \<equiv> CHR 0x5C"

section \<open>C strings\<close>

text \<open>The C string that starts a memory buffer: everything before the first NUL.\<close>

definition cstr :: "char list \<Rightarrow> cstring" where
  "cstr = takeWhile (\<lambda>c. c \<noteq> NUL)"

text \<open>The bytes before the first occurrence of a character, and from it on.  \<^verbatim>\<open>strchr\<close> returns
  a pointer to the second part, or NULL when that part is empty.\<close>

definition before_char :: "char \<Rightarrow> cstring \<Rightarrow> cstring" where
  "before_char c = takeWhile (\<lambda>x. x \<noteq> c)"

definition from_char :: "char \<Rightarrow> cstring \<Rightarrow> cstring" where
  "from_char c = dropWhile (\<lambda>x. x \<noteq> c)"

definition strchr :: "cstring \<Rightarrow> char \<Rightarrow> nat option" where
  "strchr s c = (if c \<in> set s then Some (length (before_char c s)) else None)"

definition strrchr :: "cstring \<Rightarrow> char \<Rightarrow> nat option" where
  "strrchr s c =
     (if c \<in> set s then Some (length s - Suc (length (before_char c (rev s)))) else None)"

text \<open>A bounded copy that always terminates: \<^verbatim>\<open>snprintf(out, n, "%s", s)\<close>, and \<^verbatim>\<open>strncpy\<close>
  followed by a store of NUL in the last byte.\<close>

definition bounded :: "nat \<Rightarrow> cstring \<Rightarrow> cstring" where
  "bounded n s = take (n - 1) s"

text \<open>\<^verbatim>\<open>strncmp(a, b, n) == 0\<close>.\<close>

definition strncmp_eq :: "nat \<Rightarrow> cstring \<Rightarrow> cstring \<Rightarrow> bool" where
  "strncmp_eq n a b \<longleftrightarrow> take n a = take n b"

definition rstrip :: "(char \<Rightarrow> bool) \<Rightarrow> cstring \<Rightarrow> cstring" where
  "rstrip P s = rev (dropWhile P (rev s))"

lemma cstr_append_NUL [simp]: "NUL \<notin> set s \<Longrightarrow> cstr (s @ NUL # t) = s"
  by (induction s) (auto simp: cstr_def)

lemma cstr_id [simp]: "NUL \<notin> set s \<Longrightarrow> cstr s = s"
  by (induction s) (auto simp: cstr_def)

lemma cstr_no_NUL [simp]: "NUL \<notin> set (cstr s)"
  by (auto simp: cstr_def dest: set_takeWhileD)

lemma before_char_id [c_string_simps, simp]: "c \<notin> set s \<Longrightarrow> before_char c s = s"
  by (induction s) (auto simp: before_char_def)

lemma before_char_append [c_string_simps, simp]: "c \<notin> set s \<Longrightarrow> before_char c (s @ c # t) = s"
  by (induction s) (auto simp: before_char_def)

lemma before_char_not_in [simp]: "c \<notin> set (before_char c s)"
  by (auto simp: before_char_def dest: set_takeWhileD)

lemma set_before_char_subset: "set (before_char c s) \<subseteq> set s"
  by (auto simp: before_char_def dest: set_takeWhileD)

lemma from_char_append [c_string_simps, simp]: "c \<notin> set s \<Longrightarrow> from_char c (s @ c # t) = c # t"
  by (induction s) (auto simp: from_char_def)

lemma from_char_Nil [c_string_simps, simp]: "c \<notin> set s \<Longrightarrow> from_char c s = []"
  by (induction s) (auto simp: from_char_def)

lemma before_from [simp]: "before_char c s @ from_char c s = s"
  by (simp add: before_char_def from_char_def)

lemma from_char_head: "c \<in> set s \<Longrightarrow> \<exists>t. from_char c s = c # t"
  by (induction s) (auto simp: from_char_def)

lemma length_tl_from_char [simp]: "r \<noteq> [] \<Longrightarrow> length (from_char c r) - Suc 0 < length r"
  using length_dropWhile_le [of "\<lambda>x. x \<noteq> c" r] by (cases r) (auto simp: from_char_def)

lemma strchr_None [simp]: "strchr s c = None \<longleftrightarrow> c \<notin> set s"
  by (simp add: strchr_def)

lemma strchr_append [c_string_simps, simp]: "c \<notin> set s \<Longrightarrow> strchr (s @ c # t) c = Some (length s)"
  by (simp add: strchr_def)

lemma strchr_Some_split:
  assumes "strchr s c = Some i"
  shows "i < length s" and "s ! i = c" and "take i s = before_char c s" and "c \<notin> set (take i s)"
proof -
  from assms have c: "c \<in> set s" and i: "i = length (before_char c s)"
    by (auto simp: strchr_def split: if_splits)
  from c obtain t where t: "from_char c s = c # t" using from_char_head by blast
  have s: "s = before_char c s @ c # t" using before_from [of c s] t by simp
  show "i < length s" by (subst s) (simp add: i)
  show "s ! i = c" by (subst s) (simp add: i)
  show tk: "take i s = before_char c s" by (subst s) (simp add: i)
  show "c \<notin> set (take i s)" unfolding tk by simp
qed

lemma bounded_length [simp]: "length (bounded n s) \<le> n - 1"
  by (simp add: bounded_def)

lemma bounded_id [c_string_simps, simp]: "length s < n \<Longrightarrow> bounded n s = s"
  by (simp add: bounded_def)

lemma bounded_idem [simp]: "bounded n (bounded n s) = bounded n s"
  by (simp add: bounded_def)

lemma set_bounded_subset: "set (bounded n s) \<subseteq> set s"
  by (simp add: bounded_def set_take_subset)

lemma strncmp_eq_short [c_string_simps]:
  "length a < n \<Longrightarrow> strncmp_eq n a b \<longleftrightarrow> a = b"
  unfolding strncmp_eq_def
  by (metis length_take less_irrefl min.commute min_def nat_less_le take_all linorder_not_less)

lemma strncmp_eq_refl [simp]: "strncmp_eq n a a"
  by (simp add: strncmp_eq_def)

lemma rstrip_Nil [simp]: "rstrip P [] = []"
  by (simp add: rstrip_def)

lemma rstrip_id [simp]: "s = [] \<or> \<not> P (last s) \<Longrightarrow> rstrip P s = s"
  by (cases s rule: rev_cases) (auto simp: rstrip_def)

lemma rstrip_snoc [simp]: "rstrip P (s @ [c]) = (if P c then rstrip P s else s @ [c])"
  by (simp add: rstrip_def)

lemma rstrip_last: "rstrip P s \<noteq> [] \<Longrightarrow> \<not> P (last (rstrip P s))"
  by (induction s rule: rev_induct) auto

lemma prefix_rstrip: "prefix (rstrip P s) s"
  by (induction s rule: rev_induct) (auto intro: prefix_snoc [THEN iffD2])

lemma dropWhile_id: "s = [] \<or> \<not> P (hd s) \<Longrightarrow> dropWhile P s = s"
  by (cases s) auto

section \<open>Character classes of the C locale\<close>

definition char_code :: "char \<Rightarrow> nat" where
  "char_code c = of_char c"

definition isdigit :: "char \<Rightarrow> bool" where
  "isdigit c \<longleftrightarrow> 48 \<le> char_code c \<and> char_code c \<le> 57"

definition isupper :: "char \<Rightarrow> bool" where
  "isupper c \<longleftrightarrow> 65 \<le> char_code c \<and> char_code c \<le> 90"

definition islower :: "char \<Rightarrow> bool" where
  "islower c \<longleftrightarrow> 97 \<le> char_code c \<and> char_code c \<le> 122"

definition isalpha :: "char \<Rightarrow> bool" where
  "isalpha c \<longleftrightarrow> isupper c \<or> islower c"

definition isalnum :: "char \<Rightarrow> bool" where
  "isalnum c \<longleftrightarrow> isalpha c \<or> isdigit c"

definition isspace :: "char \<Rightarrow> bool" where
  "isspace c \<longleftrightarrow> char_code c = 32 \<or> (9 \<le> char_code c \<and> char_code c \<le> 13)"

definition isgraph :: "char \<Rightarrow> bool" where
  "isgraph c \<longleftrightarrow> 33 \<le> char_code c \<and> char_code c \<le> 126"

definition isxdigit :: "char \<Rightarrow> bool" where
  "isxdigit c \<longleftrightarrow> isdigit c \<or> (65 \<le> char_code c \<and> char_code c \<le> 70)
     \<or> (97 \<le> char_code c \<and> char_code c \<le> 102)"

definition to_lower :: "char \<Rightarrow> char" where
  "to_lower c = (if isupper c then char_of (char_code c + 32) else c)"

text \<open>\<^verbatim>\<open>strcasecmp(a, b) == 0\<close>.\<close>

definition strcasecmp_eq :: "cstring \<Rightarrow> cstring \<Rightarrow> bool" where
  "strcasecmp_eq a b \<longleftrightarrow> map to_lower a = map to_lower b"

definition strncasecmp_eq :: "nat \<Rightarrow> cstring \<Rightarrow> cstring \<Rightarrow> bool" where
  "strncasecmp_eq n a b \<longleftrightarrow> map to_lower (take n a) = map to_lower (take n b)"

text \<open>The byte at an index of a C string, the terminating NUL behind it.\<close>

definition c_at :: "cstring \<Rightarrow> nat \<Rightarrow> char" where
  "c_at s i = (if i < length s then s ! i else NUL)"

lemmas ctype_defs = char_code_def isdigit_def isupper_def islower_def isalpha_def isalnum_def
  isspace_def isgraph_def isxdigit_def

section \<open>Decimal numerals\<close>

text \<open>\<^verbatim>\<open>%d\<close> of \<^verbatim>\<open>snprintf\<close>, and \<^verbatim>\<open>atoi\<close>: optional white space, an optional sign, digits; the
  value is clamped to the range of the 32-bit \<^verbatim>\<open>long\<close> that \<^verbatim>\<open>strtol\<close> works with.\<close>

definition digit_char :: "nat \<Rightarrow> char" where
  "digit_char d = char_of (48 + d)"

fun show_nat :: "nat \<Rightarrow> cstring" where
  "show_nat n = (if n < 10 then [digit_char n] else show_nat (n div 10) @ [digit_char (n mod 10)])"

declare show_nat.simps [simp del]

definition show_int :: "int \<Rightarrow> cstring" where
  "show_int i = (if i < 0 then CHR ''-'' # show_nat (nat (- i)) else show_nat (nat i))"

fun read_digits :: "nat \<Rightarrow> cstring \<Rightarrow> nat" where
  "read_digits acc [] = acc"
| "read_digits acc (c # cs) =
     (if isdigit c then read_digits (acc * 10 + (char_code c - 48)) cs else acc)"

definition clamp32 :: "int \<Rightarrow> int" where
  "clamp32 i = max (- (2 ^ 31)) (min (2 ^ 31 - 1) i)"

definition atoi :: "cstring \<Rightarrow> int" where
  "atoi s = (let t = dropWhile isspace s in
     case t of
       [] \<Rightarrow> 0
     | c # r \<Rightarrow>
         clamp32 (if c = CHR ''-'' then - int (read_digits 0 r)
                  else if c = CHR ''+'' then int (read_digits 0 r)
                  else int (read_digits 0 t)))"

lemma char_code_digit [simp]: "d < 10 \<Longrightarrow> char_code (digit_char d) = 48 + d"
  by (simp add: char_code_def digit_char_def)

lemma isdigit_digit_char [simp]: "d < 10 \<Longrightarrow> isdigit (digit_char d)"
  by (simp add: isdigit_def)

lemma show_nat_digits: "c \<in> set (show_nat n) \<Longrightarrow> isdigit c"
proof (induction n rule: show_nat.induct)
  case (1 n)
  then show ?case
    by (subst (asm) (2) show_nat.simps) (auto split: if_splits)
qed

lemma show_nat_nonempty [simp]: "show_nat n \<noteq> []"
  by (subst show_nat.simps) simp

lemma read_digits_append:
  "\<forall>c \<in> set s. isdigit c \<Longrightarrow> read_digits acc (s @ t) = read_digits (read_digits acc s) t"
  by (induction s arbitrary: acc) auto

lemma read_show_nat [simp]: "read_digits 0 (show_nat n) = n"
proof (induction n rule: show_nat.induct)
  case (1 n)
  show ?case
  proof (cases "n < 10")
    case True
    then show ?thesis by (subst show_nat.simps) simp
  next
    case False
    with 1 have IH: "read_digits 0 (show_nat (n div 10)) = n div 10" by simp
    have "read_digits 0 (show_nat n) = read_digits 0 (show_nat (n div 10) @ [digit_char (n mod 10)])"
      using False by (subst show_nat.simps) simp
    also have "\<dots> = n div 10 * 10 + n mod 10"
      using show_nat_digits by (subst read_digits_append) (auto simp: IH)
    finally show ?thesis by simp
  qed
qed

lemma digit_not_space: "isdigit c \<Longrightarrow> \<not> isspace c"
  by (auto simp: isdigit_def isspace_def)

lemma digit_not_sign: "isdigit c \<Longrightarrow> c \<noteq> CHR ''-'' \<and> c \<noteq> CHR ''+''"
  by (auto simp: isdigit_def char_code_def)

lemma show_nat_Cons:
  obtains c r where "show_nat n = c # r" and "isdigit c"
  using show_nat_digits [of "hd (show_nat n)" n] show_nat_nonempty [of n]
  by (cases "show_nat n") auto

theorem atoi_show_int:
  assumes "- (2 ^ 31) \<le> i" and "i < 2 ^ 31"
  shows "atoi (show_int i) = i"
proof (cases "i < 0")
  case True
  have "\<not> isspace CHR ''-''" by (simp add: isspace_def char_code_def)
  with True assms show ?thesis
    by (simp add: atoi_def show_int_def clamp32_def Let_def)
next
  case False
  obtain c r where s: "show_nat (nat i) = c # r" and c: "isdigit c" by (rule show_nat_Cons)
  have rd: "read_digits 0 (c # r) = nat i" using read_show_nat [of "nat i"] s by metis
  from False assms c show ?thesis
    using digit_not_space [OF c] digit_not_sign [OF c] rd
    by (simp add: atoi_def show_int_def s clamp32_def Let_def del: read_digits.simps)
qed

section \<open>Lists\<close>

text \<open>Storing into a C array: a write out of range is not a value of the model.\<close>

definition array_put :: "'a list \<Rightarrow> nat \<Rightarrow> 'a \<Rightarrow> 'a list option" where
  "array_put xs i v = (if i < length xs then Some (xs[i := v]) else None)"

lemma map_of_filter_key:
  "map_of (filter (\<lambda>p. fst p \<noteq> k) xs) k' = (if k' = k then None else map_of xs k')"
  by (induction xs) auto

lemma takeWhile_append_stop:
  "\<forall>x \<in> set xs. P x \<Longrightarrow> \<not> P y \<Longrightarrow> takeWhile P (xs @ y # ys) = xs"
  by (induction xs) auto

lemma dropWhile_append_stop:
  "\<forall>x \<in> set xs. P x \<Longrightarrow> \<not> P y \<Longrightarrow> dropWhile P (xs @ y # ys) = y # ys"
  by (induction xs) auto

lemma map_of_rev_distinct: "distinct (map fst xs) \<Longrightarrow> map_of (rev xs) = map_of xs"
  by (subst map_of_inject_set) (simp_all add: rev_map [symmetric])

lemma last_dropWhile: "\<not> P (last xs) \<Longrightarrow> xs \<noteq> [] \<Longrightarrow> last (dropWhile P xs) = last xs"
  by (induction xs) auto

lemma map_of_consistent:
  assumes "\<And>k v w. (k, v) \<in> set kvs \<Longrightarrow> (k, w) \<in> set kvs \<Longrightarrow> v = w"
  shows "map_of kvs k = Some v \<longleftrightarrow> (k, v) \<in> set kvs"
proof
  assume "(k, v) \<in> set kvs"
  then obtain w where "map_of kvs k = Some w" by (metis map_of_eq_None_iff not_Some_eq imageI fst_conv)
  then show "map_of kvs k = Some v" using assms \<open>(k, v) \<in> set kvs\<close> map_of_SomeD by metis
qed (rule map_of_SomeD)

end
