(* ===== verification/Util.thy ===== *)
theory Util
  imports OplPrelude
begin

text \<open>
  \<^verbatim>\<open>src/util.c\<close>: the buffered line reader and writer every text file of the loader goes
  through (\<^verbatim>\<open>openFileBufferBuffer\<close>, \<^verbatim>\<open>openFileBuffer\<close>, \<^verbatim>\<open>readFileBuffer\<close>, \<^verbatim>\<open>writeFileBuffer\<close>,
  \<^verbatim>\<open>closeFileBuffer\<close>), the hex digit conversions, memory card selection and the console region.

  \<^item> An open descriptor is a \<open>file_desc\<close>: the bytes not read yet, the bytes written so far, and
    what the device will do: fail reads, accept only so many more bytes, fail the close.
    \<^verbatim>\<open>fd == -1\<close> is \<open>None\<close>.
  \<^item> \<open>fb_buffer\<close> is the allocated memory, \<open>fb_lastPtr\<close> an offset into it or \<open>None\<close> for NULL.
  \<^item> Reading through a NULL \<^verbatim>\<open>lastPtr\<close> is the fault \<open>NullDeref\<close>, a value of the model.

  The main results relate the reader to a specification on the text itself (\<open>spec_next\<close>), and
  say what a successful \<^verbatim>\<open>closeFileBuffer\<close> means for the bytes that reached the device.
\<close>

section \<open>Descriptors\<close>

record file_desc =
  fd_unread :: "char list"
  fd_read_fails :: bool
  fd_written :: "char list"
  fd_accept :: nat
  fd_close_fails :: bool

text \<open>\<^verbatim>\<open>read(2)\<close>: \<open>None\<close> is a negative return value.\<close>

definition fd_read :: "file_desc \<Rightarrow> nat \<Rightarrow> char list option \<times> file_desc" where
  "fd_read f n =
     (if fd_read_fails f then (None, f)
      else (Some (take n (fd_unread f)), f\<lparr>fd_unread := drop n (fd_unread f)\<rparr>))"

text \<open>\<^verbatim>\<open>write(2)\<close>: the number of bytes written, short once the device is full or wedged.\<close>

definition fd_write :: "file_desc \<Rightarrow> char list \<Rightarrow> nat \<times> file_desc" where
  "fd_write f bs =
     (let k = min (length bs) (fd_accept f)
      in (k, f\<lparr>fd_written := fd_written f @ take k bs, fd_accept := fd_accept f - k\<rparr>))"

section \<open>File buffers\<close>

record file_buffer =
  fb_fd :: "file_desc option"
  fb_rdonly :: bool
  fb_buffer :: "char list"
  fb_size :: nat
  fb_available :: nat
  fb_lastPtr :: "nat option"
  fb_writeError :: bool
  fb_totalQueued :: nat

definition put_bytes :: "nat \<Rightarrow> char list \<Rightarrow> char list \<Rightarrow> char list" where
  "put_bytes i bs mem = take i mem @ bs @ drop (i + length bs) mem"

definition is_bom :: "char list \<Rightarrow> bool" where
  "is_bom bs \<longleftrightarrow> bs = [CHR 0xEF, CHR 0xBB, CHR 0xBF]"

text \<open>\<^verbatim>\<open>openFileBuffer\<close> after a successful \<^verbatim>\<open>openFile\<close>, read mode: a leading UTF-8 byte order mark
  is skipped, otherwise the descriptor is rewound.  The fresh buffer's bytes are never read before
  they are written; the model fills them with NUL.\<close>

definition openFileBuffer_rd :: "file_desc \<Rightarrow> nat \<Rightarrow> file_buffer" where
  "openFileBuffer_rd f sz =
     \<lparr>fb_fd = Some (let bom = take 3 (fd_unread f) in
         if \<not> fd_read_fails f \<and> is_bom bom then f\<lparr>fd_unread := drop 3 (fd_unread f)\<rparr> else f),
      fb_rdonly = True, fb_buffer = replicate sz NUL, fb_size = sz, fb_available = 0,
      fb_lastPtr = None, fb_writeError = False, fb_totalQueued = 0\<rparr>"

definition openFileBuffer_wr :: "file_desc \<Rightarrow> nat \<Rightarrow> file_buffer" where
  "openFileBuffer_wr f sz =
     \<lparr>fb_fd = Some f, fb_rdonly = False, fb_buffer = replicate sz NUL, fb_size = sz,
      fb_available = 0, fb_lastPtr = Some 0, fb_writeError = False, fb_totalQueued = 0\<rparr>"

definition openFileBufferBuffer :: "char list \<Rightarrow> file_buffer" where
  "openFileBufferBuffer data =
     \<lparr>fb_fd = None, fb_rdonly = True, fb_buffer = data @ [NUL], fb_size = length data,
      fb_available = length data, fb_lastPtr = Some 0, fb_writeError = False, fb_totalQueued = 0\<rparr>"

subsection \<open>Reading a line\<close>

datatype read_fault = NullDeref | OutOfFuel

datatype read_result = RLine cstring file_buffer | REof file_buffer | RFault read_fault

text \<open>The first block of the loop body: where does the search for the line feed stand?\<close>

definition rfb_scan :: "file_buffer \<Rightarrow> nat \<Rightarrow> nat option \<Rightarrow> nat \<times> nat option" where
  "rfb_scan fb lineSize posLF =
     (case fb_lastPtr fb of
        Some p \<Rightarrow> (fb_available fb - p,
                   map_option (\<lambda>i. p + i) (strchr (cstr (drop p (fb_buffer fb))) LF))
      | None \<Rightarrow> (lineSize, posLF))"

text \<open>The block under \<^verbatim>\<open>if (!posLF)\<close>: shift the rest of the buffer down, refill it from the
  descriptor, search the bytes that arrived.\<close>

definition rfb_fill ::
  "file_buffer \<Rightarrow> nat \<Rightarrow> read_fault + (file_buffer \<times> nat \<times> nat option)" where
  "rfb_fill fb lineSize =
     (if lineSize \<noteq> 0 \<and> fb_lastPtr fb = None then Inl NullDeref
      else
        let mem = (if lineSize \<noteq> 0
                   then put_bytes 0 (take lineSize (drop (the (fb_lastPtr fb)) (fb_buffer fb))) (fb_buffer fb)
                   else fb_buffer fb)
        in case fb_fd fb of
             None \<Rightarrow> Inr (fb\<lparr>fb_buffer := mem, fb_lastPtr := Some 0, fb_available := lineSize\<rparr>,
                          lineSize, None)
           | Some f \<Rightarrow>
               let (got, f') = fd_read f (fb_size fb - lineSize - 1);
                   bytes = (case got of None \<Rightarrow> [] | Some bs \<Rightarrow> bs);
                   mem' = (put_bytes lineSize bytes mem)[lineSize + length bytes := NUL];
                   posLF = map_option (\<lambda>i. lineSize + i) (strchr (cstr (drop lineSize mem')) LF);
                   lineSize' = lineSize + length bytes;
                   fd' = (if got = None \<or> fb_size fb \<noteq> lineSize' + 1 then None else Some f')
               in Inr (fb\<lparr>fb_buffer := mem', fb_fd := fd', fb_lastPtr := Some 0,
                          fb_available := lineSize'\<rparr>, lineSize', posLF))"

text \<open>The rest of the body: cut the line at the line feed, drop one carriage return, terminate it,
  and stop, go round again (a comment line) or return it.  A \<^verbatim>\<open>continue\<close> keeps \<^verbatim>\<open>lineSize\<close> and
  \<^verbatim>\<open>posLF\<close>.\<close>

datatype rfb_step = StepReturn read_result | StepContinue file_buffer nat "nat option"

definition rfb_cut :: "file_buffer \<Rightarrow> nat \<Rightarrow> nat option \<Rightarrow> rfb_step" where
  "rfb_cut fb lineSize posLF =
     (let p = the (fb_lastPtr fb);
          n = (case posLF of Some q \<Rightarrow> q - p | None \<Rightarrow> lineSize);
          n' = (if n \<noteq> 0 \<and> fb_buffer fb ! (p + n - 1) = CR then n - 1 else n);
          fb' = fb\<lparr>fb_buffer := (fb_buffer fb)[p + n' := NUL]\<rparr>;
          line = cstr (drop p (fb_buffer fb'));
          next = map_option Suc posLF
      in if n' = 0 \<and> fb_available fb' = 0 \<and> fb_fd fb' = None then StepReturn (REof fb')
         else if fb_buffer fb' ! p = CHR ''#''
              then StepContinue (fb'\<lparr>fb_lastPtr := next\<rparr>) n' posLF
         else StepReturn (RLine line (fb'\<lparr>fb_lastPtr := next\<rparr>)))"

definition rfb_body :: "file_buffer \<Rightarrow> nat \<Rightarrow> nat option \<Rightarrow> rfb_step" where
  "rfb_body fb lineSize posLF =
     (case rfb_scan fb lineSize posLF of
        (ls, Some q) \<Rightarrow> rfb_cut fb ls (Some q)
      | (ls, None) \<Rightarrow>
          (case rfb_fill fb ls of
             Inl e \<Rightarrow> StepReturn (RFault e)
           | Inr (fb', ls', pos) \<Rightarrow> rfb_cut fb' ls' pos))"

fun rfb_loop :: "nat \<Rightarrow> file_buffer \<Rightarrow> nat \<Rightarrow> nat option \<Rightarrow> read_result" where
  "rfb_loop 0 fb ls pos = RFault OutOfFuel"
| "rfb_loop (Suc fuel) fb ls pos =
     (case rfb_body fb ls pos of
        StepReturn r \<Rightarrow> r
      | StepContinue fb' ls' pos' \<Rightarrow> rfb_loop fuel fb' ls' pos')"

text \<open>Bytes still ahead of the reader; each trip round the loop consumes at least one.\<close>

definition fb_rest :: "file_buffer \<Rightarrow> cstring" where
  "fb_rest fb =
     (case fb_lastPtr fb of None \<Rightarrow> [] | Some p \<Rightarrow> drop p (take (fb_available fb) (fb_buffer fb)))
     @ (case fb_fd fb of None \<Rightarrow> [] | Some f \<Rightarrow> fd_unread f)"

definition readFileBuffer :: "file_buffer \<Rightarrow> read_result" where
  "readFileBuffer fb = rfb_loop (Suc (length (fb_rest fb))) fb 0 None"

text \<open>The callers' loop \<^verbatim>\<open>while (readFileBuffer(fb, &line))\<close>, collecting the lines.\<close>

fun fb_lines_loop :: "nat \<Rightarrow> file_buffer \<Rightarrow> read_fault + cstring list" where
  "fb_lines_loop 0 fb = Inl OutOfFuel"
| "fb_lines_loop (Suc fuel) fb =
     (case readFileBuffer fb of
        RFault e \<Rightarrow> Inl e
      | REof _ \<Rightarrow> Inr []
      | RLine l fb' \<Rightarrow>
          (case fb_lines_loop fuel fb' of Inl e \<Rightarrow> Inl e | Inr ls \<Rightarrow> Inr (l # ls)))"

definition fb_lines :: "file_buffer \<Rightarrow> read_fault + cstring list" where
  "fb_lines fb = fb_lines_loop (Suc (length (fb_rest fb))) fb"

subsection \<open>Writing\<close>

definition fb_flush :: "file_buffer \<Rightarrow> char list \<Rightarrow> file_buffer" where
  "fb_flush fb bs =
     (case fb_fd fb of
        None \<Rightarrow> fb\<lparr>fb_writeError := True\<rparr>
      | Some f \<Rightarrow>
          (case fd_write f bs of
             (k, f') \<Rightarrow> fb\<lparr>fb_fd := Some f',
                            fb_writeError := (fb_writeError fb \<or> k \<noteq> length bs)\<rparr>))"

definition writeFileBuffer :: "file_buffer \<Rightarrow> char list \<Rightarrow> file_buffer" where
  "writeFileBuffer fb inBuf =
     (let sz = length inBuf;
          fb1 = fb\<lparr>fb_totalQueued := fb_totalQueued fb + sz\<rparr>;
          fb2 = (if fb_available fb1 \<noteq> 0 \<and> fb_available fb1 + sz > fb_size fb1
                 then (fb_flush fb1 (take (fb_available fb1) (fb_buffer fb1)))
                        \<lparr>fb_lastPtr := Some 0, fb_available := 0\<rparr>
                 else fb1)
      in if sz > fb_size fb2 then fb_flush fb2 inBuf
         else fb2\<lparr>fb_buffer := put_bytes (the (fb_lastPtr fb2)) inBuf (fb_buffer fb2),
                  fb_lastPtr := map_option (\<lambda>p. p + sz) (fb_lastPtr fb2),
                  fb_available := fb_available fb2 + sz\<rparr>)"

text \<open>\<^verbatim>\<open>closeFileBuffer\<close>: the status it returns (\<open>True\<close> is 0), and the closed descriptor, whose
  \<open>fd_written\<close> is what reached the device.\<close>

definition closeFileBuffer :: "file_buffer \<Rightarrow> bool \<times> file_desc option" where
  "closeFileBuffer fb =
     (case fb_fd fb of
        None \<Rightarrow> (\<not> fb_writeError fb, None)
      | Some f \<Rightarrow>
          (let bs = take (fb_available fb) (fb_buffer fb);
               (k, f') = (if \<not> fb_rdonly fb \<and> fb_available fb \<noteq> 0 then fd_write f bs
                          else (length bs, f))
           in (\<not> (fb_writeError fb \<or> k \<noteq> length bs \<or> fd_close_fails f'), Some f')))"

section \<open>Small helpers\<close>

definition fromHex :: "char \<Rightarrow> int" where
  "fromHex d = (let c = int (char_code d) in
     if 48 \<le> c \<and> c \<le> 57 then c - 48
     else if 65 \<le> c \<and> c \<le> 70 then c - 65 + 10
     else if 97 \<le> c \<and> c \<le> 102 then c - 97 + 10
     else - 1)"

definition toHex :: "int \<Rightarrow> char" where
  "toHex digit = ''0123456789ABCDEF'' ! nat (take_bit 4 digit)"

text \<open>\<^verbatim>\<open>checkMC\<close>: which memory card to use.  The four tests are the outcomes of \<^verbatim>\<open>opendir\<close> on
  \<^verbatim>\<open>mc0:/\<close>, \<^verbatim>\<open>mc1:/\<close>, \<^verbatim>\<open>mc0:OPL/\<close> and \<^verbatim>\<open>mc1:OPL/\<close>; the identifier is latched once found.\<close>

record mc_probe =
  mc0_is_ps2card :: bool
  mc1_is_ps2card :: bool
  mc0_has_folder :: bool
  mc1_has_folder :: bool

definition checkMC :: "char option \<Rightarrow> mc_probe \<Rightarrow> char option" where
  "checkMC mcID pr =
     (case mcID of
        Some c \<Rightarrow> Some c
      | None \<Rightarrow>
          if mc0_has_folder pr then Some CHR ''0''
          else if mc1_has_folder pr then Some CHR ''1''
          else if mc0_is_ps2card pr then Some CHR ''0''
          else if mc1_is_ps2card pr then Some CHR ''1''
          else None)"

text \<open>The console region, from the fifth character of the ROM name, and the system folder derived
  from it; both are computed once.\<close>

datatype console_region = REGION_INVALID | REGION_JAPAN | REGION_USA | REGION_EUROPE | REGION_CHINA

record region_state =
  rg_region :: console_region
  rg_path :: cstring
  rg_letter :: char

definition region_init :: region_state where
  "region_init = \<lparr>rg_region = REGION_INVALID, rg_path = ''BRDATA-SYSTEM'', rg_letter = CHR ''R''\<rparr>"

definition region_letter :: "console_region \<Rightarrow> char option" where
  "region_letter r = (case r of
      REGION_JAPAN \<Rightarrow> Some CHR ''I'' | REGION_USA \<Rightarrow> Some CHR ''A''
    | REGION_EUROPE \<Rightarrow> Some CHR ''E'' | REGION_CHINA \<Rightarrow> Some CHR ''C''
    | REGION_INVALID \<Rightarrow> None)"

definition UpdateSystemPaths :: "region_state \<Rightarrow> region_state option" where
  "UpdateSystemPaths s =
     map_option (\<lambda>l. s\<lparr>rg_letter := l, rg_path := (rg_path s)[1 := l]\<rparr>) (region_letter (rg_region s))"

definition romver_region :: "cstring \<Rightarrow> console_region" where
  "romver_region romver =
     (if romver ! 4 = CHR ''C'' then REGION_CHINA
      else if romver ! 4 = CHR ''E'' then REGION_EUROPE
      else if romver ! 4 = CHR ''H'' \<or> romver ! 4 = CHR ''A'' then REGION_USA
      else REGION_JAPAN)"

definition InitConsoleRegionData :: "region_state \<Rightarrow> cstring \<Rightarrow> (console_region \<times> region_state) option" where
  "InitConsoleRegionData s romver =
     (if rg_region s = REGION_INVALID
      then map_option (\<lambda>s'. (rg_region s', s'))
             (UpdateSystemPaths (s\<lparr>rg_region := romver_region romver\<rparr>))
      else Some (rg_region s, s))"

section \<open>What the reader should return\<close>

text \<open>
  A specification on the text alone.  The reader sees a window of \<open>n\<close> bytes (the buffer less its
  terminator): a line ends at the first line feed in the window, or at the window's end.  One
  trailing carriage return is dropped.  A line that starts with \<open>#\<close> is skipped; if no line feed
  ended it, the code reads through a NULL pointer on its next trip round the loop.
\<close>

definition strip_cr :: "cstring \<Rightarrow> cstring" where
  "strip_cr l = (if l \<noteq> [] \<and> last l = CR then butlast l else l)"

definition is_comment :: "cstring \<Rightarrow> bool" where
  "is_comment l \<longleftrightarrow> l \<noteq> [] \<and> hd l = CHR ''#''"

datatype spec_result = SLine cstring cstring | SEof | SNull

definition raw_line :: "nat \<Rightarrow> cstring \<Rightarrow> cstring" where
  "raw_line n r = before_char LF (take n r)"

definition has_lf :: "nat \<Rightarrow> cstring \<Rightarrow> bool" where
  "has_lf n r \<longleftrightarrow> LF \<in> set (take n r)"

definition after_line :: "nat \<Rightarrow> cstring \<Rightarrow> cstring" where
  "after_line n r = drop (length (raw_line n r) + (if has_lf n r then 1 else 0)) r"

lemma raw_line_pos: "0 < n \<Longrightarrow> r \<noteq> [] \<Longrightarrow> has_lf n r \<or> raw_line n r \<noteq> []"
  by (cases n; cases r) (auto simp: raw_line_def has_lf_def before_char_def)

lemma after_line_shorter: "0 < n \<Longrightarrow> r \<noteq> [] \<Longrightarrow> length (after_line n r) < length r"
  using raw_line_pos [of n r] by (cases r) (auto simp: after_line_def)

function spec_next :: "nat \<Rightarrow> cstring \<Rightarrow> spec_result" where
  "spec_next n r =
     (if r = [] \<or> n = 0 then SEof
      else let l = strip_cr (raw_line n r) in
        if is_comment l
        then (if has_lf n r then spec_next n (after_line n r) else SNull)
        else SLine l (after_line n r))"
  by pat_completeness auto
termination
  by (relation "measure (\<lambda>(n, r). length r)") (auto simp: after_line_shorter)

declare spec_next.simps [simp del]

section \<open>The reader implements the specification\<close>

definition fb_cap :: "file_buffer \<Rightarrow> nat" where
  "fb_cap fb = length (fb_buffer fb) - 1"

definition fb_win :: "file_buffer \<Rightarrow> cstring" where
  "fb_win fb = (case fb_lastPtr fb of
     None \<Rightarrow> [] | Some p \<Rightarrow> drop p (take (fb_available fb) (fb_buffer fb)))"

definition fb_ahead :: "file_buffer \<Rightarrow> cstring" where
  "fb_ahead fb = (case fb_fd fb of None \<Rightarrow> [] | Some f \<Rightarrow> fd_unread f)"

text \<open>The invariant between calls: the window is terminated inside the allocation, holds no NUL,
  and an open descriptor belongs to a buffer of at least two bytes.\<close>

definition fb_ok :: "file_buffer \<Rightarrow> bool" where
  "fb_ok fb \<longleftrightarrow> fb_buffer fb \<noteq> [] \<and>
     (case fb_lastPtr fb of None \<Rightarrow> True
      | Some p \<Rightarrow> p \<le> fb_available fb \<and> fb_available fb < length (fb_buffer fb) \<and>
                  fb_buffer fb ! fb_available fb = NUL) \<and>
     (case fb_fd fb of None \<Rightarrow> True
      | Some f \<Rightarrow> \<not> fd_read_fails f \<and> length (fb_buffer fb) = fb_size fb \<and> 1 < fb_size fb) \<and>
     NUL \<notin> set (fb_rest fb)"

lemma fb_rest_split: "fb_rest fb = fb_win fb @ fb_ahead fb"
  by (simp add: fb_rest_def fb_win_def fb_ahead_def)

definition fd_ok :: "file_buffer \<Rightarrow> bool" where
  "fd_ok fb \<longleftrightarrow> (case fb_fd fb of None \<Rightarrow> True
     | Some f \<Rightarrow> \<not> fd_read_fails f \<and> length (fb_buffer fb) = fb_size fb \<and> 1 < fb_size fb)"

text \<open>After the scan and the refill: the line feed position is that of the window, and a window
  without one holds all that is left or is full.\<close>

definition positioned :: "file_buffer \<Rightarrow> nat \<Rightarrow> nat option \<Rightarrow> bool" where
  "positioned fb ls pos \<longleftrightarrow> (\<exists>p. fb_lastPtr fb = Some p \<and> p \<le> fb_available fb \<and>
       fb_available fb < length (fb_buffer fb) \<and> ls = length (fb_win fb) \<and>
       pos = map_option (\<lambda>i. p + i) (strchr (fb_win fb) LF)) \<and>
     (LF \<in> set (fb_win fb) \<longrightarrow> fb_buffer fb ! fb_available fb = NUL) \<and>
     fd_ok fb \<and> NUL \<notin> set (fb_rest fb) \<and>
     (LF \<in> set (fb_win fb) \<or> (fb_fd fb = None \<and> fb_available fb = length (fb_win fb))
       \<or> length (fb_win fb) = fb_cap fb \<and> 0 < fb_cap fb)"

lemma drop_window:
  assumes "p \<le> a" "a < length m" "m ! a = NUL" "NUL \<notin> set (drop p (take a m))"
  shows "cstr (drop p m) = drop p (take a m)" and "length (drop p (take a m)) = a - p"
proof -
  have "m = take a m @ NUL # drop (Suc a) m" using assms by (metis id_take_nth_drop)
  then have "drop p m = drop p (take a m) @ NUL # drop (Suc a) m"
    using assms(1,2) by (metis append_eq_conv_conj drop_append length_take linorder_not_le
        min.absorb4 diff_is_0_eq drop0)
  then show "cstr (drop p m) = drop p (take a m)" using assms(4) by simp
  show "length (drop p (take a m)) = a - p" using assms by simp
qed

lemma fb_ok_window:
  assumes "fb_ok fb" "fb_lastPtr fb = Some p"
  shows "cstr (drop p (fb_buffer fb)) = fb_win fb" and "length (fb_win fb) = fb_available fb - p"
    and "p + length (fb_win fb) = fb_available fb" and "NUL \<notin> set (fb_win fb)"
    and "length (fb_win fb) \<le> fb_cap fb"
proof -
  have h: "p \<le> fb_available fb" "fb_available fb < length (fb_buffer fb)"
    "fb_buffer fb ! fb_available fb = NUL" "NUL \<notin> set (fb_win fb)"
    using assms by (auto simp: fb_ok_def fb_rest_split)
  have w: "fb_win fb = drop p (take (fb_available fb) (fb_buffer fb))"
    using assms(2) by (simp add: fb_win_def)
  show "cstr (drop p (fb_buffer fb)) = fb_win fb" and l: "length (fb_win fb) = fb_available fb - p"
    using drop_window [OF h(1,2,3)] h(4) unfolding w by auto
  show "p + length (fb_win fb) = fb_available fb" using l h(1) by simp
  show "NUL \<notin> set (fb_win fb)" by (rule h(4))
  show "length (fb_win fb) \<le> fb_cap fb" using l h(1,2) by (simp add: fb_cap_def)
qed

lemma scan_window:
  assumes "fb_ok fb" "fb_lastPtr fb \<noteq> None \<or> ls0 = 0 \<and> pos0 = None" "rfb_scan fb ls0 pos0 = (ls, pos)"
  shows "ls = length (fb_win fb)"
    and "pos = (case fb_lastPtr fb of None \<Rightarrow> None
                | Some p \<Rightarrow> map_option (\<lambda>i. p + i) (strchr (fb_win fb) LF))"
proof -
  show "ls = length (fb_win fb)"
    using assms fb_ok_window [OF assms(1)] by (cases "fb_lastPtr fb") (auto simp: rfb_scan_def fb_win_def)
  show "pos = (case fb_lastPtr fb of None \<Rightarrow> None
                | Some p \<Rightarrow> map_option (\<lambda>i. p + i) (strchr (fb_win fb) LF))"
    using assms fb_ok_window(1) [OF assms(1)] by (cases "fb_lastPtr fb") (auto simp: rfb_scan_def)
qed

lemma scan_found:
  assumes "fb_ok fb" "fb_lastPtr fb \<noteq> None \<or> ls0 = 0 \<and> pos0 = None" "rfb_scan fb ls0 pos0 = (ls, Some q)"
  shows "positioned fb ls (Some q)"
proof -
  note sw = scan_window [OF assms]
  from sw(2) obtain p where p: "fb_lastPtr fb = Some p"
    and q: "Some q = map_option (\<lambda>i. p + i) (strchr (fb_win fb) LF)"
    by (cases "fb_lastPtr fb") auto
  from q have "LF \<in> set (fb_win fb)" by (auto simp: strchr_def split: if_splits)
  with assms(1) p q sw(1) show ?thesis by (auto simp: positioned_def fb_ok_def fd_ok_def)
qed

lemma put_bytes_0: "length bs \<le> length m \<Longrightarrow> put_bytes 0 bs m = bs @ drop (length bs) m"
  by (simp add: put_bytes_def)

text \<open>The refill, spelled out on the memory: window, then the bytes that arrived, then NUL.\<close>

lemma refill_mem:
  assumes "length w + length b < length m" "take (length w) m = w"
  shows "(put_bytes (length w) b m)[length w + length b := NUL]
           = w @ b @ NUL # drop (Suc (length w + length b)) m"
proof -
  have "put_bytes (length w) b m = (w @ b) @ drop (length w + length b) m"
    using assms(2) by (simp add: put_bytes_def)
  moreover have "drop (length w + length b) m = m ! (length w + length b) # drop (Suc (length w + length b)) m"
    using assms(1) by (simp add: Cons_nth_drop_Suc)
  ultimately show ?thesis by (simp add: list_update_append)
qed

lemma map_option_plus_0 [simp]: "map_option ((+) (0::nat)) x = x"
  by (cases x) auto

lemma shifted_window:
  assumes "fb_ok fb" "ls = length (fb_win fb)"
  defines "mem \<equiv> (if ls \<noteq> 0 then put_bytes 0 (take ls (drop (the (fb_lastPtr fb)) (fb_buffer fb))) (fb_buffer fb)
                   else fb_buffer fb)"
  shows "length mem = length (fb_buffer fb)" and "take ls mem = fb_win fb" and "ls < length mem"
proof -
  have "length mem = length (fb_buffer fb) \<and> take ls mem = fb_win fb \<and> ls < length mem"
  proof (cases "fb_lastPtr fb")
    case None
    then show ?thesis using assms by (auto simp: fb_win_def fb_ok_def)
  next
    case (Some p)
    note w = fb_ok_window [OF assms(1) Some]
    have a: "fb_available fb < length (fb_buffer fb)" "p \<le> fb_available fb"
      using assms(1) Some by (auto simp: fb_ok_def)
    have tk: "take ls (drop p (fb_buffer fb)) = fb_win fb"
      using w(3) Some assms(2) a by (simp add: fb_win_def drop_take)
    have "length (fb_win fb) < length (fb_buffer fb)" using a w(2) by simp
    with tk show ?thesis unfolding mem_def using Some assms(2) a by (auto simp: put_bytes_0)
  qed
  then show "length mem = length (fb_buffer fb)" and "take ls mem = fb_win fb" and "ls < length mem"
    by auto
qed

lemma fill_spec:
  assumes ok: "fb_ok fb" and ls: "ls = length (fb_win fb)" and nolf: "LF \<notin> set (fb_win fb)"
  obtains fb' ls' pos where "rfb_fill fb ls = Inr (fb', ls', pos)" and "positioned fb' ls' pos"
    and "fb_rest fb' = fb_rest fb" and "length (fb_buffer fb') = length (fb_buffer fb)"
proof -
  define mem where "mem = (if ls \<noteq> 0 then put_bytes 0 (take ls (drop (the (fb_lastPtr fb)) (fb_buffer fb))) (fb_buffer fb)
                   else fb_buffer fb)"
  note m = shifted_window [OF ok ls, folded mem_def]
  have null: "\<not> (ls \<noteq> 0 \<and> fb_lastPtr fb = None)"
    using ls by (auto simp: fb_win_def)
  show ?thesis
  proof (cases "fb_fd fb")
    case None
    define fb' where "fb' = fb\<lparr>fb_buffer := mem, fb_lastPtr := Some 0, fb_available := ls\<rparr>"
    have e: "rfb_fill fb ls = Inr (fb', ls, None)"
      using null None by (simp add: rfb_fill_def mem_def fb'_def)
    have w: "fb_win fb' = fb_win fb" using m by (simp add: fb'_def fb_win_def)
    have r: "fb_rest fb' = fb_rest fb" using w None by (simp add: fb_rest_split fb_ahead_def fb'_def)
    have ps: "positioned fb' ls None"
      unfolding positioned_def using ok m ls nolf None w r
      by (auto simp: fb'_def fb_ok_def fd_ok_def strchr_def)
    show ?thesis by (rule that [OF e ps r]) (simp add: fb'_def m)
  next
    case (Some f)
    have f: "\<not> fd_read_fails f" "length (fb_buffer fb) = fb_size fb" "1 < fb_size fb"
      using ok Some by (auto simp: fb_ok_def)
    define b where "b = take (fb_size fb - ls - 1) (fd_unread f)"
    define f' where "f' = f\<lparr>fd_unread := drop (fb_size fb - ls - 1) (fd_unread f)\<rparr>"
    define mem' where "mem' = (put_bytes ls b mem)[ls + length b := NUL]"
    have lb: "ls + length b < length mem" using m f by (auto simp: b_def)
    have mem': "mem' = fb_win fb @ b @ NUL # drop (Suc (ls + length b)) mem"
      using refill_mem [of "fb_win fb" b mem] lb m(2) ls by (simp add: mem'_def)
    define fd' where "fd' = (if fb_size fb \<noteq> ls + length b + 1 then None else Some f')"
    define fb' where "fb' = fb\<lparr>fb_buffer := mem', fb_fd := fd', fb_lastPtr := Some 0,
                                fb_available := ls + length b\<rparr>"
    have nn: "NUL \<notin> set b" "NUL \<notin> set (fd_unread f)" "NUL \<notin> set (fb_win fb)"
      using ok Some by (auto simp: fb_ok_def fb_rest_split fb_ahead_def b_def dest: in_set_takeD)
    have "drop ls mem' = b @ NUL # drop (Suc (ls + length b)) mem" using mem' ls by simp
    then have c: "cstr (drop ls mem') = b" using nn by simp
    have w: "fb_win fb' = fb_win fb @ b" using mem' ls by (simp add: fb'_def fb_win_def)
    have pos: "map_option (\<lambda>i. ls + i) (strchr b LF) = strchr (fb_win fb @ b) LF"
      using nolf ls by (auto simp: strchr_def before_char_def takeWhile_append)
    have rd: "fd_read f (fb_size fb - ls - 1) = (Some b, f')"
      using f by (simp add: fd_read_def b_def f'_def)
    have e: "rfb_fill fb ls = Inr (fb', ls + length b, strchr (fb_win fb @ b) LF)"
      unfolding rfb_fill_def if_not_P [OF null] mem_def [symmetric] Let_def Some option.case rd prod.case
      by (simp add: mem'_def [symmetric] c pos fb'_def fd'_def)
    have ub: "fd_unread f = b @ fd_unread f'" by (simp add: b_def f'_def)
    have drained: "fd_unread f' = []" if "fb_size fb \<noteq> ls + length b + 1"
      using that m f unfolding b_def f'_def by (auto simp: min_def split: if_splits)
    have r: "fb_rest fb' = fb_rest fb"
      using w Some ub drained by (auto simp: fb_rest_split fb_ahead_def fb'_def fd'_def)
    have lm: "length mem' = length (fb_buffer fb)" using m(1) lb ls by (simp add: mem')
    have ps: "positioned fb' (ls + length b) (strchr (fb_win fb @ b) LF)"
      unfolding positioned_def using w r ls lb m lm ok f nolf
      by (auto simp: fb'_def fd'_def fd_ok_def f'_def fb_ok_def fb_cap_def mem' nth_append)
    show ?thesis by (rule that [OF e ps r]) (simp add: fb'_def lm)
  qed
qed

lemma window_line:
  assumes "positioned fb ls pos"
  shows "raw_line (fb_cap fb) (fb_rest fb) = before_char LF (fb_win fb)"
    and "has_lf (fb_cap fb) (fb_rest fb) \<longleftrightarrow> LF \<in> set (fb_win fb)"
proof -
  have le: "length (fb_win fb) \<le> fb_cap fb"
    using assms by (auto simp: positioned_def fb_win_def fb_cap_def)
  have r: "fb_rest fb = fb_win fb @ fb_ahead fb" by (rule fb_rest_split)
  have "raw_line (fb_cap fb) (fb_rest fb) = before_char LF (fb_win fb) \<and>
        (has_lf (fb_cap fb) (fb_rest fb) \<longleftrightarrow> LF \<in> set (fb_win fb))"
  proof (cases "LF \<in> set (fb_win fb)")
    case True
    then obtain t where "fb_win fb = before_char LF (fb_win fb) @ LF # t"
      using from_char_head before_from by metis
    then have "take (fb_cap fb) (fb_rest fb)
        = before_char LF (fb_win fb) @ LF # t @ take (fb_cap fb - length (fb_win fb)) (fb_ahead fb)"
      using le r by (metis append_Cons append_assoc take_all take_append)
    then show ?thesis using True by (simp add: raw_line_def has_lf_def)
  next
    case False
    then have "take (fb_cap fb) (fb_rest fb) = fb_win fb"
      using assms le r by (auto simp: positioned_def fb_ahead_def)
    then show ?thesis using False by (simp add: raw_line_def has_lf_def)
  qed
  then show "raw_line (fb_cap fb) (fb_rest fb) = before_char LF (fb_win fb)"
    and "has_lf (fb_cap fb) (fb_rest fb) \<longleftrightarrow> LF \<in> set (fb_win fb)" by auto
qed

lemma length_strip_cr: "length (strip_cr l) \<le> length l"
  by (simp add: strip_cr_def)

lemma take_strip_cr: "take (length (strip_cr l)) l = strip_cr l"
  by (auto simp: strip_cr_def butlast_conv_take)

text \<open>Terminating the line in place yields exactly the stripped line as a C string.\<close>

lemma cut_line:
  assumes "p + length l < length m" "take (length l) (drop p m) = l" "NUL \<notin> set l"
  defines "k \<equiv> length (strip_cr l)"
  shows "(if length l \<noteq> 0 \<and> m ! (p + length l - 1) = CR then length l - 1 else length l) = k"
    and "cstr (drop p (m[p + k := NUL])) = strip_cr l"
    and "(m[p + k := NUL]) ! p = CHR ''#'' \<longleftrightarrow> is_comment (strip_cr l)"
proof -
  have nth: "m ! (p + i) = l ! i" if "i < length l" for i
    using assms(2) that by (metis nth_take nth_drop assms(1) add_leD1 less_imp_le_nat)
  have "l \<noteq> [] \<Longrightarrow> m ! (p + length l - 1) = last l"
    using nth [of "length l - 1"] by (cases l rule: rev_cases) auto
  then show k: "(if length l \<noteq> 0 \<and> m ! (p + length l - 1) = CR then length l - 1 else length l) = k"
    by (auto simp: k_def strip_cr_def)
  have kle: "k \<le> length l" by (simp add: k_def length_strip_cr)
  have "drop p (m[p + k := NUL]) = (drop p m)[k := NUL]"
    by (metis drop_update_swap le_add1 add_diff_cancel_left')
  also have "\<dots> = take k (drop p m) @ NUL # drop (Suc k) (drop p m)"
    using assms(1) kle by (simp add: upd_conv_take_nth_drop)
  also have "take k (drop p m) = strip_cr l"
    using assms(2) kle by (metis k_def take_strip_cr take_take min.absorb1)
  finally have d: "drop p (m[p + k := NUL]) = strip_cr l @ NUL # drop (Suc k) (drop p m)" .
  have nn: "NUL \<notin> set (strip_cr l)" using assms(3) by (auto simp: strip_cr_def dest: in_set_butlastD)
  show "cstr (drop p (m[p + k := NUL])) = strip_cr l" unfolding d using nn by simp
  have "(m[p + k := NUL]) ! p = hd (drop p (m[p + k := NUL]))"
    using assms(1) by (simp add: hd_drop_conv_nth)
  also have "\<dots> = hd (strip_cr l @ [NUL])" unfolding d by (cases "strip_cr l") auto
  finally show "(m[p + k := NUL]) ! p = CHR ''#'' \<longleftrightarrow> is_comment (strip_cr l)"
    by (cases "strip_cr l") (auto simp: is_comment_def)
qed

text \<open>The bytes behind the line survive the terminator.\<close>

lemma drop_update_before: "i < j \<Longrightarrow> drop j (m[i := v]) = drop j m"
  by simp

lemma cut_spec:
  assumes ps: "positioned fb ls pos" and ne: "fb_rest fb \<noteq> []"
  defines "l \<equiv> strip_cr (raw_line (fb_cap fb) (fb_rest fb))"
  obtains fb' where "rfb_cut fb ls pos =
       (if is_comment l then StepContinue fb' (length l) pos else StepReturn (RLine l fb'))"
    and "fb_lastPtr fb' = map_option Suc pos"
    and "length (fb_buffer fb') = length (fb_buffer fb)"
    and "pos \<noteq> None \<longleftrightarrow> has_lf (fb_cap fb) (fb_rest fb)"
    and "fb_ok fb'" and "fb_rest fb' = after_line (fb_cap fb) (fb_rest fb)"
proof -
  obtain p where p: "fb_lastPtr fb = Some p" "p \<le> fb_available fb"
      "fb_available fb < length (fb_buffer fb)" "ls = length (fb_win fb)"
      "pos = map_option (\<lambda>i. p + i) (strchr (fb_win fb) LF)"
    using ps by (auto simp: positioned_def)
  have win: "fb_win fb = take (fb_available fb - p) (drop p (fb_buffer fb))"
    using p by (simp add: fb_win_def drop_take)
  have lw: "length (fb_win fb) = fb_available fb - p" using p win by simp
  define raw where "raw = before_char LF (fb_win fb)"
  note wl = window_line [OF ps, folded raw_def]
  have l: "l = strip_cr raw" by (simp add: l_def wl)
  have rawle: "length raw \<le> length (fb_win fb)"
    unfolding raw_def before_char_def by (rule length_takeWhile_le)
  have rawtk: "take (length raw) (drop p (fb_buffer fb)) = raw"
  proof -
    have "take (length raw) (fb_win fb) = raw"
      by (simp add: raw_def before_char_def takeWhile_eq_take [symmetric])
    then show ?thesis using win rawle lw by (metis min.absorb1 take_take)
  qed
  have nn: "NUL \<notin> set raw"
    using ps set_before_char_subset [of LF "fb_win fb"] by (auto simp: positioned_def fb_rest_split raw_def)
  have plen: "p + length raw < length (fb_buffer fb)" using p rawle lw by simp
  note cl = cut_line [OF plen rawtk nn, folded l]
  have n: "(case pos of Some q \<Rightarrow> q - p | None \<Rightarrow> ls) = length raw"
    using p by (auto simp: strchr_def raw_def)
  define fb' where "fb' = fb\<lparr>fb_buffer := (fb_buffer fb)[p + length l := NUL], fb_lastPtr := map_option Suc pos\<rparr>"
  have noteof: "\<not> (length l = 0 \<and> fb_available fb = 0 \<and> fb_fd fb = None)"
    using ne p win by (auto simp: fb_rest_split fb_ahead_def)
  have e: "rfb_cut fb ls pos =
       (if is_comment l then StepContinue fb' (length l) pos else StepReturn (RLine l fb'))"
    using noteof unfolding rfb_cut_def Let_def n p(1) option.sel cl(1)
    by (simp add: cl(2,3) fb'_def)
  have posLF: "pos \<noteq> None \<longleftrightarrow> has_lf (fb_cap fb) (fb_rest fb)"
    using p by (simp add: wl)
  have lle: "length l \<le> length raw" by (simp add: l length_strip_cr)
  have ok': "fb_ok fb' \<and> fb_rest fb' = after_line (fb_cap fb) (fb_rest fb)"
  proof (cases "LF \<in> set (fb_win fb)")
    case True
    then have pos: "pos = Some (p + length raw)" using p by (simp add: strchr_def raw_def)
    obtain t where t: "fb_win fb = raw @ LF # t"
      using True from_char_head before_from unfolding raw_def by metis
    then have q: "Suc (p + length raw) \<le> fb_available fb" using lw p by simp
    have w': "fb_win fb' = t"
    proof -
      have "fb_win fb' = take (fb_available fb - Suc (p + length raw)) (drop (Suc (p + length raw)) (fb_buffer fb))"
        using pos lle q by (simp add: fb'_def fb_win_def drop_take)
      also have "\<dots> = drop (Suc (length raw)) (fb_win fb)"
        using lw q by (simp add: win drop_take add.commute)
      finally show ?thesis using t by simp
    qed
    have r': "fb_rest fb' = t @ fb_ahead fb" using w' by (simp add: fb_rest_split fb_ahead_def fb'_def)
    have "fb_rest fb' = after_line (fb_cap fb) (fb_rest fb)"
    proof -
      have "after_line (fb_cap fb) (fb_rest fb) = drop (Suc (length raw)) (fb_rest fb)"
        using True by (simp add: after_line_def wl)
      then show ?thesis using r' t by (simp add: fb_rest_split [of fb])
    qed
    moreover have "fb_ok fb'"
      unfolding fb_ok_def using ps pos q lle True p r' t
      by (auto simp: positioned_def fd_ok_def fb'_def fb_rest_split split: option.splits)
    ultimately show ?thesis by simp
  next
    case False
    then have pos: "pos = None" and raw: "raw = fb_win fb" using p by (auto simp: raw_def)
    have r': "fb_rest fb' = fb_ahead fb" using pos by (simp add: fb'_def fb_rest_def fb_ahead_def)
    have a: "after_line (fb_cap fb) (fb_rest fb) = fb_ahead fb"
    proof -
      have "after_line (fb_cap fb) (fb_rest fb) = drop (length raw) (fb_rest fb)"
        using False by (simp add: after_line_def wl)
      then show ?thesis by (simp add: raw fb_rest_split [of fb])
    qed
    have "fb_lastPtr fb' = None" "fb_buffer fb' \<noteq> []" "fd_ok fb'" "NUL \<notin> set (fb_rest fb')"
      using pos p(3) ps r' by (auto simp: fb'_def positioned_def fd_ok_def fb_rest_split split: option.splits)
    with r' a show ?thesis by (simp add: fb_ok_def fd_ok_def)
  qed
  show ?thesis
    by (rule that [OF e _ _ posLF]) (use ok' in \<open>auto simp: fb'_def\<close>)
qed

lemma cut_eof:
  assumes "positioned fb ls pos" "fb_rest fb = []"
  shows "\<exists>fb'. rfb_cut fb ls pos = StepReturn (REof fb')"
  using assms by (auto simp: positioned_def fb_rest_split rfb_cut_def Let_def strchr_def)

definition fresh :: "file_buffer \<Rightarrow> nat \<Rightarrow> nat option \<Rightarrow> bool" where
  "fresh fb ls pos \<longleftrightarrow> fb_lastPtr fb \<noteq> None \<or> ls = 0 \<and> pos = None"

lemma body_positioned:
  assumes ok: "fb_ok fb" and fr: "fresh fb ls pos"
  obtains fb1 ls1 pos1 where "rfb_body fb ls pos = rfb_cut fb1 ls1 pos1" and "positioned fb1 ls1 pos1"
    and "fb_rest fb1 = fb_rest fb" and "length (fb_buffer fb1) = length (fb_buffer fb)"
proof -
  obtain ls1 p1 where sc: "rfb_scan fb ls pos = (ls1, p1)" by (cases "rfb_scan fb ls pos") auto
  note fr' = fr [unfolded fresh_def]
  show ?thesis
  proof (cases p1)
    case (Some q)
    show ?thesis
      by (rule that [OF _ scan_found [OF ok fr' sc [unfolded Some]]]) (simp_all add: rfb_body_def sc Some)
  next
    case None
    note sw = scan_window [OF ok fr' sc]
    have "LF \<notin> set (fb_win fb)"
      using sw(2) None by (cases "fb_lastPtr fb") (auto simp: fb_win_def)
    with ok sw(1) obtain fb' ls' pos' where f: "rfb_fill fb ls1 = Inr (fb', ls', pos')"
      and r: "positioned fb' ls' pos'" "fb_rest fb' = fb_rest fb"
        "length (fb_buffer fb') = length (fb_buffer fb)"
      by (rule fill_spec)
    show ?thesis by (rule that [OF _ r]) (simp add: rfb_body_def sc None f)
  qed
qed

fun result_matches :: "nat \<Rightarrow> read_result \<Rightarrow> spec_result \<Rightarrow> bool" where
  "result_matches n (RLine l fb) (SLine l' r) = (l = l' \<and> fb_ok fb \<and> fb_rest fb = r \<and> fb_cap fb = n)"
| "result_matches n (REof fb) SEof = True"
| "result_matches n (RFault e) SNull = (e = NullDeref)"
| "result_matches n _ _ = False"

lemma fb_cap_pos: "fb_ok fb \<Longrightarrow> fb_rest fb \<noteq> [] \<Longrightarrow> 0 < fb_cap fb"
  by (cases "fb_lastPtr fb") (auto simp: fb_ok_def fb_cap_def fb_rest_def split: option.splits)

lemma rfb_loop_spec:
  assumes "fb_ok fb" "fresh fb ls pos" "length (fb_rest fb) < fuel"
  shows "result_matches (fb_cap fb) (rfb_loop fuel fb ls pos) (spec_next (fb_cap fb) (fb_rest fb))"
  using assms
proof (induction fuel arbitrary: fb ls pos)
  case 0
  then show ?case by simp
next
  case (Suc fuel)
  define n where "n = fb_cap fb"
  define r where "r = fb_rest fb"
  obtain fb1 ls1 pos1 where body: "rfb_body fb ls pos = rfb_cut fb1 ls1 pos1"
    and ps: "positioned fb1 ls1 pos1" and rest: "fb_rest fb1 = r"
    and len: "length (fb_buffer fb1) = length (fb_buffer fb)"
    using body_positioned [OF Suc.prems(1,2)] unfolding r_def by metis
  have cap: "fb_cap fb1 = n" using len by (simp add: fb_cap_def n_def)
  show ?case
  proof (cases "r = []")
    case True
    then show ?thesis
      using cut_eof [OF ps] rest body by (subst spec_next.simps) (auto simp: r_def)
  next
    case False
    define l where "l = strip_cr (raw_line n r)"
    obtain fb' where cut: "rfb_cut fb1 ls1 pos1 =
         (if is_comment l then StepContinue fb' (length l) pos1 else StepReturn (RLine l fb'))"
      and lp: "fb_lastPtr fb' = map_option Suc pos1"
      and len': "length (fb_buffer fb') = length (fb_buffer fb1)"
      and lf: "pos1 \<noteq> None \<longleftrightarrow> has_lf n r"
      and ok': "fb_ok fb'" and rest': "fb_rest fb' = after_line n r"
      using cut_spec [OF ps] False unfolding l_def rest cap by metis
    have cap': "fb_cap fb' = n" using len' cap by (simp add: fb_cap_def)
    have n0: "0 < n" using fb_cap_pos [OF Suc.prems(1)] False by (simp add: n_def r_def)
    have sn: "spec_next n r = (if is_comment l then (if has_lf n r then spec_next n (after_line n r) else SNull)
        else SLine l (after_line n r))"
      using False n0 by (subst spec_next.simps) (simp add: l_def Let_def)
    have short: "length (fb_rest fb') < fuel"
      using Suc.prems(3) after_line_shorter [OF n0 False] by (simp add: rest' r_def)
    consider (line) "\<not> is_comment l" | (comment) "is_comment l" "has_lf n r"
      | (null) "is_comment l" "\<not> has_lf n r" by blast
    then show ?thesis
    proof cases
      case line
      then show ?thesis using body cut sn ok' rest' cap' by (simp add: n_def r_def)
    next
      case comment
      then have "fresh fb' (length l) pos1" using lp lf by (simp add: fresh_def)
      from Suc.IH [OF ok' this short] comment show ?thesis
        using body cut sn rest' cap' by (simp add: n_def r_def)
    next
      case null
      then have "fb_lastPtr fb' = None" "pos1 = None" "l \<noteq> []" using lp lf by (auto simp: is_comment_def)
      moreover obtain k where "fuel = Suc k" using short by (cases fuel) auto
      ultimately show ?thesis
        using null body cut sn by (simp add: n_def r_def rfb_body_def rfb_scan_def rfb_fill_def)
    qed
  qed
qed

theorem readFileBuffer_spec:
  "fb_ok fb \<Longrightarrow> result_matches (fb_cap fb) (readFileBuffer fb) (spec_next (fb_cap fb) (fb_rest fb))"
  unfolding readFileBuffer_def by (rule rfb_loop_spec) (auto simp: fresh_def)

section \<open>Whole files\<close>

text \<open>The lines of a text, the piece after its last line feed, and what the reader should make of
  the whole text: every line but the comments, carriage returns dropped.\<close>

function lines_of :: "cstring \<Rightarrow> cstring list" where
  "lines_of r = (if r = [] then [] else before_char LF r # lines_of (tl (from_char LF r)))"
  by pat_completeness auto
termination
  by (relation "measure length") (auto simp: length_tl_from_char)

declare lines_of.simps [simp del]

function tail_piece :: "cstring \<Rightarrow> cstring" where
  "tail_piece r = (if LF \<in> set r then tail_piece (tl (from_char LF r)) else r)"
  by pat_completeness auto
termination
  by (relation "measure length") (auto intro!: length_tl_from_char)

declare tail_piece.simps [simp del]

definition text_lines :: "cstring \<Rightarrow> cstring list" where
  "text_lines r = filter (\<lambda>l. \<not> is_comment l) (map strip_cr (lines_of r))"

text \<open>Every line, with its line feed, fits the window; or the whole text does.\<close>

definition fits :: "nat \<Rightarrow> cstring \<Rightarrow> bool" where
  "fits n r \<longleftrightarrow> 0 < n \<and> (length r \<le> n \<or> (\<forall>l \<in> set (lines_of r). length l < n))"

lemma lines_of_Nil [simp]: "lines_of [] = []"
  by (simp add: lines_of.simps)

lemma lines_of_line [simp]: "LF \<notin> set l \<Longrightarrow> lines_of (l @ LF # r) = l # lines_of r"
  by (subst lines_of.simps) simp

lemma lines_of_last [simp]: "LF \<notin> set l \<Longrightarrow> l \<noteq> [] \<Longrightarrow> lines_of l = [l]"
  by (subst lines_of.simps) simp

lemma tail_piece_Nil [simp]: "tail_piece [] = []"
  by (simp add: tail_piece.simps)

lemma tail_piece_line [simp]: "LF \<notin> set l \<Longrightarrow> tail_piece (l @ LF # r) = tail_piece r"
  by (subst tail_piece.simps) simp

lemma tail_piece_last [simp]: "LF \<notin> set l \<Longrightarrow> tail_piece l = l"
  by (subst tail_piece.simps) simp

lemma text_lines_simps [simp]:
  "text_lines [] = []"
  "LF \<notin> set l \<Longrightarrow> text_lines (l @ LF # r) =
     (if is_comment (strip_cr l) then text_lines r else strip_cr l # text_lines r)"
  "LF \<notin> set l \<Longrightarrow> l \<noteq> [] \<Longrightarrow> text_lines l = (if is_comment (strip_cr l) then [] else [strip_cr l])"
  by (auto simp: text_lines_def)

text \<open>A text is empty, ends in an unterminated line, or starts with a terminated one.\<close>

lemma text_cases:
  obtains (Nil) "r = []" | (Last) "r \<noteq> []" "LF \<notin> set r"
    | (Line) l t where "r = l @ LF # t" "LF \<notin> set l"
proof (cases "LF \<in> set r")
  case True
  then obtain t where "from_char LF r = LF # t" using from_char_head by blast
  then have "r = before_char LF r @ LF # t" using before_from [of LF r] by simp
  then show ?thesis using that(3) [of "before_char LF r" t] by simp
next
  case False
  then show ?thesis using that(1,2) by blast
qed

lemma text_induct [case_names Nil Last Line]:
  assumes "P []" and "\<And>r. r \<noteq> [] \<Longrightarrow> LF \<notin> set r \<Longrightarrow> P r"
    and "\<And>l t. LF \<notin> set l \<Longrightarrow> P t \<Longrightarrow> P (l @ LF # t)"
  shows "P r"
proof (induction r rule: length_induct)
  case (1 r)
  then show ?case by (cases r rule: text_cases) (auto intro: assms)
qed

lemma fits_line:
  assumes "fits n (l @ LF # t)" "LF \<notin> set l"
  shows "raw_line n (l @ LF # t) = l" and "has_lf n (l @ LF # t)" and "after_line n (l @ LF # t) = t"
    and "fits n t"
proof -
  have "length l < n" using assms by (auto simp: fits_def)
  then obtain m where tk: "take n (l @ LF # t) = l @ LF # m"
    by (cases "n - length l") (auto simp: take_Cons')
  then show r: "raw_line n (l @ LF # t) = l" and h: "has_lf n (l @ LF # t)"
    using assms(2) by (simp_all add: raw_line_def has_lf_def)
  show "after_line n (l @ LF # t) = t" by (simp add: after_line_def r h)
  show "fits n t" using assms by (auto simp: fits_def)
qed

lemma fits_last:
  assumes "fits n r" "LF \<notin> set r" "r \<noteq> []"
  shows "raw_line n r = r" and "\<not> has_lf n r" and "after_line n r = []"
proof -
  have "take n r = r" using assms by (auto simp: fits_def)
  then show r: "raw_line n r = r" and h: "\<not> has_lf n r"
    using assms(2) by (simp_all add: raw_line_def has_lf_def)
  show "after_line n r = []" by (simp add: after_line_def r h)
qed

lemma spec_next_line:
  assumes "fits n (l @ LF # t)" "LF \<notin> set l"
  shows "spec_next n (l @ LF # t) = (if is_comment (strip_cr l) then spec_next n t else SLine (strip_cr l) t)"
  using fits_line [OF assms] assms(1) by (subst spec_next.simps) (simp add: fits_def Let_def)

lemma spec_next_last:
  assumes "fits n r" "LF \<notin> set r" "r \<noteq> []"
  shows "spec_next n r = (if is_comment (strip_cr r) then SNull else SLine (strip_cr r) [])"
  using fits_last [OF assms] assms by (subst spec_next.simps) (simp add: fits_def Let_def)

lemma spec_next_Nil [simp]: "spec_next n [] = SEof"
  by (simp add: spec_next.simps)

text \<open>One call, on a text whose lines fit: the first line that is not a comment.\<close>

definition tail_comment :: "cstring \<Rightarrow> bool" where
  "tail_comment r \<longleftrightarrow> is_comment (strip_cr (tail_piece r))"

lemma tail_comment_simps [simp]:
  "\<not> tail_comment []"
  "LF \<notin> set l \<Longrightarrow> tail_comment (l @ LF # t) = tail_comment t"
  "LF \<notin> set l \<Longrightarrow> tail_comment l = is_comment (strip_cr l)"
  by (simp_all add: tail_comment_def) (simp add: is_comment_def strip_cr_def)

lemma spec_next_text:
  assumes "fits n r"
  shows "case spec_next n r of
      SLine l t \<Rightarrow> fits n t \<and> length t < length r \<and> text_lines r = l # text_lines t \<and>
                   tail_comment t = tail_comment r
    | SEof \<Rightarrow> text_lines r = [] \<and> \<not> tail_comment r
    | SNull \<Rightarrow> tail_comment r"
  using assms
proof (induction r rule: text_induct)
  case Nil
  then show ?case by simp
next
  case (Last r)
  then show ?case by (simp add: spec_next_last fits_def)
next
  case (Line l t)
  note f = fits_line(4) [OF Line.prems Line.hyps]
  show ?case
    using Line.hyps Line.IH [OF f] f
    by (simp add: spec_next_line [OF Line.prems Line.hyps] less_SucI split: spec_result.splits)
qed

lemma fb_lines_loop_text:
  assumes "fb_ok fb" "fits (fb_cap fb) (fb_rest fb)" "length (fb_rest fb) < fuel"
  shows "fb_lines_loop fuel fb =
           (if tail_comment (fb_rest fb) then Inl NullDeref else Inr (text_lines (fb_rest fb)))"
  using assms
proof (induction fuel arbitrary: fb)
  case 0
  then show ?case by simp
next
  case (Suc fuel)
  note m = readFileBuffer_spec [OF Suc.prems(1)]
  note t = spec_next_text [OF Suc.prems(2)]
  show ?case
  proof (cases "readFileBuffer fb")
    case (RLine l fb')
    with m obtain r where "spec_next (fb_cap fb) (fb_rest fb) = SLine l r" "fb_ok fb'"
        "fb_rest fb' = r" "fb_cap fb' = fb_cap fb"
      by (cases "spec_next (fb_cap fb) (fb_rest fb)") auto
    with RLine t Suc.IH [of fb'] Suc.prems(3) show ?thesis by simp
  next
    case (REof fb')
    with m t show ?thesis by (cases "spec_next (fb_cap fb) (fb_rest fb)") auto
  next
    case (RFault e)
    with m t show ?thesis by (cases "spec_next (fb_cap fb) (fb_rest fb)") auto
  qed
qed

lemma fb_lines_text:
  "fb_ok fb \<Longrightarrow> fits (fb_cap fb) (fb_rest fb) \<Longrightarrow>
   fb_lines fb = (if tail_comment (fb_rest fb) then Inl NullDeref else Inr (text_lines (fb_rest fb)))"
  unfolding fb_lines_def by (rule fb_lines_loop_text) auto

lemma fb_ok_mem: "NUL \<notin> set t \<Longrightarrow> fb_ok (openFileBufferBuffer t)"
  by (auto simp: fb_ok_def openFileBufferBuffer_def fb_rest_def)

lemma fb_rest_mem: "fb_rest (openFileBufferBuffer t) = t"
  by (simp add: openFileBufferBuffer_def fb_rest_def)

lemma fb_cap_mem: "fb_cap (openFileBufferBuffer t) = length t"
  by (simp add: openFileBufferBuffer_def fb_cap_def)

definition skip_bom :: "cstring \<Rightarrow> cstring" where
  "skip_bom t = (if is_bom (take 3 t) then drop 3 t else t)"

lemma fb_rest_rd: "\<not> fd_read_fails f \<Longrightarrow> fb_rest (openFileBuffer_rd f sz) = skip_bom (fd_unread f)"
  by (simp add: openFileBuffer_rd_def fb_rest_def skip_bom_def Let_def)

lemma set_skip_bom: "set (skip_bom t) \<subseteq> set t"
  by (simp add: skip_bom_def set_drop_subset)

lemma fb_ok_rd:
  "\<not> fd_read_fails f \<Longrightarrow> 1 < sz \<Longrightarrow> NUL \<notin> set (fd_unread f) \<Longrightarrow> fb_ok (openFileBuffer_rd f sz)"
  using fb_rest_rd [of f sz] set_skip_bom [of "fd_unread f"]
  by (auto simp: fb_ok_def openFileBuffer_rd_def Let_def)

lemma fb_cap_rd: "fb_cap (openFileBuffer_rd f sz) = sz - 1"
  by (simp add: openFileBuffer_rd_def fb_cap_def)

lemma fb_lines_mem:
  assumes "NUL \<notin> set t"
  shows "fb_lines (openFileBufferBuffer t) = (if tail_comment t then Inl NullDeref else Inr (text_lines t))"
proof (cases "t = []")
  case True
  have "result_matches 0 (readFileBuffer (openFileBufferBuffer [])) SEof"
    using readFileBuffer_spec [OF fb_ok_mem, of "[]"] by (simp add: fb_cap_mem fb_rest_mem)
  then show ?thesis
    using True by (cases "readFileBuffer (openFileBufferBuffer [])") (auto simp: fb_lines_def fb_rest_mem)
next
  case False
  then show ?thesis
    using fb_lines_text [OF fb_ok_mem [OF assms]] by (simp add: fb_rest_mem fb_cap_mem fits_def)
qed

text \<open>A text written line by line.\<close>

definition text_of :: "cstring list \<Rightarrow> cstring" where
  "text_of ls = concat (map (\<lambda>l. l @ [LF]) ls)"

lemma text_of_simps [simp]: "text_of [] = []" "text_of (l # ls) = l @ LF # text_of ls"
  "text_of (ls @ ms) = text_of ls @ text_of ms"
  by (simp_all add: text_of_def)

lemma lines_of_text_of: "\<forall>l \<in> set ls. LF \<notin> set l \<Longrightarrow> lines_of (text_of ls) = ls"
  by (induction ls) auto

lemma tail_comment_text_of: "\<forall>l \<in> set ls. LF \<notin> set l \<Longrightarrow> \<not> tail_comment (text_of ls)"
  by (induction ls) auto

definition plain_line :: "cstring \<Rightarrow> bool" where
  "plain_line l \<longleftrightarrow> LF \<notin> set l \<and> NUL \<notin> set l \<and> \<not> is_comment l \<and> (l = [] \<or> last l \<noteq> CR)"

lemma text_lines_text_of:
  assumes "\<forall>l \<in> set ls. plain_line l"
  shows "text_lines (text_of ls) = ls"
proof -
  have "map strip_cr ls = ls" using assms by (intro map_idI) (auto simp: plain_line_def strip_cr_def)
  moreover have "lines_of (text_of ls) = ls" using assms lines_of_text_of by (auto simp: plain_line_def)
  ultimately show ?thesis using assms by (simp add: text_lines_def plain_line_def)
qed

lemma fb_lines_text_of:
  assumes "\<forall>l \<in> set ls. plain_line l"
  shows "fb_lines (openFileBufferBuffer (text_of ls)) = Inr ls"
proof -
  have "NUL \<notin> set (text_of ls)" using assms by (induction ls) (auto simp: plain_line_def)
  moreover have "\<not> tail_comment (text_of ls)"
    using assms by (intro tail_comment_text_of) (auto simp: plain_line_def)
  ultimately show ?thesis by (simp add: fb_lines_mem text_lines_text_of [OF assms])
qed

section \<open>The writer\<close>

text \<open>\<open>q\<close> is what was queued, \<open>fl\<close> the part of it handed to \<^verbatim>\<open>write(2)\<close> so far.\<close>

definition wr_inv :: "file_desc \<Rightarrow> file_buffer \<Rightarrow> char list \<Rightarrow> char list \<Rightarrow> bool" where
  "wr_inv f fb q fl \<longleftrightarrow>
     \<not> fb_rdonly fb \<and> length (fb_buffer fb) = fb_size fb \<and> fb_available fb \<le> fb_size fb \<and>
     fb_lastPtr fb = Some (fb_available fb) \<and> fl @ take (fb_available fb) (fb_buffer fb) = q \<and>
     fb_totalQueued fb = length q \<and>
     (fb_writeError fb \<longleftrightarrow> fd_accept f < length fl) \<and>
     fb_fd fb = Some (f\<lparr>fd_written := fd_written f @ take (fd_accept f) fl,
                        fd_accept := fd_accept f - length fl\<rparr>)"

lemma fd_write_twice:
  "fd_write (f\<lparr>fd_written := fd_written f @ take (fd_accept f) fl, fd_accept := fd_accept f - length fl\<rparr>) bs
     = (min (length bs) (fd_accept f - length fl),
        f\<lparr>fd_written := fd_written f @ take (fd_accept f) (fl @ bs),
          fd_accept := fd_accept f - length (fl @ bs)\<rparr>)"
proof -
  have "take (min (length bs) (fd_accept f - length fl)) bs = take (fd_accept f - length fl) bs"
    by (simp add: min_def)
  then show ?thesis by (simp add: fd_write_def Let_def)
qed

lemma fb_flush_inv:
  assumes "fb_fd fb = Some (f\<lparr>fd_written := fd_written f @ take (fd_accept f) fl,
                              fd_accept := fd_accept f - length fl\<rparr>)"
    "fb_writeError fb \<longleftrightarrow> fd_accept f < length fl"
  shows "fb_flush fb bs = fb\<lparr>fb_fd := Some (f\<lparr>fd_written := fd_written f @ take (fd_accept f) (fl @ bs),
                              fd_accept := fd_accept f - length (fl @ bs)\<rparr>),
                            fb_writeError := (fd_accept f < length (fl @ bs))\<rparr>"
proof -
  have "(fb_writeError fb \<or> min (length bs) (fd_accept f - length fl) \<noteq> length bs)
      \<longleftrightarrow> fd_accept f < length (fl @ bs)" using assms(2) by auto
  then show ?thesis unfolding fb_flush_def assms(1) option.case fd_write_twice prod.case by simp
qed

lemma put_bytes_take:
  "i \<le> length m \<Longrightarrow> take (i + length bs) (put_bytes i bs m) = take i m @ bs"
  by (simp add: put_bytes_def)

lemma put_bytes_length: "i + length bs \<le> length m \<Longrightarrow> length (put_bytes i bs m) = length m"
  by (simp add: put_bytes_def)

lemma writeFileBuffer_inv:
  assumes "wr_inv f fb q fl"
  shows "\<exists>fl'. wr_inv f (writeFileBuffer fb bs) (q @ bs) fl'"
proof -
  define full where "full \<longleftrightarrow> fb_available fb \<noteq> 0 \<and> fb_available fb + length bs > fb_size fb"
  define fb1 where "fb1 = fb\<lparr>fb_totalQueued := fb_totalQueued fb + length bs\<rparr>"
  define fb2 where "fb2 = (if full then (fb_flush fb1 (take (fb_available fb) (fb_buffer fb)))
        \<lparr>fb_lastPtr := Some 0, fb_available := 0\<rparr> else fb1)"
  define fl2 where "fl2 = (if full then q else fl)"
  have q: "q = fl @ take (fb_available fb) (fb_buffer fb)" using assms by (simp add: wr_inv_def)
  have i2: "wr_inv f (fb2\<lparr>fb_totalQueued := length q\<rparr>) q fl2" and t2: "fb_totalQueued fb2 = length q + length bs"
    and s2: "fb_size fb2 = fb_size fb" and a2: "fb_available fb2 = (if full then 0 else fb_available fb)"
    using assms fb_flush_inv [of fb1 f fl "take (fb_available fb) (fb_buffer fb)"]
    by (auto simp: wr_inv_def fb2_def fb1_def fl2_def)
  have e: "writeFileBuffer fb bs = (if length bs > fb_size fb2 then fb_flush fb2 bs
      else fb2\<lparr>fb_buffer := put_bytes (the (fb_lastPtr fb2)) bs (fb_buffer fb2),
               fb_lastPtr := map_option (\<lambda>p. p + length bs) (fb_lastPtr fb2),
               fb_available := fb_available fb2 + length bs\<rparr>)"
    by (simp add: writeFileBuffer_def Let_def fb2_def fb1_def full_def)
  show ?thesis
  proof (cases "length bs > fb_size fb2")
    case True
    then have "fb_available fb2 = 0" using s2 a2 by (auto simp: full_def)
    then have "wr_inv f (fb_flush fb2 bs) (q @ bs) (fl2 @ bs)"
      using i2 t2 fb_flush_inv [of fb2 f fl2 bs] by (auto simp: wr_inv_def)
    then show ?thesis using e True by auto
  next
    case False
    then have fit: "fb_available fb2 + length bs \<le> fb_size fb2" using s2 a2 by (auto simp: full_def)
    have lp: "fb_lastPtr fb2 = Some (fb_available fb2)" and lb: "length (fb_buffer fb2) = fb_size fb2"
      using i2 by (auto simp: wr_inv_def)
    have "wr_inv f (writeFileBuffer fb bs) (q @ bs) fl2"
      using i2 t2 False fit lp lb
      by (simp add: e wr_inv_def put_bytes_take put_bytes_length append_assoc [symmetric])
    then show ?thesis by blast
  qed
qed

lemma write_all_inv:
  "wr_inv f fb q fl \<Longrightarrow> \<exists>fl'. wr_inv f (fold (\<lambda>bs b. writeFileBuffer b bs) bss fb) (q @ concat bss) fl'"
proof (induction bss arbitrary: fb q fl)
  case (Cons bs bss)
  then obtain fl' where "wr_inv f (writeFileBuffer fb bs) (q @ bs) fl'"
    using writeFileBuffer_inv by blast
  from Cons.IH [OF this] show ?case by simp
qed auto

lemma wr_inv_open: "wr_inv f (openFileBuffer_wr f sz) [] []"
  by (simp add: wr_inv_def openFileBuffer_wr_def)

lemma closeFileBuffer_inv:
  assumes "wr_inv f fb q fl"
  shows "closeFileBuffer fb =
     (length q \<le> fd_accept f \<and> \<not> fd_close_fails f,
      Some (f\<lparr>fd_written := fd_written f @ take (fd_accept f) q, fd_accept := fd_accept f - length q\<rparr>))"
proof -
  define g where "g = f\<lparr>fd_written := fd_written f @ take (fd_accept f) fl,
                        fd_accept := fd_accept f - length fl\<rparr>"
  define bs where "bs = take (fb_available fb) (fb_buffer fb)"
  have h: "fb_fd fb = Some g" "fl @ bs = q" "fb_writeError fb \<longleftrightarrow> fd_accept f < length fl"
    "\<not> fb_rdonly fb" "fb_available fb = length bs"
    using assms by (auto simp: wr_inv_def g_def bs_def)
  have w: "fd_write g bs = (min (length bs) (fd_accept f - length fl),
        f\<lparr>fd_written := fd_written f @ take (fd_accept f) (fl @ bs),
          fd_accept := fd_accept f - length (fl @ bs)\<rparr>)"
    unfolding g_def by (rule fd_write_twice)
  have e: "closeFileBuffer fb = (let (k, f') = (if bs \<noteq> [] then fd_write g bs else (length bs, g))
      in (\<not> (fb_writeError fb \<or> k \<noteq> length bs \<or> fd_close_fails f'), Some f'))"
    unfolding closeFileBuffer_def h(1) option.case bs_def [symmetric] using h(4,5) by (simp add: Let_def)
  show ?thesis
  proof (cases "bs = []")
    case True
    then show ?thesis unfolding e using h(2,3) by (auto simp: g_def)
  next
    case False
    then show ?thesis unfolding e w using h(2,3) by auto
  qed
qed

lemma write_close:
  "closeFileBuffer (fold (\<lambda>bs b. writeFileBuffer b bs) bss (openFileBuffer_wr f sz)) =
     (length (concat bss) \<le> fd_accept f \<and> \<not> fd_close_fails f,
      Some (f\<lparr>fd_written := fd_written f @ take (fd_accept f) (concat bss),
              fd_accept := fd_accept f - length (concat bss)\<rparr>))"
  using write_all_inv [OF wr_inv_open, of f bss sz] closeFileBuffer_inv by fastforce

text \<open>\<^verbatim>\<open>totalQueued == available\<close>: nothing was flushed, the buffer still holds everything.\<close>

lemma write_capture:
  assumes "fb = fold (\<lambda>bs b. writeFileBuffer b bs) bss (openFileBuffer_wr f sz)"
    and "fb_totalQueued fb = fb_available fb"
  shows "take (fb_available fb) (fb_buffer fb) = concat bss"
proof -
  obtain fl where i: "wr_inv f fb (concat bss) fl"
    using write_all_inv [OF wr_inv_open, of f bss sz] assms(1) by auto
  then have "length fl + fb_available fb = length (concat bss)"
    unfolding wr_inv_def by (metis length_append length_take min.absorb2)
  with i assms(2) have "fl = []" by (simp add: wr_inv_def)
  with i show ?thesis by (simp add: wr_inv_def)
qed

section \<open>Hex digits, cards and regions\<close>

lemma fromHex_range: "fromHex d = - 1 \<or> (0 \<le> fromHex d \<and> fromHex d < 16)"
  by (simp add: fromHex_def Let_def)

lemma fromHex_iff: "0 \<le> fromHex d \<longleftrightarrow> isxdigit d"
  by (auto simp: fromHex_def Let_def isxdigit_def isdigit_def)

lemma less_16_cases: "0 \<le> (d::int) \<Longrightarrow> d < 16 \<Longrightarrow> d \<in> {0,1,2,3,4,5,6,7,8,9,10,11,12,13,14,15}"
  by simp presburger

lemma take_bit_4_small: "0 \<le> (d::int) \<Longrightarrow> d < 16 \<Longrightarrow> take_bit 4 d = d"
  by (simp add: take_bit_int_eq_self)

lemma fromHex_toHex: "0 \<le> d \<Longrightarrow> d < 16 \<Longrightarrow> fromHex (toHex d) = d"
  using less_16_cases [of d] by (auto simp: toHex_def take_bit_4_small fromHex_def char_code_def Let_def)

lemma checkMC_latched: "checkMC mcID pr = Some c \<Longrightarrow> checkMC (Some c) pr' = Some c"
  by (simp add: checkMC_def)

lemma region_letter_total: "r \<noteq> REGION_INVALID \<Longrightarrow> \<exists>l. region_letter r = Some l"
  by (cases r) (auto simp: region_letter_def)

lemma romver_region_valid: "romver_region v \<noteq> REGION_INVALID"
  by (simp add: romver_region_def)

text \<open>Once the region is known, a second call changes nothing, whatever the ROM name says then.\<close>

lemma InitConsoleRegionData_once:
  assumes "InitConsoleRegionData region_init v = Some (r, s)"
  shows "r = romver_region v \<and> r \<noteq> REGION_INVALID \<and> InitConsoleRegionData s v' = Some (r, s)"
  using assms romver_region_valid [of v]
  by (auto simp: InitConsoleRegionData_def UpdateSystemPaths_def region_init_def)

lemma InitConsoleRegionData_returns: "\<exists>r s. InitConsoleRegionData st v = Some (r, s)"
  using region_letter_total [OF romver_region_valid, of v]
  by (auto simp: InitConsoleRegionData_def UpdateSystemPaths_def)

section \<open>Properties\<close>

text \<open>C14. Reading a file through the 4 KB window of \<open>readFileBuffer\<close> until it reports the end yields
  exactly the lines of the text (byte order mark skipped, comment lines and one trailing carriage
  return per line dropped), the same as reading it from memory, whatever the buffer size, as long
  as every line fits, the file holds no NUL, its reads do not fail and it does not end in a comment without a line
  feed (\<open>reader_null_deref\<close> is that case).\<close>

theorem file_lines_chunked:
  assumes "\<not> fd_read_fails f" and "1 < sz" and "NUL \<notin> set (fd_unread f)"
    and "\<forall>l \<in> set (lines_of (skip_bom (fd_unread f))). length l < sz - 1"
    and "\<not> tail_comment (skip_bom (fd_unread f))"
  shows "fb_lines (openFileBuffer_rd f sz) = Inr (text_lines (skip_bom (fd_unread f))) \<and>
         fb_lines (openFileBuffer_rd f sz) = fb_lines (openFileBufferBuffer (skip_bom (fd_unread f)))"
proof -
  have "fits (sz - 1) (skip_bom (fd_unread f))" using assms(2,4) by (simp add: fits_def)
  moreover have "NUL \<notin> set (skip_bom (fd_unread f))" using assms(3) set_skip_bom by blast
  ultimately show ?thesis
    using fb_lines_text [OF fb_ok_rd [OF assms(1-3)]] fb_lines_mem assms(1,5)
    by (simp add: fb_rest_rd fb_cap_rd)
qed

definition sample_fd :: file_desc where
  "sample_fd = \<lparr>fd_unread = ''ab'' @ [CR, LF, CHR ''#'', LF, CHR ''c''], fd_read_fails = False,
     fd_written = [], fd_accept = 0, fd_close_fails = False\<rparr>"

theorem file_lines_chunked_witness:
  "fb_lines (openFileBuffer_rd sample_fd 5) = Inr [''ab'', ''c'']"
proof -
  have t: "skip_bom (fd_unread sample_fd) = ''ab'' @ [CR, LF, CHR ''#'', LF, CHR ''c'']"
    by (simp add: skip_bom_def sample_fd_def is_bom_def)
  have l: "lines_of (''ab'' @ [CR, LF, CHR ''#'', LF, CHR ''c'']) = [''ab'' @ [CR], ''#'', ''c'']"
    by (simp add: lines_of.simps before_char_def from_char_def)
  have c: "\<not> tail_comment (''ab'' @ [CR, LF, CHR ''#'', LF, CHR ''c''])"
    by (simp add: tail_comment_def tail_piece.simps from_char_def strip_cr_def is_comment_def)
  have "fb_lines (openFileBuffer_rd sample_fd 5)
      = Inr (text_lines (''ab'' @ [CR, LF, CHR ''#'', LF, CHR ''c'']))"
    using file_lines_chunked [of sample_fd 5] c unfolding t l by (simp add: sample_fd_def)
  also have "\<dots> = Inr [''ab'', ''c'']"
    unfolding text_lines_def l by (simp add: strip_cr_def is_comment_def)
  finally show ?thesis .
qed

text \<open>A text that ends in a comment line without a line feed makes \<open>readFileBuffer\<close> move memory
  from a NULL pointer: \<^verbatim>\<open>continue\<close> keeps the comment's \<^verbatim>\<open>lineSize\<close> while \<^verbatim>\<open>lastPtr\<close> is set to NULL.\<close>

lemma reader_null_deref:
  assumes "NUL \<notin> set t" and "tail_comment t"
  shows "fb_lines (openFileBufferBuffer t) = Inl NullDeref"
  using fb_lines_mem [OF assms(1)] assms(2) by simp

lemma reader_null_deref_witness:
  "fb_lines (openFileBufferBuffer (''a=1'' @ [LF] @ ''#x'')) = Inl NullDeref"
  by (rule reader_null_deref)
    (simp_all add: tail_comment_def tail_piece.simps from_char_def strip_cr_def is_comment_def)

text \<open>What buffered writing does, exactly: after any sequence of \<open>writeFileBuffer\<close> calls and
  \<open>closeFileBuffer\<close>, the device has received the longest prefix of the queued bytes it would
  accept, in order, and the status is success if and only if it accepted all of them and the close
  succeeded.\<close>

lemma writer_exact:
  "closeFileBuffer (fold (\<lambda>bs b. writeFileBuffer b bs) bss (openFileBuffer_wr f sz)) =
     (length (concat bss) \<le> fd_accept f \<and> \<not> fd_close_fails f,
      Some (f\<lparr>fd_written := fd_written f @ take (fd_accept f) (concat bss),
              fd_accept := fd_accept f - length (concat bss)\<rparr>))"
  by (rule write_close)

end
