(* ===== verification/LinkedList.thy ===== *)
theory LinkedList
  imports OplPrelude
begin

text \<open>
  Singly linked lists with a head and a tail pointer in an explicit store, as the configuration
  sets (\<^verbatim>\<open>struct config_value_t\<close>) and the I/O queue (\<^verbatim>\<open>struct io_request_t\<close>) keep them.  An
  address is a \<^typ>\<open>nat\<close>, NULL is \<open>None\<close>, a live node holds a payload and a \<^verbatim>\<open>next\<close> pointer; a
  freed address is outside the domain of the store, and a step through it is \<open>None\<close>.

  \<open>pl_repr s xs\<close>: the pointers of \<open>s\<close> describe exactly the sequence \<open>xs\<close> of nodes, the tail
  pointer is its last node, and the store holds no other node.
\<close>

type_synonym ptr = "nat option"

record 'a plist =
  pl_head :: ptr
  pl_tail :: ptr
  pl_heap :: "nat \<Rightarrow> ('a \<times> ptr) option"

definition pl_empty :: "'a plist" where
  "pl_empty = \<lparr>pl_head = None, pl_tail = None, pl_heap = (\<lambda>_. None)\<rparr>"

fun chain :: "(nat \<Rightarrow> ('a \<times> ptr) option) \<Rightarrow> ptr \<Rightarrow> (nat \<times> 'a) list \<Rightarrow> ptr \<Rightarrow> bool" where
  "chain h p [] q \<longleftrightarrow> p = q"
| "chain h p ((a, v) # xs) q \<longleftrightarrow> p = Some a \<and> (\<exists>n. h a = Some (v, n) \<and> chain h n xs q)"

definition last_addr :: "(nat \<times> 'a) list \<Rightarrow> ptr" where
  "last_addr xs = (if xs = [] then None else Some (fst (last xs)))"

definition pl_repr :: "'a plist \<Rightarrow> (nat \<times> 'a) list \<Rightarrow> bool" where
  "pl_repr s xs \<longleftrightarrow> distinct (map fst xs) \<and> chain (pl_heap s) (pl_head s) xs None \<and>
     pl_tail s = last_addr xs \<and> dom (pl_heap s) = fst ` set xs"

section \<open>Pointer operations\<close>

definition set_next :: "(nat \<Rightarrow> ('a \<times> ptr) option) \<Rightarrow> nat \<Rightarrow> ptr \<Rightarrow> (nat \<Rightarrow> ('a \<times> ptr) option)" where
  "set_next h a n = (case h a of None \<Rightarrow> h | Some (v, _) \<Rightarrow> h(a \<mapsto> (v, n)))"

text \<open>Append a node the allocator placed at \<open>a\<close>.\<close>

definition pl_append :: "'a plist \<Rightarrow> nat \<Rightarrow> 'a \<Rightarrow> 'a plist" where
  "pl_append s a v =
     (case pl_tail s of
        None \<Rightarrow> s\<lparr>pl_head := Some a, pl_tail := Some a, pl_heap := (pl_heap s)(a \<mapsto> (v, None))\<rparr>
      | Some t \<Rightarrow> s\<lparr>pl_tail := Some a, pl_heap := (set_next (pl_heap s) t (Some a))(a \<mapsto> (v, None))\<rparr>)"

text \<open>Unlink and free the node \<open>a\<close> whose predecessor is \<open>prev\<close> and whose successor is \<open>n\<close>.\<close>

definition pl_unlink :: "'a plist \<Rightarrow> ptr \<Rightarrow> nat \<Rightarrow> ptr \<Rightarrow> 'a plist" where
  "pl_unlink s prev a n =
     s\<lparr>pl_head := (if prev = None then n else pl_head s),
       pl_tail := (if pl_tail s = Some a then prev else pl_tail s),
       pl_heap := (case prev of None \<Rightarrow> pl_heap s | Some l \<Rightarrow> set_next (pl_heap s) l n)(a := None)\<rparr>"

text \<open>Free every node from the head on; the tail pointer is left alone.\<close>

partial_function (option) pl_free_all :: "'a plist \<Rightarrow> 'a plist option" where
  "pl_free_all q =
     (case pl_head q of
        None \<Rightarrow> Some q
      | Some a \<Rightarrow>
          (case pl_heap q a of
             None \<Rightarrow> None
           | Some (_, next) \<Rightarrow> pl_free_all (q\<lparr>pl_head := next, pl_heap := (pl_heap q)(a := None)\<rparr>)))"

section \<open>Lemmas\<close>

lemma chain_append: "chain h p (xs @ ys) q \<longleftrightarrow> (\<exists>r. chain h p xs r \<and> chain h r ys q)"
  by (induction xs arbitrary: p) (auto, blast+)

lemma chain_frame: "a \<notin> fst ` set xs \<Longrightarrow> chain (h(a := z)) p xs q = chain h p xs q"
  by (induction xs arbitrary: p) auto

lemma chain_set_next: "a \<notin> fst ` set xs \<Longrightarrow> chain (set_next h a n) p xs q = chain h p xs q"
  by (auto simp: set_next_def chain_frame split: option.splits)

lemma chain_head: "chain h p xs q \<Longrightarrow> p = (case xs of [] \<Rightarrow> q | x # _ \<Rightarrow> Some (fst x))"
  by (cases xs) auto

lemma last_addr_simps [simp]:
  "last_addr [] = None" "last_addr (xs @ [x]) = Some (fst x)"
  by (simp_all add: last_addr_def)

lemma last_addr_None [simp]: "last_addr xs = None \<longleftrightarrow> xs = []"
  by (simp add: last_addr_def)

lemma last_addr_in: "last_addr xs = Some a \<Longrightarrow> a \<in> fst ` set xs"
  by (auto simp: last_addr_def split: if_splits)

lemma last_addr_append: "last_addr (xs @ ys) = (if ys = [] then last_addr xs else last_addr ys)"
  by (simp add: last_addr_def)

lemma dom_set_next [simp]: "dom (set_next h a n) = dom h"
  by (auto simp: set_next_def dom_def split: option.splits)

lemma pl_repr_empty: "pl_repr pl_empty []"
  by (simp add: pl_repr_def pl_empty_def)

lemma pl_repr_head_None: "pl_repr s xs \<Longrightarrow> pl_head s = None \<longleftrightarrow> xs = []"
  by (cases xs) (auto simp: pl_repr_def)

lemma pl_repr_tail_None: "pl_repr s xs \<Longrightarrow> pl_tail s = None \<longleftrightarrow> xs = []"
  by (simp add: pl_repr_def)

lemma pl_repr_unique:
  assumes "pl_repr s xs" "pl_repr s ys"
  shows "xs = ys"
proof -
  have "chain h p us None \<Longrightarrow> chain h p vs None \<Longrightarrow> us = vs" for h :: "nat \<Rightarrow> ('a \<times> ptr) option" and p us vs
  proof (induction us arbitrary: p vs)
    case Nil
    then show ?case by (cases vs) auto
  next
    case (Cons u us)
    then show ?case by (cases u; cases vs) auto
  qed
  with assms show ?thesis by (auto simp: pl_repr_def)
qed

lemma chain_retarget:
  assumes "chain h p (xs @ [(t, w)]) q" "distinct (map fst (xs @ [(t, w)]))"
  shows "chain (set_next h t r) p (xs @ [(t, w)]) r"
proof -
  have t: "t \<notin> fst ` set xs" using assms(2) by auto
  show ?thesis using assms(1) t
    by (auto simp: chain_append chain_set_next) (auto simp: set_next_def)
qed

lemma pl_append_repr:
  assumes "pl_repr s xs" "a \<notin> dom (pl_heap s)"
  shows "pl_repr (pl_append s a v) (xs @ [(a, v)])"
proof (cases xs rule: rev_cases)
  case Nil
  then show ?thesis using assms by (auto simp: pl_repr_def pl_append_def last_addr_def)
next
  case (snoc ys tw)
  obtain t w where tw: "tw = (t, w)" by (cases tw)
  have tail: "pl_tail s = Some t" using assms(1) snoc tw by (simp add: pl_repr_def)
  have a: "a \<notin> fst ` set xs" using assms by (auto simp: pl_repr_def)
  have "chain (set_next (pl_heap s) t (Some a)) (pl_head s) xs (Some a)"
    using chain_retarget [of "pl_heap s" "pl_head s" ys t w None "Some a"] assms(1) snoc tw
    by (simp add: pl_repr_def)
  then have c: "chain (pl_heap (pl_append s a v)) (pl_head s) (xs @ [(a, v)]) None"
    using a by (simp add: pl_append_def tail chain_append chain_frame)
  have "t \<in> dom (pl_heap s)" using assms(1) snoc tw by (simp add: pl_repr_def)
  then have "dom (pl_heap (pl_append s a v)) = insert a (dom (pl_heap s))"
    by (simp add: pl_append_def tail)
  moreover have "pl_tail (pl_append s a v) = Some a" "pl_head (pl_append s a v) = pl_head s"
    by (simp_all add: pl_append_def tail)
  ultimately show ?thesis using c a assms(1) unfolding pl_repr_def by simp
qed

lemma pl_unlink_repr:
  assumes "pl_repr s (xs @ (a, v) # ys)" "pl_heap s a = Some (v, n)"
  shows "pl_repr (pl_unlink s (last_addr xs) a n) (xs @ ys)"
proof -
  let ?h = "pl_heap s"
  have d: "distinct (map fst xs)" "distinct (map fst ys)" "a \<notin> fst ` set xs" "a \<notin> fst ` set ys"
    "fst ` set xs \<inter> fst ` set ys = {}"
    using assms(1) by (auto simp: pl_repr_def)
  obtain r where c: "chain ?h (pl_head s) xs r" "r = Some a" "chain ?h n ys None"
    using assms by (auto simp: pl_repr_def chain_append)
  have tail: "(if pl_tail s = Some a then last_addr xs else pl_tail s) = last_addr (xs @ ys)"
  proof -
    have "pl_tail s = last_addr (xs @ (a, v) # ys)" using assms(1) by (simp add: pl_repr_def)
    also have "\<dots> = (if ys = [] then Some a else last_addr ys)" by (simp add: last_addr_def)
    finally show ?thesis using d(4) by (auto simp: last_addr_append dest: last_addr_in)
  qed
  have dom: "fst ` set (xs @ ys) = dom ?h - {a}" using assms(1) d by (auto simp: pl_repr_def)
  show ?thesis
  proof (cases xs rule: rev_cases)
    case Nil
    then show ?thesis using c d tail dom
      by (auto simp: pl_repr_def pl_unlink_def chain_frame)
  next
    case (snoc zs lw)
    obtain l w where lw: "lw = (l, w)" by (cases lw)
    have "chain (set_next ?h l n) (pl_head s) xs n"
      using chain_retarget [of ?h "pl_head s" zs l w r n] c d(1) snoc lw by simp
    moreover have "l \<notin> fst ` set ys" using d(5) snoc lw by auto
    ultimately show ?thesis using c d tail dom snoc lw
      by (auto simp: pl_repr_def pl_unlink_def chain_append chain_frame chain_set_next)
  qed
qed

lemma pl_free_all_repr:
  assumes "pl_repr q xs"
  shows "pl_free_all q = Some (q\<lparr>pl_head := None, pl_heap := (\<lambda>_. None)\<rparr>)"
proof -
  have "distinct (map fst xs) \<Longrightarrow> chain (pl_heap q) (pl_head q) xs None \<Longrightarrow> dom (pl_heap q) = fst ` set xs
    \<Longrightarrow> pl_free_all q = Some (q\<lparr>pl_head := None, pl_heap := (\<lambda>_. None)\<rparr>)" for q :: "'a plist" and xs
  proof (induction xs arbitrary: q)
    case Nil
    then have "q\<lparr>pl_head := None, pl_heap := (\<lambda>_. None)\<rparr> = q" by (cases q) auto
    then show ?case using Nil by (simp add: pl_free_all.simps)
  next
    case (Cons x xs)
    obtain a v where x: "x = (a, v)" by (cases x)
    obtain n where h: "pl_head q = Some a" "pl_heap q a = Some (v, n)" "chain (pl_heap q) n xs None"
      using Cons.prems x by auto
    let ?q = "q\<lparr>pl_head := n, pl_heap := (pl_heap q)(a := None)\<rparr>"
    have "pl_free_all ?q = Some (?q\<lparr>pl_head := None, pl_heap := (\<lambda>_. None)\<rparr>)"
    proof (rule Cons.IH)
      have a: "a \<notin> fst ` set xs" using Cons.prems(1) x by simp
      show "distinct (map fst xs)" using Cons.prems(1) by simp
      show "chain (pl_heap ?q) (pl_head ?q) xs None" using h(3) a by (simp add: chain_frame)
      show "dom (pl_heap ?q) = fst ` set xs" using Cons.prems(3) x a by simp
    qed
    then show ?case using h by (simp add: pl_free_all.simps [of q])
  qed
  with assms show ?thesis by (auto simp: pl_repr_def)
qed

text \<open>The values of a list, without the addresses.\<close>

definition q_repr :: "'a plist \<Rightarrow> 'a list \<Rightarrow> bool" where
  "q_repr q vs \<longleftrightarrow> (\<exists>xs. pl_repr q xs \<and> map snd xs = vs)"

lemma q_repr_empty: "q_repr pl_empty []"
  by (auto simp: q_repr_def pl_repr_empty)

section \<open>The queue interface\<close>

text \<open>
  What a client of a first-in first-out queue relies on: a representation relation to a list of
  values, appending at the end with a block the allocator supplies, reading and dropping the
  front, and removing every value that satisfies a test.
\<close>

locale value_queue =
  fixes repr :: "'q \<Rightarrow> 'v list \<Rightarrow> bool"
    and usable :: "'q \<Rightarrow> nat \<Rightarrow> bool"
    and enq :: "'q \<Rightarrow> nat \<Rightarrow> 'v \<Rightarrow> 'q"
    and front :: "'q \<Rightarrow> 'v option"
    and deq :: "'q \<Rightarrow> 'q"
    and sift :: "('v \<Rightarrow> bool) \<Rightarrow> 'q \<Rightarrow> ('q \<times> nat) option"
  assumes repr_enq: "repr q xs \<Longrightarrow> usable q a \<Longrightarrow> repr (enq q a v) (xs @ [v])"
    and front_Nil: "repr q [] \<Longrightarrow> front q = None"
    and front_Cons: "repr q (x # xs) \<Longrightarrow> front q = Some x"
    and repr_deq: "repr q (x # xs) \<Longrightarrow> repr (deq q) xs"
    and repr_sift: "repr q xs \<Longrightarrow>
          \<exists>q'. sift P q = Some (q', length (filter P xs)) \<and> repr q' (filter (\<lambda>x. \<not> P x) xs)"
begin

text \<open>A loop that handles the front value, drops it and goes on until the queue is empty ends,
  and it has handled exactly the queued values, in order.  \<open>qof\<close> is the queue inside the client's
  state, \<open>upd\<close> one round of the client's loop and \<open>good\<close> what keeps the loop going.\<close>

lemma drained_in_order:
  assumes "repr (qof s) xs" and "good s"
    and step: "\<And>s. good s \<Longrightarrow>
      loop s = (case front (qof s) of None \<Rightarrow> Some s | Some v \<Rightarrow> loop (upd v s))"
    and upd: "\<And>s v. qof (upd v s) = deq (qof s)" "\<And>s v. good s \<Longrightarrow> good (upd v s)"
  shows "loop s = Some (fold upd xs s) \<and> repr (qof (fold upd xs s)) []"
  using assms(1,2)
proof (induction xs arbitrary: s)
  case Nil
  then show ?case using front_Nil step by simp
next
  case (Cons x xs)
  have "repr (qof (upd x s)) xs" using repr_deq [OF Cons.prems(1)] by (simp add: upd)
  then show ?case using Cons.IH front_Cons [OF Cons.prems(1)] Cons.prems(2) step upd(2) by simp
qed

lemma sift_then_absent:
  assumes "repr q xs" "sift P q = Some (q', n)"
  shows "n = length (filter P xs) \<and> repr q' (filter (\<lambda>x. \<not> P x) xs)"
  using repr_sift [OF assms(1), of P] assms(2) by auto

end

end
