(* ===== verification/Ioman.thy ===== *)
theory Ioman
  imports LinkedList
begin

text \<open>
  The asynchronous I/O manager (\<^verbatim>\<open>src/ioman.c\<close>): a worker thread drains a queue of typed
  requests, calling the handler registered for each type.

  The queue is the pair of pointers \<^verbatim>\<open>gReqList\<close>/\<^verbatim>\<open>gReqEnd\<close> over heap nodes (\<open>gQueue\<close>).  Every
  operation that follows a pointer returns an \<open>option\<close>: \<open>None\<close> is an access to a node that is not
  allocated, or a walk that never ends.  A handler is the address of a function, and calling it
  is recorded in \<open>gCalls\<close>; what a handler does to the queue is to call \<^verbatim>\<open>ioPutRequest\<close> from the
  worker, which the step relation interleaves like any other caller.

  The sections of code under \<^verbatim>\<open>gEndSemaId\<close> are atomic steps.  \<^verbatim>\<open>gProcSemaId\<close> is held by the
  worker from its wake-up to the end of the drain, which is its phase \<open>WTip\<close> or \<open>WRun\<close>; the
  callers that take it can run in phase \<open>WSleep\<close> only.
\<close>

section \<open>State\<close>

record io_request =
  rq_type :: int
  rq_data :: ptr

record io_state =
  gIOTerminate :: bool
  gQueue :: "io_request plist"
  gRequestHandlers :: "(int \<times> nat) list"
  gIoPending :: "int list"
  gIoTotal :: "u32 list"
  isIOBlocked :: bool
  isIORunning :: bool
  gCalls :: "(nat \<times> ptr) list"

definition IO_OK :: int where "IO_OK = 0"
definition IO_ERR_TOO_MANY_HANDLERS :: int where "IO_ERR_TOO_MANY_HANDLERS = - 2"
definition IO_ERR_DUPLICIT_HANDLER :: int where "IO_ERR_DUPLICIT_HANDLER = - 3"
definition IO_ERR_INVALID_HANDLER :: int where "IO_ERR_INVALID_HANDLER = - 4"
definition IO_ERR_IO_BLOCKED :: int where "IO_ERR_IO_BLOCKED = - 5"
definition IO_ERR_TOO_MANY_REQUESTS :: int where "IO_ERR_TOO_MANY_REQUESTS = - 6"

lemmas io_codes = IO_OK_def IO_ERR_TOO_MANY_HANDLERS_def IO_ERR_DUPLICIT_HANDLER_def
  IO_ERR_INVALID_HANDLER_def IO_ERR_IO_BLOCKED_def IO_ERR_TOO_MANY_REQUESTS_def

definition MAX_IO_HANDLERS :: nat where "MAX_IO_HANDLERS = 64"
definition IO_REQ_TYPE_COUNT :: nat where "IO_REQ_TYPE_COUNT = 5"
definition IO_CUSTOM_SIMPLEACTION :: int where "IO_CUSTOM_SIMPLEACTION = 1"

text \<open>The types the diagnostic counters cover.\<close>

definition counted :: "int \<Rightarrow> bool" where
  "counted t \<longleftrightarrow> 0 < t \<and> t < int IO_REQ_TYPE_COUNT"

section \<open>Operations\<close>

definition ioGetPending :: "io_state \<Rightarrow> int \<Rightarrow> int" where
  "ioGetPending s t = (if counted t then gIoPending s ! nat t else 0)"

definition ioGetTotal :: "io_state \<Rightarrow> int \<Rightarrow> u32" where
  "ioGetTotal s t = (if counted t then gIoTotal s ! nat t else 0)"

definition ioRegisterHandler :: "io_state \<Rightarrow> int \<Rightarrow> ptr \<Rightarrow> int \<times> io_state" where
  "ioRegisterHandler s t h =
     (case h of
        None \<Rightarrow> (IO_ERR_INVALID_HANDLER, s)
      | Some f \<Rightarrow>
          if MAX_IO_HANDLERS \<le> length (gRequestHandlers s) then (IO_ERR_TOO_MANY_HANDLERS, s)
          else if t \<in> fst ` set (gRequestHandlers s) then (IO_ERR_DUPLICIT_HANDLER, s)
          else (IO_OK, s\<lparr>gRequestHandlers := gRequestHandlers s @ [(t, f)]\<rparr>))"

fun io_find_handler :: "(int \<times> nat) list \<Rightarrow> int \<Rightarrow> ptr" where
  "io_find_handler [] t = None"
| "io_find_handler ((u, f) # hs) t = (if u = t then Some f else io_find_handler hs t)"

definition ioGetHandler :: "io_state \<Rightarrow> int \<Rightarrow> ptr" where
  "ioGetHandler s t = io_find_handler (gRequestHandlers s) t"

definition ioProcessRequest :: "io_state \<Rightarrow> io_request \<Rightarrow> io_state" where
  "ioProcessRequest s r =
     (case ioGetHandler s (rq_type r) of
        None \<Rightarrow> s
      | Some f \<Rightarrow> s\<lparr>gCalls := gCalls s @ [(f, rq_data r)]\<rparr>)"

definition ioInit :: "io_state \<Rightarrow> nat \<Rightarrow> io_state" where
  "ioInit s simple =
     (snd (ioRegisterHandler
             (s\<lparr>gIOTerminate := False, gRequestHandlers := [],
               gQueue := (gQueue s)\<lparr>pl_head := None, pl_tail := None\<rparr>\<rparr>)
             IO_CUSTOM_SIMPLEACTION (Some simple)))\<lparr>isIORunning := True\<rparr>"

text \<open>The bookkeeping of an accepted request: \<^verbatim>\<open>gIoPending[type]++; gIoTotal[type]++\<close>.\<close>

definition io_count_put :: "io_state \<Rightarrow> int \<Rightarrow> io_state" where
  "io_count_put s t =
     (if counted t
      then s\<lparr>gIoPending := (gIoPending s)[nat t := gIoPending s ! nat t + 1],
             gIoTotal := (gIoTotal s)[nat t := gIoTotal s ! nat t + 1]\<rparr>
      else s)"

text \<open>\<open>mem\<close> is what \<^verbatim>\<open>malloc\<close> returns.  With a non-NULL \<^verbatim>\<open>gReqEnd\<close> the code stores through it.\<close>

definition ioPutRequest :: "io_state \<Rightarrow> ptr \<Rightarrow> int \<Rightarrow> ptr \<Rightarrow> (int \<times> io_state) option" where
  "ioPutRequest s mem t d =
     (if isIOBlocked s then Some (IO_ERR_IO_BLOCKED, s)
      else if ioGetHandler s t = None then Some (IO_ERR_INVALID_HANDLER, s)
      else case mem of
        None \<Rightarrow> Some (IO_ERR_TOO_MANY_REQUESTS, s)
      | Some a \<Rightarrow>
          if (case pl_tail (gQueue s) of None \<Rightarrow> False | Some e \<Rightarrow> pl_heap (gQueue s) e = None)
          then None
          else Some (IO_OK,
            io_count_put (s\<lparr>gQueue := pl_append (gQueue s) a \<lparr>rq_type = t, rq_data = d\<rparr>\<rparr>) t))"

text \<open>The end of one round of the worker's inner loop: count down, unlink the tip and free it.\<close>

definition io_unlink_tip :: "'a plist \<Rightarrow> 'a plist" where
  "io_unlink_tip q =
     (case pl_head q of
        None \<Rightarrow> q
      | Some a \<Rightarrow>
          (case pl_heap q a of
             None \<Rightarrow> q
           | Some (_, next) \<Rightarrow>
               q\<lparr>pl_head := next, pl_tail := (if next = None then None else pl_tail q),
                 pl_heap := (pl_heap q)(a := None)\<rparr>))"

definition io_count_done :: "io_state \<Rightarrow> int \<Rightarrow> io_state" where
  "io_count_done s t =
     (if counted t \<and> 0 < gIoPending s ! nat t
      then s\<lparr>gIoPending := (gIoPending s)[nat t := gIoPending s ! nat t - 1]\<rparr> else s)"

definition io_worker_unlink :: "io_request \<Rightarrow> io_state \<Rightarrow> io_state" where
  "io_worker_unlink r s = (io_count_done s (rq_type r))\<lparr>gQueue := io_unlink_tip (gQueue s)\<rparr>"

definition io_tip :: "'a plist \<Rightarrow> 'a option" where
  "io_tip q = (case pl_head q of None \<Rightarrow> None | Some a \<Rightarrow> map_option fst (pl_heap q a))"

text \<open>One whole round, and the drain that runs when nothing interferes.\<close>

definition io_worker_round :: "io_request \<Rightarrow> io_state \<Rightarrow> io_state" where
  "io_worker_round r s = io_worker_unlink r (ioProcessRequest s r)"

partial_function (option) io_worker_drain :: "io_state \<Rightarrow> io_state option" where
  "io_worker_drain s =
     (case io_tip (gQueue s) of
        None \<Rightarrow> Some s
      | Some r \<Rightarrow> if gIOTerminate s then Some s else io_worker_drain (io_worker_round r s))"

text \<open>The worker's exit: the remaining nodes are freed from the head on.  \<^verbatim>\<open>gReqEnd\<close> keeps its
  value.\<close>

definition io_worker_exit :: "io_state \<Rightarrow> io_state option" where
  "io_worker_exit s =
     (case pl_free_all (gQueue s) of
        None \<Rightarrow> None | Some q \<Rightarrow> Some (s\<lparr>gQueue := q, isIORunning := False\<rparr>))"

text \<open>\<^verbatim>\<open>ioRemoveRequests\<close>: the loop with its \<^verbatim>\<open>req\<close> and \<^verbatim>\<open>last\<close> pointers.\<close>

partial_function (option) io_remove_loop ::
    "('a \<Rightarrow> bool) \<Rightarrow> ptr \<Rightarrow> ptr \<Rightarrow> nat \<Rightarrow> 'a plist \<Rightarrow> ('a plist \<times> nat) option" where
  "io_remove_loop P req lst count q =
     (case req of
        None \<Rightarrow> Some (q, count)
      | Some a \<Rightarrow>
          (case pl_heap q a of
             None \<Rightarrow> None
           | Some (r, next) \<Rightarrow>
               if P r
               then io_remove_loop P next lst (Suc count)
                      (q\<lparr>pl_head := (if pl_head q = Some a then next else pl_head q),
                         pl_tail := (if pl_tail q = Some a then lst else pl_tail q),
                         pl_heap := (case lst of None \<Rightarrow> pl_heap q
                                     | Some l \<Rightarrow> set_next (pl_heap q) l next)(a := None)\<rparr>)
               else io_remove_loop P next (Some a) count q))"

definition io_sift :: "('a \<Rightarrow> bool) \<Rightarrow> 'a plist \<Rightarrow> ('a plist \<times> nat) option" where
  "io_sift P q = io_remove_loop P (pl_head q) None 0 q"

definition ioRemoveRequests :: "io_state \<Rightarrow> int \<Rightarrow> (nat \<times> io_state) option" where
  "ioRemoveRequests s t =
     (case io_sift (\<lambda>r. rq_type r = t) (gQueue s) of
        None \<Rightarrow> None | Some (q, n) \<Rightarrow> Some (n, s\<lparr>gQueue := q\<rparr>))"

definition ioEnd :: "io_state \<Rightarrow> io_state" where
  "ioEnd s = s\<lparr>gIOTerminate := True\<rparr>"

text \<open>\<^verbatim>\<open>ioGetPendingRequestCount\<close> reads \<^verbatim>\<open>gReqList\<close> and then waits for \<^verbatim>\<open>gProcSemaId\<close>: the head
  comes from the state at the call, the walk happens in the state in which the semaphore is won.\<close>

partial_function (option) io_walk :: "ptr \<Rightarrow> nat \<Rightarrow> 'a plist \<Rightarrow> nat option" where
  "io_walk req count q =
     (case req of
        None \<Rightarrow> Some count
      | Some a \<Rightarrow>
          (case pl_heap q a of None \<Rightarrow> None | Some (_, next) \<Rightarrow> io_walk next (Suc count) q))"

definition ioGetPendingRequestCount :: "io_state \<Rightarrow> io_state \<Rightarrow> nat option" where
  "ioGetPendingRequestCount at_call locked = io_walk (pl_head (gQueue at_call)) 0 (gQueue locked)"

definition ioHasPendingRequests :: "io_state \<Rightarrow> bool" where
  "ioHasPendingRequests s \<longleftrightarrow> pl_head (gQueue s) \<noteq> None"

text \<open>
  \<^verbatim>\<open>ioBlockOpsTimed\<close>.  \<open>pend i\<close> is what \<^verbatim>\<open>ioHasPendingRequests()\<close> returns at its \<open>i\<close>-th call,
  decided by the worker while this thread sleeps in \<^verbatim>\<open>delay(1)\<close>; \<open>status\<close> is the priority
  \<^verbatim>\<open>ReferThreadStatus\<close> fills in, or \<open>None\<close> when it fails.  The result holds the number of delays
  and the priorities given to \<^verbatim>\<open>ChangeThreadPriority\<close>, in order.
\<close>

partial_function (option) io_wait_idle :: "(nat \<Rightarrow> bool) \<Rightarrow> nat \<Rightarrow> int \<Rightarrow> nat option" where
  "io_wait_idle pend i timeoutTicks =
     (if \<not> pend i then Some i
      else if timeoutTicks = 0 then Some i
      else io_wait_idle pend (Suc i) (if 0 < timeoutTicks then timeoutTicks - 1 else timeoutTicks))"

definition ioBlockOpsTimed ::
    "io_state \<Rightarrow> bool \<Rightarrow> int \<Rightarrow> (nat \<Rightarrow> bool) \<Rightarrow> int option \<Rightarrow> (io_state \<times> nat \<times> int list) option" where
  "ioBlockOpsTimed s block timeoutTicks pend status =
     (if block \<and> \<not> isIOBlocked s
      then case io_wait_idle pend 0 timeoutTicks of
             None \<Rightarrow> None
           | Some n \<Rightarrow> Some (s\<lparr>isIOBlocked := True\<rparr>, n,
               90 # (case status of None \<Rightarrow> [] | Some p \<Rightarrow> [p]))
      else if \<not> block \<and> isIOBlocked s then Some (s\<lparr>isIOBlocked := False\<rparr>, 0, [])
      else Some (s, 0, []))"

definition ioBlockOps ::
    "io_state \<Rightarrow> bool \<Rightarrow> (nat \<Rightarrow> bool) \<Rightarrow> int option \<Rightarrow> (io_state \<times> nat \<times> int list) option" where
  "ioBlockOps s block pend status = ioBlockOpsTimed s block (- 1) pend status"

section \<open>The queue implements a queue\<close>

lemma io_unlink_tip_repr:
  assumes "pl_repr q ((a, v) # xs)"
  shows "pl_repr (io_unlink_tip q) xs"
proof -
  obtain n where h: "pl_head q = Some a" "pl_heap q a = Some (v, n)"
    using assms by (auto simp: pl_repr_def)
  have "n = None \<longleftrightarrow> xs = []" using assms h by (cases xs) (auto simp: pl_repr_def)
  then have "io_unlink_tip q = pl_unlink q (last_addr []) a n"
    using assms h by (auto simp: io_unlink_tip_def pl_unlink_def pl_repr_def last_addr_def)
  then show ?thesis using pl_unlink_repr [of q "[]" a v xs n] assms h by simp
qed

lemma io_tip_repr: "pl_repr q xs \<Longrightarrow> io_tip q = (case xs of [] \<Rightarrow> None | x # _ \<Rightarrow> Some (snd x))"
  by (cases xs) (auto simp: io_tip_def pl_repr_def)

lemma io_remove_loop_repr:
  assumes "pl_repr q (xs @ ys)"
  shows "\<exists>q'. io_remove_loop P (case ys of [] \<Rightarrow> None | y # _ \<Rightarrow> Some (fst y)) (last_addr xs) c q =
           Some (q', c + length (filter (P \<circ> snd) ys)) \<and>
         pl_repr q' (xs @ filter (\<lambda>y. \<not> P (snd y)) ys)"
  using assms
proof (induction ys arbitrary: xs c q)
  case Nil
  then show ?case by (simp add: io_remove_loop.simps)
next
  case (Cons y ys)
  obtain a v where y: "y = (a, v)" by (cases y)
  obtain n where h: "pl_heap q a = Some (v, n)"
    using Cons.prems y by (auto simp: pl_repr_def chain_append)
  have n: "n = (case ys of [] \<Rightarrow> None | y # _ \<Rightarrow> Some (fst y))"
    using Cons.prems y h by (auto simp: pl_repr_def chain_append dest: chain_head)
  show ?case
  proof (cases "P v")
    case True
    have hd: "pl_head q = Some a \<longleftrightarrow> last_addr xs = None"
      using Cons.prems y by (cases xs) (auto simp: pl_repr_def)
    have "pl_repr (pl_unlink q (last_addr xs) a n) (xs @ ys)"
      using pl_unlink_repr [of q xs a v ys n] Cons.prems y h by simp
    from Cons.IH [OF this, of "Suc c"] show ?thesis
      using h hd n y True by (simp add: io_remove_loop.simps [of P "Some a"] pl_unlink_def)
  next
    case False
    have "pl_repr q ((xs @ [y]) @ ys)" using Cons.prems by simp
    from Cons.IH [OF this, of c] show ?thesis
      using h n y False by (simp add: io_remove_loop.simps [of P "Some a"])
  qed
qed

lemma io_sift_repr:
  assumes "q_repr q vs"
  shows "\<exists>q'. io_sift P q = Some (q', length (filter P vs)) \<and> q_repr q' (filter (\<lambda>x. \<not> P x) vs)"
proof -
  obtain xs where xs: "pl_repr q xs" "map snd xs = vs" using assms by (auto simp: q_repr_def)
  have "pl_head q = (case xs of [] \<Rightarrow> None | y # _ \<Rightarrow> Some (fst y))"
    using xs(1) by (auto simp: pl_repr_def dest: chain_head)
  then show ?thesis
    using io_remove_loop_repr [of q "[]" xs P 0] xs
    by (auto simp: io_sift_def q_repr_def filter_map o_def)
qed

interpretation io_queue: value_queue q_repr "\<lambda>q a. a \<notin> dom (pl_heap q)" pl_append io_tip io_unlink_tip io_sift
proof unfold_locales
  fix q :: "'a plist" and xs a v
  assume "q_repr q xs" "a \<notin> dom (pl_heap q)"
  then obtain ys where "pl_repr q ys" "map snd ys = xs" "pl_repr (pl_append q a v) (ys @ [(a, v)])"
    using pl_append_repr by (fastforce simp: q_repr_def)
  then show "q_repr (pl_append q a v) (xs @ [v])" by (auto simp: q_repr_def)
next
  fix q :: "'a plist" and x xs
  assume "q_repr q (x # xs)"
  then show "q_repr (io_unlink_tip q) xs" by (auto simp: q_repr_def dest: io_unlink_tip_repr)
next
  fix q :: "'a plist" and xs P
  assume "q_repr q xs"
  then show "\<exists>q'. io_sift P q = Some (q', length (filter P xs)) \<and> q_repr q' (filter (\<lambda>x. \<not> P x) xs)"
    by (rule io_sift_repr)
qed (auto simp: q_repr_def io_tip_repr)

lemma io_find_handler_map_of: "io_find_handler hs t = map_of hs t"
  by (induction hs t rule: io_find_handler.induct) auto

lemma io_find_handler_None: "io_find_handler hs t = None \<longleftrightarrow> t \<notin> fst ` set hs"
  by (simp add: io_find_handler_map_of map_of_eq_None_iff)

lemma io_walk_repr:
  assumes "chain (pl_heap q) p xs None"
  shows "io_walk p c q = Some (c + length xs)"
  using assms
proof (induction xs arbitrary: p c)
  case Nil
  then show ?case by (simp add: io_walk.simps)
next
  case (Cons x xs)
  then show ?case by (cases x) (auto simp: io_walk.simps [of "Some _"])
qed

section \<open>The worker and its callers as a step relation\<close>

text \<open>
  \<open>WSleep\<close>: in \<^verbatim>\<open>SleepThread\<close> or about to call it, no semaphore held.  \<open>WTip\<close>: at the test of the
  inner \<^verbatim>\<open>while\<close>, \<^verbatim>\<open>gProcSemaId\<close> held.  \<open>WRun a r\<close>: the handler for the request \<open>r\<close> in node \<open>a\<close> has
  been called, the node is still linked.  \<open>WDone\<close>: the thread has ended.
\<close>

datatype io_phase = WSleep | WTip | WRun nat io_request | WDone

datatype io_label =
    LRegister int ptr int
  | LPut int ptr int
  | LRemove int nat
  | LEnd
  | LBlock bool
  | LWake
  | LCall io_request
  | LUnlink io_request
  | LIdle
  | LExit

type_synonym io_conf = "io_state \<times> io_phase"

inductive io_step :: "io_conf \<Rightarrow> io_label \<Rightarrow> io_conf \<Rightarrow> bool" where
  Register: "ioRegisterHandler s t h = (rc, s') \<Longrightarrow> io_step (s, WSleep) (LRegister t h rc) (s', WSleep)"
| Put: "ioPutRequest s mem t d = Some (rc, s') \<Longrightarrow> w \<noteq> WDone \<Longrightarrow>
    (\<And>a. mem = Some a \<Longrightarrow> pl_heap (gQueue s) a = None) \<Longrightarrow> io_step (s, w) (LPut t d rc) (s', w)"
| Remove: "ioRemoveRequests s t = Some (n, s') \<Longrightarrow> io_step (s, WSleep) (LRemove t n) (s', WSleep)"
| End: "io_step (s, w) LEnd (ioEnd s, w)"
| Block: "io_step (s, w) (LBlock b) (s\<lparr>isIOBlocked := b\<rparr>, w)"
| Wake: "\<not> gIOTerminate s \<Longrightarrow> io_step (s, WSleep) LWake (s, WTip)"
| Call: "\<not> gIOTerminate s \<Longrightarrow> pl_head (gQueue s) = Some a \<Longrightarrow> pl_heap (gQueue s) a = Some (r, n) \<Longrightarrow>
    io_step (s, WTip) (LCall r) (ioProcessRequest s r, WRun a r)"
| Unlink: "io_step (s, WRun a r) (LUnlink r) (io_worker_unlink r s, WTip)"
| Idle: "pl_head (gQueue s) = None \<or> gIOTerminate s \<Longrightarrow> io_step (s, WTip) LIdle (s, WSleep)"
| Exit: "gIOTerminate s \<Longrightarrow> io_worker_exit s = Some s' \<Longrightarrow> io_step (s, WSleep) LExit (s', WDone)"

inductive_cases io_stepE: "io_step c l c'"

inductive io_run :: "io_conf \<Rightarrow> io_label list \<Rightarrow> io_conf \<Rightarrow> bool" where
  Init: "io_run c [] c"
| Step: "io_run c tr c' \<Longrightarrow> io_step c' l c'' \<Longrightarrow> io_run c (tr @ [l]) c''"

text \<open>What a trace says happened: the requests accepted, those whose handler was called, and how
  many of a type were removed.\<close>

fun accepted :: "io_label list \<Rightarrow> io_request list" where
  "accepted [] = []"
| "accepted (LPut t d rc # tr) =
     (if rc = IO_OK then [\<lparr>rq_type = t, rq_data = d\<rparr>] else []) @ accepted tr"
| "accepted (_ # tr) = accepted tr"

fun called :: "io_label list \<Rightarrow> io_request list" where
  "called [] = []"
| "called (LCall r # tr) = r # called tr"
| "called (_ # tr) = called tr"

fun removed :: "int \<Rightarrow> io_label list \<Rightarrow> nat" where
  "removed t [] = 0"
| "removed t (LRemove u n # tr) = (if u = t then n else 0) + removed t tr"
| "removed t (_ # tr) = removed t tr"

lemma accepted_append [simp]: "accepted (xs @ ys) = accepted xs @ accepted ys"
  by (induction xs rule: accepted.induct) auto

lemma called_append [simp]: "called (xs @ ys) = called xs @ called ys"
  by (induction xs rule: called.induct) auto

lemma removed_append [simp]: "removed t (xs @ ys) = removed t xs + removed t ys"
  by (induction t xs rule: removed.induct) auto

text \<open>The state after the program has started and \<^verbatim>\<open>ioInit\<close> has run.\<close>

definition io_boot :: io_state where
  "io_boot = \<lparr>gIOTerminate = False, gQueue = pl_empty, gRequestHandlers = [],
     gIoPending = replicate IO_REQ_TYPE_COUNT 0, gIoTotal = replicate IO_REQ_TYPE_COUNT 0,
     isIOBlocked = False, isIORunning = False, gCalls = []\<rparr>"

definition io_start :: "nat \<Rightarrow> io_conf" where
  "io_start f = (ioInit io_boot f, WSleep)"

definition waiting :: "io_phase \<Rightarrow> io_request list \<Rightarrow> io_request list" where
  "waiting w vs = (case w of WRun _ _ \<Rightarrow> tl vs | _ \<Rightarrow> vs)"

lemmas io_op_defs = ioPutRequest_def io_count_put_def io_count_done_def io_worker_unlink_def
  ioProcessRequest_def ioEnd_def ioRemoveRequests_def ioGetHandler_def

text \<open>The invariant of a running manager after the trace \<open>tr\<close>, with \<open>vs\<close> the queued requests: the
  pointers, the handler table, the order of service, and the diagnostic counters.\<close>

definition inv_queue :: "io_conf \<Rightarrow> io_request list \<Rightarrow> bool" where
  "inv_queue c vs \<longleftrightarrow>
     q_repr (gQueue (fst c)) vs \<and>
     (case snd c of WRun a r \<Rightarrow> vs \<noteq> [] \<and> hd vs = r \<and> pl_head (gQueue (fst c)) = Some a | _ \<Rightarrow> True)"

definition inv_table :: "io_state \<Rightarrow> io_request list \<Rightarrow> bool" where
  "inv_table s vs \<longleftrightarrow>
     length (gRequestHandlers s) \<le> MAX_IO_HANDLERS \<and> distinct (map fst (gRequestHandlers s)) \<and>
     rq_type ` set vs \<subseteq> fst ` set (gRequestHandlers s)"

definition inv_order :: "io_label list \<Rightarrow> io_conf \<Rightarrow> io_request list \<Rightarrow> bool" where
  "inv_order tr c vs \<longleftrightarrow>
     subseq (called tr @ waiting (snd c) vs) (accepted tr) \<and>
     ((\<forall>t n. LRemove t n \<notin> set tr) \<longrightarrow> accepted tr = called tr @ waiting (snd c) vs) \<and>
     list_all2 (\<lambda>call r. io_find_handler (gRequestHandlers (fst c)) (rq_type r) = Some (fst call) \<and> snd call = rq_data r)
       (gCalls (fst c)) (called tr)"

definition inv_counts :: "io_label list \<Rightarrow> io_state \<Rightarrow> io_request list \<Rightarrow> bool" where
  "inv_counts tr s vs \<longleftrightarrow>
     length (gIoPending s) = IO_REQ_TYPE_COUNT \<and> length (gIoTotal s) = IO_REQ_TYPE_COUNT \<and>
     (\<forall>t. counted t \<longrightarrow>
        gIoPending s ! nat t = int (length (filter (\<lambda>r. rq_type r = t) vs) + removed t tr))"

definition io_inv :: "io_label list \<Rightarrow> io_conf \<Rightarrow> io_request list \<Rightarrow> bool" where
  "io_inv tr c vs \<longleftrightarrow> inv_queue c vs \<and> inv_table (fst c) vs \<and> inv_order tr c vs \<and> inv_counts tr (fst c) vs"

lemma counted_bound: "counted t \<Longrightarrow> nat t < IO_REQ_TYPE_COUNT"
  by (simp add: counted_def IO_REQ_TYPE_COUNT_def) linarith

lemma counted_nat_eq: "counted t \<Longrightarrow> counted u \<Longrightarrow> nat t = nat u \<longleftrightarrow> t = u"
  by (auto simp: counted_def)

lemma io_start_fields:
  "gQueue (fst (io_start f)) = pl_empty" "gRequestHandlers (fst (io_start f)) = [(1, f)]"
  "gCalls (fst (io_start f)) = []" "snd (io_start f) = WSleep"
  "gIoPending (fst (io_start f)) = replicate IO_REQ_TYPE_COUNT 0"
  "gIoTotal (fst (io_start f)) = replicate IO_REQ_TYPE_COUNT 0"
  by (simp_all add: io_start_def ioInit_def io_boot_def ioRegisterHandler_def pl_empty_def
      MAX_IO_HANDLERS_def IO_CUSTOM_SIMPLEACTION_def)

lemma io_inv_start: "io_inv [] (io_start f) []"
  using q_repr_empty
  by (simp add: io_inv_def inv_queue_def inv_table_def inv_order_def inv_counts_def io_start_fields
      MAX_IO_HANDLERS_def waiting_def counted_bound)

lemma ioPutRequest_result:
  assumes "ioPutRequest s mem t d = Some (rc, s')"
  shows "(rc \<noteq> IO_OK \<and> s' = s) \<or>
    (\<exists>a. rc = IO_OK \<and> mem = Some a \<and> ioGetHandler s t \<noteq> None \<and>
      s' = io_count_put (s\<lparr>gQueue := pl_append (gQueue s) a \<lparr>rq_type = t, rq_data = d\<rparr>\<rparr>) t)"
proof (cases "isIOBlocked s \<or> ioGetHandler s t = None \<or> mem = None")
  case True
  then show ?thesis using assms by (auto simp: ioPutRequest_def io_codes split: if_splits)
next
  case False
  then obtain a where "mem = Some a" "\<not> isIOBlocked s" "ioGetHandler s t \<noteq> None" by auto
  then show ?thesis using assms unfolding ioPutRequest_def by (simp split: if_splits)
qed

lemma ioPutRequest_cases:
  assumes "ioPutRequest s mem t d = Some (rc, s')"
  obtains (rejected) "rc \<noteq> IO_OK" "s' = s"
  | (queued) a where "rc = IO_OK" "mem = Some a" "ioGetHandler s t \<noteq> None"
      "s' = io_count_put (s\<lparr>gQueue := pl_append (gQueue s) a \<lparr>rq_type = t, rq_data = d\<rparr>\<rparr>) t"
  using ioPutRequest_result [OF assms] by blast

lemma io_count_put_fields [simp]:
  "gQueue (io_count_put s t) = gQueue s" "gRequestHandlers (io_count_put s t) = gRequestHandlers s"
  "gCalls (io_count_put s t) = gCalls s"
  by (simp_all add: io_count_put_def)

lemma io_count_done_fields [simp]:
  "gQueue (io_count_done s t) = gQueue s" "gRequestHandlers (io_count_done s t) = gRequestHandlers s"
  "gCalls (io_count_done s t) = gCalls s" "gIoTotal (io_count_done s t) = gIoTotal s"
  by (simp_all add: io_count_done_def)

lemma q_head_append: "q_repr q vs \<Longrightarrow> vs \<noteq> [] \<Longrightarrow> pl_head (pl_append q a v) = pl_head q"
  by (cases "pl_tail q") (auto simp: q_repr_def pl_append_def dest: pl_repr_tail_None)

lemma io_inv_put:
  assumes "io_inv tr (s, w) vs" "ioPutRequest s mem t d = Some (rc, s')"
    "\<And>a. mem = Some a \<Longrightarrow> pl_heap (gQueue s) a = None"
  shows "\<exists>vs'. io_inv (tr @ [LPut t d rc]) (s', w) vs'"
  using assms(2)
proof (cases rule: ioPutRequest_cases)
  case rejected
  then have "io_inv (tr @ [LPut t d rc]) (s', w) vs" using assms(1)
    by (simp add: io_inv_def inv_order_def inv_counts_def)
  then show ?thesis by blast
next
  case (queued a)
  let ?r = "\<lparr>rq_type = t, rq_data = d\<rparr>"
  have i: "inv_queue (s, w) vs" "inv_table s vs" "inv_order tr (s, w) vs" "inv_counts tr s vs"
    using assms(1) by (auto simp: io_inv_def)
  have fresh: "a \<notin> dom (pl_heap (gQueue s))" using assms(3) queued(2) by auto
  have t: "t \<in> fst ` set (gRequestHandlers s)"
    using queued(3) io_find_handler_None by (auto simp: ioGetHandler_def)
  have "inv_queue (s', w) (vs @ [?r])"
    using i(1) io_queue.repr_enq [OF _ fresh] queued(4)
    by (auto simp: inv_queue_def q_head_append split: io_phase.splits)
  moreover have "inv_table s' (vs @ [?r])" using i(2) t queued(4) by (auto simp: inv_table_def)
  moreover have "inv_order (tr @ [LPut t d rc]) (s', w) (vs @ [?r])"
    using i(1,3) queued(1,4) list_emb_append_mono [of "(=)" "called tr @ waiting w vs" "accepted tr" "[?r]" "[?r]"]
    by (auto simp: inv_order_def inv_queue_def waiting_def split: io_phase.splits)
  moreover have "inv_counts (tr @ [LPut t d rc]) s' (vs @ [?r])"
    using i(4) queued(4) counted_bound [of t] counted_nat_eq [of t]
    by (auto simp: inv_counts_def io_count_put_def nth_list_update)
  ultimately show ?thesis by (auto simp: io_inv_def)
qed

lemma io_inv_remove:
  assumes "io_inv tr (s, WSleep) vs" "ioRemoveRequests s t = Some (n, s')"
  shows "\<exists>vs'. io_inv (tr @ [LRemove t n]) (s', WSleep) vs'"
proof -
  let ?P = "\<lambda>r. rq_type r = t" and ?vs = "filter (\<lambda>r. rq_type r \<noteq> t) vs"
  have i: "inv_queue (s, WSleep) vs" "inv_table s vs" "inv_order tr (s, WSleep) vs" "inv_counts tr s vs"
    using assms(1) by (auto simp: io_inv_def)
  have q: "q_repr (gQueue s) vs" using i(1) by (simp add: inv_queue_def)
  obtain q' where q': "io_sift ?P (gQueue s) = Some (q', n)" "s' = s\<lparr>gQueue := q'\<rparr>"
    using assms(2) by (auto simp: ioRemoveRequests_def split: option.splits)
  have n: "n = length (filter ?P vs)" and r: "q_repr q' ?vs"
    using io_queue.sift_then_absent [OF q q'(1)] by auto
  have "subseq (called tr @ ?vs) (called tr @ vs)" by (simp add: list_emb_append_mono subseq_filter_left)
  then have "inv_order (tr @ [LRemove t n]) (s', WSleep) ?vs"
    using i(3) q'(2) subseq_order.order_trans by (fastforce simp: inv_order_def waiting_def)
  moreover have "inv_counts (tr @ [LRemove t n]) s' ?vs"
    using i(4) q'(2) n by (auto simp: inv_counts_def filter_filter intro!: arg_cong [where f = length] filter_cong)
  ultimately have "io_inv (tr @ [LRemove t n]) (s', WSleep) ?vs"
    using r i(2) q'(2) by (auto simp: io_inv_def inv_queue_def inv_table_def)
  then show ?thesis by blast
qed

lemma io_inv_call:
  assumes "io_inv tr (s, WTip) vs" "pl_head (gQueue s) = Some a" "pl_heap (gQueue s) a = Some (r, n)"
  shows "io_inv (tr @ [LCall r]) (ioProcessRequest s r, WRun a r) vs"
proof -
  have i: "inv_queue (s, WTip) vs" "inv_table s vs" "inv_order tr (s, WTip) vs" "inv_counts tr s vs"
    using assms(1) by (auto simp: io_inv_def)
  have q: "q_repr (gQueue s) vs" using i(1) by (simp add: inv_queue_def)
  have "io_tip (gQueue s) = Some r" using assms(2,3) by (simp add: io_tip_def)
  then obtain vs' where v: "vs = r # vs'"
    using io_queue.front_Nil io_queue.front_Cons q by (cases vs) fastforce+
  have "rq_type r \<in> fst ` set (gRequestHandlers s)" using i(2) v by (simp add: inv_table_def)
  then obtain f where f: "ioGetHandler s (rq_type r) = Some f"
    using io_find_handler_None unfolding ioGetHandler_def by (metis option.exhaust)
  then have p: "ioProcessRequest s r = s\<lparr>gCalls := gCalls s @ [(f, rq_data r)]\<rparr>"
    by (simp add: ioProcessRequest_def)
  have "inv_order (tr @ [LCall r]) (ioProcessRequest s r, WRun a r) vs"
    using i(3) v f unfolding p
    by (auto simp: inv_order_def waiting_def ioGetHandler_def intro!: list_all2_appendI)
  then show ?thesis using i v assms(2) unfolding p
    by (auto simp: io_inv_def inv_queue_def inv_table_def inv_counts_def)
qed

lemma io_inv_unlink:
  assumes "io_inv tr (s, WRun a r) vs"
  shows "io_inv (tr @ [LUnlink r]) (io_worker_unlink r s, WTip) (tl vs)"
proof -
  have i: "inv_queue (s, WRun a r) vs" "inv_table s vs" "inv_order tr (s, WRun a r) vs" "inv_counts tr s vs"
    using assms(1) by (auto simp: io_inv_def)
  obtain vs' where v: "vs = r # vs'" using i(1) by (cases vs) (auto simp: inv_queue_def)
  have q: "q_repr (gQueue s) (r # vs')" using i(1) v by (simp add: inv_queue_def)
  have c: "gIoPending (io_worker_unlink r s) =
      (if counted (rq_type r) then (gIoPending s)[nat (rq_type r) := gIoPending s ! nat (rq_type r) - 1]
       else gIoPending s)"
    using i(4) v by (auto simp: inv_counts_def io_worker_unlink_def io_count_done_def)
  have "inv_counts (tr @ [LUnlink r]) (io_worker_unlink r s) vs'"
    unfolding inv_counts_def c
    using i(4) v counted_bound counted_nat_eq [of "rq_type r"]
    by (auto simp: inv_counts_def nth_list_update io_worker_unlink_def)
  then show ?thesis using i(2,3) v io_queue.repr_deq [OF q]
    by (auto simp: io_inv_def inv_queue_def inv_table_def inv_order_def waiting_def io_worker_unlink_def)
qed

lemma io_inv_register:
  assumes "io_inv tr (s, WSleep) vs" "ioRegisterHandler s t h = (rc, s')"
  shows "io_inv (tr @ [LRegister t h rc]) (s', WSleep) vs"
proof -
  have "s' = s \<or> (\<exists>f. s' = s\<lparr>gRequestHandlers := gRequestHandlers s @ [(t, f)]\<rparr> \<and>
      length (gRequestHandlers s) < MAX_IO_HANDLERS \<and> t \<notin> fst ` set (gRequestHandlers s))"
    using assms(2) by (auto simp: ioRegisterHandler_def split: option.splits if_splits)
  note upd = this
  have mono: "io_find_handler (gRequestHandlers s) u = Some g \<Longrightarrow>
      io_find_handler (gRequestHandlers s') u = Some g" for u g
    using upd by (auto simp: io_find_handler_map_of map_add_def)
  have "list_all2 (\<lambda>call r. io_find_handler (gRequestHandlers s) (rq_type r) = Some (fst call)
      \<and> snd call = rq_data r) (gCalls s) (called tr)"
    using assms(1) by (simp add: io_inv_def inv_order_def)
  then have "list_all2 (\<lambda>call r. io_find_handler (gRequestHandlers s') (rq_type r) = Some (fst call)
      \<and> snd call = rq_data r) (gCalls s) (called tr)"
    by (rule list_all2_mono) (simp add: mono)
  then have "inv_order (tr @ [LRegister t h rc]) (s', WSleep) vs"
    using assms(1) upd by (auto simp: io_inv_def inv_order_def)
  moreover from upd assms(1) have "inv_table s' vs"
    by (auto simp: io_inv_def inv_table_def subset_iff image_subset_iff)
  ultimately show ?thesis using assms(1) upd
    by (auto simp: io_inv_def inv_queue_def inv_counts_def)
qed

text \<open>In every reachable state before the worker has ended, the invariant holds of some list of
  queued requests.\<close>

lemma io_inv_step:
  assumes "io_step c l c'" "io_inv tr c vs" "snd c' \<noteq> WDone"
  shows "\<exists>vs'. io_inv (tr @ [l]) c' vs'"
  using assms(1)
proof (cases rule: io_step.cases)
  case (Put s mem t d rc s' w)
  then show ?thesis using io_inv_put assms(2) by blast
next
  case (End s w)
  then have "io_inv (tr @ [l]) c' vs" using assms(2)
    by (simp add: ioEnd_def io_inv_def inv_queue_def inv_table_def inv_order_def inv_counts_def
        split: io_phase.splits)
  then show ?thesis by blast
next
  case (Block s w b)
  then have "io_inv (tr @ [l]) c' vs" using assms(2)
    by (simp add: io_inv_def inv_queue_def inv_table_def inv_order_def inv_counts_def
        split: io_phase.splits)
  then show ?thesis by blast
next
  case (Wake s)
  then have "io_inv (tr @ [l]) c' vs" using assms(2)
    by (simp add: io_inv_def inv_queue_def inv_order_def inv_counts_def waiting_def)
  then show ?thesis by blast
next
  case (Idle s)
  then have "io_inv (tr @ [l]) c' vs" using assms(2)
    by (simp add: io_inv_def inv_queue_def inv_order_def inv_counts_def waiting_def)
  then show ?thesis by blast
next
  case (Exit s s')
  then show ?thesis using assms(3) by simp
next
  case (Register s t h rc s')
  then show ?thesis using io_inv_register assms(2) by blast
next
  case (Remove s t n s')
  then show ?thesis using io_inv_remove assms(2) by blast
next
  case (Call s a r n)
  then show ?thesis using io_inv_call assms(2) by blast
next
  case (Unlink s a r)
  then show ?thesis using io_inv_unlink assms(2) by blast
qed

lemma io_done_final: "io_step (s, WDone) l c' \<Longrightarrow> snd c' = WDone"
  by (erule io_stepE) auto

lemma io_run_inv:
  assumes "io_run c tr c'" "c = io_start f" "snd c' \<noteq> WDone"
  shows "\<exists>vs. io_inv tr c' vs"
  using assms
proof (induction rule: io_run.induct)
  case (Init c)
  then show ?case using io_inv_start by blast
next
  case (Step c tr c' l c'')
  have "snd c' \<noteq> WDone" using Step.hyps(2) Step.prems(2) io_done_final by (cases c') auto
  then show ?case using Step io_inv_step by blast
qed

lemma io_reach_inv: "io_run (io_start f) tr (s, w) \<Longrightarrow> w \<noteq> WDone \<Longrightarrow> \<exists>vs. io_inv tr (s, w) vs"
  using io_run_inv by fastforce

section \<open>Draining and waiting\<close>

lemma io_worker_round_queue: "gQueue (io_worker_round r s) = io_unlink_tip (gQueue s)"
  by (simp add: io_worker_round_def io_worker_unlink_def ioProcessRequest_def split: option.splits)

lemma io_worker_round_term: "gIOTerminate (io_worker_round r s) = gIOTerminate s"
  by (simp add: io_worker_round_def io_worker_unlink_def ioProcessRequest_def io_count_done_def
      split: option.splits)

lemma io_worker_drain_fold:
  assumes "q_repr (gQueue s) vs" "\<not> gIOTerminate s"
  shows "io_worker_drain s = Some (fold io_worker_round vs s) \<and>
         q_repr (gQueue (fold io_worker_round vs s)) []"
proof (rule io_queue.drained_in_order [where good = "\<lambda>s. \<not> gIOTerminate s"])
  show "\<And>s. \<not> gIOTerminate s \<Longrightarrow> io_worker_drain s =
      (case io_tip (gQueue s) of None \<Rightarrow> Some s | Some v \<Rightarrow> io_worker_drain (io_worker_round v s))"
    by (subst io_worker_drain.simps) (simp split: option.splits)
qed (simp_all add: assms io_worker_round_queue io_worker_round_term)

lemma io_round_handlers: "gRequestHandlers (io_worker_round r s) = gRequestHandlers s"
  by (simp add: io_worker_round_def io_worker_unlink_def ioProcessRequest_def split: option.splits)

lemma io_rounds_calls:
  assumes "\<forall>r \<in> set vs. ioGetHandler s (rq_type r) \<noteq> None"
  shows "gCalls (fold io_worker_round vs s) =
    gCalls s @ map (\<lambda>r. (the (ioGetHandler s (rq_type r)), rq_data r)) vs"
  using assms
proof (induction vs arbitrary: s)
  case (Cons r vs)
  have h: "ioGetHandler (io_worker_round r s) t = ioGetHandler s t" for t
    by (simp add: ioGetHandler_def io_round_handlers)
  have "gCalls (io_worker_round r s) = gCalls s @ [(the (ioGetHandler s (rq_type r)), rq_data r)]"
    using Cons.prems by (auto simp: io_worker_round_def io_worker_unlink_def ioProcessRequest_def)
  then show ?case using Cons.IH [of "io_worker_round r s"] Cons.prems by (simp add: h)
qed simp

lemma q_repr_Nil_head: "q_repr q [] \<Longrightarrow> pl_head q = None \<and> pl_heap q = (\<lambda>_. None)"
  by (auto simp: q_repr_def pl_repr_def)

lemma q_repr_Cons_head: "q_repr q (v # vs) \<Longrightarrow> \<exists>a n. pl_head q = Some a \<and> pl_heap q a = Some (v, n)"
  by (auto simp: q_repr_def pl_repr_def)

lemma q_repr_exit:
  assumes "q_repr (gQueue s) vs"
  shows "io_worker_exit s =
    Some (s\<lparr>gQueue := (gQueue s)\<lparr>pl_head := None, pl_heap := (\<lambda>_. None)\<rparr>, isIORunning := False\<rparr>)"
proof -
  obtain xs where "pl_repr (gQueue s) xs" using assms by (auto simp: q_repr_def)
  from pl_free_all_repr [OF this] show ?thesis by (simp add: io_worker_exit_def)
qed

lemma ioPutRequest_returns:
  assumes "q_repr (gQueue s) vs"
  shows "ioPutRequest s mem t d \<noteq> None"
proof -
  obtain xs :: "(nat \<times> io_request) list" where xs: "pl_tail (gQueue s) = last_addr xs" "dom (pl_heap (gQueue s)) = fst ` set xs"
    using assms unfolding q_repr_def pl_repr_def by blast
  have "\<not> (case last_addr xs of None \<Rightarrow> False | Some e \<Rightarrow> pl_heap (gQueue s) e = None)"
  proof (cases "last_addr xs")
    case (Some e)
    then have "e \<in> dom (pl_heap (gQueue s))" using xs(2) last_addr_in by fastforce
    then show ?thesis using Some by (auto simp: dom_def)
  qed simp
  then have "\<not> (case pl_tail (gQueue s) of None \<Rightarrow> False | Some e \<Rightarrow> pl_heap (gQueue s) e = None)"
    by (simp add: xs(1))
  then show ?thesis unfolding ioPutRequest_def by (cases mem) auto
qed

lemma io_wait_idle_bounded:
  "0 \<le> k \<Longrightarrow> \<exists>n. io_wait_idle pend i k = Some n \<and> i \<le> n \<and> n \<le> i + nat k \<and>
     (pend n \<longrightarrow> n = i + nat k) \<and> (\<forall>j. i \<le> j \<and> j < n \<longrightarrow> pend j)"
proof (induction "nat k" arbitrary: k i)
  case 0
  then have "io_wait_idle pend i k = Some i" by (subst io_wait_idle.simps) simp
  then show ?case using 0 by auto
next
  case (Suc m)
  then have k: "m = nat (k - 1)" "0 \<le> k - 1" "0 < k" "nat k = Suc m" by auto
  show ?case
  proof (cases "pend i")
    case True
    obtain n where n: "io_wait_idle pend (Suc i) (k - 1) = Some n" "Suc i \<le> n" "n \<le> Suc i + m"
      "pend n \<longrightarrow> n = Suc i + m" "\<forall>j. Suc i \<le> j \<and> j < n \<longrightarrow> pend j"
      using Suc.hyps(1) [OF k(1,2), of "Suc i"] k(1) by auto
    have "pend j" if "i \<le> j" "j < n" for j using n(5) True that by (cases "j = i") auto
    then show ?thesis using n k(3,4) True by (simp add: io_wait_idle.simps [of pend i k])
  next
    case False
    then have "io_wait_idle pend i k = Some i" by (simp add: io_wait_idle.simps [of pend i k])
    then show ?thesis using False by auto
  qed
qed

lemma io_wait_idle_unbounded:
  "k < 0 \<Longrightarrow> \<not> pend (i + m) \<Longrightarrow> \<exists>n. io_wait_idle pend i k = Some n \<and> n \<le> i + m \<and> \<not> pend n"
proof (induction m arbitrary: i)
  case 0
  then show ?case by (simp add: io_wait_idle.simps [of pend i k])
next
  case (Suc m)
  then show ?case using Suc.IH [of "Suc i"] by (auto simp: io_wait_idle.simps [of pend i k])
qed

section \<open>Progress with concurrent callers\<close>

fun worker_label :: "io_label \<Rightarrow> bool" where
  "worker_label LWake = True"
| "worker_label (LCall _) = True"
| "worker_label (LUnlink _) = True"
| "worker_label LIdle = True"
| "worker_label LExit = True"
| "worker_label _ = False"

text \<open>One step seen from the requests: what is waiting grows at its end by what is accepted and shrinks at its
  front by what is called.\<close>

lemma io_step_flow:
  assumes "io_step c l c'" "inv_queue c vs" "\<not> gIOTerminate (fst c)" "\<forall>t n. l \<noteq> LRemove t n"
  shows "\<exists>vs'. inv_queue c' vs' \<and> waiting (snd c) vs @ accepted [l] = called [l] @ waiting (snd c') vs'"
  using assms(1)
proof (cases rule: io_step.cases)
  case (Put s mem t d rc s' w)
  show ?thesis using Put(4)
  proof (cases rule: ioPutRequest_cases)
    case rejected
    then show ?thesis using Put assms(2) by auto
  next
    case (queued a)
    let ?r = "\<lparr>rq_type = t, rq_data = d\<rparr>"
    have fresh: "a \<notin> dom (pl_heap (gQueue s))" using Put(6) queued(2) by auto
    have "inv_queue (s', w) (vs @ [?r])"
      using assms(2) Put(1) io_queue.repr_enq [OF _ fresh] queued(4)
      by (auto simp: inv_queue_def q_head_append split: io_phase.splits)
    moreover have "waiting w (vs @ [?r]) = waiting w vs @ [?r]"
      using assms(2) Put(1) by (auto simp: inv_queue_def waiting_def split: io_phase.splits)
    ultimately show ?thesis using Put queued(1) by (intro exI [of _ "vs @ [?r]"]) simp
  qed
next
  case (Call s a r n)
  have q: "q_repr (gQueue s) vs" using assms(2) Call(1) by (simp add: inv_queue_def)
  moreover have "io_tip (gQueue s) = Some r" using Call by (simp add: io_tip_def)
  ultimately obtain vs' where v: "vs = r # vs'" using io_queue.front_Nil io_queue.front_Cons by (cases vs) fastforce+
  then show ?thesis using Call q by (intro exI [of _ vs]) (auto simp: inv_queue_def waiting_def ioProcessRequest_def split: option.splits)
next
  case (Unlink s a r)
  then obtain vs' where v: "vs = r # vs'" "q_repr (gQueue s) (r # vs')" using assms(2) by (cases vs) (auto simp: inv_queue_def)
  then show ?thesis using Unlink io_queue.repr_deq [OF v(2)] by (intro exI [of _ vs']) (auto simp: inv_queue_def waiting_def io_worker_unlink_def)
qed (use assms(2-4) in \<open>auto simp: inv_queue_def waiting_def ioRegisterHandler_def ioEnd_def split: io_phase.splits option.splits if_splits\<close>)

lemma io_step_terminate:
  "io_step c l c' \<Longrightarrow> l \<noteq> LEnd \<Longrightarrow> gIOTerminate (fst c') = gIOTerminate (fst c)"
  by (erule io_stepE) (auto simp: ioRegisterHandler_def ioPutRequest_def io_count_put_def ioRemoveRequests_def
      ioProcessRequest_def io_worker_unlink_def io_count_done_def io_worker_exit_def split: option.splits if_splits)

lemma io_step_alive: "io_step c l c' \<Longrightarrow> \<not> gIOTerminate (fst c) \<Longrightarrow> snd c \<noteq> WDone \<Longrightarrow> snd c' \<noteq> WDone"
  by (erule io_stepE) auto

text \<open>Steps the worker needs, at most, until the last of \<open>k\<close> waiting requests has been called.\<close>

definition due :: "io_phase \<Rightarrow> nat \<Rightarrow> nat" where
  "due w k = (case w of WTip \<Rightarrow> 2 * k - 1 | _ \<Rightarrow> 2 * k)"

lemma due_le: "due w k \<le> 2 * k"
  by (simp add: due_def split: io_phase.splits)

lemma due_pos: "0 < k \<Longrightarrow> 0 < due w k"
  by (simp add: due_def split: io_phase.splits)

lemma io_step_due:
  assumes "io_step c l c'" "\<not> gIOTerminate (fst c)" "0 < k" "pl_head (gQueue (fst c)) \<noteq> None \<or> l \<noteq> LIdle"
  shows "(if worker_label l then 1 else 0) + due (snd c') (k - length (called [l])) \<le> due (snd c) k"
  using assms by (cases rule: io_step.cases) (auto simp: due_def split: io_phase.splits)

lemma io_run_flow:
  assumes "io_run c tr c'" "LEnd \<notin> set tr" "\<forall>t n. LRemove t n \<notin> set tr"
    and "inv_queue c vs" "snd c \<noteq> WDone" "\<not> gIOTerminate (fst c)"
  shows "\<exists>vs'. inv_queue c' vs' \<and> snd c' \<noteq> WDone \<and> \<not> gIOTerminate (fst c') \<and>
    waiting (snd c) vs @ accepted tr = called tr @ waiting (snd c') vs' \<and>
    (length (waiting (snd c) vs) \<le> length (called tr) \<or>
     length (filter worker_label tr) + due (snd c') (length (waiting (snd c) vs) - length (called tr)) \<le> 2 * length (waiting (snd c) vs))"
  using assms
proof (induction rule: io_run.induct)
  case (Init c)
  then show ?case using due_le by auto
next
  case (Step c tr c' l c'')
  obtain vs' where i: "inv_queue c' vs'" "snd c' \<noteq> WDone" "\<not> gIOTerminate (fst c')"
    "waiting (snd c) vs @ accepted tr = called tr @ waiting (snd c') vs'"
    "length (waiting (snd c) vs) \<le> length (called tr) \<or>
     length (filter worker_label tr) + due (snd c') (length (waiting (snd c) vs) - length (called tr)) \<le> 2 * length (waiting (snd c) vs)"
    using Step.IH Step.prems by auto
  have l: "l \<noteq> LEnd" "\<forall>t n. l \<noteq> LRemove t n" using Step.prems(1,2) by auto
  obtain vs'' where f: "inv_queue c'' vs''" "waiting (snd c') vs' @ accepted [l] = called [l] @ waiting (snd c'') vs''"
    using io_step_flow [OF Step.hyps(2) i(1,3) l(2)] by blast
  have order: "waiting (snd c) vs @ accepted (tr @ [l]) = called (tr @ [l]) @ waiting (snd c'') vs''"
    using i(4) f(2) by (simp del: accepted.simps called.simps) (metis append.assoc)
  let ?k = "length (waiting (snd c) vs) - length (called tr)"
  have "length (waiting (snd c) vs) \<le> length (called (tr @ [l])) \<or>
     length (filter worker_label (tr @ [l])) + due (snd c'') (length (waiting (snd c) vs) - length (called (tr @ [l]))) \<le> 2 * length (waiting (snd c) vs)"
  proof (cases "?k = 0")
    case False
    have "waiting (snd c') vs' \<noteq> []"
      using False arg_cong [OF i(4), of length] by auto
    then have "vs' \<noteq> []" by (auto simp: waiting_def split: io_phase.splits)
    then have "pl_head (gQueue (fst c')) \<noteq> None \<or> l \<noteq> LIdle"
      using i(1) q_repr_Cons_head unfolding inv_queue_def by (metis neq_Nil_conv option.distinct(1))
    from io_step_due [OF Step.hyps(2) i(3) _ this, of ?k] False i(5) show ?thesis
      by (auto simp del: called.simps accepted.simps split: if_splits)
  qed simp
  then show ?case using f(1) order io_step_terminate [OF Step.hyps(2) l(1)] io_step_alive [OF Step.hyps(2) i(3,2)] i(3) by blast
qed

lemma io_worker_enabled:
  assumes "inv_queue (s, w) vs" "w \<noteq> WDone" "\<not> gIOTerminate s" "ioHasPendingRequests s"
  shows "\<exists>l c. worker_label l \<and> io_step (s, w) l c"
proof (cases w)
  case WSleep
  then show ?thesis using assms(3) io_step.Wake worker_label.simps(1) by blast
next
  case WTip
  have q: "q_repr (gQueue s) vs" using assms(1) by (simp add: inv_queue_def)
  then obtain v vs' where "vs = v # vs'" using assms(4) q_repr_Nil_head [of "gQueue s"] by (cases vs) (auto simp: ioHasPendingRequests_def)
  then obtain a n where "pl_head (gQueue s) = Some a" "pl_heap (gQueue s) a = Some (v, n)"
    using q q_repr_Cons_head [of "gQueue s" v vs'] by blast
  then show ?thesis using WTip assms(3) io_step.Call worker_label.simps(2) by blast
next
  case (WRun a r)
  then show ?thesis using io_step.Unlink worker_label.simps(3) by blast
qed (use assms(2) in simp)

text \<open>Runs compose, handlers stay registered, and the calls of a run are those of its trace.\<close>

lemma io_run_append: "io_run c' tr' c'' \<Longrightarrow> io_run c tr c' \<Longrightarrow> io_run c (tr @ tr') c''"
proof (induction rule: io_run.induct)
  case (Step c' tr' c'' l c3)
  then show ?case using io_run.Step [of c "tr @ tr'" c'' l c3] by simp
qed simp

lemma io_step_handler:
  "io_step c l c' \<Longrightarrow> ioGetHandler (fst c) t = Some g \<Longrightarrow> ioGetHandler (fst c') t = Some g"
  by (erule io_stepE) (auto simp: ioGetHandler_def ioRegisterHandler_def ioPutRequest_def io_count_put_def ioRemoveRequests_def
      ioProcessRequest_def io_worker_unlink_def io_worker_exit_def ioEnd_def io_find_handler_map_of map_add_def split: option.splits if_splits)

lemma io_run_handler: "io_run c tr c' \<Longrightarrow> ioGetHandler (fst c) t = Some g \<Longrightarrow> ioGetHandler (fst c') t = Some g"
  by (induction rule: io_run.induct) (auto dest: io_step_handler)

lemma io_inv_calls:
  assumes "io_inv tr (s, w) vs"
  shows "gCalls s = map (\<lambda>r. (the (ioGetHandler s (rq_type r)), rq_data r)) (called tr) \<and>
    (\<forall>r \<in> set (called tr) \<union> set vs. ioGetHandler s (rq_type r) \<noteq> None)"
proof -
  have a: "list_all2 (\<lambda>call r. ioGetHandler s (rq_type r) = Some (fst call) \<and> snd call = rq_data r) (gCalls s) (called tr)"
    using assms by (simp add: io_inv_def inv_order_def ioGetHandler_def)
  have "\<forall>r \<in> set vs. ioGetHandler s (rq_type r) \<noteq> None"
    using assms unfolding io_inv_def inv_table_def ioGetHandler_def io_find_handler_None by auto
  moreover have "xs = map (\<lambda>r. (the (ioGetHandler s (rq_type r)), rq_data r)) ys \<and> (\<forall>r \<in> set ys. ioGetHandler s (rq_type r) \<noteq> None)"
    if "list_all2 (\<lambda>call r. ioGetHandler s (rq_type r) = Some (fst call) \<and> snd call = rq_data r) xs ys" for xs ys
    using that by (induction rule: list_all2_induct) auto
  ultimately show ?thesis using a by blast
qed

lemma io_run_calls:
  assumes "io_inv tr (s, w) vs" "io_run (io_start f) tr (s, w)" "w \<noteq> WDone" "io_run (s, w) tr' (s', w')" "w' \<noteq> WDone"
    and "called tr' = waiting w vs @ rest"
  shows "\<exists>more. gCalls s' = gCalls s @ map (\<lambda>r. (the (ioGetHandler s (rq_type r)), rq_data r)) (waiting w vs) @ more"
proof -
  obtain vs' where "io_inv (tr @ tr') (s', w') vs'" using io_reach_inv [OF io_run_append [OF assms(4,2)] assms(5)] by blast
  note c = io_inv_calls [OF assms(1)] io_inv_calls [OF this]
  have "ioGetHandler s' (rq_type r) = ioGetHandler s (rq_type r)" if r: "r \<in> set (called tr) \<union> set vs" for r
  proof -
    obtain g where g: "ioGetHandler s (rq_type r) = Some g" using c(1) r by blast
    then show ?thesis using io_run_handler [OF assms(4), of "rq_type r" g] by simp
  qed
  moreover have "set (waiting w vs) \<subseteq> set vs" by (cases vs) (auto simp: waiting_def split: io_phase.splits)
  ultimately show ?thesis using c assms(6) by auto
qed

lemma q_repr_unique:
  assumes "q_repr q vs" "q_repr q vs'"
  shows "vs = vs'"
proof -
  have "xs = ys" if "chain h p xs None" "chain h p ys None" for h :: "nat \<Rightarrow> ('a \<times> ptr) option" and p xs ys
    using that
  proof (induction xs arbitrary: p ys)
    case Nil
    then show ?case by (cases ys) auto
  next
    case (Cons x xs)
    then show ?case by (cases x; cases ys) auto
  qed
  then show ?thesis using assms unfolding q_repr_def pl_repr_def by metis
qed

section \<open>Properties\<close>

text \<open>A run used as the concrete instance of the properties below: one request is put while the
  worker sleeps.\<close>

definition sample_trace :: "io_label list" where
  "sample_trace = [LPut 1 (Some 3) IO_OK]"

definition sample_io :: io_state where
  "sample_io = snd (the (ioPutRequest (fst (io_start 7)) (Some 100) 1 (Some 3)))"

lemma sample_put: "ioPutRequest (fst (io_start 7)) (Some 100) 1 (Some 3) = Some (IO_OK, sample_io)"
  by (simp add: sample_io_def ioPutRequest_def io_start_def ioInit_def io_boot_def pl_empty_def
      ioRegisterHandler_def IO_CUSTOM_SIMPLEACTION_def MAX_IO_HANDLERS_def ioGetHandler_def)

lemma sample_run: "io_run (io_start 7) sample_trace (sample_io, WSleep)"
proof -
  have s: "io_start 7 = (fst (io_start 7), WSleep)" by (simp add: io_start_def)
  have "pl_heap (gQueue (fst (io_start 7))) 100 = None" by (simp add: io_start_fields pl_empty_def)
  then have "io_step (fst (io_start 7), WSleep) (LPut 1 (Some 3) IO_OK) (sample_io, WSleep)"
    using sample_put by (auto intro: io_step.Put)
  then have "io_step (io_start 7) (LPut 1 (Some 3) IO_OK) (sample_io, WSleep)" using s by simp
  then show ?thesis using io_run.Step [OF io_run.Init] by (simp add: sample_trace_def)
qed

lemma sample_io_eq: "sample_io = \<lparr>gIOTerminate = False,
    gQueue = \<lparr>pl_head = Some 100, pl_tail = Some 100,
      pl_heap = (\<lambda>_. None)(100 \<mapsto> (\<lparr>rq_type = 1, rq_data = Some 3\<rparr>, None))\<rparr>,
    gRequestHandlers = [(1, 7)], gIoPending = [0, 1, 0, 0, 0], gIoTotal = [0, 1, 0, 0, 0],
    isIOBlocked = False, isIORunning = True, gCalls = []\<rparr>"
  by (simp add: sample_io_def ioPutRequest_def io_start_def ioInit_def io_boot_def pl_empty_def
      ioRegisterHandler_def IO_CUSTOM_SIMPLEACTION_def MAX_IO_HANDLERS_def ioGetHandler_def
      io_count_put_def counted_def IO_REQ_TYPE_COUNT_def pl_append_def eval_nat_numeral)

lemma sample_repr: "q_repr (gQueue sample_io) [\<lparr>rq_type = 1, rq_data = Some 3\<rparr>]"
  unfolding q_repr_def
  by (rule exI [of _ "[(100, \<lparr>rq_type = 1, rq_data = Some 3\<rparr>)]"])
    (simp add: sample_io_eq pl_repr_def last_addr_def)

lemma sample_follow:
  "\<exists>s' w'. io_run (sample_io, WSleep) [LWake, LPut 1 (Some 4) IO_OK, LCall \<lparr>rq_type = 1, rq_data = Some 3\<rparr>] (s', w') \<and>
     ioHasPendingRequests s'"
proof -
  let ?r = "\<lparr>rq_type = 1, rq_data = Some 3\<rparr>"
  obtain s1 where p: "ioPutRequest sample_io (Some 101) 1 (Some 4) = Some (IO_OK, s1)"
    and s1: "\<not> gIOTerminate s1" "pl_head (gQueue s1) = Some 100" "\<exists>n. pl_heap (gQueue s1) 100 = Some (?r, n)"
    by (simp add: sample_io_eq ioPutRequest_def ioGetHandler_def io_count_put_def counted_def IO_REQ_TYPE_COUNT_def pl_append_def set_next_def)
  have "io_run (sample_io, WSleep) ([] @ [LWake]) (sample_io, WTip)"
    by (intro io_run.Step [OF io_run.Init] io_step.Wake) (simp add: sample_io_eq)
  then have "io_run (sample_io, WSleep) (([] @ [LWake]) @ [LPut 1 (Some 4) IO_OK]) (s1, WTip)"
    using p by (rule io_run.Step [OF _ io_step.Put]) (simp_all add: sample_io_eq)
  then have "io_run (sample_io, WSleep) ((([] @ [LWake]) @ [LPut 1 (Some 4) IO_OK]) @ [LCall ?r]) (ioProcessRequest s1 ?r, WRun 100 ?r)"
    using s1 by (blast intro: io_run.Step io_step.Call)
  moreover have "ioHasPendingRequests (ioProcessRequest s1 ?r)"
    using s1(2) by (simp add: ioHasPendingRequests_def ioProcessRequest_def split: option.splits)
  ultimately show ?thesis by auto
qed

text \<open>C1. First in, first out: in every reachable state the handlers called so far followed by the
  requests still waiting are a subsequence of the requests accepted, in the order in which they
  were put; when nothing has been removed they are exactly those.  Every call went to the handler
  registered for the request's type, with the request's data.\<close>

theorem io_fifo:
  assumes "io_run (io_start f) tr (s, w)" and "w \<noteq> WDone"
  shows "\<exists>vs. q_repr (gQueue s) vs \<and>
    subseq (called tr @ waiting w vs) (accepted tr) \<and>
    ((\<forall>t n. LRemove t n \<notin> set tr) \<longrightarrow> accepted tr = called tr @ waiting w vs) \<and>
    list_all2 (\<lambda>call r. ioGetHandler s (rq_type r) = Some (fst call) \<and> snd call = rq_data r)
      (gCalls s) (called tr)"
proof -
  obtain vs where "io_inv tr (s, w) vs" using io_reach_inv [OF assms] by blast
  then show ?thesis
    by (intro exI [of _ vs]) (simp add: io_inv_def inv_queue_def inv_order_def ioGetHandler_def)
qed

theorem io_fifo_witness:
  "\<exists>vs. q_repr (gQueue sample_io) vs \<and> accepted sample_trace = called sample_trace @ waiting WSleep vs"
  using io_fifo [OF sample_run] by (auto simp: sample_trace_def)

text \<open>C29. No operation of the I/O manager follows a dangling pointer or loops before the worker has
  ended: in every reachable state \<open>ioPutRequest\<close>, \<open>ioRemoveRequests\<close> (with the exact number of
  matching requests), the worker's exit and a locked count of the queue all return.  The handler
  table stays within its 64 entries, one per type.\<close>

theorem io_memory_safe:
  assumes "io_run (io_start f) tr (s, w)" and "w \<noteq> WDone"
  shows "\<exists>vs. q_repr (gQueue s) vs \<and>
    (\<forall>mem t d. ioPutRequest s mem t d \<noteq> None) \<and>
    (\<forall>t. \<exists>q. ioRemoveRequests s t = Some (length (filter (\<lambda>r. rq_type r = t) vs), s\<lparr>gQueue := q\<rparr>) \<and>
       q_repr q (filter (\<lambda>r. rq_type r \<noteq> t) vs)) \<and>
    io_worker_exit s \<noteq> None \<and>
    ioGetPendingRequestCount s s = Some (length vs) \<and>
    length (gRequestHandlers s) \<le> 64 \<and> distinct (map fst (gRequestHandlers s))"
proof -
  obtain vs where i: "io_inv tr (s, w) vs" using io_reach_inv [OF assms] by blast
  then have q: "q_repr (gQueue s) vs" by (simp add: io_inv_def inv_queue_def)
  then obtain xs where xs: "pl_repr (gQueue s) xs" "map snd xs = vs" by (auto simp: q_repr_def)
  have "ioPutRequest s mem t d \<noteq> None" for mem t d
    using q by (rule ioPutRequest_returns)
  moreover have "\<exists>q. ioRemoveRequests s t = Some (length (filter (\<lambda>r. rq_type r = t) vs), s\<lparr>gQueue := q\<rparr>) \<and>
       q_repr q (filter (\<lambda>r. rq_type r \<noteq> t) vs)" for t
    using io_queue.repr_sift [OF q, of "\<lambda>r. rq_type r = t"] by (auto simp: ioRemoveRequests_def)
  moreover have "ioGetPendingRequestCount s s = Some (length vs)"
    using io_walk_repr [of "gQueue s" "pl_head (gQueue s)" xs 0] xs
    by (auto simp: ioGetPendingRequestCount_def pl_repr_def)
  ultimately show ?thesis using i q q_repr_exit [OF q]
    by (auto simp: io_inv_def inv_table_def MAX_IO_HANDLERS_def)
qed

theorem io_memory_safe_witness:
  "\<exists>vs. q_repr (gQueue sample_io) vs \<and> ioGetPendingRequestCount sample_io sample_io = Some (length vs)"
  using io_memory_safe [OF sample_run] by auto

text \<open>The drain on its own, when nothing is put meanwhile: it ends, leaves the queue empty, and has called
  exactly the handlers of the waiting requests, each with its data, oldest first.\<close>

lemma io_drain_completes:
  assumes "io_run (io_start f) tr (s, w)" and "w \<noteq> WDone" and "\<not> gIOTerminate s"
  shows "\<exists>vs s'. q_repr (gQueue s) vs \<and> io_worker_drain s = Some s' \<and> \<not> ioHasPendingRequests s' \<and>
    gCalls s' = gCalls s @ map (\<lambda>r. (the (ioGetHandler s (rq_type r)), rq_data r)) vs"
proof -
  obtain vs where i: "io_inv tr (s, w) vs" using io_reach_inv [OF assms(1,2)] by blast
  then have q: "q_repr (gQueue s) vs" by (simp add: io_inv_def inv_queue_def)
  have h: "\<forall>r \<in> set vs. ioGetHandler s (rq_type r) \<noteq> None"
    using i unfolding io_inv_def inv_table_def ioGetHandler_def io_find_handler_None by auto
  show ?thesis
    using io_worker_drain_fold [OF q assms(3)] q io_rounds_calls [OF h] q_repr_Nil_head
    by (auto simp: ioHasPendingRequests_def)
qed

lemma io_drain_completes_witness:
  "\<exists>s'. io_worker_drain sample_io = Some s' \<and> \<not> ioHasPendingRequests s'"
  using io_drain_completes [OF sample_run] by (auto simp: sample_io_eq)



text \<open>The pending counter of a type is the number of queued requests of that type plus every
  request of that type that \<open>ioRemoveRequests\<close> has ever deleted: deletion does not count down, so
  the diagnostic display never returns to zero afterwards.\<close>

lemma io_pending_counter:
  assumes "io_run (io_start f) tr (s, w)" and "w \<noteq> WDone" and "counted t"
  shows "\<exists>vs. q_repr (gQueue s) vs \<and>
    ioGetPending s t = int (length (filter (\<lambda>r. rq_type r = t) vs) + removed t tr)"
proof -
  obtain vs where "io_inv tr (s, w) vs" using io_reach_inv [OF assms(1,2)] by blast
  then show ?thesis using assms(3)
    by (intro exI [of _ vs]) (simp add: io_inv_def inv_queue_def inv_counts_def ioGetPending_def)
qed

lemma io_pending_counter_witness:
  "\<exists>vs. q_repr (gQueue sample_io) vs \<and>
    ioGetPending sample_io 1 = int (length (filter (\<lambda>r. rq_type r = 1) vs) + removed 1 sample_trace)"
  by (rule io_pending_counter [OF sample_run]) (simp_all add: counted_def IO_REQ_TYPE_COUNT_def)

text \<open>\<open>ioGetPendingRequestCount\<close> reads the head of the queue before it owns the semaphore: when
  the worker drains a non-empty queue in between, the walk starts at a freed node.\<close>

lemma io_count_race:
  assumes "q_repr (gQueue s) (v # vs)" and "\<not> gIOTerminate s"
  shows "\<exists>s'. io_worker_drain s = Some s' \<and> ioGetPendingRequestCount s s' = None"
proof -
  obtain a n where h: "pl_head (gQueue s) = Some a" using q_repr_Cons_head [OF assms(1)] by blast
  let ?s = "fold io_worker_round (v # vs) s"
  have d: "io_worker_drain s = Some ?s" "pl_heap (gQueue ?s) = (\<lambda>_. None)"
    using io_worker_drain_fold [OF assms] q_repr_Nil_head by auto
  have "ioGetPendingRequestCount s ?s = None"
    unfolding ioGetPendingRequestCount_def h by (subst io_walk.simps) (simp del: fold.simps add: d(2))
  with d(1) show ?thesis by blast
qed

lemma io_count_race_witness:
  "\<exists>s'. io_worker_drain sample_io = Some s' \<and> ioGetPendingRequestCount sample_io s' = None"
  by (rule io_count_race [OF sample_repr]) (simp add: sample_io_eq)

text \<open>When the worker ends with requests still queued it frees them but leaves \<^verbatim>\<open>gReqEnd\<close>
  pointing at the last one, so the next \<open>ioPutRequest\<close> that gets past its checks stores through a
  freed node.\<close>

lemma io_put_after_exit:
  assumes "q_repr (gQueue s) (v # vs)" and "\<not> isIOBlocked s" and "ioGetHandler s t \<noteq> None"
  shows "\<exists>s'. io_worker_exit s = Some s' \<and> ioPutRequest s' (Some a) t d = None"
proof -
  obtain e where "pl_tail (gQueue s) = Some e"
    using assms(1) by (auto simp: q_repr_def pl_repr_def last_addr_def)
  then show ?thesis using q_repr_exit [OF assms(1)] assms(2,3)
    by (simp add: ioPutRequest_def ioGetHandler_def)
qed

text \<open>\<open>ioBlockOpsTimed\<close> with a non-negative bound always returns, after at most that many
  delays, and with requests still pending only when the whole bound is used up; without a bound it
  returns as soon as the queue has been seen empty.  On every path the caller's priority is put
  back when it could be read, and from then on every request is refused.\<close>

lemma io_block_ops:
  assumes "\<not> isIOBlocked s" and "0 \<le> k \<or> (\<exists>m. \<not> pend m)"
  shows "\<exists>n. ioBlockOpsTimed s True k pend (Some p) = Some (s\<lparr>isIOBlocked := True\<rparr>, n, [90, p]) \<and>
    (0 \<le> k \<longrightarrow> n \<le> nat k) \<and> (pend n \<longrightarrow> 0 \<le> k \<and> n = nat k) \<and>
    (\<forall>mem t d. ioPutRequest (s\<lparr>isIOBlocked := True\<rparr>) mem t d =
       Some (IO_ERR_IO_BLOCKED, s\<lparr>isIOBlocked := True\<rparr>))"
proof -
  have "\<exists>n. io_wait_idle pend 0 k = Some n \<and> (0 \<le> k \<longrightarrow> n \<le> nat k) \<and> (pend n \<longrightarrow> 0 \<le> k \<and> n = nat k)"
  proof (cases "0 \<le> k")
    case True
    then show ?thesis using io_wait_idle_bounded [of k pend 0] by auto
  next
    case False
    then show ?thesis using io_wait_idle_unbounded [of k pend 0] assms(2) by auto
  qed
  then show ?thesis using assms(1) by (auto simp: ioBlockOpsTimed_def ioPutRequest_def)
qed

lemma io_block_ops_witness:
  "\<exists>n. ioBlockOpsTimed sample_io True 2 (\<lambda>_. True) (Some 31) =
     Some (sample_io\<lparr>isIOBlocked := True\<rparr>, n, [90, 31]) \<and> n = 2"
  using io_block_ops [of sample_io 2 "\<lambda>_. True" 31] by (auto simp: sample_io_eq)

end
