(* ===== verification/ConfigStore.thy ===== *)
theory ConfigStore
  imports Util LinkedList
begin

text \<open>
  The in-memory configuration sets of \<^verbatim>\<open>src/config.c\<close>: typed sets of key/value strings with
  bounded fields, looked up by \<^verbatim>\<open>strncmp\<close>, with typed accessors (integers, colours, virtual memory
  cards) on top.

  A set is a record; its linked list of items is the list \<open>cs_items\<close>.  The pointer code of
  \<^verbatim>\<open>addConfigValue\<close>, \<^verbatim>\<open>getConfigItemForName\<close>, \<^verbatim>\<open>configRemoveKey\<close> and \<^verbatim>\<open>configClear\<close> is modelled a second time
  over explicit heap nodes at the end of the definitions (\<open>_ptr\<close>), and refines the list version.

  \<open>mem n\<close> says whether the allocation of an item succeeds when the set already holds \<open>n\<close> items.
  The \<open>string_store\<close> locale states what the accessors rely on; it is interpreted on the operations
  below with allocation succeeding.
\<close>

definition CONFIG_KEY_NAME_LEN :: nat where "CONFIG_KEY_NAME_LEN = 32"
definition CONFIG_KEY_VALUE_LEN :: nat where "CONFIG_KEY_VALUE_LEN = 256"

lemmas cfg_lens = CONFIG_KEY_NAME_LEN_def CONFIG_KEY_VALUE_LEN_def

record config_value =
  cv_key :: cstring
  cv_val :: cstring

datatype cfg_format = CFG_FMT_LEGACY | CFG_FMT_LIBCONFIG

record config_set =
  cs_type :: int
  cs_items :: "config_value list"
  cs_filename :: "cstring option"
  cs_modified :: bool
  cs_format :: cfg_format
  cs_uid :: u32

section \<open>Colours\<close>

fun strToColor_loop :: "cstring \<Rightarrow> nat \<Rightarrow> nat \<Rightarrow> u8 list \<Rightarrow> u8 list" where
  "strToColor_loop [] cnt n color = color"
| "strToColor_loop (c # string) cnt n color =
     (let fh = fromHex c in
      if 0 \<le> fh then
        (if 3 \<le> n then color
         else let color' = color[n := color ! n * 16 + of_int fh] in
           if cnt = 1 then strToColor_loop string 0 (Suc n) color'
           else strToColor_loop string (Suc cnt) n color')
      else color)"

definition strToColor :: "cstring \<Rightarrow> bool \<times> u8 list" where
  "strToColor string =
     (if string = [] then (False, [0, 0, 0])
      else if hd string \<noteq> CHR ''#'' then (False, [0, 0, 0])
      else (True, strToColor_loop (tl string) 0 0 [0, 0, 0]))"

definition show_hex2 :: "u8 \<Rightarrow> cstring" where
  "show_hex2 b = [''0123456789ABCDEF'' ! (unat b div 16), ''0123456789ABCDEF'' ! (unat b mod 16)]"

section \<open>Items\<close>

definition configKeyValidate :: "cstring \<Rightarrow> bool" where
  "configKeyValidate key \<longleftrightarrow> key \<noteq> [] \<and> CHR ''='' \<notin> set key"

definition starts_hash :: "cstring \<Rightarrow> bool" where
  "starts_hash key \<longleftrightarrow> (case key of [] \<Rightarrow> False | c # _ \<Rightarrow> c = CHR ''#'')"

definition allocConfigItem :: "bool \<Rightarrow> cstring \<Rightarrow> cstring \<Rightarrow> config_value option" where
  "allocConfigItem ok key val =
     (if ok then Some \<lparr>cv_key = bounded CONFIG_KEY_NAME_LEN key, cv_val = bounded CONFIG_KEY_VALUE_LEN val\<rparr>
      else None)"

definition addConfigValue :: "(nat \<Rightarrow> bool) \<Rightarrow> config_set \<Rightarrow> cstring \<Rightarrow> cstring \<Rightarrow> config_set" where
  "addConfigValue mem configSet key val =
     (case allocConfigItem (mem (length (cs_items configSet))) key val of
        None \<Rightarrow> configSet
      | Some it \<Rightarrow> configSet\<lparr>cs_items := cs_items configSet @ [it]\<rparr>)"

definition item_matches :: "cstring \<Rightarrow> config_value \<Rightarrow> bool" where
  "item_matches name it \<longleftrightarrow> strncmp_eq CONFIG_KEY_NAME_LEN (cv_key it) name"

fun find_item :: "config_value list \<Rightarrow> cstring \<Rightarrow> config_value option" where
  "find_item [] name = None"
| "find_item (it # its) name = (if item_matches name it then Some it else find_item its name)"

definition getConfigItemForName :: "config_set \<Rightarrow> cstring \<Rightarrow> config_value option" where
  "getConfigItemForName configSet name = find_item (cs_items configSet) name"

text \<open>The store through the pointer \<^verbatim>\<open>getConfigItemForName\<close> returned: the first match changes.\<close>

fun store_item :: "config_value list \<Rightarrow> cstring \<Rightarrow> cstring \<Rightarrow> config_value list" where
  "store_item [] name v = []"
| "store_item (it # its) name v =
     (if item_matches name it then it\<lparr>cv_val := bounded CONFIG_KEY_VALUE_LEN v\<rparr> # its
      else it # store_item its name v)"

section \<open>Sets\<close>

text \<open>\<open>old\<close> is the caller's structure (\<open>None\<close> asks for a fresh one), \<open>mem_set\<close> and \<open>mem_name\<close> are the
  outcomes of the two allocations.  The result is the new value of \<^verbatim>\<open>currentUID\<close>, the structure
  (\<open>None\<close> when there is none or it was freed), and whether a non-NULL pointer is returned.\<close>

definition configAlloc ::
    "u32 \<Rightarrow> bool \<Rightarrow> bool \<Rightarrow> int \<Rightarrow> config_set option \<Rightarrow> cstring option \<Rightarrow> u32 \<times> config_set option \<times> bool" where
  "configAlloc currentUID mem_set mem_name type old fileName =
     (if old = None \<and> \<not> mem_set then (currentUID, None, False)
      else
        let uid = currentUID + 1;
            cs = \<lparr>cs_type = type, cs_items = [], cs_filename = (if mem_name then fileName else None),
                  cs_modified = (case old of None \<Rightarrow> False | Some o' \<Rightarrow> cs_modified o'),
                  cs_format = CFG_FMT_LEGACY, cs_uid = uid\<rparr>
        in if fileName \<noteq> None \<and> \<not> mem_name
           then (uid, (if old = None then None else Some cs), False)
           else (uid, Some (cs\<lparr>cs_modified := False\<rparr>), True))"

definition configMove :: "bool \<Rightarrow> config_set \<Rightarrow> cstring \<Rightarrow> config_set" where
  "configMove mem configSet fileName =
     (if mem then configSet\<lparr>cs_filename := Some fileName\<rparr> else configSet)"

definition configClear :: "config_set \<Rightarrow> config_set" where
  "configClear configSet = configSet\<lparr>cs_items := [], cs_modified := True\<rparr>"

definition configClone ::
    "(nat \<Rightarrow> bool) \<Rightarrow> u32 \<Rightarrow> bool \<Rightarrow> bool \<Rightarrow> config_set option \<Rightarrow> u32 \<times> config_set option" where
  "configClone mem currentUID mem_set mem_name src =
     (case src of
        None \<Rightarrow> (currentUID, None)
      | Some s \<Rightarrow>
          (case configAlloc currentUID mem_set mem_name (cs_type s) None (cs_filename s) of
             (uid, Some dst, True) \<Rightarrow>
               (uid, Some ((fold (\<lambda>it d. addConfigValue mem d (cv_key it) (cv_val it)) (cs_items s) dst)
                            \<lparr>cs_modified := False\<rparr>))
           | (uid, _, _) \<Rightarrow> (uid, None)))"

fun configGetByType :: "config_set list \<Rightarrow> int \<Rightarrow> config_set option" where
  "configGetByType [] type = None"
| "configGetByType (cs # configFiles) type =
     (if cs_type cs = type then Some cs else configGetByType configFiles type)"

section \<open>Accessors\<close>

definition configSetStr ::
    "(nat \<Rightarrow> bool) \<Rightarrow> config_set \<Rightarrow> cstring \<Rightarrow> cstring \<Rightarrow> bool \<times> config_set" where
  "configSetStr mem configSet key val =
     (if \<not> configKeyValidate key then (False, configSet)
      else case getConfigItemForName configSet key of
        Some it \<Rightarrow>
          (True,
           if \<not> strncmp_eq CONFIG_KEY_VALUE_LEN (cv_val it) val
           then configSet\<lparr>cs_items := store_item (cs_items configSet) key val,
                          cs_modified := (if \<not> starts_hash (cv_key it) then True else cs_modified configSet)\<rparr>
           else configSet)
      | None \<Rightarrow>
          (True,
           (addConfigValue mem configSet key val)
             \<lparr>cs_modified := (if \<not> starts_hash key then True else cs_modified configSet)\<rparr>))"

definition configGetStr :: "config_set \<Rightarrow> cstring \<Rightarrow> cstring option" where
  "configGetStr configSet key =
     (if \<not> configKeyValidate key then None
      else map_option cv_val (getConfigItemForName configSet key))"

definition configGetStrCopy :: "config_set \<Rightarrow> cstring \<Rightarrow> nat \<Rightarrow> bool \<times> cstring" where
  "configGetStrCopy configSet key len =
     (case configGetStr configSet key of Some v \<Rightarrow> (True, bounded len v) | None \<Rightarrow> (False, []))"

definition configSetInt :: "(nat \<Rightarrow> bool) \<Rightarrow> config_set \<Rightarrow> cstring \<Rightarrow> int \<Rightarrow> bool \<times> config_set" where
  "configSetInt mem configSet key val = configSetStr mem configSet key (bounded 12 (show_int val))"

definition configGetInt :: "config_set \<Rightarrow> cstring \<Rightarrow> int option" where
  "configGetInt configSet key = map_option atoi (configGetStr configSet key)"

definition configSetColor ::
    "(nat \<Rightarrow> bool) \<Rightarrow> config_set \<Rightarrow> cstring \<Rightarrow> u8 \<Rightarrow> u8 \<Rightarrow> u8 \<Rightarrow> bool \<times> config_set" where
  "configSetColor mem configSet key r g b =
     configSetStr mem configSet key (bounded 8 (CHR ''#'' # show_hex2 r @ show_hex2 g @ show_hex2 b))"

text \<open>The caller's three bytes are overwritten as soon as the key exists, whatever its value is.\<close>

definition configGetColor :: "config_set \<Rightarrow> cstring \<Rightarrow> u8 list option" where
  "configGetColor configSet key = map_option (\<lambda>v. snd (strToColor v)) (configGetStr configSet key)"

definition configRemoveKey :: "config_set \<Rightarrow> cstring \<Rightarrow> bool \<times> config_set" where
  "configRemoveKey configSet key =
     (if \<not> configKeyValidate key then (False, configSet)
      else (True, configSet
        \<lparr>cs_items := filter (\<lambda>it. \<not> item_matches key it) (cs_items configSet),
         cs_modified := (if \<not> starts_hash key \<and> (\<exists>it \<in> set (cs_items configSet). item_matches key it)
                         then True else cs_modified configSet)\<rparr>))"

definition configMerge :: "(nat \<Rightarrow> bool) \<Rightarrow> config_set \<Rightarrow> config_set \<Rightarrow> config_set" where
  "configMerge mem dest source =
     fold (\<lambda>it d. snd (configSetStr mem d (cv_key it) (cv_val it))) (cs_items source) dest"

text \<open>The disc identifier: ten hex digits of the \<^verbatim>\<open>$DNAS\<close> item, other characters skipped.\<close>

fun discid_loop :: "cstring \<Rightarrow> nat \<Rightarrow> u8 list \<Rightarrow> u8 list" where
  "discid_loop [] p dst = dst"
| "discid_loop (c # gid) p dst =
     (if 10 \<le> p then dst
      else let dv = fromHex c in
        if dv < 0 then discid_loop gid p dst
        else discid_loop gid (Suc p) (dst[p div 2 := dst ! (p div 2) * 16 + of_int dv]))"

definition configGetDiscIDBinary :: "config_set \<Rightarrow> u8 list" where
  "configGetDiscIDBinary configSet =
     (case configGetStr configSet ''$DNAS'' of
        None \<Rightarrow> replicate 5 0 | Some gid \<Rightarrow> discid_loop gid 0 (replicate 5 0))"

section \<open>Virtual memory cards\<close>

definition vmc_key :: "int \<Rightarrow> cstring" where
  "vmc_key slot = bounded CONFIG_KEY_NAME_LEN (''$VMC'' @ ''_'' @ show_int slot)"

definition vmc_disable_key :: "int \<Rightarrow> cstring" where
  "vmc_disable_key slot = bounded CONFIG_KEY_NAME_LEN (''$VMCDisable'' @ ''_'' @ show_int slot)"

definition configGetVMC :: "config_set \<Rightarrow> nat \<Rightarrow> int \<Rightarrow> cstring" where
  "configGetVMC configSet len slot = snd (configGetStrCopy configSet (vmc_key slot) len)"

definition configRemoveVMC :: "config_set \<Rightarrow> int \<Rightarrow> config_set" where
  "configRemoveVMC configSet slot = snd (configRemoveKey configSet (vmc_key slot))"

definition configSetVMC :: "(nat \<Rightarrow> bool) \<Rightarrow> config_set \<Rightarrow> cstring \<Rightarrow> int \<Rightarrow> config_set" where
  "configSetVMC mem configSet vmc slot =
     (if vmc = [] then configRemoveVMC configSet slot
      else snd (configSetStr mem configSet (vmc_key slot) vmc))"

definition configGetVMCDisable :: "config_set \<Rightarrow> int \<Rightarrow> int \<Rightarrow> int" where
  "configGetVMCDisable configSet slot disabled =
     (case configGetInt configSet (vmc_disable_key slot) of None \<Rightarrow> disabled | Some d \<Rightarrow> d)"

definition configRemoveVMCDisable :: "config_set \<Rightarrow> int \<Rightarrow> config_set" where
  "configRemoveVMCDisable configSet slot = snd (configRemoveKey configSet (vmc_disable_key slot))"

definition configSetVMCDisable :: "(nat \<Rightarrow> bool) \<Rightarrow> config_set \<Rightarrow> int \<Rightarrow> int \<Rightarrow> config_set" where
  "configSetVMCDisable mem configSet slot disabled =
     (if disabled = 0 then configRemoveVMCDisable configSet slot
      else snd (configSetInt mem configSet (vmc_disable_key slot) disabled))"

section \<open>The linked list\<close>

text \<open>\<open>mem\<close> is the address \<^verbatim>\<open>malloc\<close> returns.  \<open>None\<close> as a result is an access to a freed node.\<close>

definition addConfigValue_ptr ::
    "ptr \<Rightarrow> config_value plist \<Rightarrow> cstring \<Rightarrow> cstring \<Rightarrow> config_value plist option" where
  "addConfigValue_ptr mem q key val =
     (case pl_tail q of
        None \<Rightarrow>
          (case (mem, allocConfigItem (mem \<noteq> None) key val) of
             (Some a, Some it) \<Rightarrow> Some (q\<lparr>pl_head := Some a, pl_tail := Some a,
                                         pl_heap := (pl_heap q)(a \<mapsto> (it, None))\<rparr>)
           | _ \<Rightarrow> Some (q\<lparr>pl_head := None, pl_tail := None\<rparr>))
      | Some t \<Rightarrow>
          (case (mem, allocConfigItem (mem \<noteq> None) key val) of
             (Some a, Some it) \<Rightarrow>
               (case pl_heap q t of
                  None \<Rightarrow> None
                | Some _ \<Rightarrow> Some (q\<lparr>pl_tail := Some a,
                              pl_heap := (set_next (pl_heap q) t (Some a))(a \<mapsto> (it, None))\<rparr>))
           | _ \<Rightarrow> Some q))"

partial_function (option) find_ptr ::
    "config_value plist \<Rightarrow> cstring \<Rightarrow> ptr \<Rightarrow> ptr option" where
  "find_ptr q name val =
     (case val of
        None \<Rightarrow> Some None
      | Some a \<Rightarrow>
          (case pl_heap q a of
             None \<Rightarrow> None
           | Some (it, next) \<Rightarrow> if item_matches name it then Some (Some a) else find_ptr q name next))"

definition getConfigItemForName_ptr :: "config_value plist \<Rightarrow> cstring \<Rightarrow> ptr option" where
  "getConfigItemForName_ptr q name = find_ptr q name (pl_head q)"

partial_function (option) remove_ptr ::
    "cstring \<Rightarrow> ptr \<Rightarrow> ptr \<Rightarrow> config_value plist \<Rightarrow> bool \<Rightarrow> (config_value plist \<times> bool) option" where
  "remove_ptr key val prev q modified =
     (case val of
        None \<Rightarrow> Some (q, modified)
      | Some a \<Rightarrow>
          (case pl_heap q a of
             None \<Rightarrow> None
           | Some (it, next) \<Rightarrow>
               if item_matches key it then
                 (let modified' = (if \<not> starts_hash key then True else modified);
                      q' = q\<lparr>pl_tail := (if pl_tail q = Some a then prev else pl_tail q)\<rparr>
                  in case prev of
                       Some p \<Rightarrow>
                         (case pl_heap q' p of
                            Some (pv, Some b) \<Rightarrow>
                              remove_ptr key next prev
                                (q'\<lparr>pl_heap := ((pl_heap q')(p \<mapsto> (pv, next)))(b := None)\<rparr>) modified'
                          | _ \<Rightarrow> None)
                     | None \<Rightarrow>
                         (case pl_head q' of
                            None \<Rightarrow> None
                          | Some b \<Rightarrow>
                              remove_ptr key next prev
                                (q'\<lparr>pl_head := next, pl_heap := (pl_heap q')(b := None)\<rparr>) modified'))
               else remove_ptr key next (Some a) q modified))"

definition configRemoveKey_ptr ::
    "config_value plist \<Rightarrow> bool \<Rightarrow> cstring \<Rightarrow> (bool \<times> config_value plist \<times> bool) option" where
  "configRemoveKey_ptr q modified key =
     (if \<not> configKeyValidate key then Some (False, q, modified)
      else case remove_ptr key (pl_head q) None q modified of
             None \<Rightarrow> None | Some (q', m') \<Rightarrow> Some (True, q', m'))"

definition configClear_ptr :: "config_value plist \<Rightarrow> config_value plist option" where
  "configClear_ptr q =
     (case pl_free_all q of None \<Rightarrow> None | Some q' \<Rightarrow> Some (q'\<lparr>pl_head := None, pl_tail := None\<rparr>))"

section \<open>What the accessors rely on\<close>

text \<open>A store of strings: \<open>good\<close> is its invariant, \<open>legal\<close> the keys it accepts and \<open>fits\<close> the values
  it keeps unchanged.\<close>

locale string_store =
  fixes good :: "'s \<Rightarrow> bool"
    and legal :: "cstring \<Rightarrow> bool"
    and fits :: "cstring \<Rightarrow> bool"
    and get :: "'s \<Rightarrow> cstring \<Rightarrow> cstring option"
    and put :: "'s \<Rightarrow> cstring \<Rightarrow> cstring \<Rightarrow> 's"
    and del :: "'s \<Rightarrow> cstring \<Rightarrow> 's"
  assumes good_put: "good s \<Longrightarrow> good (put s k v)"
    and good_del: "good s \<Longrightarrow> good (del s k)"
    and get_put_same: "good s \<Longrightarrow> legal k \<Longrightarrow> fits v \<Longrightarrow> get (put s k v) k = Some v"
    and get_put_other: "good s \<Longrightarrow> legal k \<Longrightarrow> legal k' \<Longrightarrow> k' \<noteq> k \<Longrightarrow> get (put s k v) k' = get s k'"
    and get_del_same: "good s \<Longrightarrow> get (del s k) k = None"
    and get_del_other: "good s \<Longrightarrow> legal k \<Longrightarrow> legal k' \<Longrightarrow> k' \<noteq> k \<Longrightarrow> get (del s k) k' = get s k'"
begin

lemma get_put: "good s \<Longrightarrow> legal k \<Longrightarrow> legal k' \<Longrightarrow> fits v \<Longrightarrow>
    get (put s k v) k' = (if k' = k then Some v else get s k')"
  using get_put_same get_put_other by simp

lemma get_del: "good s \<Longrightarrow> legal k \<Longrightarrow> legal k' \<Longrightarrow>
    get (del s k) k' = (if k' = k then None else get s k')"
  using get_del_same get_del_other by simp

text \<open>Any encoding of values that a decoder inverts survives the store.\<close>

lemma typed_round_trip:
  assumes "good s" "legal k" "fits (enc x)" "dec (enc x) = y"
  shows "map_option dec (get (put s k (enc x)) k) = Some y"
  using assms get_put_same by simp

lemma good_fold_put: "good s \<Longrightarrow> good (fold (\<lambda>(k, v) s. put s k v) kvs s)"
  by (induction kvs arbitrary: s) (auto simp: good_put)

text \<open>After a sequence of puts every key has the value put last.\<close>

lemma get_fold_put:
  assumes "good s" "\<forall>(k, v) \<in> set kvs. legal k \<and> fits v" "legal k'"
  shows "get (fold (\<lambda>(k, v) s. put s k v) kvs s) k' =
    (case map_of (rev kvs) k' of Some v \<Rightarrow> Some v | None \<Rightarrow> get s k')"
  using assms(1,2)
proof (induction kvs arbitrary: s)
  case (Cons kv kvs)
  obtain k v where kv: "kv = (k, v)" by (cases kv)
  have "get (fold (\<lambda>(k, v) s. put s k v) (kv # kvs) s) k' =
      (case map_of (rev kvs) k' of Some v \<Rightarrow> Some v | None \<Rightarrow> get (put s k v) k')"
    using Cons.IH [of "put s k v"] Cons.prems kv good_put by simp
  moreover have "get (put s k v) k' = (if k' = k then Some v else get s k')"
    using Cons.prems kv assms(3) get_put by simp
  ultimately show ?case by (auto simp: kv map_add_def split: option.splits)
qed simp

end

section \<open>The configuration set is such a store\<close>

text \<open>The type invariant: the fields fit their arrays, without the terminating NUL.\<close>

definition item_ok :: "config_value \<Rightarrow> bool" where
  "item_ok it \<longleftrightarrow> length (cv_key it) < CONFIG_KEY_NAME_LEN \<and> length (cv_val it) < CONFIG_KEY_VALUE_LEN"

definition cfg_ok :: "config_set \<Rightarrow> bool" where
  "cfg_ok cs \<longleftrightarrow> (\<forall>it \<in> set (cs_items cs). item_ok it)"

definition key_legal :: "cstring \<Rightarrow> bool" where
  "key_legal k \<longleftrightarrow> configKeyValidate k \<and> length k < CONFIG_KEY_NAME_LEN"

definition val_fits :: "cstring \<Rightarrow> bool" where
  "val_fits v \<longleftrightarrow> length v < CONFIG_KEY_VALUE_LEN"

lemma item_matches_exact: "item_ok it \<Longrightarrow> item_matches k it \<longleftrightarrow> cv_key it = k"
  by (auto simp: item_matches_def item_ok_def strncmp_eq_short)

lemma find_item_Some: "find_item its k = Some it \<Longrightarrow> it \<in> set its \<and> item_matches k it"
  by (induction its) (auto split: if_splits)

lemma find_item_None: "find_item its k = None \<longleftrightarrow> (\<forall>it \<in> set its. \<not> item_matches k it)"
  by (induction its) auto

lemma find_item_append:
  "find_item (xs @ ys) k = (case find_item xs k of Some it \<Rightarrow> Some it | None \<Rightarrow> find_item ys k)"
  by (induction xs) auto

lemma bounded_val_ok: "length (bounded CONFIG_KEY_VALUE_LEN v) < CONFIG_KEY_VALUE_LEN"
  using bounded_length [of CONFIG_KEY_VALUE_LEN v] unfolding cfg_lens by linarith

lemma bounded_key_ok: "length (bounded CONFIG_KEY_NAME_LEN v) < CONFIG_KEY_NAME_LEN"
  using bounded_length [of CONFIG_KEY_NAME_LEN v] unfolding cfg_lens by linarith

lemma item_ok_alloc: "allocConfigItem ok k v = Some it \<Longrightarrow> item_ok it"
  using bounded_val_ok bounded_key_ok by (auto simp: allocConfigItem_def item_ok_def split: if_splits)

lemma store_item_ok: "\<forall>it \<in> set its. item_ok it \<Longrightarrow> it \<in> set (store_item its k v) \<Longrightarrow> item_ok it"
  using bounded_val_ok by (induction its) (auto simp: item_ok_def split: if_splits)

lemma find_store_same:
  "find_item its k = Some it \<Longrightarrow>
   find_item (store_item its k v) k = Some (it\<lparr>cv_val := bounded CONFIG_KEY_VALUE_LEN v\<rparr>)"
  by (induction its) (auto simp: item_matches_def)

lemma find_store_other:
  "\<forall>it \<in> set its. item_ok it \<Longrightarrow> k' \<noteq> k \<Longrightarrow> find_item (store_item its k v) k' = find_item its k'"
  by (induction its) (auto simp: item_matches_exact item_ok_def item_matches_def strncmp_eq_short)

lemma find_filter_other:
  "\<forall>it \<in> set its. item_ok it \<Longrightarrow> k' \<noteq> k \<Longrightarrow>
   find_item (filter (\<lambda>it. \<not> item_matches k it) its) k' = find_item its k'"
  by (induction its) (auto simp: item_matches_exact)

lemma find_filter_same: "find_item (filter (\<lambda>it. \<not> item_matches k it) its) k = None"
  by (simp add: find_item_None)

lemma cfg_ok_set: "cfg_ok cs \<Longrightarrow> cfg_ok (snd (configSetStr mem cs k v))"
  using store_item_ok [of "cs_items cs"] item_ok_alloc
  by (auto simp: cfg_ok_def configSetStr_def addConfigValue_def split: option.splits)

lemma cfg_ok_remove: "cfg_ok cs \<Longrightarrow> cfg_ok (snd (configRemoveKey cs k))"
  by (simp add: cfg_ok_def configRemoveKey_def)

lemma get_after_set:
  assumes "cfg_ok cs" "key_legal k" "val_fits v" "mem (length (cs_items cs))"
  shows "configGetStr (snd (configSetStr mem cs k v)) k = Some v"
proof (cases "getConfigItemForName cs k")
  case None
  then show ?thesis using assms
    by (auto simp: configGetStr_def configSetStr_def addConfigValue_def allocConfigItem_def
        getConfigItemForName_def find_item_append key_legal_def val_fits_def item_matches_def)
next
  case (Some it)
  have "item_ok it" using Some assms(1) find_item_Some by (auto simp: cfg_ok_def getConfigItemForName_def)
  then have "strncmp_eq CONFIG_KEY_VALUE_LEN (cv_val it) v \<longleftrightarrow> cv_val it = v"
    by (simp add: item_ok_def strncmp_eq_short)
  then show ?thesis using Some assms(2,3)
    by (auto simp: configGetStr_def configSetStr_def getConfigItemForName_def key_legal_def val_fits_def
        dest: find_store_same)
qed

lemma get_after_set_other:
  assumes "cfg_ok cs" "key_legal k" "key_legal k'" "k' \<noteq> k"
  shows "configGetStr (snd (configSetStr mem cs k v)) k' = configGetStr cs k'"
proof -
  have "find_item (store_item (cs_items cs) k v) k' = find_item (cs_items cs) k'"
    using assms(1,4) by (auto simp: cfg_ok_def find_store_other)
  moreover have "\<not> item_matches k' \<lparr>cv_key = bounded CONFIG_KEY_NAME_LEN k, cv_val = w\<rparr>" for w
    using assms(2,4) by (auto simp: key_legal_def item_matches_def strncmp_eq_short)
  ultimately show ?thesis
    by (auto simp: configGetStr_def configSetStr_def getConfigItemForName_def addConfigValue_def
        allocConfigItem_def find_item_append split: option.splits)
qed

interpretation config_store: string_store cfg_ok key_legal val_fits configGetStr
  "\<lambda>cs k v. snd (configSetStr (\<lambda>_. True) cs k v)" "\<lambda>cs k. snd (configRemoveKey cs k)"
proof unfold_locales
  fix s k v k'
  show "cfg_ok s \<Longrightarrow> cfg_ok (snd (configSetStr (\<lambda>_. True) s k v))" by (rule cfg_ok_set)
  show "cfg_ok s \<Longrightarrow> cfg_ok (snd (configRemoveKey s k))" by (rule cfg_ok_remove)
  show "cfg_ok s \<Longrightarrow> key_legal k \<Longrightarrow> val_fits v \<Longrightarrow>
      configGetStr (snd (configSetStr (\<lambda>_. True) s k v)) k = Some v"
    by (rule get_after_set) auto
  show "cfg_ok s \<Longrightarrow> key_legal k \<Longrightarrow> key_legal k' \<Longrightarrow> k' \<noteq> k \<Longrightarrow>
      configGetStr (snd (configSetStr (\<lambda>_. True) s k v)) k' = configGetStr s k'"
    by (rule get_after_set_other)
  show "cfg_ok s \<Longrightarrow> configGetStr (snd (configRemoveKey s k)) k = None"
    by (simp add: configGetStr_def configRemoveKey_def getConfigItemForName_def find_filter_same)
  show "cfg_ok s \<Longrightarrow> key_legal k \<Longrightarrow> key_legal k' \<Longrightarrow> k' \<noteq> k \<Longrightarrow>
      configGetStr (snd (configRemoveKey s k)) k' = configGetStr s k'"
    by (simp add: configGetStr_def configRemoveKey_def getConfigItemForName_def cfg_ok_def find_filter_other)
qed

section \<open>The pointer code refines the list\<close>

lemma addConfigValue_ptr_refines:
  assumes "q_repr q (cs_items cs)" "\<And>a. m = Some a \<Longrightarrow> a \<notin> dom (pl_heap q)"
  shows "\<exists>q'. addConfigValue_ptr m q k v = Some q' \<and>
    q_repr q' (cs_items (addConfigValue (\<lambda>_. m \<noteq> None) cs k v))"
proof -
  obtain xs where xs: "pl_repr q xs" "map snd xs = cs_items cs" using assms(1) by (auto simp: q_repr_def)
  have tail: "pl_tail q = last_addr xs" using xs(1) by (simp add: pl_repr_def)
  show ?thesis
  proof (cases m)
    case None
    have "q\<lparr>pl_head := None, pl_tail := None\<rparr> = q" if "pl_tail q = None"
      using xs(1) that pl_repr_tail_None pl_repr_head_None by (cases q) fastforce
    then have "addConfigValue_ptr m q k v = Some q"
      using None by (cases "pl_tail q") (simp_all add: addConfigValue_ptr_def)
    then show ?thesis using None assms(1) by (simp add: addConfigValue_def allocConfigItem_def)
  next
    case (Some a)
    obtain it where it: "allocConfigItem True k v = Some it" by (simp add: allocConfigItem_def)
    have "addConfigValue_ptr m q k v = Some (pl_append q a it)"
    proof (cases "pl_tail q")
      case None
      then show ?thesis using Some it by (simp add: addConfigValue_ptr_def pl_append_def)
    next
      case (Some t)
      have "t \<in> dom (pl_heap q)" using Some xs(1) tail last_addr_in unfolding pl_repr_def by fastforce
      then obtain z where "pl_heap q t = Some z" by blast
      then show ?thesis using Some \<open>m = Some a\<close> it
        by (simp add: addConfigValue_ptr_def pl_append_def)
    qed
    moreover have "pl_repr (pl_append q a it) (xs @ [(a, it)])"
      by (rule pl_append_repr [OF xs(1) assms(2) [OF Some]])
    ultimately show ?thesis using Some it xs(2)
      by (auto simp: addConfigValue_def q_repr_def intro!: exI [of _ "xs @ [(a, it)]"])
  qed
qed

lemma find_ptr_refines:
  assumes "chain (pl_heap q) p xs None"
  shows "\<exists>r. find_ptr q k p = Some r \<and>
    find_item (map snd xs) k = (case r of None \<Rightarrow> None | Some a \<Rightarrow> map_option fst (pl_heap q a))"
  using assms
proof (induction xs arbitrary: p)
  case Nil
  then show ?case by (simp add: find_ptr.simps)
next
  case (Cons x xs)
  then show ?case by (cases x) (auto simp: find_ptr.simps [of q k "Some _"])
qed

lemma remove_ptr_refines:
  assumes "pl_repr q (xs @ ys)"
  shows "\<exists>q'. remove_ptr key (case ys of [] \<Rightarrow> None | y # _ \<Rightarrow> Some (fst y)) (last_addr xs) q m =
           Some (q', if \<not> starts_hash key \<and> (\<exists>y \<in> set ys. item_matches key (snd y)) then True else m) \<and>
         pl_repr q' (xs @ filter (\<lambda>y. \<not> item_matches key (snd y)) ys)"
  using assms
proof (induction ys arbitrary: xs q m)
  case Nil
  then show ?case by (simp add: remove_ptr.simps)
next
  case (Cons y ys)
  obtain a v where y: "y = (a, v)" by (cases y)
  obtain n where h: "pl_heap q a = Some (v, n)"
    using Cons.prems y by (auto simp: pl_repr_def chain_append)
  have n: "n = (case ys of [] \<Rightarrow> None | y # _ \<Rightarrow> Some (fst y))"
    using Cons.prems y h by (auto simp: pl_repr_def chain_append dest: chain_head)
  show ?case
  proof (cases "item_matches key v")
    case True
    let ?m = "if \<not> starts_hash key then True else m"
    have "remove_ptr key (Some a) (last_addr xs) q m =
        remove_ptr key n (last_addr xs) (pl_unlink q (last_addr xs) a n) ?m"
    proof (cases xs rule: rev_cases)
      case Nil
      then have "pl_head q = Some a" using Cons.prems y by (simp add: pl_repr_def)
      moreover have "pl_unlink q None a n = q\<lparr>pl_tail := (if pl_tail q = Some a then None else pl_tail q),
          pl_head := n, pl_heap := (pl_heap q)(a := None)\<rparr>"
        by (cases q) (simp add: pl_unlink_def)
      ultimately show ?thesis using Nil h True by (subst remove_ptr.simps) (simp add: Let_def)
    next
      case (snoc zs lw)
      obtain l w where lw: "lw = (l, w)" by (cases lw)
      have "pl_heap q l = Some (w, Some a)" and "l \<noteq> a"
        using Cons.prems y snoc lw by (auto simp: pl_repr_def chain_append)
      then show ?thesis using snoc lw h True
        by (subst remove_ptr.simps) (simp add: pl_unlink_def Let_def set_next_def)
    qed
    moreover have "pl_repr (pl_unlink q (last_addr xs) a n) (xs @ ys)"
      using pl_unlink_repr [of q xs a v ys n] Cons.prems y h by simp
    ultimately show ?thesis using Cons.IH [of "pl_unlink q (last_addr xs) a n" xs ?m] n y True by auto
  next
    case False
    have "pl_repr q ((xs @ [y]) @ ys)" using Cons.prems by simp
    from Cons.IH [OF this, of m] show ?thesis
      using h n y False by (simp add: remove_ptr.simps [of key "Some a"])
  qed
qed

lemma configRemoveKey_ptr_refines:
  assumes "q_repr q (cs_items cs)"
  shows "\<exists>q'. configRemoveKey_ptr q (cs_modified cs) k =
      Some (fst (configRemoveKey cs k), q', cs_modified (snd (configRemoveKey cs k))) \<and>
    q_repr q' (cs_items (snd (configRemoveKey cs k)))"
proof -
  obtain xs where xs: "pl_repr q xs" "map snd xs = cs_items cs" using assms by (auto simp: q_repr_def)
  have hd: "pl_head q = (case xs of [] \<Rightarrow> None | y # _ \<Rightarrow> Some (fst y))"
    using xs(1) by (auto simp: pl_repr_def dest: chain_head)
  have "(\<exists>y \<in> set xs. item_matches k (snd y)) \<longleftrightarrow> (\<exists>it \<in> set (cs_items cs). item_matches k it)"
    using xs(2) [symmetric] by auto
  moreover have "map snd (filter (\<lambda>y. \<not> item_matches k (snd y)) xs) =
      filter (\<lambda>it. \<not> item_matches k it) (cs_items cs)"
    using xs(2) [symmetric] by (simp add: filter_map o_def)
  ultimately show ?thesis
    using remove_ptr_refines [of q "[]" xs k "cs_modified cs"] xs(1) hd assms
    by (auto simp: configRemoveKey_ptr_def configRemoveKey_def q_repr_def)
qed

lemma configClear_ptr_refines:
  assumes "q_repr q (cs_items cs)"
  shows "\<exists>q'. configClear_ptr q = Some q' \<and> q_repr q' (cs_items (configClear cs))"
proof -
  obtain xs where "pl_repr q xs" using assms by (auto simp: q_repr_def)
  from pl_free_all_repr [OF this] show ?thesis
    by (auto simp: configClear_ptr_def configClear_def q_repr_def pl_repr_def)
qed

section \<open>Unique keys\<close>

definition keys_unique :: "config_set \<Rightarrow> bool" where
  "keys_unique cs \<longleftrightarrow> distinct (map cv_key (cs_items cs))"

lemma store_item_keys [simp]: "map cv_key (store_item its k v) = map cv_key its"
  by (induction its) auto

lemma keys_unique_set:
  assumes "cfg_ok cs" "keys_unique cs" "length k < CONFIG_KEY_NAME_LEN"
  shows "keys_unique (snd (configSetStr mem cs k v))"
proof (cases "getConfigItemForName cs k")
  case None
  then have "k \<notin> cv_key ` set (cs_items cs)"
    using assms(1) by (auto simp: getConfigItemForName_def find_item_None cfg_ok_def item_matches_exact)
  then show ?thesis using assms None
    by (auto simp: keys_unique_def configSetStr_def addConfigValue_def allocConfigItem_def)
next
  case (Some it)
  then show ?thesis using assms(2) by (simp add: keys_unique_def configSetStr_def)
qed

lemma keys_unique_remove: "keys_unique cs \<Longrightarrow> keys_unique (snd (configRemoveKey cs k))"
  by (simp add: keys_unique_def configRemoveKey_def distinct_map_filter)

lemma cfg_ok_merge: "cfg_ok dest \<Longrightarrow> cfg_ok (configMerge mem dest source)"
proof -
  have "cfg_ok d \<Longrightarrow> cfg_ok (fold (\<lambda>it d. snd (configSetStr mem d (cv_key it) (cv_val it))) its d)"
    for its d by (induction its arbitrary: d) (simp_all add: cfg_ok_set)
  then show "cfg_ok dest \<Longrightarrow> ?thesis" by (simp add: configMerge_def)
qed

lemma keys_unique_merge:
  assumes "cfg_ok dest" "keys_unique dest" "cfg_ok source"
  shows "keys_unique (configMerge mem dest source)"
proof -
  have "cfg_ok d \<Longrightarrow> keys_unique d \<Longrightarrow> \<forall>it \<in> set its. item_ok it \<Longrightarrow>
      keys_unique (fold (\<lambda>it d. snd (configSetStr mem d (cv_key it) (cv_val it))) its d)" for its d
    by (induction its arbitrary: d) (simp_all add: cfg_ok_set keys_unique_set item_ok_def)
  then show ?thesis using assms by (simp add: configMerge_def cfg_ok_def)
qed

section \<open>Typed values\<close>

lemma length_show_nat: "n < 10 ^ Suc k \<Longrightarrow> length (show_nat n) \<le> Suc k"
proof (induction k arbitrary: n)
  case 0
  then show ?case by (subst show_nat.simps) simp
next
  case (Suc k)
  show ?case
  proof (cases "n < 10")
    case True
    then show ?thesis by (subst show_nat.simps) simp
  next
    case False
    have "n div 10 < 10 ^ Suc k" using Suc.prems by (simp add: less_mult_imp_div_less)
    then show ?thesis using Suc.IH [of "n div 10"] False by (subst show_nat.simps) simp
  qed
qed

lemma length_show_int:
  assumes "- (2 ^ 31) \<le> i" "i < 2 ^ 31"
  shows "length (show_int i) < 12"
proof -
  have "nat (- i) < 10 ^ Suc 9" "nat i < 10 ^ Suc 9" using assms by auto
  from this [THEN length_show_nat] show ?thesis by (simp add: show_int_def)
qed

lemma bounded_show_int: "- (2 ^ 31) \<le> i \<Longrightarrow> i < 2 ^ 31 \<Longrightarrow> bounded 12 (show_int i) = show_int i"
  using length_show_int by simp

lemma show_int_inj:
  assumes "show_int i = show_int j" "- (2 ^ 31) \<le> i" "i < 2 ^ 31" "- (2 ^ 31) \<le> j" "j < 2 ^ 31"
  shows "i = j"
  using assms atoi_show_int by metis

lemma hex_digit_back: "d < 16 \<Longrightarrow> fromHex (''0123456789ABCDEF'' ! d) = int d"
  by (simp add: less_Suc_eq numeral_eq_Suc) (auto simp: fromHex_def Let_def char_code_def)

lemma hex_byte_back: "(of_nat (unat b div 16) :: u8) * 16 + of_nat (unat b mod 16) = b"
proof -
  have "(of_nat (unat b div 16 * 16 + unat b mod 16) :: u8) = b" by simp
  then show ?thesis by (simp only: of_nat_add of_nat_mult of_nat_numeral)
qed

lemma color_byte:
  assumes "n < 3" "length col = 3" "col ! n = 0"
  shows "strToColor_loop (show_hex2 b @ s) 0 n col = strToColor_loop s 0 (Suc n) (col[n := b])"
proof -
  have d: "unat b div 16 < 16" "unat b mod 16 < 16" using unsigned_less [of b, where ?'a = nat] by auto
  show ?thesis using assms hex_digit_back [OF d(1)] hex_digit_back [OF d(2)] hex_byte_back [of b]
    by (simp add: show_hex2_def Let_def)
qed

lemma color_round_trip:
  "strToColor (CHR ''#'' # show_hex2 r @ show_hex2 g @ show_hex2 b) = (True, [r, g, b])"
  using color_byte [of 2 "[r, g, 0]" b "[]"]
  by (simp add: strToColor_def color_byte numeral_2_eq_2)

lemma length_show_hex2 [simp]: "length (show_hex2 b) = 2"
  by (simp add: show_hex2_def)

lemma strToColor_length: "length (snd (strToColor s)) = 3"
proof -
  have "length (strToColor_loop t c n col) = length col" for t c n col
    by (induction t c n col rule: strToColor_loop.induct) (auto simp: Let_def)
  then show ?thesis by (simp add: strToColor_def)
qed

lemma vmc_key_simps:
  assumes "- (2 ^ 31) \<le> slot" "slot < 2 ^ 31"
  shows "vmc_key slot = ''$VMC_'' @ show_int slot" "vmc_disable_key slot = ''$VMCDisable_'' @ show_int slot"
    "key_legal (vmc_key slot)" "key_legal (vmc_disable_key slot)"
proof -
  have l: "length (show_int slot) < 12" using length_show_int assms by blast
  then show k: "vmc_key slot = ''$VMC_'' @ show_int slot" "vmc_disable_key slot = ''$VMCDisable_'' @ show_int slot"
    by (simp_all add: vmc_key_def vmc_disable_key_def cfg_lens bounded_def)
  have "CHR ''='' \<notin> set (show_nat n)" for n
    using show_nat_digits by (fastforce simp: isdigit_def char_code_def)
  then have "CHR ''='' \<notin> set (show_int slot)" by (simp add: show_int_def)
  then show "key_legal (vmc_key slot)" "key_legal (vmc_disable_key slot)"
    using l unfolding k by (simp_all add: key_legal_def configKeyValidate_def cfg_lens)
qed

lemma find_item_map_of:
  assumes "\<forall>it \<in> set its. item_ok it"
  shows "map_option cv_val (find_item its k) = map_of (map (\<lambda>it. (cv_key it, cv_val it)) its) k"
  using assms by (induction its) (auto simp: item_matches_exact)

lemma configMerge_fold:
  "configMerge (\<lambda>_. True) dest source =
   fold (\<lambda>(k, v) s. snd (configSetStr (\<lambda>_. True) s k v)) (map (\<lambda>it. (cv_key it, cv_val it)) (cs_items source)) dest"
  by (simp add: configMerge_def fold_map o_def)

section \<open>Properties\<close>

definition sample_cfg :: config_set where
  "sample_cfg = \<lparr>cs_type = 1, cs_items = [\<lparr>cv_key = ''theme'', cv_val = ''x''\<rparr>], cs_filename = None,
     cs_modified = False, cs_format = CFG_FMT_LEGACY, cs_uid = 1\<rparr>"

lemma sample_cfg_ok: "cfg_ok sample_cfg" "keys_unique sample_cfg"
  by (simp_all add: sample_cfg_def cfg_ok_def item_ok_def cfg_lens keys_unique_def)

lemmas sample_key_defs = key_legal_def val_fits_def configKeyValidate_def cfg_lens

text \<open>C9. The configuration set is a map from keys to values, on every branch: for keys of at most 31
  characters and values of at most 255, \<open>configSetStr\<close> succeeds and afterwards exactly that key has
  exactly that value, \<open>configRemoveKey\<close> removes exactly that key, invalid keys (empty, or with an
  equals sign) change nothing and are never found, and the field bounds are kept.\<close>

theorem config_store_laws:
  assumes "cfg_ok cs" and "key_legal k" and "key_legal k'" and "val_fits v" and "mem (length (cs_items cs))"
  shows "fst (configSetStr mem cs k v) \<and>
    configGetStr (snd (configSetStr mem cs k v)) k' = (if k' = k then Some v else configGetStr cs k') \<and>
    configGetStr (snd (configRemoveKey cs k)) k' = (if k' = k then None else configGetStr cs k') \<and>
    cfg_ok (snd (configSetStr mem cs k v)) \<and> cfg_ok (snd (configRemoveKey cs k)) \<and>
    (\<not> configKeyValidate bad \<longrightarrow> configSetStr mem cs bad v = (False, cs) \<and>
       configRemoveKey cs bad = (False, cs) \<and> configGetStr cs bad = None)"
proof (intro conjI impI)
  show "fst (configSetStr mem cs k v)"
    using assms(2) by (simp add: configSetStr_def key_legal_def split: option.splits)
  show "configGetStr (snd (configSetStr mem cs k v)) k' = (if k' = k then Some v else configGetStr cs k')"
    using get_after_set [OF assms(1,2,4), of mem] assms(5) get_after_set_other [OF assms(1-3)] by simp
  show "configGetStr (snd (configRemoveKey cs k)) k' = (if k' = k then None else configGetStr cs k')"
    by (rule config_store.get_del [OF assms(1-3)])
  show "cfg_ok (snd (configSetStr mem cs k v))" "cfg_ok (snd (configRemoveKey cs k))"
    by (rule cfg_ok_set [OF assms(1)], rule cfg_ok_remove [OF assms(1)])
qed (simp_all add: configSetStr_def configRemoveKey_def configGetStr_def)

theorem config_store_laws_witness:
  "configGetStr (snd (configSetStr (\<lambda>_. True) sample_cfg ''lang'' ''de'')) ''theme'' =
   configGetStr sample_cfg ''theme''"
  using config_store_laws [of sample_cfg "''lang''" "''theme''" "''de''" "\<lambda>_. True"] sample_cfg_ok
  by (simp add: sample_key_defs)

text \<open>No operation of the store creates a second item for a key: setting with a key that fits,
  removing, and merging two sets keep the keys of a set distinct.\<close>

lemma config_keys_unique:
  assumes "cfg_ok cs" and "keys_unique cs" and "length k < CONFIG_KEY_NAME_LEN" and "cfg_ok other"
  shows "keys_unique (snd (configSetStr mem cs k v)) \<and> keys_unique (snd (configRemoveKey cs k)) \<and>
    keys_unique (configMerge mem cs other) \<and> keys_unique (configClear cs)"
  using assms keys_unique_set keys_unique_remove keys_unique_merge
  by (simp add: configClear_def) (simp add: keys_unique_def)

lemma config_keys_unique_witness:
  "keys_unique (snd (configSetStr (\<lambda>_. True) sample_cfg ''theme'' ''de'')) \<and>
   keys_unique (configMerge (\<lambda>_. True) sample_cfg sample_cfg)"
  using config_keys_unique [of sample_cfg "''theme''" sample_cfg] sample_cfg_ok by (simp add: cfg_lens)

text \<open>A key longer than 31 characters is stored truncated but compared in full: \<open>configSetStr\<close>
  reports success, the value cannot be read back under that key, and every further call appends
  one more item with the same truncated key.\<close>

lemma config_long_key_lost:
  assumes "cfg_ok cs" and "configKeyValidate k" and "CONFIG_KEY_NAME_LEN \<le> length k"
  shows "let r = configSetStr (\<lambda>_. True) cs k v in
    fst r \<and> configGetStr (snd r) k = None \<and>
    cs_items (snd r) = cs_items cs @ [\<lparr>cv_key = take 31 k, cv_val = bounded CONFIG_KEY_VALUE_LEN v\<rparr>]"
proof -
  have n: "find_item its k = None" if "\<forall>it \<in> set its. item_ok it" for its
    using that assms(3) by (auto simp: find_item_None item_matches_exact item_ok_def)
  have ok: "\<forall>it \<in> set (cs_items cs). item_ok it" using assms(1) by (simp add: cfg_ok_def)
  let ?it = "\<lparr>cv_key = take 31 k, cv_val = bounded CONFIG_KEY_VALUE_LEN v\<rparr>"
  have "item_ok ?it" using bounded_val_ok by (simp add: item_ok_def cfg_lens)
  then have ok': "\<forall>it \<in> set (cs_items cs @ [?it]). item_ok it" using ok by simp
  show ?thesis using n [OF ok] n [OF ok'] assms(2)
    by (simp add: configSetStr_def configGetStr_def getConfigItemForName_def addConfigValue_def
        allocConfigItem_def bounded_def cfg_lens Let_def)
qed

text \<open>Typed values survive the store: every 32-bit integer and every colour read back as they
  were written.\<close>

lemma config_typed_round_trip:
  assumes "cfg_ok cs" and "key_legal k" and "- (2 ^ 31) \<le> i" and "i < 2 ^ 31"
  shows "configGetInt (snd (configSetInt (\<lambda>_. True) cs k i)) k = Some i \<and>
    configGetColor (snd (configSetColor (\<lambda>_. True) cs k r g b)) k = Some [r, g, b]"
proof -
  have "configGetInt (snd (configSetInt (\<lambda>_. True) cs k i)) k = Some i"
    using config_store.typed_round_trip [OF assms(1,2), of show_int i atoi i] length_show_int [OF assms(3,4)]
      atoi_show_int [OF assms(3,4)]
    by (simp add: configGetInt_def configSetInt_def val_fits_def cfg_lens)
  moreover have "configGetColor (snd (configSetColor (\<lambda>_. True) cs k r g b)) k = Some [r, g, b]"
    using config_store.get_put_same [OF assms(1,2), of "CHR ''#'' # show_hex2 r @ show_hex2 g @ show_hex2 b"]
      color_round_trip [of r g b]
    by (simp add: configGetColor_def configSetColor_def val_fits_def cfg_lens)
  ultimately show ?thesis by simp
qed

lemma config_typed_round_trip_witness:
  "configGetInt (snd (configSetInt (\<lambda>_. True) sample_cfg ''xoff'' (- 5))) ''xoff'' = Some (- 5) \<and>
   configGetColor (snd (configSetColor (\<lambda>_. True) sample_cfg ''xoff'' 255 0 7)) ''xoff'' = Some [255, 0, 7]"
  by (rule config_typed_round_trip) (simp_all add: sample_cfg_ok sample_key_defs)

text \<open>C19. The linked list code does what the list operations say: appending, finding, removing and
  clearing follow only allocated nodes, end, keep head and tail consistent, free what they unlink,
  and leave exactly the items the list version leaves.\<close>

theorem config_pointer_refinement:
  assumes "q_repr q (cs_items cs)" and "a \<notin> dom (pl_heap q)"
  shows "(\<exists>q'. addConfigValue_ptr (Some a) q k v = Some q' \<and>
            q_repr q' (cs_items (addConfigValue (\<lambda>_. True) cs k v))) \<and>
    addConfigValue_ptr None q k v = Some q \<and>
    (\<exists>p. getConfigItemForName_ptr q k = Some p \<and> getConfigItemForName cs k =
            (case p of None \<Rightarrow> None | Some b \<Rightarrow> map_option fst (pl_heap q b))) \<and>
    (\<exists>q'. configRemoveKey_ptr q (cs_modified cs) k =
            Some (fst (configRemoveKey cs k), q', cs_modified (snd (configRemoveKey cs k))) \<and>
          q_repr q' (cs_items (snd (configRemoveKey cs k)))) \<and>
    (\<exists>q'. configClear_ptr q = Some q' \<and> q_repr q' (cs_items (configClear cs)))"
proof -
  obtain xs where xs: "pl_repr q xs" "map snd xs = cs_items cs" using assms(1) by (auto simp: q_repr_def)
  have oom: "addConfigValue_ptr None q k v = Some q"
  proof (cases "pl_tail q")
    case None
    then have "q\<lparr>pl_head := None, pl_tail := None\<rparr> = q"
      using xs(1) pl_repr_tail_None pl_repr_head_None by (cases q) fastforce
    then show ?thesis using None by (simp add: addConfigValue_ptr_def)
  qed (simp add: addConfigValue_ptr_def)
  show ?thesis
    using addConfigValue_ptr_refines [OF assms(1), of "Some a" k v] assms(2) oom
      find_ptr_refines [of q "pl_head q" xs k] xs
      configRemoveKey_ptr_refines [OF assms(1), of k] configClear_ptr_refines [OF assms(1)]
    by (simp add: getConfigItemForName_ptr_def getConfigItemForName_def pl_repr_def)
qed

theorem config_pointer_refinement_witness:
  "\<exists>q'. addConfigValue_ptr (Some 9) pl_empty ''k'' ''v'' = Some q' \<and>
     q_repr q' (cs_items (addConfigValue (\<lambda>_. True) (configClear sample_cfg) ''k'' ''v''))"
proof -
  have "q_repr pl_empty (cs_items (configClear sample_cfg))" "9 \<notin> dom (pl_heap pl_empty)"
    using q_repr_empty by (simp_all add: configClear_def pl_empty_def)
  from config_pointer_refinement [OF this, of "''k''" "''v''"] show ?thesis by blast
qed

text \<open>Merging gives the source the last word: a key of the source has the source's value, every
  other key keeps its value.\<close>

lemma config_merge_source_wins:
  assumes "cfg_ok dest" and "cfg_ok source" and "keys_unique source"
    and "\<forall>it \<in> set (cs_items source). configKeyValidate (cv_key it)" and "key_legal k"
  shows "configGetStr (configMerge (\<lambda>_. True) dest source) k =
    (case configGetStr source k of Some v \<Rightarrow> Some v | None \<Rightarrow> configGetStr dest k)"
proof -
  let ?kvs = "map (\<lambda>it. (cv_key it, cv_val it)) (cs_items source)"
  have "\<forall>(k, v) \<in> set ?kvs. key_legal k \<and> val_fits v"
    using assms(2,4) by (auto simp: cfg_ok_def item_ok_def key_legal_def val_fits_def)
  then have g: "configGetStr (configMerge (\<lambda>_. True) dest source) k =
      (case map_of (rev ?kvs) k of Some v \<Rightarrow> Some v | None \<Rightarrow> configGetStr dest k)"
    using config_store.get_fold_put [OF assms(1), of ?kvs k] assms(5) by (simp add: configMerge_fold)
  have "distinct (map fst ?kvs)" using assms(3) by (simp add: keys_unique_def o_def)
  then have "map_of (rev ?kvs) = map_of ?kvs" by (rule map_of_rev_distinct)
  moreover have "map_of ?kvs k = configGetStr source k"
    using find_item_map_of [of "cs_items source" k] assms(2,5)
    by (simp add: cfg_ok_def configGetStr_def getConfigItemForName_def key_legal_def)
  ultimately show ?thesis using g by simp
qed

text \<open>Virtual memory card slots are independent: a card name stored for a slot is read back for
  that slot (cut to the caller's buffer), other slots and the per-slot disable flags keep their
  values, an empty name unsets the slot, and the disable flag of a slot reads back as stored, an
  unset flag leaving the caller's default.\<close>

lemma config_vmc_slots:
  assumes "cfg_ok cs" and "val_fits vmc"
    and "- (2 ^ 31) \<le> slot" and "slot < 2 ^ 31" and "- (2 ^ 31) \<le> slot'" and "slot' < 2 ^ 31"
    and "- (2 ^ 31) \<le> d" and "d < 2 ^ 31"
  shows "configGetVMC (configSetVMC (\<lambda>_. True) cs vmc slot) len slot' =
      (if slot' = slot then bounded len vmc else configGetVMC cs len slot') \<and>
    configGetVMCDisable (configSetVMC (\<lambda>_. True) cs vmc slot) slot' dflt = configGetVMCDisable cs slot' dflt \<and>
    configGetVMCDisable (configSetVMCDisable (\<lambda>_. True) cs slot d) slot' dflt =
      (if slot' = slot then (if d = 0 then dflt else d) else configGetVMCDisable cs slot' dflt)"
proof -
  note k = vmc_key_simps [OF assms(3,4)] and k' = vmc_key_simps [OF assms(5,6)]
  have inj: "vmc_key slot' = vmc_key slot \<longleftrightarrow> slot' = slot"
    "vmc_disable_key slot' = vmc_disable_key slot \<longleftrightarrow> slot' = slot"
    using show_int_inj assms(3-6) by (auto simp: k(1,2) k'(1,2))
  have ne: "vmc_disable_key slot' \<noteq> vmc_key slot" by (simp add: k(1) k'(2))
  have d: "val_fits (bounded 12 (show_int d))" "atoi (bounded 12 (show_int d)) = d"
    using length_show_int [OF assms(7,8)] atoi_show_int [OF assms(7,8)] by (simp_all add: val_fits_def cfg_lens)
  note put = config_store.get_put [OF assms(1)] and del = config_store.get_del [OF assms(1)]
  have "configGetVMC (configSetVMC (\<lambda>_. True) cs vmc slot) len slot' =
      (if slot' = slot then bounded len vmc else configGetVMC cs len slot')"
    using put [OF k(3) k'(3) assms(2)] del [OF k(3) k'(3)] inj(1)
    by (auto simp: configGetVMC_def configSetVMC_def configGetStrCopy_def configRemoveVMC_def bounded_def)
  moreover have "configGetVMCDisable (configSetVMC (\<lambda>_. True) cs vmc slot) slot' dflt = configGetVMCDisable cs slot' dflt"
    using put [OF k(3) k'(4) assms(2)] del [OF k(3) k'(4)] ne
    by (simp add: configGetVMCDisable_def configSetVMC_def configGetInt_def configRemoveVMC_def)
  moreover have "configGetVMCDisable (configSetVMCDisable (\<lambda>_. True) cs slot d) slot' dflt =
      (if slot' = slot then (if d = 0 then dflt else d) else configGetVMCDisable cs slot' dflt)"
    using put [OF k(4) k'(4) d(1)] del [OF k(4) k'(4)] inj(2) d(2)
    by (cases "slot' = slot") (simp_all add: configGetVMCDisable_def configSetVMCDisable_def configGetInt_def
        configRemoveVMCDisable_def configSetInt_def)
  ultimately show ?thesis by blast
qed

end
