(* ===== verification/ConfigFormat.thy ===== *)
theory ConfigFormat
  imports ConfigStore
begin

text \<open>
  The two on-disk syntaxes of a configuration set and their readers and writers
  (\<^verbatim>\<open>src/config.c\<close>): OPL's own \<^verbatim>\<open>key=value\<close> lines with section prefixes, and the libconfig syntax that
  the wOPL fork writes (\<^verbatim>\<open>key = value;\<close> and one level of groups), with the translation of its
  per-game key names.

  A position in a line is a \<^typ>\<open>nat\<close>, a range \<^verbatim>\<open>[p, end)\<close> of the code the corresponding sublist.  A
  writer is the list of byte strings it hands to \<^verbatim>\<open>writeFileBuffer\<close>.
\<close>

section \<open>Lines\<close>

definition isWS :: "char \<Rightarrow> bool" where
  "isWS c \<longleftrightarrow> c = SPC \<or> c = TAB"

datatype cfg_line = CFG_LINE_BLANK | CFG_LINE_COMMENT | CFG_LINE_LEGACY | CFG_LINE_LIBCONFIG

definition cfgIsLibconfigIdent :: "cstring \<Rightarrow> bool" where
  "cfgIsLibconfigIdent s \<longleftrightarrow>
     (case s of [] \<Rightarrow> False
      | c # r \<Rightarrow> (isalpha c \<or> c = CHR ''*'') \<and>
          (\<forall>d \<in> set r. isalnum d \<or> d = CHR ''_'' \<or> d = CHR ''-'' \<or> d = CHR ''*''))"

definition slash_comment :: "cstring \<Rightarrow> bool" where
  "slash_comment p \<longleftrightarrow>
     (case p of a # b # _ \<Rightarrow> a = CHR ''/'' \<and> (b = CHR ''/'' \<or> b = CHR ''*'') | _ \<Rightarrow> False)"

definition cfgClassifyLine :: "cstring \<Rightarrow> cfg_line" where
  "cfgClassifyLine line =
     (let p = dropWhile isWS line; t = rstrip isWS p in
      if p = [] then CFG_LINE_BLANK
      else if hd p = CHR ''#'' then CFG_LINE_COMMENT
      else if slash_comment p then CFG_LINE_COMMENT
      else case strchr p CHR ''='' of
        None \<Rightarrow> CFG_LINE_LEGACY
      | Some eq \<Rightarrow>
          if length t \<le> eq then CFG_LINE_LEGACY
          else if 0 < eq \<and> isWS (p ! (eq - 1)) \<and> last t = CHR '';'' \<and>
                  cfgIsLibconfigIdent (rstrip isWS (take eq p))
               then CFG_LINE_LIBCONFIG else CFG_LINE_LEGACY)"

definition splitAssignment :: "cstring \<Rightarrow> nat \<Rightarrow> nat \<Rightarrow> (cstring \<times> cstring) option" where
  "splitAssignment line keymax valmax =
     (let l = dropWhile isWS line in
      case strchr l CHR ''='' of
        None \<Rightarrow> None
      | Some eqpos \<Rightarrow>
          Some (take (min (keymax - 1) eqpos) l,
                take (min (valmax - 1) (length l - (eqpos + 1))) (drop (eqpos + 1) l)))"

definition parsePrefix :: "cstring \<Rightarrow> nat \<Rightarrow> cstring option" where
  "parsePrefix line prefixSize =
     (case strchr line CHR '':'' of
        None \<Rightarrow> None
      | Some colpos \<Rightarrow>
          if colpos = 0 then None
          else if prefixSize = 0 then None
          else Some (take (if prefixSize \<le> colpos then prefixSize - 1 else colpos) line))"

section \<open>The wOPL key names\<close>

definition cfgWoplPerGameKeys :: "(cstring \<times> cstring) list" where
  "cfgWoplPerGameKeys =
    [(''compat'', ''$Compatibility''), (''dma'', ''$DMA''), (''core_loader'', ''$CoreLoader''),
     (''dnas'', ''$DNAS''), (''alt_startup'', ''$AltStartup''),
     (''vmc1'', ''$VMC_0''), (''vmc2'', ''$VMC_1''),
     (''gsm_source'', ''$GSMSource''), (''gsm_enable'', ''$EnableGSM''), (''gsm_vmode'', ''$GSMVMode''),
     (''gsm_x_offset'', ''$GSMXOffset''), (''gsm_y_offset'', ''$GSMYOffset''),
     (''gsm_field_fix'', ''$GSMFIELDFix''),
     (''cheat_source'', ''$CheatsSource''), (''cheat_enable'', ''$EnableCheat''),
     (''cheat_mode'', ''$CheatMode''), (''cheat_enable_image'', ''$EnableImage''),
     (''pademu_source'', ''$PADEMUSource''), (''pademu_enable'', ''$EnablePadEmu''),
     (''pademu_settings'', ''$PadEmuSettings''),
     (''padmacro_source'', ''$PadMacroSource''), (''padmacro_settings'', ''$PadMacroSettings''),
     (''osd_source'', ''$CustomLanguageSource''), (''osd_enable'', ''$OSDSettingsEnable''),
     (''osd_lang_id'', ''$CustomLanguageValue''), (''osd_tv_aspect'', ''$OSDAspectRatio''),
     (''osd_vmode'', ''$OSDVideoMode'')]"

fun first_match :: "(cstring \<times> cstring) list \<Rightarrow> cstring \<Rightarrow> cstring option" where
  "first_match [] key = None"
| "first_match ((a, b) # tab) key = (if key = a then Some b else first_match tab key)"

definition cfgWoplToOurs :: "cstring \<Rightarrow> cstring option" where
  "cfgWoplToOurs key = first_match cfgWoplPerGameKeys key"

definition cfgOursToWopl :: "cstring \<Rightarrow> cstring option" where
  "cfgOursToWopl key = first_match (map (\<lambda>(w, u). (u, w)) cfgWoplPerGameKeys) key"

section \<open>Reading libconfig\<close>

definition bool_value :: "cstring \<Rightarrow> cstring" where
  "bool_value v = (if v = ''true'' then ''1'' else if v = ''false'' then ''0'' else v)"

text \<open>The value: the text after the equals sign without the terminator, unquoted.\<close>

definition libconfig_value :: "cstring \<Rightarrow> cstring" where
  "libconfig_value r =
     (let v = dropWhile isWS r in
      case v of
        [] \<Rightarrow> []
      | c # u \<Rightarrow> if c = DQUOTE
          then (if u \<noteq> [] \<and> last u = DQUOTE then butlast u else u)
          else v)"

definition cfgReadLibconfigLine ::
    "(nat \<Rightarrow> bool) \<Rightarrow> cstring \<Rightarrow> cstring \<Rightarrow> config_set \<Rightarrow> cstring \<times> config_set" where
  "cfgReadLibconfigLine mem line grp configSet =
     (let p = dropWhile isWS line;
          t1 = rstrip isWS p;
          t2 = (if t1 \<noteq> [] \<and> last t1 = CHR '';'' then butlast t1 else t1);
          t = rstrip isWS t2
      in
      if p = [] \<or> hd p = CHR ''#'' \<or> slash_comment p then (grp, configSet)
      else if hd p = CHR ''}'' then ([], configSet)
      else if hd p = CHR ''{'' then (grp, configSet)
      else
        case (strchr p CHR ''='', strchr p CHR '':'') of
          (None, None) \<Rightarrow> (grp, configSet)
        | (None, Some colon) \<Rightarrow>
            (let k = rstrip isWS (take colon p) in
             if k \<noteq> [] \<and> length k < CONFIG_KEY_NAME_LEN then (k, configSet) else (grp, configSet))
        | (Some eq, col) \<Rightarrow>
            (if (case col of None \<Rightarrow> False | Some colon \<Rightarrow> colon < eq)
             then (let k = rstrip isWS (take (the col) p) in
                   if k \<noteq> [] \<and> length k < CONFIG_KEY_NAME_LEN then (k, configSet) else (grp, configSet))
             else
               (let k = rstrip isWS (take eq p); v = libconfig_value (drop (eq + 1) t) in
                if k = [] \<or> CONFIG_KEY_NAME_LEN \<le> length k then (grp, configSet)
                else if v = [] then (grp, configSet)
                else
                  (let val = bool_value (bounded CONFIG_KEY_VALUE_LEN v);
                       composed = bounded (2 * CONFIG_KEY_NAME_LEN)
                         (if grp \<noteq> [] then grp @ ''_'' @ k else k);
                       name = (case cfgWoplToOurs composed of Some ours \<Rightarrow> ours | None \<Rightarrow> composed)
                   in (grp, snd (configSetStr mem configSet name val))))))"

section \<open>Writing libconfig\<close>

definition cfgValueIsBareScalar :: "cstring \<Rightarrow> bool" where
  "cfgValueIsBareScalar v \<longleftrightarrow>
     v = ''true'' \<or> v = ''false'' \<or>
     (let p = (case v of [] \<Rightarrow> [] | c # r \<Rightarrow> if c = CHR ''-'' then r else v) in
      p \<noteq> [] \<and> (\<forall>c \<in> set p. isdigit c))"

fun escape_loop :: "nat \<Rightarrow> cstring \<Rightarrow> cstring" where
  "escape_loop i [] = []"
| "escape_loop i (c # p) =
     (if i + 2 < 2 * CONFIG_KEY_VALUE_LEN
      then if c = BACKSLASH \<or> c = DQUOTE then BACKSLASH # c # escape_loop (i + 2) p
           else c # escape_loop (i + 1) p
      else [])"

definition libconfig_line_size :: nat where
  "libconfig_line_size = CONFIG_KEY_NAME_LEN + CONFIG_KEY_VALUE_LEN * 2 + 16"

definition cfgWriteLibconfigLine :: "cstring \<Rightarrow> cstring \<Rightarrow> cstring \<Rightarrow> cstring" where
  "cfgWriteLibconfigLine indent key val =
     bounded libconfig_line_size
       (if cfgValueIsBareScalar val
        then indent @ key @ '' = '' @ val @ '';'' @ [LF]
        else indent @ key @ '' = '' @ [DQUOTE] @ escape_loop 0 val @ [DQUOTE] @ '';'' @ [LF])"

definition cfgLibconfigGroups :: "cstring list" where
  "cfgLibconfigGroups = [''gsm'', ''cheat'', ''pademu'', ''padmacro'', ''osd'']"

fun match_group :: "cstring list \<Rightarrow> cstring \<Rightarrow> (cstring \<times> nat) option" where
  "match_group [] key = None"
| "match_group (g # gs) key =
     (if take (length g) key = g \<and> Suc (length g) < length key \<and> key ! length g = CHR ''_''
      then Some (g, Suc (length g)) else match_group gs key)"

definition cfgMatchGroup :: "cstring \<Rightarrow> (cstring \<times> nat) option" where
  "cfgMatchGroup key = match_group cfgLibconfigGroups key"

definition persisted :: "config_value \<Rightarrow> bool" where
  "persisted it \<longleftrightarrow> cv_key it \<noteq> [] \<and> \<not> starts_hash (cv_key it)"

definition item_group :: "config_value \<Rightarrow> (cstring \<times> cstring) option" where
  "item_group it =
     (case cfgOursToWopl (cv_key it) of
        None \<Rightarrow> None
      | Some w \<Rightarrow> map_option (\<lambda>(g, off). (g, drop off w)) (cfgMatchGroup w))"

definition write_root :: "config_value list \<Rightarrow> cstring list" where
  "write_root its =
     concat (map (\<lambda>it.
       if \<not> persisted it then []
       else if item_group it \<noteq> None then []
       else [cfgWriteLibconfigLine [] (case cfgOursToWopl (cv_key it) of Some w \<Rightarrow> w | None \<Rightarrow> cv_key it)
               (cv_val it)]) its)"

definition write_group :: "config_value list \<Rightarrow> cstring \<Rightarrow> cstring list" where
  "write_group its g =
     (let ls = concat (map (\<lambda>it.
            if \<not> persisted it then []
            else case item_group it of
              None \<Rightarrow> []
            | Some (g', k) \<Rightarrow> if g' \<noteq> g then [] else [cfgWriteLibconfigLine ''  '' k (cv_val it)]) its)
      in if ls = [] then [] else [g @ '' :'' @ [LF] @ ''{'' @ [LF]] @ ls @ [''};'' @ [LF]])"

definition cfgWriteLibconfig :: "config_set \<Rightarrow> cstring list" where
  "cfgWriteLibconfig configSet =
     write_root (cs_items configSet) @ concat (map (write_group (cs_items configSet)) cfgLibconfigGroups)"

definition write_legacy :: "config_set \<Rightarrow> cstring list" where
  "write_legacy configSet =
     concat (map (\<lambda>it. if persisted it then [bounded 512 (cv_key it @ ''='' @ cv_val it @ [LF])] else [])
       (cs_items configSet))"

definition config_chunks :: "config_set \<Rightarrow> cstring list" where
  "config_chunks configSet =
     (case cs_format configSet of
        CFG_FMT_LIBCONFIG \<Rightarrow> cfgWriteLibconfig configSet | CFG_FMT_LEGACY \<Rightarrow> write_legacy configSet)"

section \<open>Reading a file\<close>

record cfg_reader =
  rd_fmt :: "cfg_format option"
  rd_group :: cstring
  rd_prefix :: cstring
  rd_set :: config_set

definition read_legacy_line :: "(nat \<Rightarrow> bool) \<Rightarrow> cfg_reader \<Rightarrow> cstring \<Rightarrow> cfg_reader" where
  "read_legacy_line mem st line =
     (case splitAssignment line CONFIG_KEY_NAME_LEN CONFIG_KEY_VALUE_LEN of
        Some (key, val) \<Rightarrow>
          (let pre = (if line \<noteq> [] \<and> isWS (hd line) then rd_prefix st else []);
               name = (if pre \<noteq> [] then bounded (2 * CONFIG_KEY_NAME_LEN) (pre @ ''_'' @ key) else key)
           in st\<lparr>rd_prefix := pre, rd_set := snd (configSetStr mem (rd_set st) name val)\<rparr>)
      | None \<Rightarrow>
          (case parsePrefix line CONFIG_KEY_NAME_LEN of
             Some pre \<Rightarrow> st\<lparr>rd_prefix := pre\<rparr> | None \<Rightarrow> st))"

definition latch_format :: "cfg_reader \<Rightarrow> cstring \<Rightarrow> (cfg_format \<times> cfg_reader) option" where
  "latch_format st line =
     (case rd_fmt st of
        Some f \<Rightarrow> Some (f, st)
      | None \<Rightarrow>
          (let c = cfgClassifyLine line in
           if c = CFG_LINE_BLANK \<or> c = CFG_LINE_COMMENT then None
           else let f = (if c = CFG_LINE_LIBCONFIG then CFG_FMT_LIBCONFIG else CFG_FMT_LEGACY)
                in Some (f, st\<lparr>rd_fmt := Some f, rd_set := (rd_set st)\<lparr>cs_format := f\<rparr>\<rparr>)))"

definition read_line :: "(nat \<Rightarrow> bool) \<Rightarrow> cfg_reader \<Rightarrow> cstring \<Rightarrow> cfg_reader" where
  "read_line mem st line =
     (case latch_format st line of
        None \<Rightarrow> st
      | Some (CFG_FMT_LIBCONFIG, st') \<Rightarrow>
          (let (g, cs) = cfgReadLibconfigLine mem line (rd_group st') (rd_set st')
           in st'\<lparr>rd_group := g, rd_set := cs\<rparr>)
      | Some (CFG_FMT_LEGACY, st') \<Rightarrow> read_legacy_line mem st' line)"

definition read_lines :: "(nat \<Rightarrow> bool) \<Rightarrow> config_set \<Rightarrow> cstring list \<Rightarrow> config_set" where
  "read_lines mem configSet ls =
     (rd_set (fold (\<lambda>l st. read_line mem st l) ls
        \<lparr>rd_fmt = None, rd_group = [], rd_prefix = [], rd_set = configSet\<rparr>))\<lparr>cs_modified := False\<rparr>"

definition configReadFileBuffer ::
    "(nat \<Rightarrow> bool) \<Rightarrow> file_buffer \<Rightarrow> config_set \<Rightarrow> read_fault + config_set" where
  "configReadFileBuffer mem fileBuffer configSet =
     (case fb_lines fileBuffer of Inl f \<Rightarrow> Inl f | Inr ls \<Rightarrow> Inr (read_lines mem configSet ls))"

text \<open>\<open>mem_buf\<close>: whether the buffer structure could be allocated.\<close>

definition configReadBuffer ::
    "(nat \<Rightarrow> bool) \<Rightarrow> bool \<Rightarrow> config_set \<Rightarrow> char list \<Rightarrow> read_fault + bool \<times> config_set" where
  "configReadBuffer mem mem_buf configSet buffer =
     (if \<not> mem_buf then Inr (False, configSet\<lparr>cs_modified := False\<rparr>)
      else case configReadFileBuffer mem (openFileBufferBuffer buffer) configSet of
             Inl f \<Rightarrow> Inl f | Inr cs \<Rightarrow> Inr (True, cs))"

section \<open>Classification\<close>

lemma rstrip_append: "s \<noteq> [] \<Longrightarrow> \<not> P (last s) \<Longrightarrow> rstrip P (t @ s) = t @ s"
  by (rule rstrip_id) simp

lemma rstrip_blank: "s \<noteq> [] \<Longrightarrow> \<not> P (last s) \<Longrightarrow> P c \<Longrightarrow> rstrip P (s @ [c]) = s"
  by simp

lemma isWS_simps [simp]:
  "isWS SPC" "\<not> isWS CHR '';''" "\<not> isWS CHR ''=''" "\<not> isWS DQUOTE" "\<not> isWS CHR ''{''" "\<not> isWS CHR ''}''"
  "\<not> isWS CHR '':''" "\<not> isWS CHR ''_''"
  by (simp_all add: isWS_def)

lemma isdigit_not_WS: "isdigit c \<Longrightarrow> \<not> isWS c"
  by (auto simp: isdigit_def isWS_def char_code_def)

text \<open>A line of OPL's own writer: no blank before the equals sign.\<close>

lemma classify_legacy:
  assumes "k \<noteq> []" "CHR ''='' \<notin> set k" "\<not> isWS (last k)"
  shows "cfgClassifyLine (k @ CHR ''='' # v) \<noteq> CFG_LINE_LIBCONFIG"
proof -
  let ?k = "dropWhile isWS k"
  have k: "?k \<noteq> []" "last ?k = last k"
    using assms(1,3) last_in_set by (auto simp: last_dropWhile)
  have d: "dropWhile isWS (k @ CHR ''='' # v) = ?k @ CHR ''='' # v"
    using k(1) by (auto simp: dropWhile_append dropWhile_eq_Nil_conv)
  have "CHR ''='' \<notin> set ?k" using assms(2) set_dropWhileD by fastforce
  then have "strchr (?k @ CHR ''='' # v) CHR ''='' = Some (length ?k)" by simp
  moreover have "\<not> isWS ((?k @ CHR ''='' # v) ! (length ?k - 1))"
    using k assms(3) by (simp add: nth_append last_conv_nth)
  ultimately show ?thesis by (simp add: cfgClassifyLine_def d Let_def)
qed

lemma ident_chars:
  assumes "cfgIsLibconfigIdent k" "c \<in> set k"
  shows "\<not> isWS c" "c \<noteq> CHR ''=''" "c \<noteq> CHR '':''" "c \<noteq> LF" "c \<noteq> NUL" "c \<noteq> CHR ''#''" "c \<noteq> CHR ''/''"
    "c \<noteq> CHR ''{''" "c \<noteq> CHR ''}''"
  using assms
  by (cases k; auto simp: cfgIsLibconfigIdent_def isWS_def ctype_defs)+

lemma classify_blank_semicolon:
  assumes "cfgIsLibconfigIdent k"
  shows "cfgClassifyLine ((k @ '' '') @ CHR ''='' # v @ '';'') = CFG_LINE_LIBCONFIG"
proof -
  have k: "k \<noteq> []" using assms by (auto simp: cfgIsLibconfigIdent_def)
  have h: "\<not> isWS (hd k)" "hd k \<noteq> CHR ''#''" "hd k \<noteq> CHR ''/''" and l: "\<not> isWS (last k)"
    using ident_chars [OF assms] k by auto
  have e: "CHR ''='' \<notin> set (k @ [SPC])" using ident_chars [OF assms] by auto
  define p where "p = (k @ [SPC]) @ CHR ''='' # v @ '';''"
  have "dropWhile isWS p = p" using h k by (cases k) (auto simp: p_def)
  moreover have r: "rstrip isWS p = p" by (rule rstrip_id) (simp add: p_def)
  moreover have "last p = CHR '';''" by (simp add: p_def)
  moreover have "strchr p CHR ''='' = Some (length k + 1)" using strchr_append [OF e] by (simp add: p_def)
  moreover have "\<not> slash_comment p"
    using h(3) k by (cases k) (auto simp: slash_comment_def p_def split: list.splits)
  moreover have "p \<noteq> []" "hd p = hd k" using k by (cases k; simp add: p_def)+
  moreover have "take (length k + 1) p = k @ [SPC]" "p ! length k = SPC" "\<not> length p \<le> length k + 1"
    by (simp_all add: p_def nth_append)
  ultimately have "cfgClassifyLine p = CFG_LINE_LIBCONFIG"
    unfolding cfgClassifyLine_def Let_def using h assms l k by simp
  then show ?thesis by (simp add: p_def)
qed

lemma classify_libconfig:
  "cfgIsLibconfigIdent k \<Longrightarrow> cfgClassifyLine (k @ '' = '' @ v @ '';'') = CFG_LINE_LIBCONFIG"
  using classify_blank_semicolon [of k "SPC # v"] by simp

section \<open>Legacy files\<close>

lemma splitAssignment_line:
  assumes "k \<noteq> []" "\<not> isWS (hd k)" "CHR ''='' \<notin> set k" "length k < n" "length v < m"
  shows "splitAssignment (k @ CHR ''='' # v) n m = Some (k, v)"
proof -
  have "dropWhile isWS (k @ CHR ''='' # v) = k @ CHR ''='' # v" using assms(1,2) by (cases k) auto
  then show ?thesis using assms by (simp add: splitAssignment_def Let_def)
qed

lemma configSetStr_fresh:
  assumes "find_item (cs_items cs) k = None" "configKeyValidate k" "length k < CONFIG_KEY_NAME_LEN"
    "length v < CONFIG_KEY_VALUE_LEN" "\<not> starts_hash k"
  shows "snd (configSetStr (\<lambda>_. True) cs k v) =
    cs\<lparr>cs_items := cs_items cs @ [\<lparr>cv_key = k, cv_val = v\<rparr>], cs_modified := True\<rparr>"
  using assms by (simp add: configSetStr_def getConfigItemForName_def addConfigValue_def allocConfigItem_def)

text \<open>The items a legacy line can carry: the key has no equals sign, does not start like a comment
  and neither starts nor ends with a blank; neither string has a line break or a NUL in it.\<close>

definition legacy_safe :: "config_value \<Rightarrow> bool" where
  "legacy_safe it \<longleftrightarrow>
     configKeyValidate (cv_key it) \<and> \<not> isWS (hd (cv_key it)) \<and> \<not> isWS (last (cv_key it)) \<and>
     hd (cv_key it) \<noteq> CHR ''/'' \<and>
     {LF, NUL} \<inter> set (cv_key it) = {} \<and> {LF, NUL} \<inter> set (cv_val it) = {} \<and>
     (cv_val it = [] \<or> last (cv_val it) \<noteq> CR)"

definition legacy_line :: "config_value \<Rightarrow> cstring" where
  "legacy_line it = cv_key it @ CHR ''='' # cv_val it"

lemma legacy_line_plain:
  assumes "persisted it" "legacy_safe it"
  shows "plain_line (legacy_line it)"
  using assms
  by (cases "cv_key it")
    (auto simp: plain_line_def legacy_line_def legacy_safe_def persisted_def starts_hash_def is_comment_def)

lemma classify_legacy_line:
  assumes "persisted it" "legacy_safe it"
  shows "cfgClassifyLine (legacy_line it) = CFG_LINE_LEGACY"
proof -
  have k: "cv_key it \<noteq> []" "\<not> isWS (hd (cv_key it))" "hd (cv_key it) \<noteq> CHR ''#''" "hd (cv_key it) \<noteq> CHR ''/''"
    using assms by (cases "cv_key it"; auto simp: persisted_def legacy_safe_def starts_hash_def)+
  have d: "dropWhile isWS (legacy_line it) = legacy_line it" "hd (legacy_line it) = hd (cv_key it)"
    "legacy_line it \<noteq> []"
    using k(1,2) by (cases "cv_key it"; simp add: legacy_line_def)+
  have "\<not> slash_comment (legacy_line it)"
    using k(1,4) by (cases "cv_key it") (auto simp: legacy_line_def slash_comment_def split: list.splits)
  moreover have "cfgClassifyLine (legacy_line it) \<noteq> CFG_LINE_LIBCONFIG"
    unfolding legacy_line_def
    using assms k(1) by (intro classify_legacy) (auto simp: legacy_safe_def configKeyValidate_def)
  moreover have "CHR ''='' \<in> set (legacy_line it)" by (simp add: legacy_line_def)
  ultimately show ?thesis using k(3) d
    by (auto simp: cfgClassifyLine_def Let_def split: option.splits if_splits)
qed

lemma read_legacy_item:
  assumes "persisted it" "legacy_safe it" "item_ok it" "find_item (cs_items (rd_set st)) (cv_key it) = None"
  shows "read_legacy_line (\<lambda>_. True) st (legacy_line it) =
    st\<lparr>rd_prefix := [], rd_set := (rd_set st)\<lparr>cs_items := cs_items (rd_set st) @ [it], cs_modified := True\<rparr>\<rparr>"
proof -
  let ?k = "cv_key it" and ?v = "cv_val it"
  have k: "?k \<noteq> []" "\<not> isWS (hd ?k)" "CHR ''='' \<notin> set ?k" "length ?k < CONFIG_KEY_NAME_LEN"
    "length ?v < CONFIG_KEY_VALUE_LEN" "configKeyValidate ?k" "\<not> starts_hash ?k"
    using assms(1-3) by (auto simp: persisted_def legacy_safe_def item_ok_def configKeyValidate_def)
  have "\<not> isWS (hd (legacy_line it))" using k(1,2) by (cases ?k) (auto simp: legacy_line_def)
  then show ?thesis
    using splitAssignment_line [OF k(1-5)] configSetStr_fresh [OF assms(4) k(6) k(4) k(5) k(7)]
    by (simp add: read_legacy_line_def legacy_line_def Let_def)
qed

lemma read_legacy_items:
  assumes "\<forall>it \<in> set its. persisted it \<and> legacy_safe it \<and> item_ok it"
    "\<forall>it \<in> set (cs_items (rd_set st) @ its). item_ok it"
    "distinct (map cv_key (cs_items (rd_set st) @ its))"
    "rd_fmt st = Some CFG_FMT_LEGACY"
  shows "\<exists>m. rd_set (fold (\<lambda>l st. read_line (\<lambda>_. True) st l) (map legacy_line its) st) =
    (rd_set st)\<lparr>cs_items := cs_items (rd_set st) @ its, cs_modified := m\<rparr>"
  using assms
proof (induction its arbitrary: st)
  case Nil
  then show ?case by (intro exI [of _ "cs_modified (rd_set st)"]) simp
next
  case (Cons it its)
  have "find_item (cs_items (rd_set st)) (cv_key it) = None"
    using Cons.prems(2,3) by (auto simp: find_item_None item_matches_exact) (metis imageI)
  then have r: "read_line (\<lambda>_. True) st (legacy_line it) =
      st\<lparr>rd_prefix := [], rd_set := (rd_set st)\<lparr>cs_items := cs_items (rd_set st) @ [it], cs_modified := True\<rparr>\<rparr>"
    using read_legacy_item Cons.prems(1,4) by (simp add: read_line_def latch_format_def)
  let ?st = "st\<lparr>rd_prefix := [], rd_set := (rd_set st)\<lparr>cs_items := cs_items (rd_set st) @ [it], cs_modified := True\<rparr>\<rparr>"
  have "\<exists>m. rd_set (fold (\<lambda>l st. read_line (\<lambda>_. True) st l) (map legacy_line its) ?st) =
      (rd_set ?st)\<lparr>cs_items := cs_items (rd_set ?st) @ its, cs_modified := m\<rparr>"
    using Cons.prems by (intro Cons.IH) auto
  then show ?case by (simp add: r)
qed

lemma write_legacy_text:
  assumes "cfg_ok cs"
  shows "concat (write_legacy cs) = text_of (map legacy_line (filter persisted (cs_items cs)))"
proof -
  have "concat (concat (map (\<lambda>it. if persisted it then [bounded 512 (cv_key it @ ''='' @ cv_val it @ [LF])] else []) its)) =
      text_of (map legacy_line (filter persisted its))" if "\<forall>it \<in> set its. item_ok it" for its
    using that by (induction its) (simp_all add: item_ok_def cfg_lens legacy_line_def)
  then show ?thesis using assms by (simp add: write_legacy_def cfg_ok_def)
qed

lemma read_lines_legacy:
  assumes "\<forall>it \<in> set its. persisted it \<and> legacy_safe it \<and> item_ok it" "distinct (map cv_key its)"
    "cs_items cs = []"
  shows "read_lines (\<lambda>_. True) cs (map legacy_line its) =
    cs\<lparr>cs_items := its, cs_modified := False, cs_format := (if its = [] then cs_format cs else CFG_FMT_LEGACY)\<rparr>"
proof (cases its)
  case Nil
  then show ?thesis using assms(3) by (cases cs) (simp add: read_lines_def)
next
  case (Cons it rest)
  let ?st = "\<lparr>rd_fmt = None, rd_group = [], rd_prefix = [], rd_set = cs\<rparr>"
  let ?st' = "?st\<lparr>rd_fmt := Some CFG_FMT_LEGACY, rd_set := cs\<lparr>cs_format := CFG_FMT_LEGACY\<rparr>\<rparr>"
  have "cfgClassifyLine (legacy_line it) = CFG_LINE_LEGACY"
    using classify_legacy_line assms(1) Cons by simp
  then have "read_line (\<lambda>_. True) ?st (legacy_line it) = read_line (\<lambda>_. True) ?st' (legacy_line it)"
    by (simp add: read_line_def latch_format_def Let_def)
  then have f: "fold (\<lambda>l st. read_line (\<lambda>_. True) st l) (map legacy_line its) ?st =
      fold (\<lambda>l st. read_line (\<lambda>_. True) st l) (map legacy_line its) ?st'"
    using Cons by simp
  have "\<exists>m. rd_set (fold (\<lambda>l st. read_line (\<lambda>_. True) st l) (map legacy_line its) ?st') =
      (rd_set ?st')\<lparr>cs_items := cs_items (rd_set ?st') @ its, cs_modified := m\<rparr>"
    using assms by (intro read_legacy_items) auto
  then show ?thesis unfolding read_lines_def f using assms(3) Cons by (cases cs) auto
qed

section \<open>One libconfig line\<close>

definition libkey_ok :: "cstring \<Rightarrow> bool" where
  "libkey_ok k \<longleftrightarrow> k \<noteq> [] \<and> length k < CONFIG_KEY_NAME_LEN \<and>
     \<not> isWS (hd k) \<and> hd k \<notin> {CHR ''#'', CHR ''/'', CHR ''{'', CHR ''}''} \<and> \<not> isWS (last k) \<and>
     {CHR ''='', CHR '':'', LF, NUL} \<inter> set k = {}"

definition lib_text :: "cstring \<Rightarrow> cstring" where
  "lib_text v = (if cfgValueIsBareScalar v then v else DQUOTE # escape_loop 0 v @ [DQUOTE])"

definition lib_line :: "cstring \<Rightarrow> cstring \<Rightarrow> cstring \<Rightarrow> cstring" where
  "lib_line indent k v = indent @ k @ '' = '' @ lib_text v @ '';''"

definition lib_name :: "cstring \<Rightarrow> cstring \<Rightarrow> cstring" where
  "lib_name grp k =
     (let composed = bounded (2 * CONFIG_KEY_NAME_LEN) (if grp \<noteq> [] then grp @ ''_'' @ k else k)
      in case cfgWoplToOurs composed of Some ours \<Rightarrow> ours | None \<Rightarrow> composed)"

definition lib_back :: "cstring \<Rightarrow> cstring" where
  "lib_back v = bool_value (bounded CONFIG_KEY_VALUE_LEN (if cfgValueIsBareScalar v then v else escape_loop 0 v))"

lemma bare_scalar_ends:
  assumes "cfgValueIsBareScalar v"
  shows "v \<noteq> []" "\<not> isWS (hd v)" "hd v \<noteq> DQUOTE" "\<not> isWS (last v)"
proof -
  have "v \<noteq> [] \<and> \<not> isWS (hd v) \<and> hd v \<noteq> DQUOTE \<and> \<not> isWS (last v)"
  proof (cases "v = ''true'' \<or> v = ''false''")
    case True
    then show ?thesis by (auto simp: isWS_def)
  next
    case False
    then obtain c r where v: "v = c # r" and p: "(if c = CHR ''-'' then r else v) \<noteq> []"
      "\<forall>d \<in> set (if c = CHR ''-'' then r else v). isdigit d"
      using assms by (cases v) (auto simp: cfgValueIsBareScalar_def Let_def)
    have "isdigit (last v)" using v p by (auto split: if_splits)
    moreover have "c = CHR ''-'' \<or> isdigit c" using v p by (auto split: if_splits)
    ultimately show ?thesis using v isdigit_not_WS
      by (auto simp: isWS_def) (auto simp: isdigit_def char_code_def)
  qed
  then show "v \<noteq> []" "\<not> isWS (hd v)" "hd v \<noteq> DQUOTE" "\<not> isWS (last v)" by auto
qed

lemma lib_text_ends: "lib_text v \<noteq> []" "\<not> isWS (last (lib_text v))"
  using bare_scalar_ends by (auto simp: lib_text_def isWS_def)

lemma libconfig_value_text:
  "libconfig_value (SPC # lib_text v) = (if cfgValueIsBareScalar v then v else escape_loop 0 v)"
proof (cases "cfgValueIsBareScalar v")
  case True
  then obtain c r where "v = c # r" "\<not> isWS c" "c \<noteq> DQUOTE" using bare_scalar_ends [OF True] by (cases v) auto
  then show ?thesis using True by (simp add: libconfig_value_def lib_text_def)
qed (simp add: libconfig_value_def lib_text_def)

lemma strchr_late: "c \<notin> set s \<Longrightarrow> strchr (s @ t) c = Some i \<Longrightarrow> length s \<le> i"
  using strchr_Some_split(2) [of "s @ t" c i] by (metis nth_append nth_mem linorder_not_less)

lemma read_lib_line:
  assumes "libkey_ok k" "\<forall>c \<in> set indent. isWS c" "lib_back v \<noteq> []"
  shows "cfgReadLibconfigLine mem (lib_line indent k v) grp cs =
    (grp, snd (configSetStr mem cs (lib_name grp k) (lib_back v)))"
proof -
  define t where "t = (k @ [SPC]) @ CHR ''='' # SPC # lib_text v"
  define p where "p = t @ '';''"
  define e where "e = length k + 1"
  have k: "k \<noteq> []" "length k < CONFIG_KEY_NAME_LEN" "\<not> isWS (last k)"
    "CHR ''='' \<notin> set (k @ [SPC])" "CHR '':'' \<notin> set (k @ [SPC])"
    using assms(1) by (auto simp: libkey_ok_def)
  have hd: "hd p \<noteq> CHR ''#''" "hd p \<noteq> CHR ''{''" "hd p \<noteq> CHR ''}''" "\<not> slash_comment p" "\<not> isWS (hd p)"
    using assms(1) by (cases k; auto simp: p_def t_def libkey_ok_def slash_comment_def split: list.splits)+
  have d: "dropWhile isWS (lib_line indent k v) = p"
    using assms(2) hd(5) k(1) by (auto simp: lib_line_def p_def t_def dropWhile_append intro!: dropWhile_id)
  have t1: "rstrip isWS p = p" unfolding p_def by (rule rstrip_append) auto
  have t: "rstrip isWS t = t" using lib_text_ends [of v] by (intro rstrip_id) (simp add: t_def)
  have eq: "strchr p CHR ''='' = Some e"
    using strchr_append [OF k(4), of "SPC # lib_text v @ '';''"] by (simp add: p_def t_def e_def)
  have c: "\<not> i < e" if "strchr p CHR '':'' = Some i" for i
    using strchr_late [OF k(5), of "CHR ''='' # SPC # lib_text v @ '';''" i] that
    by (simp add: p_def t_def e_def)
  have kk: "rstrip isWS (take e p) = k" using k(1,3) by (simp add: p_def t_def e_def)
  have v: "libconfig_value (drop (Suc e) t) = (if cfgValueIsBareScalar v then v else escape_loop 0 v)"
    using libconfig_value_text [of v] by (simp add: t_def e_def)
  have ne: "(if cfgValueIsBareScalar v then v else escape_loop 0 v) \<noteq> []"
    using assms(3) by (auto simp: lib_back_def bool_value_def bounded_def split: if_splits)
  have l: "last p = CHR '';''" "butlast p = t" "p \<noteq> []" by (simp_all add: p_def butlast_append)
  have "(if p \<noteq> [] \<and> last p = CHR '';'' then butlast p else p) = t" using l by simp
  note line = cfgReadLibconfigLine_def [of mem "lib_line indent k v" grp cs, unfolded d Let_def t1 this t eq]
  have "(case strchr p CHR '':'' of None \<Rightarrow> False | Some colon \<Rightarrow> colon < e) = False"
    using c by (cases "strchr p CHR '':''") (auto simp del: strchr_None)
  then show ?thesis unfolding line using hd(1-4) k(1,2) ne l(3)
    by (simp add: kk v lib_name_def lib_back_def Let_def cong: option.case_cong)
qed

section \<open>Values in a libconfig line\<close>

definition escape :: "cstring \<Rightarrow> cstring" where
  "escape v = concat (map (\<lambda>c. if c = BACKSLASH \<or> c = DQUOTE then [BACKSLASH, c] else [c]) v)"

lemma escape_loop_full: "i + 2 * length v < 2 * CONFIG_KEY_VALUE_LEN \<Longrightarrow> escape_loop i v = escape v"
  by (induction i v rule: escape_loop.induct) (auto simp: escape_def)

lemma escape_plain: "BACKSLASH \<notin> set v \<Longrightarrow> DQUOTE \<notin> set v \<Longrightarrow> escape v = v"
  by (induction v) (auto simp: escape_def)

lemma escape_longer: "BACKSLASH \<in> set v \<or> DQUOTE \<in> set v \<Longrightarrow> length v < length (escape v)"
proof (induction v)
  case (Cons c v)
  have "length v \<le> length (escape v)" by (induction v) (auto simp: escape_def)
  with Cons show ?case by (auto simp: escape_def)
qed simp

lemma bare_plain:
  assumes "cfgValueIsBareScalar v"
  shows "BACKSLASH \<notin> set v \<and> DQUOTE \<notin> set v"
proof -
  have d: "\<not> isdigit BACKSLASH" "\<not> isdigit DQUOTE" by (simp_all add: isdigit_def char_code_def)
  show ?thesis using assms d
    by (cases v) (auto simp: cfgValueIsBareScalar_def Let_def split: if_splits)
qed

definition lib_value_ok :: "cstring \<Rightarrow> bool" where
  "lib_value_ok v \<longleftrightarrow> v \<noteq> [] \<and> length v < CONFIG_KEY_VALUE_LEN \<and> v \<noteq> ''true'' \<and> v \<noteq> ''false'' \<and>
     {BACKSLASH, DQUOTE, LF, NUL} \<inter> set v = {}"

lemma lib_back_ok: "lib_value_ok v \<Longrightarrow> lib_back v = v"
  by (auto simp: lib_value_ok_def lib_back_def bool_value_def escape_loop_full escape_plain)

lemma length_lib_text: "length v < CONFIG_KEY_VALUE_LEN \<Longrightarrow> length (lib_text v) \<le> 512"
proof -
  assume v: "length v < CONFIG_KEY_VALUE_LEN"
  have "length (escape v) \<le> 2 * length v" by (induction v) (auto simp: escape_def)
  then show ?thesis using v by (auto simp: lib_text_def escape_loop_full cfg_lens)
qed

lemma write_lib_line:
  assumes "length indent \<le> 2" "length k < CONFIG_KEY_NAME_LEN" "length v < CONFIG_KEY_VALUE_LEN"
  shows "cfgWriteLibconfigLine indent k v = lib_line indent k v @ [LF]"
proof -
  have "length (lib_line indent k v @ [LF]) < libconfig_line_size"
    using assms length_lib_text [OF assms(3)] by (simp add: lib_line_def libconfig_line_size_def cfg_lens)
  moreover have "cfgWriteLibconfigLine indent k v = bounded libconfig_line_size (lib_line indent k v @ [LF])"
    by (simp add: cfgWriteLibconfigLine_def lib_line_def lib_text_def)
  ultimately show ?thesis by simp
qed

lemma lib_line_plain:
  assumes "libkey_ok k" "lib_value_ok v" "indent = [] \<or> indent = ''  ''"
  shows "plain_line (lib_line indent k v)"
proof -
  have e: "escape_loop 0 v = v" using assms(2) by (auto simp: lib_value_ok_def escape_loop_full escape_plain)
  have "hd (lib_line indent k v) \<noteq> CHR ''#''"
    using assms(1,3) by (cases k) (auto simp: lib_line_def libkey_ok_def)
  then show ?thesis using assms e
    by (auto simp: plain_line_def is_comment_def lib_line_def lib_text_def libkey_ok_def lib_value_ok_def)
qed

section \<open>The key table\<close>

lemma first_match_mem: "first_match tab k = Some u \<Longrightarrow> (k, u) \<in> set tab"
  by (induction tab k rule: first_match.induct) (auto split: if_splits)

definition table_entry_ok :: "cstring \<times> cstring \<Rightarrow> bool" where
  "table_entry_ok e \<longleftrightarrow>
     (case cfgMatchGroup (fst e) of
        None \<Rightarrow> libkey_ok (fst e) \<and> lib_name [] (fst e) = snd e
      | Some (g, off) \<Rightarrow> g \<in> set cfgLibconfigGroups \<and> libkey_ok (drop off (fst e)) \<and>
          lib_name g (drop off (fst e)) = snd e)"

lemma libkey_ok_Cons: "libkey_ok (c # r) \<longleftrightarrow> length r < 31 \<and> \<not> isWS c \<and>
    c \<notin> {CHR ''#'', CHR ''/'', CHR ''{'', CHR ''}''} \<and> \<not> isWS (last (c # r)) \<and>
    (\<forall>d \<in> set (c # r). d \<notin> {CHR ''='', CHR '':'', LF, NUL})"
  by (auto simp: libkey_ok_def cfg_lens)

lemma table_ok: "\<forall>e \<in> set cfgWoplPerGameKeys. table_entry_ok e"
  by (simp add: cfgWoplPerGameKeys_def table_entry_ok_def cfgMatchGroup_def cfgLibconfigGroups_def
      libkey_ok_Cons isWS_def lib_name_def cfgWoplToOurs_def bounded_def cfg_lens Let_def)

lemma ours_table: "cfgOursToWopl k = Some w \<Longrightarrow> table_entry_ok (w, k)"
  using table_ok first_match_mem by (fastforce simp: cfgOursToWopl_def)

lemma groups_libkey: "\<forall>g \<in> set cfgLibconfigGroups. libkey_ok g"
  by (simp add: cfgLibconfigGroups_def libkey_ok_Cons isWS_def)

lemma group_lines:
  assumes "libkey_ok g"
  shows "cfgReadLibconfigLine mem (g @ '' :'') grp cs = (g, cs)" "plain_line (g @ '' :'')"
proof -
  define p where "p = (g @ [SPC]) @ CHR '':'' # []"
  have g: "g \<noteq> []" "length g < CONFIG_KEY_NAME_LEN" "\<not> isWS (last g)" "CHR '':'' \<notin> set (g @ [SPC])"
    using assms by (auto simp: libkey_ok_def)
  have p: "g @ '' :'' = p" by (simp add: p_def)
  have hd: "hd p \<noteq> CHR ''#''" "hd p \<noteq> CHR ''{''" "hd p \<noteq> CHR ''}''" "\<not> slash_comment p" "dropWhile isWS p = p"
    using assms by (cases g; auto simp: p_def libkey_ok_def slash_comment_def split: list.splits)+
  have e: "strchr p CHR ''='' = None" using assms by (auto simp: p_def libkey_ok_def)
  have c: "strchr p CHR '':'' = Some (length g + 1)" using strchr_append [OF g(4)] by (simp add: p_def)
  have k: "rstrip isWS (take (length g + 1) p) = g" using g by (simp add: p_def)
  have "p \<noteq> []" by (simp add: p_def)
  then show "cfgReadLibconfigLine mem (g @ '' :'') grp cs = (g, cs)"
    unfolding p cfgReadLibconfigLine_def Let_def hd(5) e c prod.case option.case k using hd(1-4) g by simp
  show "plain_line (g @ '' :'')"
    using assms by (cases g) (auto simp: plain_line_def is_comment_def libkey_ok_def)
qed

lemma brace_lines:
  "cfgReadLibconfigLine mem ''{'' grp cs = (grp, cs)" "cfgReadLibconfigLine mem ''};'' grp cs = ([], cs)"
  "plain_line ''{''" "plain_line ''};''"
  by (simp_all add: cfgReadLibconfigLine_def isWS_def Let_def slash_comment_def plain_line_def is_comment_def)

section \<open>A whole libconfig file\<close>

definition root_items :: "config_value list \<Rightarrow> config_value list" where
  "root_items its = filter (\<lambda>it. persisted it \<and> item_group it = None) its"

definition root_name :: "config_value \<Rightarrow> cstring" where
  "root_name it = (case cfgOursToWopl (cv_key it) of Some w \<Rightarrow> w | None \<Rightarrow> cv_key it)"

definition group_items :: "config_value list \<Rightarrow> cstring \<Rightarrow> config_value list" where
  "group_items its g = filter (\<lambda>it. persisted it \<and> map_option fst (item_group it) = Some g) its"

definition sub_key :: "config_value \<Rightarrow> cstring" where
  "sub_key it = snd (the (item_group it))"

definition group_block :: "config_value list \<Rightarrow> cstring \<Rightarrow> cstring list" where
  "group_block its g =
     (if group_items its g = [] then []
      else [g @ '' :'', ''{''] @ map (\<lambda>it. lib_line ''  '' (sub_key it) (cv_val it)) (group_items its g) @ [''};''])"

definition lib_lines :: "config_value list \<Rightarrow> cstring list" where
  "lib_lines its =
     map (\<lambda>it. lib_line [] (root_name it) (cv_val it)) (root_items its) @
     concat (map (group_block its) cfgLibconfigGroups)"

text \<open>Items that survive: the value is not empty, not a boolean word, and has no quote, backslash or
  line break; a key outside the wOPL table is not itself a wOPL name and can start a line.\<close>

definition lib_safe :: "config_value \<Rightarrow> bool" where
  "lib_safe it \<longleftrightarrow> item_ok it \<and> lib_value_ok (cv_val it) \<and>
     (cfgOursToWopl (cv_key it) = None \<longrightarrow> libkey_ok (cv_key it) \<and> cfgWoplToOurs (cv_key it) = None)"

lemma root_item_names:
  assumes "lib_safe it" "item_group it = None"
  shows "libkey_ok (root_name it) \<and> lib_name [] (root_name it) = cv_key it"
proof (cases "cfgOursToWopl (cv_key it)")
  case None
  then show ?thesis using assms
    by (auto simp: lib_safe_def root_name_def lib_name_def libkey_ok_def Let_def)
next
  case (Some w)
  then have "cfgMatchGroup w = None" using assms(2) by (auto simp: item_group_def)
  then show ?thesis using ours_table [OF Some] Some by (simp add: table_entry_ok_def root_name_def)
qed

lemma group_item_names:
  assumes "item_group it = Some (g, k)"
  shows "g \<in> set cfgLibconfigGroups \<and> libkey_ok k \<and> lib_name g k = cv_key it"
proof -
  obtain w off where w: "cfgOursToWopl (cv_key it) = Some w" "cfgMatchGroup w = Some (g, off)" "k = drop off w"
    using assms by (auto simp: item_group_def split: option.splits)
  then show ?thesis using ours_table [OF w(1)] by (simp add: table_entry_ok_def)
qed

lemma group_items_names:
  assumes "it \<in> set (group_items its g)"
  shows "g \<in> set cfgLibconfigGroups \<and> libkey_ok (sub_key it) \<and> lib_name g (sub_key it) = cv_key it"
proof -
  obtain k where "item_group it = Some (g, k)" using assms by (auto simp: group_items_def)
  then show ?thesis using group_item_names by (simp add: sub_key_def)
qed

lemma concat_if_filter:
  "concat (map (\<lambda>x. if P x then [f x] else []) xs) = map f (filter P xs)"
  by (induction xs) auto

lemma write_root_text:
  assumes "\<forall>it \<in> set its. persisted it \<longrightarrow> lib_safe it"
  shows "concat (write_root its) = text_of (map (\<lambda>it. lib_line [] (root_name it) (cv_val it)) (root_items its))"
  using assms
proof (induction its)
  case (Cons it its)
  then have IH: "concat (write_root its) =
      text_of (map (\<lambda>it. lib_line [] (root_name it) (cv_val it)) (root_items its))" by simp
  have w: "cfgWriteLibconfigLine [] (root_name it) (cv_val it) = lib_line [] (root_name it) (cv_val it) @ [LF]"
    if "persisted it" "item_group it = None"
    using that Cons.prems root_item_names [of it]
    by (intro write_lib_line) (auto simp: lib_safe_def libkey_ok_def lib_value_ok_def)
  show ?case using IH w unfolding write_root_def root_items_def root_name_def by simp
qed (simp add: write_root_def root_items_def)

lemma write_group_text:
  assumes "\<forall>it \<in> set its. persisted it \<longrightarrow> lib_safe it"
  shows "concat (write_group its g) = text_of (group_block its g)"
proof -
  let ?f = "\<lambda>it. if \<not> persisted it then []
      else case item_group it of None \<Rightarrow> []
        | Some (g', k) \<Rightarrow> if g' \<noteq> g then [] else [cfgWriteLibconfigLine ''  '' k (cv_val it)]"
  have "concat (map ?f its) = map (\<lambda>it. lib_line ''  '' (sub_key it) (cv_val it) @ [LF]) (group_items its g)"
    using assms
  proof (induction its)
    case (Cons it its)
    have "cfgWriteLibconfigLine ''  '' k (cv_val it) = lib_line ''  '' k (cv_val it) @ [LF]"
      if "persisted it" "item_group it = Some (g, k)" for k
      using that Cons.prems group_item_names [of it]
      by (intro write_lib_line) (auto simp: lib_safe_def libkey_ok_def lib_value_ok_def)
    then show ?case using Cons
      by (cases "item_group it") (auto simp: group_items_def sub_key_def)
  qed (simp add: group_items_def)
  then show ?thesis unfolding write_group_def group_block_def Let_def
    by (simp add: text_of_def o_def)
qed

lemma write_libconfig_text:
  assumes "\<forall>it \<in> set (cs_items cs). persisted it \<longrightarrow> lib_safe it"
  shows "concat (cfgWriteLibconfig cs) = text_of (lib_lines (cs_items cs))"
proof -
  have "concat (concat (map (write_group (cs_items cs)) gs)) =
      text_of (concat (map (group_block (cs_items cs)) gs))" for gs
    using write_group_text [OF assms] by (induction gs) simp_all
  then show ?thesis using write_root_text [OF assms] by (simp add: cfgWriteLibconfig_def lib_lines_def)
qed

lemma lib_lines_plain:
  assumes "\<forall>it \<in> set its. persisted it \<longrightarrow> lib_safe it"
  shows "\<forall>l \<in> set (lib_lines its). plain_line l"
proof -
  have "plain_line (lib_line [] (root_name it) (cv_val it))" if "it \<in> set (root_items its)" for it
    using that assms root_item_names [of it] by (intro lib_line_plain) (auto simp: root_items_def lib_safe_def)
  moreover have "plain_line (lib_line ''  '' (sub_key it) (cv_val it))" if "it \<in> set (group_items its g)" for it g
    using group_items_names [OF that] that assms
    by (intro lib_line_plain) (auto simp: group_items_def lib_safe_def)
  ultimately show ?thesis using groups_libkey group_lines(2) brace_lines
    by (auto simp: lib_lines_def group_block_def split: if_splits)
qed

abbreviation put_items :: "config_value list \<Rightarrow> config_set \<Rightarrow> config_set" where
  "put_items its cs \<equiv> fold (\<lambda>it cs. snd (configSetStr (\<lambda>_. True) cs (cv_key it) (cv_val it))) its cs"

abbreviation feed :: "cstring list \<Rightarrow> cfg_reader \<Rightarrow> cfg_reader" where
  "feed ls st \<equiv> fold (\<lambda>l st. read_line (\<lambda>_. True) st l) ls st"

lemma read_line_lib:
  "rd_fmt st = Some CFG_FMT_LIBCONFIG \<Longrightarrow>
   cfgReadLibconfigLine (\<lambda>_. True) l (rd_group st) (rd_set st) = (g, cs) \<Longrightarrow>
   read_line (\<lambda>_. True) st l = st\<lparr>rd_group := g, rd_set := cs\<rparr>"
  by (simp add: read_line_def latch_format_def)

lemma feed_scalars:
  assumes "rd_fmt st = Some CFG_FMT_LIBCONFIG" "ind = [] \<or> ind = ''  ''"
    "\<forall>it \<in> set its. libkey_ok (f it) \<and> lib_name (rd_group st) (f it) = cv_key it \<and> lib_value_ok (cv_val it)"
  shows "feed (map (\<lambda>it. lib_line ind (f it) (cv_val it)) its) st = st\<lparr>rd_set := put_items its (rd_set st)\<rparr>"
  using assms(1,3)
proof (induction its arbitrary: st)
  case (Cons it its)
  have v: "lib_back (cv_val it) = cv_val it" "cv_val it \<noteq> []"
    using Cons.prems(2) lib_back_ok by (auto simp: lib_value_ok_def)
  let ?cs = "snd (configSetStr (\<lambda>_. True) (rd_set st) (cv_key it) (cv_val it))"
  have "cfgReadLibconfigLine (\<lambda>_. True) (lib_line ind (f it) (cv_val it)) (rd_group st) (rd_set st) = (rd_group st, ?cs)"
    using read_lib_line [of "f it" ind "cv_val it"] Cons.prems(2) assms(2) v by auto
  then have "read_line (\<lambda>_. True) st (lib_line ind (f it) (cv_val it)) = st\<lparr>rd_set := ?cs\<rparr>"
    using read_line_lib [OF Cons.prems(1)] by simp
  then show ?case using Cons.IH [of "st\<lparr>rd_set := ?cs\<rparr>"] Cons.prems by simp
qed simp

lemma feed_group:
  assumes "rd_fmt st = Some CFG_FMT_LIBCONFIG" "rd_group st = []" "g \<in> set cfgLibconfigGroups"
    "\<forall>it \<in> set its. persisted it \<longrightarrow> lib_safe it"
  shows "feed (group_block its g) st = st\<lparr>rd_set := put_items (group_items its g) (rd_set st)\<rparr>"
proof (cases "group_items its g = []")
  case False
  let ?st = "st\<lparr>rd_group := g\<rparr>" and ?ls = "map (\<lambda>it. lib_line ''  '' (sub_key it) (cv_val it)) (group_items its g)"
  have g: "libkey_ok g" using groups_libkey assms(3) by blast
  have h: "read_line (\<lambda>_. True) st (g @ '' :'') = ?st"
    using read_line_lib [OF assms(1) group_lines(1) [OF g]] by simp
  have b: "read_line (\<lambda>_. True) ?st ''{'' = ?st"
    using read_line_lib [of ?st, OF _ brace_lines(1)] assms(1) by simp
  have names: "\<forall>it \<in> set (group_items its g). libkey_ok (sub_key it) \<and> lib_name g (sub_key it) = cv_key it \<and>
      lib_value_ok (cv_val it)"
  proof
    fix it
    assume i: "it \<in> set (group_items its g)"
    then have "lib_value_ok (cv_val it)" using assms(4) by (simp add: group_items_def lib_safe_def)
    then show "libkey_ok (sub_key it) \<and> lib_name g (sub_key it) = cv_key it \<and> lib_value_ok (cv_val it)"
      using group_items_names [OF i] by simp
  qed
  have s: "feed ?ls ?st = ?st\<lparr>rd_set := put_items (group_items its g) (rd_set st)\<rparr>"
    using feed_scalars [of ?st "''  ''" "group_items its g" sub_key] assms(1) names by simp
  let ?st' = "?st\<lparr>rd_set := put_items (group_items its g) (rd_set st)\<rparr>"
  have e: "read_line (\<lambda>_. True) ?st' ''};'' = ?st'\<lparr>rd_group := []\<rparr>"
    using read_line_lib [of ?st', OF _ brace_lines(2)] assms(1) by simp
  have "feed (group_block its g) st = ?st'\<lparr>rd_group := []\<rparr>"
    using False h b s e by (simp add: group_block_def)
  also have "\<dots> = st\<lparr>rd_set := put_items (group_items its g) (rd_set st)\<rparr>" using assms(2) by (cases st) simp
  finally show ?thesis .
qed (simp add: group_block_def)

lemma feed_groups:
  assumes "rd_fmt st = Some CFG_FMT_LIBCONFIG" "rd_group st = []" "set gs \<subseteq> set cfgLibconfigGroups"
    "\<forall>it \<in> set its. persisted it \<longrightarrow> lib_safe it"
  shows "feed (concat (map (group_block its) gs)) st =
    st\<lparr>rd_set := put_items (concat (map (group_items its) gs)) (rd_set st)\<rparr>"
  using assms(1-3)
proof (induction gs arbitrary: st)
  case (Cons g gs)
  let ?st = "st\<lparr>rd_set := put_items (group_items its g) (rd_set st)\<rparr>"
  have "feed (group_block its g) st = ?st" using feed_group Cons.prems assms(4) by simp
  then show ?case using Cons.IH [of ?st] Cons.prems by simp
qed simp

definition emitted :: "config_value list \<Rightarrow> config_value list" where
  "emitted its = root_items its @ concat (map (group_items its) cfgLibconfigGroups)"

lemma emitted_set: "set (emitted its) = set (filter persisted its)"
proof
  show "set (emitted its) \<subseteq> set (filter persisted its)"
    by (auto simp: emitted_def root_items_def group_items_def)
  show "set (filter persisted its) \<subseteq> set (emitted its)"
  proof
    fix it
    assume it: "it \<in> set (filter persisted its)"
    show "it \<in> set (emitted its)"
    proof (cases "item_group it")
      case None
      then show ?thesis using it by (simp add: emitted_def root_items_def)
    next
      case (Some gk)
      obtain g k where gk: "gk = (g, k)" by (cases gk)
      then have "g \<in> set cfgLibconfigGroups" "it \<in> set (group_items its g)"
        using it Some group_item_names [of it g k] by (simp_all add: group_items_def)
      then show ?thesis by (auto simp: emitted_def)
    qed
  qed
qed

lemma feed_lib_lines:
  assumes "rd_fmt st = Some CFG_FMT_LIBCONFIG" "rd_group st = []"
    "\<forall>it \<in> set its. persisted it \<longrightarrow> lib_safe it"
  shows "feed (lib_lines its) st = st\<lparr>rd_set := put_items (emitted its) (rd_set st)\<rparr>"
proof -
  let ?st = "st\<lparr>rd_set := put_items (root_items its) (rd_set st)\<rparr>"
  have "feed (map (\<lambda>it. lib_line [] (root_name it) (cv_val it)) (root_items its)) st = ?st"
    using feed_scalars [of st "[]" "root_items its" root_name] assms root_item_names
    by (auto simp: root_items_def lib_safe_def)
  then show ?thesis using feed_groups [of ?st cfgLibconfigGroups its] assms
    by (simp add: lib_lines_def emitted_def)
qed

text \<open>The first line the writer emits is a root scalar whose name is a libconfig identifier.\<close>

definition opens_libconfig :: "config_set \<Rightarrow> bool" where
  "opens_libconfig cs \<longleftrightarrow>
     (case root_items (cs_items cs) of [] \<Rightarrow> False | it # _ \<Rightarrow> cfgIsLibconfigIdent (root_name it))"

lemma read_lines_libconfig:
  assumes "\<forall>it \<in> set (cs_items cs). persisted it \<longrightarrow> lib_safe it" "opens_libconfig cs"
  shows "read_lines (\<lambda>_. True) cs0 (lib_lines (cs_items cs)) =
    (put_items (emitted (cs_items cs)) (cs0\<lparr>cs_format := CFG_FMT_LIBCONFIG\<rparr>))\<lparr>cs_modified := False\<rparr>"
proof -
  obtain it rest where it: "root_items (cs_items cs) = it # rest" "cfgIsLibconfigIdent (root_name it)"
    using assms(2) by (auto simp: opens_libconfig_def split: list.splits)
  let ?st = "\<lparr>rd_fmt = None, rd_group = [], rd_prefix = [], rd_set = cs0\<rparr>"
  let ?st' = "?st\<lparr>rd_fmt := Some CFG_FMT_LIBCONFIG, rd_set := cs0\<lparr>cs_format := CFG_FMT_LIBCONFIG\<rparr>\<rparr>"
  obtain ls where ls: "lib_lines (cs_items cs) = lib_line [] (root_name it) (cv_val it) # ls"
    using it(1) by (simp add: lib_lines_def)
  have "cfgClassifyLine (lib_line [] (root_name it) (cv_val it)) = CFG_LINE_LIBCONFIG"
    using classify_libconfig [OF it(2), of "lib_text (cv_val it)"] by (simp add: lib_line_def)
  then have "read_line (\<lambda>_. True) ?st (lib_line [] (root_name it) (cv_val it)) =
      read_line (\<lambda>_. True) ?st' (lib_line [] (root_name it) (cv_val it))"
    by (simp add: read_line_def latch_format_def Let_def)
  then have "feed (lib_lines (cs_items cs)) ?st = feed (lib_lines (cs_items cs)) ?st'" by (simp add: ls)
  also have "\<dots> = ?st'\<lparr>rd_set := put_items (emitted (cs_items cs)) (rd_set ?st')\<rparr>"
    using feed_lib_lines [of ?st' "cs_items cs"] assms(1) by simp
  finally show ?thesis by (simp add: read_lines_def)
qed

lemma configSetStr_format [simp]: "cs_format (snd (configSetStr mem cs k v)) = cs_format cs"
  by (auto simp: configSetStr_def addConfigValue_def split: option.splits)

lemma put_items_format: "cs_format (put_items its cs) = cs_format cs"
  by (induction its arbitrary: cs) simp_all

lemma configGetStr_modified [simp]: "configGetStr (cs\<lparr>cs_modified := b\<rparr>) k = configGetStr cs k"
  by (simp add: configGetStr_def getConfigItemForName_def)

abbreviation item_pairs :: "config_value list \<Rightarrow> (cstring \<times> cstring) list" where
  "item_pairs its \<equiv> map (\<lambda>it. (cv_key it, cv_val it)) its"

lemma configGetStr_map_of:
  "cfg_ok cs \<Longrightarrow> key_legal k \<Longrightarrow> configGetStr cs k = map_of (item_pairs (cs_items cs)) k"
  by (simp add: configGetStr_def getConfigItemForName_def key_legal_def find_item_map_of cfg_ok_def)

lemma get_put_items:
  assumes "cfg_ok cs" "\<forall>it \<in> set its. key_legal (cv_key it) \<and> val_fits (cv_val it)" "key_legal k"
  shows "configGetStr (put_items its cs) k =
    (case map_of (rev (item_pairs its)) k of Some v \<Rightarrow> Some v | None \<Rightarrow> configGetStr cs k)"
  using config_store.get_fold_put [OF assms(1), of "item_pairs its" k] assms(2,3)
  by (simp add: fold_map o_def)

lemma emitted_lookup:
  assumes "cfg_ok cs" "keys_unique cs" "key_legal k" "\<not> starts_hash k"
  shows "map_of (rev (item_pairs (emitted (cs_items cs)))) k = map_of (item_pairs (cs_items cs)) k"
proof -
  let ?all = "item_pairs (cs_items cs)" and ?em = "rev (item_pairs (emitted (cs_items cs)))"
  have u: "v = w" if "(k, v) \<in> set ?all" "(k, w) \<in> set ?all" for k v w
  proof -
    have "distinct (map fst ?all)" using assms(2) by (simp add: keys_unique_def o_def)
    then show ?thesis using that by (metis map_of_is_SomeI option.inject)
  qed
  have sub: "set ?em \<subseteq> set ?all" using emitted_set [of "cs_items cs"] by auto
  have "(k, v) \<in> set ?em \<longleftrightarrow> (k, v) \<in> set ?all" for v
    using emitted_set [of "cs_items cs"] assms(3,4)
    by (auto simp: persisted_def key_legal_def configKeyValidate_def)
  then have "map_of ?em k = Some v \<longleftrightarrow> map_of ?all k = Some v" for v
    using map_of_consistent [of ?em k v] map_of_consistent [of ?all k v] u sub by blast
  then show ?thesis by (metis option.exhaust)
qed

section \<open>Properties\<close>

text \<open>C22. Saving and reloading a set in OPL's own syntax gives back exactly its persistent items, in
  their order (runtime items, whose key starts with a hash, are left out).  Fields are within the bounds of
  the structure, keys distinct, and each persistent item can be read back (\<^term>\<open>legacy_safe\<close>): a valid key with no
  white space at its ends and no leading slash, no line feed or NUL, a value that does not end in a carriage return.
  \<open>config_classify_writers\<close> shows a key for which the text is taken for the other syntax.\<close>

theorem config_legacy_round_trip:
  assumes "cfg_ok cs" and "keys_unique cs" and "cs_format cs = CFG_FMT_LEGACY"
    and "\<forall>it \<in> set (cs_items cs). persisted it \<longrightarrow> legacy_safe it"
  shows "configReadBuffer (\<lambda>_. True) True (configClear cs) (concat (config_chunks cs)) =
    Inr (True, cs\<lparr>cs_items := filter persisted (cs_items cs), cs_modified := False\<rparr>)"
proof -
  let ?its = "filter persisted (cs_items cs)"
  have ok: "\<forall>it \<in> set ?its. persisted it \<and> legacy_safe it \<and> item_ok it"
    using assms(1,4) by (simp add: cfg_ok_def)
  have t: "concat (config_chunks cs) = text_of (map legacy_line ?its)"
    using write_legacy_text [OF assms(1)] assms(3) by (simp add: config_chunks_def)
  have "\<forall>l \<in> set (map legacy_line ?its). plain_line l" using ok legacy_line_plain by auto
  then have "fb_lines (openFileBufferBuffer (concat (config_chunks cs))) = Inr (map legacy_line ?its)"
    unfolding t by (rule fb_lines_text_of)
  moreover have "distinct (map cv_key ?its)"
    using assms(2) by (simp add: keys_unique_def distinct_map_filter)
  then have "read_lines (\<lambda>_. True) (configClear cs) (map legacy_line ?its) =
      (configClear cs)\<lparr>cs_items := ?its, cs_modified := False,
        cs_format := (if ?its = [] then cs_format (configClear cs) else CFG_FMT_LEGACY)\<rparr>"
    using read_lines_legacy [OF ok, of "configClear cs"] by (simp add: configClear_def)
  moreover have "\<dots> = cs\<lparr>cs_items := ?its, cs_modified := False\<rparr>"
    using assms(3) by (cases cs) (simp add: configClear_def)
  ultimately show ?thesis by (simp add: configReadBuffer_def configReadFileBuffer_def)
qed

lemma sample_cfg_legacy: "\<forall>it \<in> set (cs_items sample_cfg). persisted it \<longrightarrow> legacy_safe it"
  by (simp add: sample_cfg_def legacy_safe_def configKeyValidate_def isWS_def)

theorem config_legacy_round_trip_witness:
  "configReadBuffer (\<lambda>_. True) True (configClear sample_cfg) (concat (config_chunks sample_cfg)) =
    Inr (True, sample_cfg\<lparr>cs_items := filter persisted (cs_items sample_cfg), cs_modified := False\<rparr>)"
  by (rule config_legacy_round_trip [OF sample_cfg_ok _ sample_cfg_legacy]) (simp add: sample_cfg_def)


definition sample_lib :: config_set where
  "sample_lib = sample_cfg\<lparr>cs_format := CFG_FMT_LIBCONFIG, cs_items :=
     [\<lparr>cv_key = ''$Compatibility'', cv_val = ''3''\<rparr>, \<lparr>cv_key = ''$EnableGSM'', cv_val = ''1''\<rparr>]\<rparr>"


text \<open>The format of a file is recognised from its first line: a line of OPL's own writer whose key
  does not end in a blank is never taken for libconfig, and a \<^verbatim>\<open>key = value;\<close> line with a libconfig
  identifier always is.  But a key of OPL's that ends in a blank together with a value that ends in
  a semicolon is taken for libconfig too.\<close>

lemma config_classify_writers:
  assumes "k \<noteq> []" and "CHR ''='' \<notin> set k" and "\<not> isWS (last k)" and "cfgIsLibconfigIdent i"
  shows "cfgClassifyLine (k @ CHR ''='' # v) \<noteq> CFG_LINE_LIBCONFIG \<and>
    cfgClassifyLine (i @ '' = '' @ v @ '';'') = CFG_LINE_LIBCONFIG \<and>
    cfgClassifyLine ((i @ '' '') @ CHR ''='' # v @ '';'') = CFG_LINE_LIBCONFIG"
  using classify_legacy [OF assms(1-3)] classify_libconfig [OF assms(4)] classify_blank_semicolon [OF assms(4)]
  by blast

text \<open>The libconfig writer escapes quotes and backslashes but the reader does not undo it: a value
  with such a character is reloaded with extra backslashes in it.\<close>

lemma config_escape_not_undone:
  assumes "cfg_ok cs" and "libkey_ok k" and "configKeyValidate k" and "cfgWoplToOurs k = None"
    and "BACKSLASH \<in> set v \<or> DQUOTE \<in> set v" and "length (escape v) < CONFIG_KEY_VALUE_LEN"
  shows "\<exists>l. cfgWriteLibconfigLine [] k v = l @ [LF] \<and>
    configGetStr (snd (cfgReadLibconfigLine (\<lambda>_. True) l [] cs)) k = Some (escape v) \<and> escape v \<noteq> v"
proof -
  have lv: "length v < length (escape v)" using escape_longer assms(5) by blast
  have nb: "\<not> cfgValueIsBareScalar v" using bare_plain assms(5) by blast
  have k: "length k < CONFIG_KEY_NAME_LEN" using assms(2) by (simp add: libkey_ok_def)
  have "escape_loop 0 v = escape v" using lv assms(6) by (intro escape_loop_full) simp
  moreover have "escape v \<noteq> ''true''" "escape v \<noteq> ''false''"
  proof -
    have "BACKSLASH \<in> set (escape v)" using assms(5) by (auto simp: escape_def)
    then show "escape v \<noteq> ''true''" "escape v \<noteq> ''false''" by auto
  qed
  ultimately have b: "lib_back v = escape v" using nb assms(6) by (simp add: lib_back_def bool_value_def)
  have n: "lib_name [] k = k" using assms(4) k by (simp add: lib_name_def Let_def)
  have "escape v \<noteq> []" using lv by auto
  then have "snd (cfgReadLibconfigLine (\<lambda>_. True) (lib_line [] k v) [] cs) =
      snd (configSetStr (\<lambda>_. True) cs k (escape v))"
    using read_lib_line [OF assms(2), of "[]" v] b n by simp
  then show ?thesis
    using write_lib_line [of "[]" k v] k lv assms(6) config_store.get_put_same [OF assms(1), of k "escape v"] assms(3)
    by (auto simp: key_legal_def val_fits_def)
qed

lemma config_escape_not_undone_witness:
  "\<exists>l. cfgWriteLibconfigLine [] ''title'' [DQUOTE] = l @ [LF] \<and>
    configGetStr (snd (cfgReadLibconfigLine (\<lambda>_. True) l [] sample_cfg)) ''title'' = Some (escape [DQUOTE]) \<and>
    escape [DQUOTE] \<noteq> [DQUOTE]"
  by (rule config_escape_not_undone)
    (simp_all add: sample_cfg_ok libkey_ok_Cons isWS_def sample_key_defs cfgWoplToOurs_def
      cfgWoplPerGameKeys_def escape_def)

definition groups_only :: config_set where
  "groups_only = sample_cfg\<lparr>cs_format := CFG_FMT_LIBCONFIG,
     cs_items := [\<lparr>cv_key = ''$EnableGSM'', cv_val = ''1''\<rparr>]\<rparr>"

text \<open>A libconfig set whose items all belong to groups is written with a group header as its first
  line, which the reader takes for OPL's own syntax: the reloaded set is in the other format and
  the setting is gone.\<close>

lemma config_groups_only_lost:
  "\<exists>cs'. configReadBuffer (\<lambda>_. True) True (configClear groups_only) (concat (config_chunks groups_only)) =
     Inr (True, cs') \<and> configGetStr groups_only ''$EnableGSM'' = Some ''1'' \<and>
     configGetStr cs' ''$EnableGSM'' = None \<and> cs_format cs' = CFG_FMT_LEGACY"
proof -
  let ?ls = "[''gsm :'', ''{'', ''  enable = 1;'', ''};'']"
  have t: "cfgOursToWopl ''$EnableGSM'' = Some ''gsm_enable''"
    by (simp add: cfgOursToWopl_def cfgWoplPerGameKeys_def)
  have g: "item_group \<lparr>cv_key = ''$EnableGSM'', cv_val = ''1''\<rparr> = Some (''gsm'', ''enable'')"
    by (simp add: item_group_def t cfgMatchGroup_def cfgLibconfigGroups_def)
  have b: "cfgValueIsBareScalar ''1''" by (simp add: cfgValueIsBareScalar_def ctype_defs)
  have w: "concat (config_chunks groups_only) = text_of ?ls"
    by (simp add: groups_only_def config_chunks_def cfgWriteLibconfig_def write_root_def write_group_def g
        persisted_def starts_hash_def cfgLibconfigGroups_def cfgWriteLibconfigLine_def b bounded_def
        libconfig_line_size_def cfg_lens Let_def)
  have "fb_lines (openFileBufferBuffer (text_of ?ls)) = Inr ?ls"
    by (rule fb_lines_text_of) (simp add: plain_line_def is_comment_def)
  moreover have "read_lines (\<lambda>_. True) (configClear groups_only) ?ls =
      (configClear groups_only)\<lparr>cs_items := [\<lparr>cv_key = ''gsm _enable '', cv_val = '' 1;''\<rparr>],
        cs_modified := False, cs_format := CFG_FMT_LEGACY\<rparr>"
    by (simp add: read_lines_def read_line_def latch_format_def cfgClassifyLine_def isWS_def slash_comment_def
        strchr_def before_char_def Let_def read_legacy_line_def splitAssignment_def parsePrefix_def cfg_lens
        configSetStr_def configKeyValidate_def getConfigItemForName_def addConfigValue_def allocConfigItem_def
        bounded_def configClear_def starts_hash_def groups_only_def sample_cfg_def)
  moreover have "configGetStr groups_only ''$EnableGSM'' = Some ''1''"
    by (simp add: groups_only_def configGetStr_def configKeyValidate_def getConfigItemForName_def item_matches_def)
  ultimately show ?thesis unfolding w
    by (simp add: configReadBuffer_def configReadFileBuffer_def configGetStr_def configKeyValidate_def
        getConfigItemForName_def item_matches_def strncmp_eq_def cfg_lens)
qed

end
