(* ===== verification/ConfigFile.thy ===== *)
theory ConfigFile
  imports ConfigFormat
begin

text \<open>
  Configuration files: where they live, how they are opened, read, saved and rolled back
  (\<^verbatim>\<open>src/config.c\<close>), and the table of the five global sets.

  The file system is a parameter: \<open>fs path\<close> is the file \<^verbatim>\<open>openFile\<close> finds for reading (\<open>None\<close>: it
  fails), with its bytes, the size \<^verbatim>\<open>getFileSize\<close> reports and whether reads fail.  A save runs against
  the bytes now stored at the set's path (\<open>disk\<close>, \<open>None\<close> when there is no file) and a \<open>save_env\<close> that
  fixes what every device call and allocation of the save returns.
\<close>

section \<open>Paths\<close>

definition configPrepareDevice :: "nat \<Rightarrow> cstring option \<Rightarrow> cstring" where
  "configPrepareDevice deviceSize pfx =
     (let device = bounded deviceSize (case pfx of None \<Rightarrow> [] | Some p \<Rightarrow> p) in
      case strchr device CHR '':'' of None \<Rightarrow> device | Some colpos \<Rightarrow> take (colpos + 1) device)"

text \<open>The \<^verbatim>\<open>mc?:\<close> wildcard becomes the slot of the detected card (\<open>mcID\<close>, \<open>None\<close> for a negative one).\<close>

definition resolve_mc :: "char option \<Rightarrow> cstring \<Rightarrow> cstring" where
  "resolve_mc mcID path =
     (case mcID of
        None \<Rightarrow> path
      | Some d \<Rightarrow> if take 2 path = ''mc'' \<and> 2 < length path \<and> path ! 2 = CHR ''?'' then path[2 := d] else path)"

definition configBuildPath :: "nat \<Rightarrow> cstring option \<Rightarrow> cstring \<Rightarrow> cstring" where
  "configBuildPath outSize pfx filename =
     (case pfx of
        None \<Rightarrow> bounded outSize filename
      | Some p \<Rightarrow>
          if p = [] then bounded outSize filename
          else if last p = CHR ''/'' \<or> last p = CHR '':'' then bounded outSize (p @ filename)
          else bounded outSize (p @ ''/'' @ filename))"

definition dir_part :: "cstring \<Rightarrow> cstring" where
  "dir_part path = (case strrchr path CHR ''/'' of None \<Rightarrow> [] | Some slash \<Rightarrow> take (slash + 1) path)"

definition configBuildLegacyOplPath :: "cstring \<Rightarrow> nat \<Rightarrow> cstring" where
  "configBuildLegacyOplPath path outSize = bounded outSize (dir_part path @ ''conf_riptopl.cfg'')"

definition wopl_files :: "(cstring \<times> cstring) list" where
  "wopl_files = [(''conf_theme.cfg'', ''wopl_theme.cfg''), (''conf_network.cfg'', ''wopl_network.cfg''),
     (''conf_game.cfg'', ''wopl_global_game.cfg'')]"

definition configBuildWoplPath :: "cstring option \<Rightarrow> nat \<Rightarrow> cstring option" where
  "configBuildWoplPath path outSize =
     (case path of
        None \<Rightarrow> None
      | Some p \<Rightarrow>
          (let dirLen = length (dir_part p) in
           case first_match wopl_files (drop dirLen p) of
             None \<Rightarrow> None
           | Some theirs \<Rightarrow>
               if outSize < dirLen + length theirs + 1 then None else Some (take dirLen p @ theirs)))"

definition configPathIsRawApa :: "cstring option \<Rightarrow> bool" where
  "configPathIsRawApa path =
     (case path of
        None \<Rightarrow> False
      | Some p \<Rightarrow> take 3 p = ''hdd'' \<and> 4 < length p \<and> isdigit (p ! 3) \<and> p ! 4 = CHR '':'')"

section \<open>Reading\<close>

record file_image =
  fi_bytes :: "char list"
  fi_size :: int
  fi_read_fails :: bool

type_synonym file_system = "cstring \<Rightarrow> file_image option"

text \<open>Allocations of a read: the single-shot buffers, the buffered reader, the new file name, items.\<close>

record read_mem =
  rm_shot :: bool
  rm_buffer :: bool
  rm_name :: bool
  rm_items :: "nat \<Rightarrow> bool"

definition image_fd :: "file_image \<Rightarrow> file_desc" where
  "image_fd f = \<lparr>fd_unread = fi_bytes f, fd_read_fails = fi_read_fails f, fd_written = [], fd_accept = 0,
     fd_close_fails = False\<rparr>"

definition configOpenSingleShot :: "file_system \<Rightarrow> read_mem \<Rightarrow> cstring option \<Rightarrow> file_buffer option" where
  "configOpenSingleShot fs rm path =
     (case path of
        None \<Rightarrow> None
      | Some p \<Rightarrow>
          (case fs p of
             None \<Rightarrow> None
           | Some f \<Rightarrow>
               if fi_size f \<le> 0 \<or> 4096 < fi_size f then None
               else if \<not> rm_shot rm then None
               else if fi_read_fails f \<or> length (fi_bytes f) < nat (fi_size f) then None
               else
                 (let buf = take (nat (fi_size f)) (fi_bytes f);
                      off = (if 3 \<le> fi_size f \<and> is_bom (take 3 buf) then 3 else 0)
                  in Some (openFileBufferBuffer (drop off buf)))))"

definition open_config :: "file_system \<Rightarrow> read_mem \<Rightarrow> cstring \<Rightarrow> file_buffer option" where
  "open_config fs rm path =
     (case configOpenSingleShot fs rm (Some path) of
        Some fb \<Rightarrow> Some fb
      | None \<Rightarrow>
          (case fs path of
             None \<Rightarrow> None
           | Some f \<Rightarrow> if rm_buffer rm then Some (openFileBuffer_rd (image_fd f) 4096) else None))"

definition CONFIG_OPL :: int where "CONFIG_OPL = 1"
definition CONFIG_NETWORK :: int where "CONFIG_NETWORK = 8"

text \<open>The three places a set is looked for, in order; the second re-homes the set.\<close>

definition find_config :: "file_system \<Rightarrow> read_mem \<Rightarrow> config_set \<Rightarrow> cstring \<Rightarrow> file_buffer option \<times> config_set" where
  "find_config fs rm configSet filename =
     (case open_config fs rm filename of
        Some fb \<Rightarrow> (Some fb, configSet)
      | None \<Rightarrow>
          (case (case configBuildWoplPath (Some filename) 256 of
                   None \<Rightarrow> None
                 | Some w \<Rightarrow> map_option (\<lambda>fb. (fb, w)) (open_config fs rm w)) of
             Some (fb, w) \<Rightarrow> (Some fb, configMove (rm_name rm) configSet w)
           | None \<Rightarrow>
               if cs_type configSet = CONFIG_OPL
               then (open_config fs rm (configBuildLegacyOplPath filename 256), configSet)
               else (None, configSet)))"

text \<open>A set without a file name makes \<^verbatim>\<open>openFile\<close> read through a NULL path.\<close>

definition configRead :: "file_system \<Rightarrow> read_mem \<Rightarrow> config_set \<Rightarrow> read_fault + bool \<times> config_set" where
  "configRead fs rm configSet =
     (case cs_filename configSet of
        None \<Rightarrow> Inl NullDeref
      | Some filename \<Rightarrow>
          if configPathIsRawApa (Some filename) then Inr (False, configSet)
          else
            (case find_config fs rm configSet filename of
               (None, cs) \<Rightarrow> Inr (False, cs\<lparr>cs_modified := False\<rparr>)
             | (Some fb, cs) \<Rightarrow>
                 (case configReadFileBuffer (rm_items rm) fb cs of
                    Inl f \<Rightarrow> Inl f | Inr cs' \<Rightarrow> Inr (True, cs'))))"

section \<open>Saving\<close>

datatype open_outcome = OpenFailed | OpenTruncated | OpenOk

text \<open>
  \<open>se_absent\<close>: \<^verbatim>\<open>fileXioGetStat\<close> fails.  \<open>se_snapshot\<close>: the pre-save read (open, size, allocation, full
  read) works.  \<open>se_open\<close>: the truncating open; \<open>OpenTruncated\<close> is the open succeeding and the buffer
  allocation failing after it.  \<open>se_accept\<close>: how many bytes the device takes; \<open>se_close_fails\<close>: the
  close status; \<open>se_landed\<close>: after a failed flush or close, how many of the written bytes are really
  stored.  \<open>se_capture\<close>: the allocation of the copy to verify against; \<open>se_verify\<close>: the read-back
  opens, has memory and reads.  \<open>se_cur_opens\<close>: the damage check can open the file;
  \<open>se_restore_opens\<close>, \<open>se_restore_accept\<close>: the restoring write.  \<open>se_errno\<close>: \<^verbatim>\<open>errno\<close> after a failure.
\<close>

record save_env =
  se_absent :: bool
  se_snapshot :: bool
  se_open :: open_outcome
  se_accept :: nat
  se_close_fails :: bool
  se_landed :: nat
  se_capture :: bool
  se_verify :: bool
  se_cur_opens :: bool
  se_restore_opens :: bool
  se_restore_accept :: nat
  se_errno :: int

definition CONFIG_MAX_RESTORE_BYTES :: nat where "CONFIG_MAX_RESTORE_BYTES = 256 * 1024"

definition EACCES :: int where "EACCES = 13"

definition singleOpenDevice :: "cstring \<Rightarrow> bool" where
  "singleOpenDevice path \<longleftrightarrow> take 2 path = ''mc''"

definition snapshot :: "save_env \<Rightarrow> cstring \<Rightarrow> char list option \<Rightarrow> char list option" where
  "snapshot env path disk =
     (if singleOpenDevice path then None
      else case disk of
        None \<Rightarrow> None
      | Some b \<Rightarrow> if se_snapshot env \<and> 0 < length b \<and> length b \<le> CONFIG_MAX_RESTORE_BYTES then Some b else None)"

definition save_fd :: "save_env \<Rightarrow> file_desc" where
  "save_fd env = \<lparr>fd_unread = [], fd_read_fails = False, fd_written = [], fd_accept = se_accept env,
     fd_close_fails = se_close_fails env\<rparr>"

text \<open>From the truncating open to the verdict: the status, the bytes stored, the recorded \<^verbatim>\<open>errno\<close>.\<close>

definition save_stage ::
    "save_env \<Rightarrow> cstring \<Rightarrow> config_set \<Rightarrow> char list option \<Rightarrow> bool \<times> char list option \<times> int option" where
  "save_stage env path configSet disk =
     (case se_open env of
        OpenFailed \<Rightarrow> (False, disk, Some (se_errno env))
      | OpenTruncated \<Rightarrow> (False, Some [], Some (se_errno env))
      | OpenOk \<Rightarrow>
          (let fb = fold (\<lambda>bs b. writeFileBuffer b bs) (config_chunks configSet) (openFileBuffer_wr (save_fd env) 4096);
               intended = (if 0 < fb_available fb \<and> fb_totalQueued fb = fb_available fb \<and> se_capture env
                           then Some (take (fb_available fb) (fb_buffer fb)) else None);
               (closed, fdo) = closeFileBuffer fb;
               written = (case fdo of None \<Rightarrow> [] | Some f \<Rightarrow> fd_written f);
               stored = (if closed then written else take (se_landed env) written)
           in if closed then (True, Some stored, None)
              else if intended = Some stored \<and> \<not> singleOpenDevice path \<and> take 3 path \<noteq> ''pfs'' \<and> se_verify env
                   then (True, Some stored, Some 0)
                   else (False, Some stored, Some (se_errno env))))"

definition restore :: "save_env \<Rightarrow> char list option \<Rightarrow> char list option \<Rightarrow> char list option" where
  "restore env original disk =
     (case original of
        None \<Rightarrow> disk
      | Some b \<Rightarrow>
          (let curLen = (if se_cur_opens env then (case disk of None \<Rightarrow> 0 | Some d \<Rightarrow> length d) else 0) in
           if curLen < length b \<and> se_restore_opens env then Some (take (se_restore_accept env) b) else disk))"

definition configWrite ::
    "save_env \<Rightarrow> config_set \<Rightarrow> char list option \<Rightarrow> bool \<times> config_set \<times> char list option \<times> int option" where
  "configWrite env configSet disk =
     (let cs = (if \<not> cs_modified configSet \<and> cs_filename configSet \<noteq> None \<and> cs_items configSet \<noteq> [] \<and> se_absent env
                then configSet\<lparr>cs_modified := True\<rparr> else configSet)
      in if \<not> cs_modified cs then (True, cs, disk, None)
         else case cs_filename cs of
           None \<Rightarrow> (False, cs, disk, None)
         | Some path \<Rightarrow>
             if configPathIsRawApa (Some path) then (False, cs, disk, Some EACCES)
             else
               (let original = snapshot env path disk in
                case save_stage env path cs disk of
                  (True, disk', err) \<Rightarrow> (True, cs\<lparr>cs_modified := False\<rparr>, disk', err)
                | (False, disk', err) \<Rightarrow> (False, cs, restore env original disk', err)))"

section \<open>The global sets\<close>

definition configFilenames :: "cstring list" where
  "configFilenames = [''settings_riptopl.cfg'', ''conf_last.cfg'', ''conf_apps.cfg'', ''conf_network.cfg'', ''conf_game.cfg'']"

record config_globals =
  currentUID :: u32
  configFiles :: "config_set list"
  legacyNetConfigPath :: cstring
  cfgDevice :: cstring
  cfgLoadDevice :: cstring
  cfgHomePath :: cstring

definition configGetDir :: "char option \<Rightarrow> config_globals \<Rightarrow> config_globals \<times> cstring" where
  "configGetDir mcID g =
     (let g' = g\<lparr>cfgDevice := resolve_mc mcID (cfgDevice g)\<rparr> in (g', cfgDevice g'))"

definition configGetLoadDir :: "char option \<Rightarrow> config_globals \<Rightarrow> config_globals \<times> cstring" where
  "configGetLoadDir mcID g =
     (let g' = g\<lparr>cfgLoadDevice := resolve_mc mcID (cfgLoadDevice g)\<rparr>
      in (g', if cfgLoadDevice g' \<noteq> [] then cfgLoadDevice g' else cfgDevice g'))"

definition configGetHomePath :: "char option \<Rightarrow> config_globals \<Rightarrow> config_globals \<times> cstring" where
  "configGetHomePath mcID g =
     (let g' = g\<lparr>cfgHomePath := resolve_mc mcID (cfgHomePath g)\<rparr> in (g', cfgHomePath g'))"

definition configPrepareNotifications :: "cstring option \<Rightarrow> config_globals \<Rightarrow> config_globals" where
  "configPrepareNotifications pfx g = g\<lparr>cfgDevice := configPrepareDevice 8 pfx\<rparr>"

definition configPrepareLoadNotification :: "cstring \<Rightarrow> cstring option \<Rightarrow> config_globals \<Rightarrow> config_globals" where
  "configPrepareLoadNotification gOPLPart path g =
     (if path \<noteq> None \<and> take 5 (the path) = ''pfs0:'' \<and> gOPLPart \<noteq> []
      then g\<lparr>cfgLoadDevice := configPrepareDevice 8 (Some gOPLPart)\<rparr>
      else g\<lparr>cfgLoadDevice := configPrepareDevice 8 path\<rparr>)"

text \<open>\<open>mem i\<close>: the allocation of the \<open>i\<close>-th file name.\<close>

definition alloc_set :: "(nat \<Rightarrow> bool) \<Rightarrow> cstring \<Rightarrow> nat \<Rightarrow> config_globals \<Rightarrow> config_globals" where
  "alloc_set mem pfx i g =
     (let path = configBuildPath 256 (Some pfx) (configFilenames ! i) in
      case configAlloc (currentUID g) True (mem i) (2 ^ i) (Some (configFiles g ! i)) (Some path) of
        (uid, Some cs, _) \<Rightarrow> g\<lparr>currentUID := uid, configFiles := (configFiles g)[i := cs]\<rparr>
      | (uid, None, _) \<Rightarrow> g\<lparr>currentUID := uid\<rparr>)"

definition configInit :: "(nat \<Rightarrow> bool) \<Rightarrow> cstring \<Rightarrow> cstring option \<Rightarrow> config_globals \<Rightarrow> config_globals" where
  "configInit mem gBaseMCDir pfx0 g =
     (let pfx = (case pfx0 of None \<Rightarrow> gBaseMCDir | Some p \<Rightarrow> p);
          g1 = g\<lparr>legacyNetConfigPath := configBuildPath 256 (Some pfx) ''IPCONFIG.DAT''\<rparr>;
          g2 = fold (alloc_set mem pfx) [0..<5] g1
      in configPrepareNotifications (Some pfx) (g2\<lparr>cfgHomePath := bounded 256 pfx\<rparr>))"

definition configSetMove :: "(nat \<Rightarrow> bool) \<Rightarrow> cstring \<Rightarrow> cstring option \<Rightarrow> config_globals \<Rightarrow> config_globals" where
  "configSetMove mem gBaseMCDir pfx0 g =
     (let pfx = (case pfx0 of None \<Rightarrow> gBaseMCDir | Some p \<Rightarrow> p);
          g1 = g\<lparr>legacyNetConfigPath := configBuildPath 256 (Some pfx) ''IPCONFIG.DAT''\<rparr>;
          g2 = fold (\<lambda>i g. g\<lparr>configFiles := (configFiles g)
                 [i := configMove (mem i) (configFiles g ! i) (configBuildPath 256 (Some pfx) (configFilenames ! i))]\<rparr>)
                 [0..<5] g1
      in configPrepareNotifications (Some pfx) (g2\<lparr>cfgHomePath := bounded 256 pfx\<rparr>))"

definition configEnd :: "config_globals \<Rightarrow> config_globals" where
  "configEnd g = g\<lparr>configFiles := map (\<lambda>cs. (configClear cs)\<lparr>cs_filename := None\<rparr>) (configFiles g)\<rparr>"

section \<open>The legacy network file\<close>

text \<open>\<^verbatim>\<open>sscanf\<close> with \<^verbatim>\<open>%d\<close> conversions separated by the given characters; a blank in the format matches
  any white space.  The result is the list of converted numbers.\<close>

definition scan_int :: "cstring \<Rightarrow> (int \<times> cstring) option" where
  "scan_int s =
     (let t = dropWhile isspace s;
          neg = (t \<noteq> [] \<and> hd t = CHR ''-'');
          u = (if t \<noteq> [] \<and> (hd t = CHR ''-'' \<or> hd t = CHR ''+'') then tl t else t);
          ds = takeWhile isdigit u
      in if ds = [] then None
         else Some (clamp32 (if neg then - int (read_digits 0 ds) else int (read_digits 0 ds)), dropWhile isdigit u))"

fun scan_ints :: "char list \<Rightarrow> cstring \<Rightarrow> int list" where
  "scan_ints seps s =
     (case scan_int s of
        None \<Rightarrow> []
      | Some (v, r) \<Rightarrow>
          v # (case seps of
                 [] \<Rightarrow> []
               | c # cs \<Rightarrow>
                   if c = SPC then scan_ints cs (dropWhile isspace r)
                   else (case r of [] \<Rightarrow> [] | x # r' \<Rightarrow> if x = c then scan_ints cs r' else [])))"

definition ip_format :: "char list" where
  "ip_format = ''... ... ...''"

definition show_ip :: "int list \<Rightarrow> cstring" where
  "show_ip q = bounded 16 (show_int (q ! 0) @ ''.'' @ show_int (q ! 1) @ ''.'' @ show_int (q ! 2) @ ''.'' @ show_int (q ! 3))"

text \<open>The numbers overwrite the twelve globals \<^verbatim>\<open>ps2_ip\<close>, \<^verbatim>\<open>ps2_netmask\<close>, \<^verbatim>\<open>ps2_gateway\<close> one by one, also
  when fewer than twelve are found.\<close>

definition configReadLegacyIP ::
    "(nat \<Rightarrow> bool) \<Rightarrow> file_system \<Rightarrow> int list \<Rightarrow> config_globals \<Rightarrow> bool \<times> int list \<times> config_globals" where
  "configReadLegacyIP mem fs net g =
     (case fs (legacyNetConfigPath g) of
        None \<Rightarrow> (False, net, g)
      | Some f \<Rightarrow>
          (let sz = (if fi_size f < 0 then 0 else if 256 \<le> fi_size f then 255 else nat (fi_size f));
               ipconfig = cstr (if fi_read_fails f then [] else take sz (fi_bytes f));
               vs = scan_ints ip_format ipconfig;
               net' = vs @ drop (length vs) net
           in if length vs \<noteq> 12 then (False, net', g)
              else
                (let cs = configFiles g ! 3;
                     cs1 = snd (configSetStr mem cs ''ps2_ip_addr'' (show_ip (take 4 net')));
                     cs2 = snd (configSetStr mem cs1 ''ps2_netmask'' (show_ip (take 4 (drop 4 net'))));
                     cs3 = snd (configSetStr mem cs2 ''ps2_gateway'' (show_ip (drop 8 net')));
                     cs4 = snd (configSetStr mem cs3 ''ps2_dns'' (show_ip (drop 8 net')))
                 in (True, net', g\<lparr>configFiles := (configFiles g)[3 := cs4]\<rparr>))))"

section \<open>Several sets at once\<close>

definition type_in :: "config_set \<Rightarrow> int \<Rightarrow> bool" where
  "type_in cs types \<longleftrightarrow> and (cs_type cs) types \<noteq> 0"

fun read_sets ::
    "file_system \<Rightarrow> read_mem \<Rightarrow> cstring \<Rightarrow> int \<Rightarrow> nat list \<Rightarrow> int \<Rightarrow> config_globals \<Rightarrow> read_fault + int \<times> config_globals" where
  "read_sets fs rm gOPLPart types [] result g = Inr (result, g)"
| "read_sets fs rm gOPLPart types (i # is) result g =
     (let cs = configFiles g ! i in
      if \<not> type_in cs types then read_sets fs rm gOPLPart types is result g
      else case configRead fs rm (configClear cs) of
        Inl f \<Rightarrow> Inl f
      | Inr (ok, cs') \<Rightarrow>
          (let g1 = g\<lparr>configFiles := (configFiles g)[i := cs']\<rparr>;
               g2 = (if ok \<and> cs_type cs' = CONFIG_OPL
                     then configPrepareLoadNotification gOPLPart (cs_filename cs') g1 else g1)
           in read_sets fs rm gOPLPart types is (if ok then or result (cs_type cs') else result) g2))"

definition configReadMulti ::
    "file_system \<Rightarrow> read_mem \<Rightarrow> cstring \<Rightarrow> int list \<Rightarrow> int \<Rightarrow> config_globals \<Rightarrow> read_fault + int \<times> int list \<times> config_globals" where
  "configReadMulti fs rm gOPLPart net types g =
     (case read_sets fs rm gOPLPart types [0..<5] 0 g of
        Inl f \<Rightarrow> Inl f
      | Inr (result, g') \<Rightarrow>
          if and types CONFIG_NETWORK \<noteq> 0 \<and> and result CONFIG_NETWORK = 0
          then (case configReadLegacyIP (rm_items rm) fs net g' of
                  (ok, net', g'') \<Rightarrow> Inr (if ok then or result CONFIG_NETWORK else result, net', g''))
          else Inr (result, net, g'))"

text \<open>\<open>disks i\<close> is the file of the \<open>i\<close>-th set and \<open>envs i\<close> what its save meets.\<close>

fun write_sets ::
    "(nat \<Rightarrow> save_env) \<Rightarrow> int \<Rightarrow> nat list \<Rightarrow> nat \<Rightarrow> config_globals \<Rightarrow> (nat \<Rightarrow> char list option) \<Rightarrow>
     nat \<times> config_globals \<times> (nat \<Rightarrow> char list option)" where
  "write_sets envs types [] result g disks = (result, g, disks)"
| "write_sets envs types (i # is) result g disks =
     (let cs = configFiles g ! i in
      if \<not> type_in cs types then write_sets envs types is result g disks
      else case configWrite (envs i) cs (disks i) of
        (ok, cs', d, _) \<Rightarrow>
          write_sets envs types is (result + (if ok then 1 else 0))
            (g\<lparr>configFiles := (configFiles g)[i := cs']\<rparr>) (disks(i := d)))"

definition configWriteMulti ::
    "(nat \<Rightarrow> save_env) \<Rightarrow> int \<Rightarrow> config_globals \<Rightarrow> (nat \<Rightarrow> char list option) \<Rightarrow>
     nat \<times> config_globals \<times> (nat \<Rightarrow> char list option)" where
  "configWriteMulti envs types g disks = write_sets envs types [0..<5] 0 g disks"

section \<open>What a save leaves on the device\<close>

lemma save_stage_open:
  assumes "se_open env = OpenOk" "new = concat (config_chunks cs)"
  shows "\<exists>cond. save_stage env path cs disk =
      (if length new \<le> se_accept env \<and> \<not> se_close_fails env then (True, Some new, None)
       else if cond then (True, Some (take (min (se_landed env) (se_accept env)) new), Some 0)
       else (False, Some (take (min (se_landed env) (se_accept env)) new), Some (se_errno env))) \<and>
    (cond \<longrightarrow> take (min (se_landed env) (se_accept env)) new = new)"
proof -
  define fb where "fb = fold (\<lambda>bs b. writeFileBuffer b bs) (config_chunks cs) (openFileBuffer_wr (save_fd env) 4096)"
  define intended where "intended = (if 0 < fb_available fb \<and> fb_totalQueued fb = fb_available fb \<and> se_capture env
    then Some (take (fb_available fb) (fb_buffer fb)) else None)"
  define stored where "stored = take (min (se_landed env) (se_accept env)) new"
  define cond where "cond \<longleftrightarrow> intended = Some stored \<and> \<not> singleOpenDevice path \<and> take 3 path \<noteq> ''pfs'' \<and> se_verify env"
  define closed where "closed \<longleftrightarrow> length new \<le> se_accept env \<and> \<not> se_close_fails env"
  have cl: "closeFileBuffer fb = (closed,
      Some ((save_fd env)\<lparr>fd_written := take (se_accept env) new, fd_accept := se_accept env - length new\<rparr>))"
    using write_close [of "config_chunks cs" "save_fd env" 4096]
    by (simp add: fb_def save_fd_def assms(2) closed_def)
  have st: "take (se_landed env) (take (se_accept env) new) = stored" by (simp add: stored_def)
  have w: "take (se_accept env) new = new" if closed using that by (simp add: closed_def)
  have "save_stage env path cs disk =
      (if closed then (True, Some (if closed then take (se_accept env) new else stored), None)
       else if intended = Some (if closed then take (se_accept env) new else stored) \<and> \<not> singleOpenDevice path \<and>
               take 3 path \<noteq> ''pfs'' \<and> se_verify env
       then (True, Some (if closed then take (se_accept env) new else stored), Some 0)
       else (False, Some (if closed then take (se_accept env) new else stored), Some (se_errno env)))"
    unfolding save_stage_def assms(1) open_outcome.case fb_def [symmetric] Let_def cl prod.case option.case
      intended_def [symmetric] st [symmetric]
    by simp
  also have "\<dots> = (if closed then (True, Some new, None) else if cond then (True, Some stored, Some 0)
       else (False, Some stored, Some (se_errno env)))"
    by (cases closed; cases cond) (auto simp: w cond_def)
  finally have "save_stage env path cs disk = \<dots>" .
  moreover have "stored = new" if cond
  proof -
    have "intended = Some stored" using that by (simp add: cond_def)
    then have "fb_totalQueued fb = fb_available fb" "stored = take (fb_available fb) (fb_buffer fb)"
      by (auto simp: intended_def split: if_splits)
    then show ?thesis using write_capture [OF fb_def] assms(2) by simp
  qed
  ultimately show ?thesis unfolding closed_def stored_def by blast
qed

lemma save_stage_cases:
  assumes "save_stage env path cs disk = (ok, disk', err)" "new = concat (config_chunks cs)"
  shows "(ok \<longrightarrow> disk' = Some new) \<and>
    (\<not> ok \<longrightarrow> disk' = disk \<or> (\<exists>n. disk' = Some (take n new)))"
proof (cases "se_open env")
  case OpenOk
  show ?thesis using save_stage_open [OF OpenOk assms(2), of path disk] assms(1)
    by (elim exE conjE) (simp split: if_splits, blast+)
next
  case OpenFailed
  then show ?thesis using assms(1) by (simp add: save_stage_def)
next
  case OpenTruncated
  then show ?thesis using assms(1) by (auto simp: save_stage_def intro!: exI [of _ 0])
qed

lemma restore_outcome:
  assumes "restore env (Some b) disk = disk'" "se_restore_opens env" "length b \<le> se_restore_accept env"
  shows "disk' = Some b \<or> (disk' = disk \<and> (case disk of None \<Rightarrow> b = [] | Some d \<Rightarrow> length b \<le> length d))"
  using assms by (auto simp: restore_def Let_def split: if_splits option.splits)

section \<open>Reading back what was saved\<close>

lemma open_config_lines:
  assumes "fs path = Some f" "fi_size f = int (length (fi_bytes f))" "\<not> fi_read_fails f" "rm_buffer rm"
    "fi_bytes f = text_of ls" "\<forall>l \<in> set ls. plain_line l \<and> length l < 4095" "\<not> is_bom (take 3 (text_of ls))"
  shows "\<exists>fb. open_config fs rm path = Some fb \<and> fb_lines fb = Inr ls"
proof (cases "configOpenSingleShot fs rm (Some path)")
  case (Some fb)
  have "fb = openFileBufferBuffer (text_of ls)"
    using Some assms(1,2,3,5,7)
    by (auto simp: configOpenSingleShot_def Let_def split: if_splits)
  then have "fb_lines fb = Inr ls" using assms(6) fb_lines_text_of by blast
  then show ?thesis using Some by (simp add: open_config_def)
next
  case None
  let ?fb = "openFileBuffer_rd (image_fd f) 4096"
  have pl: "\<forall>l \<in> set ls. plain_line l" using assms(6) by blast
  have nul: "NUL \<notin> set (text_of ls)" using pl by (induction ls) (auto simp: plain_line_def)
  have s: "skip_bom (text_of ls) = text_of ls" using assms(7) by (simp add: skip_bom_def)
  have r: "fb_rest ?fb = text_of ls" using fb_rest_rd [of "image_fd f" 4096] assms(3,5) s by (simp add: image_fd_def)
  have lo: "lines_of (text_of ls) = ls" using pl lines_of_text_of by (auto simp: plain_line_def)
  have ok: "fb_ok ?fb" using fb_ok_rd [of "image_fd f" 4096] assms(3,5) nul by (simp add: image_fd_def)
  have "fits (fb_cap ?fb) (fb_rest ?fb)" using assms(6) lo by (simp add: fb_cap_rd r fits_def)
  moreover have "\<not> tail_comment (text_of ls)" using pl tail_comment_text_of by (auto simp: plain_line_def)
  ultimately have "fb_lines ?fb = Inr ls" using fb_lines_text [OF ok] r text_lines_text_of [OF pl] by simp
  then show ?thesis using None assms(1,4) by (simp add: open_config_def)
qed

lemma legacy_line_short: "item_ok it \<Longrightarrow> length (legacy_line it) < 4095"
  by (simp add: item_ok_def legacy_line_def cfg_lens)

lemma no_bom_text:
  assumes "\<forall>it \<in> set its. cv_key it \<noteq> [] \<and> hd (cv_key it) \<noteq> CHR 0xEF"
  shows "\<not> is_bom (take 3 (text_of (map legacy_line its)))"
proof (cases its)
  case (Cons it rest)
  then obtain c r where "cv_key it = c # r" "c \<noteq> CHR 0xEF" using assms by (cases "cv_key it") auto
  then show ?thesis using Cons by (simp add: is_bom_def legacy_line_def)
qed (simp add: is_bom_def)

lemma configWrite_ok:
  assumes "configWrite env cs disk = (True, cs', disk', err)" and "cs_modified cs"
  shows "disk' = Some (concat (config_chunks cs)) \<and> cs' = cs\<lparr>cs_modified := False\<rparr>"
proof -
  obtain path where p: "cs_filename cs = Some path" "\<not> configPathIsRawApa (Some path)"
    using assms by (auto simp: configWrite_def Let_def split: option.splits if_splits)
  obtain ok d e where s: "save_stage env path cs disk = (ok, d, e)" by (cases "save_stage env path cs disk") auto
  have "ok" "disk' = d" "cs' = cs\<lparr>cs_modified := False\<rparr>"
    using assms p s by (auto simp: configWrite_def Let_def split: bool.splits)
  then show ?thesis using save_stage_cases [OF s refl] by simp
qed

section \<open>Properties\<close>

text \<open>C2. When \<open>configWrite\<close> reports success for a modified set, the file holds exactly the
  serialisation of the set, whatever the device did on the way (short writes, a failed close with
  the bytes in place), and the set is clean again.\<close>

theorem config_save_sound:
  assumes "configWrite env cs disk = (True, cs', disk', err)" and "cs_modified cs"
  shows "disk' = Some (concat (config_chunks cs)) \<and> cs' = cs\<lparr>cs_modified := False\<rparr>"
  using configWrite_ok [OF assms] .

definition good_env :: save_env where
  "good_env = \<lparr>se_absent = False, se_snapshot = True, se_open = OpenOk, se_accept = 100, se_close_fails = False,
     se_landed = 0, se_capture = True, se_verify = True, se_cur_opens = True, se_restore_opens = True,
     se_restore_accept = 100, se_errno = 5\<rparr>"

definition sample_saved :: config_set where
  "sample_saved = sample_cfg\<lparr>cs_filename := Some ''pfs0:settings_riptopl.cfg'', cs_modified := True\<rparr>"

lemma sample_chunks: "config_chunks sample_saved = [''theme=x'' @ [LF]]"
  by (simp add: sample_saved_def sample_cfg_def config_chunks_def write_legacy_def persisted_def starts_hash_def
      bounded_def)

lemma sample_write:
  "configWrite good_env sample_saved None = (True, sample_saved\<lparr>cs_modified := False\<rparr>, Some (''theme=x'' @ [LF]), None)"
proof -
  have "\<not> configPathIsRawApa (Some ''pfs0:settings_riptopl.cfg'')" by (simp add: configPathIsRawApa_def)
  moreover have "save_stage good_env p sample_saved None = (True, Some (''theme=x'' @ [LF]), None)" for p
    using write_close [of "[''theme=x'' @ [LF]]" "save_fd good_env" 4096]
    by (simp add: save_stage_def good_env_def save_fd_def sample_chunks Let_def)
  ultimately show ?thesis by (simp add: configWrite_def sample_saved_def Let_def)
qed

theorem config_save_sound_witness:
  "\<exists>cs' disk' err. configWrite good_env sample_saved None = (True, cs', disk', err) \<and>
     disk' = Some (concat (config_chunks sample_saved)) \<and> cs' = sample_saved\<lparr>cs_modified := False\<rparr>"
proof -
  have "cs_modified sample_saved" by (simp add: sample_saved_def)
  then show ?thesis using config_save_sound [OF sample_write] sample_write by blast
qed

text \<open>C33. A failed save keeps the set, and its mark as modified, in every case.  And when a snapshot of
  the file could be taken and can be written back (the file opens again and accepts as many bytes), the file
  afterwards holds the original bytes again, or at least as many bytes of the new text: it is never left shorter
  than the original.\<close>

theorem config_save_failure:
  assumes "configWrite env cs disk = (False, cs', disk', err)" and "cs_modified cs"
  shows "cs' = cs \<and>
    (\<forall>path b. cs_filename cs = Some path \<and> snapshot env path disk = Some b \<and> se_restore_opens env \<and> length b \<le> se_restore_accept env \<longrightarrow>
      disk' = Some b \<or>
      (\<exists>n. disk' = Some (take n (concat (config_chunks cs))) \<and> length b \<le> length (take n (concat (config_chunks cs)))))"
proof (cases "\<exists>path. cs_filename cs = Some path \<and> \<not> configPathIsRawApa (Some path)")
  case True
  then obtain path where path: "cs_filename cs = Some path" "\<not> configPathIsRawApa (Some path)" by blast
  obtain ok d e where s: "save_stage env path cs disk = (ok, d, e)" by (cases "save_stage env path cs disk") auto
  have r: "\<not> ok" "cs' = cs" "\<And>b. snapshot env path disk = Some b \<Longrightarrow> restore env (Some b) d = disk'"
    using assms path s by (auto simp: configWrite_def Let_def split: bool.splits)
  have disk: "disk = Some b" if "snapshot env path disk = Some b" for b
    using that by (auto simp: snapshot_def split: option.splits if_splits)
  show ?thesis using save_stage_cases [OF s refl] restore_outcome [OF r(3)] r(1,2) disk path(1) by fastforce
next
  case False
  have "disk = Some b" if "snapshot env path disk = Some b" for path b
    using that by (auto simp: snapshot_def split: option.splits if_splits)
  then show ?thesis using assms False by (auto simp: configWrite_def Let_def split: option.splits)
qed

definition wedged_env :: save_env where
  "wedged_env = good_env\<lparr>se_open := OpenTruncated\<rparr>"

text \<open>Opening the file for writing empties it and fails: the old bytes come back.\<close>

lemma wedged_write: "configWrite wedged_env sample_saved (Some ''old'') = (False, sample_saved, Some ''old'', Some 5)"
  by (simp add: configWrite_def wedged_env_def good_env_def sample_saved_def configPathIsRawApa_def Let_def
      snapshot_def singleOpenDevice_def CONFIG_MAX_RESTORE_BYTES_def save_stage_def restore_def)

theorem config_save_failure_witness:
  "save_stage wedged_env ''pfs0:settings_riptopl.cfg'' sample_saved (Some ''old'') = (False, Some [], Some 5) \<and>
   (\<exists>cs' disk' err. configWrite wedged_env sample_saved (Some ''old'') = (False, cs', disk', err) \<and> cs_modified cs' \<and>
     (disk' = Some ''old'' \<or>
      (\<exists>n. disk' = Some (take n (concat (config_chunks sample_saved))) \<and>
        length ''old'' \<le> length (take n (concat (config_chunks sample_saved))))))"
proof -
  have "snapshot wedged_env ''pfs0:settings_riptopl.cfg'' (Some ''old'') = Some ''old''"
    "se_restore_opens wedged_env" "length ''old'' \<le> se_restore_accept wedged_env" "cs_modified sample_saved"
    "cs_filename sample_saved = Some ''pfs0:settings_riptopl.cfg''"
    by (simp_all add: snapshot_def singleOpenDevice_def wedged_env_def good_env_def CONFIG_MAX_RESTORE_BYTES_def sample_saved_def)
  moreover have "save_stage wedged_env ''pfs0:settings_riptopl.cfg'' sample_saved (Some ''old'') = (False, Some [], Some 5)"
    by (simp add: save_stage_def wedged_env_def good_env_def)
  ultimately show ?thesis using config_save_failure [OF wedged_write] wedged_write by blast
qed

text \<open>The damage check compares lengths only: when the new text is longer than the old one and the
  device stores a proper part of it that is at least as long as the old file, the failed save is not
  rolled back although the snapshot is at hand, and the file is left with a cut-off new text.\<close>

lemma config_partial_save_kept:
  assumes "cs_modified cs" and "cs_filename cs = Some path" and "\<not> configPathIsRawApa (Some path)"
    and "snapshot env path (Some b) = Some b" and "se_open env = OpenOk" and "se_cur_opens env"
    and "length b \<le> se_accept env" and "se_accept env < length (concat (config_chunks cs))"
    and "se_accept env \<le> se_landed env"
  shows "\<exists>err. configWrite env cs (Some b) = (False, cs, Some (take (se_accept env) (concat (config_chunks cs))), err) \<and>
    take (se_accept env) (concat (config_chunks cs)) \<noteq> concat (config_chunks cs)"
proof -
  let ?new = "concat (config_chunks cs)"
  have m: "min (se_landed env) (se_accept env) = se_accept env" using assms(9) by simp
  have ne: "take (se_accept env) ?new \<noteq> ?new"
    using assms(8) arg_cong [of "take (se_accept env) ?new" ?new length] by simp
  obtain cond where "save_stage env path cs (Some b) =
      (if length ?new \<le> se_accept env \<and> \<not> se_close_fails env then (True, Some ?new, None)
       else if cond then (True, Some (take (se_accept env) ?new), Some 0)
       else (False, Some (take (se_accept env) ?new), Some (se_errno env)))"
    "cond \<longrightarrow> take (se_accept env) ?new = ?new"
    using save_stage_open [OF assms(5) refl, where path = path and disk = "Some b" and cs = cs] unfolding m by blast
  then have "save_stage env path cs (Some b) = (False, Some (take (se_accept env) ?new), Some (se_errno env))"
    using ne assms(8) by auto
  moreover have "restore env (Some b) (Some (take (se_accept env) ?new)) = Some (take (se_accept env) ?new)"
    using assms(6-8) by (simp add: restore_def Let_def)
  ultimately show ?thesis using assms(1-4) ne by (simp add: configWrite_def Let_def)
qed

lemma config_partial_save_kept_witness:
  "\<exists>err. configWrite (good_env\<lparr>se_accept := 4, se_landed := 4\<rparr>) sample_saved (Some ''old'') =
     (False, sample_saved, Some (take 4 (concat (config_chunks sample_saved))), err)"
  using config_partial_save_kept [of sample_saved "''pfs0:settings_riptopl.cfg''"
      "good_env\<lparr>se_accept := 4, se_landed := 4\<rparr>" "''old''"]
  by (simp add: good_env_def sample_chunks snapshot_def singleOpenDevice_def CONFIG_MAX_RESTORE_BYTES_def
      configPathIsRawApa_def) (simp add: sample_saved_def sample_chunks)

text \<open>The raw APA namespace is never touched: a set whose path is \<^verbatim>\<open>hddN:\<close> is neither read nor
  written; a modified one reports failure with EACCES and stays modified.\<close>

lemma config_raw_apa_firewall:
  assumes "cs_filename cs = Some path" and "configPathIsRawApa (Some path)"
  shows "configRead fs rm cs = Inr (False, cs) \<and>
    fst (snd (snd (configWrite env cs disk))) = disk \<and>
    (cs_modified cs \<longrightarrow> configWrite env cs disk = (False, cs, disk, Some EACCES))"
  using assms by (auto simp: configRead_def configWrite_def Let_def)

lemma config_raw_apa_firewall_witness:
  "configWrite good_env (sample_saved\<lparr>cs_filename := Some ''hdd0:/+OPL/x.cfg''\<rparr>) (Some ''p'') =
     (False, sample_saved\<lparr>cs_filename := Some ''hdd0:/+OPL/x.cfg''\<rparr>, Some ''p'', Some EACCES)"
  using config_raw_apa_firewall [of "sample_saved\<lparr>cs_filename := Some ''hdd0:/+OPL/x.cfg''\<rparr>" "''hdd0:/+OPL/x.cfg''"]
  by (simp add: configPathIsRawApa_def isdigit_def char_code_def sample_saved_def)

text \<open>C32. Saving to a file and loading it again, through the single-shot path or the buffered one:
  whenever the save of a set in the key=value syntax reports success and the file can be opened (its full
  size is read, the buffer and the items are allocated), the load gives back exactly the persistent items.
  The keys of the set are distinct and, for every persistent item, the line can be read back (\<^term>\<open>legacy_safe\<close>:
  a valid key without white space at its ends and without a leading slash, no line feed or NUL, a value that does not
  end in a carriage return) and does not begin with the byte 0xEF of a byte-order mark; \<open>config_classify_writers\<close>
  shows what happens otherwise.\<close>

theorem config_save_load:
  assumes "configWrite env cs disk = (True, cs', Some d, err)" and "cs_modified cs"
    and "cs_filename cs = Some path" and "cfg_ok cs" and "keys_unique cs" and "cs_format cs = CFG_FMT_LEGACY"
    and "\<forall>it \<in> set (cs_items cs). persisted it \<longrightarrow> legacy_safe it \<and> hd (cv_key it) \<noteq> CHR 0xEF"
    and "fs path = Some \<lparr>fi_bytes = d, fi_size = int (length d), fi_read_fails = False\<rparr>"
    and "rm_buffer rm" and "rm_items rm = (\<lambda>_. True)"
  shows "configRead fs rm (configClear cs') =
    Inr (True, cs\<lparr>cs_items := filter persisted (cs_items cs), cs_modified := False\<rparr>)"
proof -
  let ?its = "filter persisted (cs_items cs)"
  have d: "d = concat (config_chunks cs)" and cs': "cs' = cs\<lparr>cs_modified := False\<rparr>"
    using configWrite_ok [OF assms(1,2)] by auto
  have raw: "\<not> configPathIsRawApa (Some path)"
    using assms(1-3) by (auto simp: configWrite_def Let_def split: if_splits)
  have t: "d = text_of (map legacy_line ?its)"
    using write_legacy_text [OF assms(4)] assms(6) d by (simp add: config_chunks_def)
  have ok: "\<forall>it \<in> set ?its. persisted it \<and> legacy_safe it \<and> item_ok it"
    using assms(4,7) by (simp add: cfg_ok_def)
  then have pl: "\<forall>l \<in> set (map legacy_line ?its). plain_line l \<and> length l < 4095"
    using legacy_line_plain legacy_line_short by auto
  have bom: "\<not> is_bom (take 3 (text_of (map legacy_line ?its)))"
    using assms(7) by (intro no_bom_text) (auto simp: persisted_def)
  obtain fb where fb: "open_config fs rm path = Some fb" "fb_lines fb = Inr (map legacy_line ?its)"
    using open_config_lines [of fs path _ rm, OF assms(8) _ _ assms(9) _ pl bom] t by auto
  have "distinct (map cv_key ?its)" using assms(5) by (simp add: keys_unique_def distinct_map_filter)
  then have "read_lines (\<lambda>_. True) (configClear cs') (map legacy_line ?its) =
      cs\<lparr>cs_items := ?its, cs_modified := False\<rparr>"
    using read_lines_legacy [OF ok, of "configClear cs'"] assms(6) cs' by (cases cs) (simp add: configClear_def)
  then show ?thesis using fb raw assms(3,10) cs'
    by (simp add: configRead_def find_config_def configReadFileBuffer_def configClear_def)
qed

theorem config_save_load_witness:
  "configRead (\<lambda>_. Some \<lparr>fi_bytes = ''theme=x'' @ [LF], fi_size = 8, fi_read_fails = False\<rparr>)
     \<lparr>rm_shot = True, rm_buffer = True, rm_name = True, rm_items = \<lambda>_. True\<rparr>
     (configClear (sample_saved\<lparr>cs_modified := False\<rparr>)) =
   Inr (True, sample_saved\<lparr>cs_items := filter persisted (cs_items sample_saved), cs_modified := False\<rparr>)"
proof (rule config_save_load [OF sample_write])
  show "cfg_ok sample_saved" "keys_unique sample_saved"
    using sample_cfg_ok by (simp_all add: sample_saved_def cfg_ok_def keys_unique_def)
  show "\<forall>it \<in> set (cs_items sample_saved). persisted it \<longrightarrow> legacy_safe it \<and> hd (cv_key it) \<noteq> CHR 0xEF"
    using sample_cfg_legacy by (simp add: sample_saved_def sample_cfg_def)
qed (simp_all add: sample_saved_def sample_cfg_def)

text \<open>After \<open>configInit\<close> every one of the five sets is found by its type bit, is empty and clean, has
  its own file under the given directory and a fresh identifier; \<open>configSetMove\<close> re-homes the sets
  without touching their items or their modified flags.\<close>

lemma config_init_move:
  assumes "length (configFiles g) = 5" and "i < 5"
  shows "\<exists>cs. configGetByType (configFiles (configInit (\<lambda>_. True) base (Some dir) g)) (2 ^ i) = Some cs \<and>
      cs_items cs = [] \<and> \<not> cs_modified cs \<and> cs_format cs = CFG_FMT_LEGACY \<and>
      cs_filename cs = Some (configBuildPath 256 (Some dir) (configFilenames ! i)) \<and>
      cs_uid cs = currentUID g + of_nat (Suc i) \<and>
    configFiles (configSetMove (\<lambda>_. True) base (Some dir) g) ! i =
      (configFiles g ! i)\<lparr>cs_filename := Some (configBuildPath 256 (Some dir) (configFilenames ! i))\<rparr>"
proof -
  obtain a b c d e where f: "configFiles g = [a, b, c, d, e]"
    using assms(1) by (auto simp: numeral_eq_Suc length_Suc_conv)
  have u: "[0..<5] = [0, 1, 2, 3, 4]" by (simp add: upt_rec)
  from assms(2) consider "i = 0" | "i = 1" | "i = 2" | "i = 3" | "i = 4" by linarith
  then show ?thesis
    by cases (simp_all add: configInit_def configSetMove_def u f alloc_set_def configAlloc_def Let_def
        configPrepareNotifications_def configMove_def)
qed

end
