(* ===== verification/HttpCatalog.thy ===== *)
theory HttpCatalog
  imports OplPrelude
begin

text \<open>
  The parser of the HTTP game catalogue (\<^verbatim>\<open>src/httpcatalog.c\<close>): one line of \<^verbatim>\<open>games.csv\<close>, split with
  RFC 4180 quoting into at most four fields, checked and turned into a row.

  The parser writes into the line it is given; the model returns the fields instead.  A row is only
  returned for an accepted line.
\<close>

section \<open>Data\<close>

definition HTTP_CAT_STARTUP_MAX :: nat where "HTTP_CAT_STARTUP_MAX = 12"
definition HTTP_CAT_TITLE_MAX :: nat where "HTTP_CAT_TITLE_MAX = 160"
definition HTTP_CAT_PATH_MAX :: nat where "HTTP_CAT_PATH_MAX = 255"
definition HTTP_CSV_MAX_FIELDS :: nat where "HTTP_CSV_MAX_FIELDS = 4"

lemmas http_lens = HTTP_CAT_STARTUP_MAX_def HTTP_CAT_TITLE_MAX_def HTTP_CAT_PATH_MAX_def HTTP_CSV_MAX_FIELDS_def

datatype http_reject =
    HTTP_CAT_OK | HTTP_CAT_REJ_EMPTY_STARTUP | HTTP_CAT_REJ_STARTUP_TOO_LONG | HTTP_CAT_REJ_CONTROL_CHAR
  | HTTP_CAT_REJ_TITLE_TOO_LONG | HTTP_CAT_REJ_BAD_MEDIA | HTTP_CAT_REJ_TOO_MANY_FIELDS
  | HTTP_CAT_REJ_UNTERMINATED_QUOTE | HTTP_CAT_REJ_TEXT_AFTER_QUOTE | HTTP_CAT_REJ_EMPTY_PATH
  | HTTP_CAT_REJ_PATH_TOO_LONG | HTTP_CAT_REJ_ABSOLUTE_URL | HTTP_CAT_REJ_ABSOLUTE_PATH
  | HTTP_CAT_REJ_BACKSLASH | HTTP_CAT_REJ_EMPTY_SEGMENT | HTTP_CAT_REJ_PARENT_SEGMENT
  | HTTP_CAT_REJ_UNKNOWN_EXTENSION

datatype http_media = HTTP_CAT_MEDIA_CD | HTTP_CAT_MEDIA_DVD

record http_catalog_row =
  hr_startup :: cstring
  hr_title :: cstring
  hr_path :: cstring
  hr_extension :: cstring
  hr_media :: http_media
  hr_supported :: bool

section \<open>Operations\<close>

abbreviation blank :: "char \<Rightarrow> bool" where "blank c \<equiv> c = SPC \<or> c = TAB"

definition httpCatalogSkipBlankOrComment :: "cstring \<Rightarrow> cstring option" where
  "httpCatalogSkipBlankOrComment line =
     (let l = dropWhile blank line in if l = [] \<or> hd l = CHR ''#'' then None else Some l)"

text \<open>The inside of a quoted field, up to its closing quote, and the rest of the line.\<close>

fun quoted_field :: "cstring \<Rightarrow> (cstring \<times> cstring) option" where
  "quoted_field [] = None"
| "quoted_field (c # p) =
     (if c = DQUOTE
      then (case p of
              d # q \<Rightarrow> if d = DQUOTE then map_option (\<lambda>(f, r). (DQUOTE # f, r)) (quoted_field q) else Some ([], p)
            | [] \<Rightarrow> Some ([], []))
      else map_option (\<lambda>(f, r). (c # f, r)) (quoted_field p))"

function httpSplitFields :: "nat \<Rightarrow> cstring \<Rightarrow> http_reject + cstring list" where
  "httpSplitFields count p =
     (if HTTP_CSV_MAX_FIELDS \<le> count then Inl HTTP_CAT_REJ_TOO_MANY_FIELDS
      else
        let more = (\<lambda>f q.
              if q = []
              then if HTTP_CSV_MAX_FIELDS \<le> Suc count then Inl HTTP_CAT_REJ_TOO_MANY_FIELDS else Inr [f, []]
              else case httpSplitFields (Suc count) q of Inl e \<Rightarrow> Inl e | Inr fs \<Rightarrow> Inr (f # fs))
        in if p \<noteq> [] \<and> hd p = DQUOTE
           then (case quoted_field (tl p) of
                   None \<Rightarrow> Inl HTTP_CAT_REJ_UNTERMINATED_QUOTE
                 | Some (f, r) \<Rightarrow>
                     if r \<noteq> [] \<and> hd r \<noteq> CHR '','' then Inl HTTP_CAT_REJ_TEXT_AFTER_QUOTE
                     else if r = [] then Inr [f] else more f (tl r))
           else let f = before_char CHR '','' p; r = from_char CHR '','' p
                in if r = [] then Inr [f] else more f (tl r))"
  by pat_completeness auto
termination
  by (relation "measure (\<lambda>(c, p). HTTP_CSV_MAX_FIELDS - c)") auto

declare httpSplitFields.simps [simp del]

definition httpTrim :: "cstring \<Rightarrow> cstring" where
  "httpTrim s = rstrip blank (dropWhile blank s)"

definition is_control :: "char \<Rightarrow> bool" where
  "is_control c \<longleftrightarrow> char_code c < 32 \<or> char_code c = 127"

definition httpHasControlChars :: "cstring \<Rightarrow> bool" where
  "httpHasControlChars s \<longleftrightarrow> (\<exists>c \<in> set s. is_control c)"

definition httpEndsWithNoCase :: "cstring \<Rightarrow> cstring \<Rightarrow> bool" where
  "httpEndsWithNoCase s suf \<longleftrightarrow>
     length suf < length s \<and> map to_lower (drop (length s - length suf) s) = map to_lower suf"

definition strstr :: "cstring \<Rightarrow> cstring \<Rightarrow> bool" where
  "strstr s pat \<longleftrightarrow> list_ex (\<lambda>i. take (length pat) (drop i s) = pat) [0..<Suc (length s)]"

function check_segments :: "cstring \<Rightarrow> http_reject" where
  "check_segments seg =
     (let s = before_char CHR ''/'' seg; r = from_char CHR ''/'' seg in
      if s = [] then HTTP_CAT_REJ_EMPTY_SEGMENT
      else if s = ''.'' then HTTP_CAT_REJ_EMPTY_SEGMENT
      else if s = ''..'' then HTTP_CAT_REJ_PARENT_SEGMENT
      else if r = [] then HTTP_CAT_OK else check_segments (tl r))"
  by pat_completeness auto
termination
proof (relation "measure length")
  fix seg s r :: cstring
  assume "s = before_char CHR ''/'' seg" "r = from_char CHR ''/'' seg" "r \<noteq> []"
  then have "seg \<noteq> []" by auto
  then show "(tl r, seg) \<in> measure length" using length_tl_from_char [of seg] \<open>r = _\<close> by simp
qed simp

declare check_segments.simps [simp del]

definition httpCheckPath :: "cstring \<Rightarrow> http_reject" where
  "httpCheckPath path =
     (if path = [] then HTTP_CAT_REJ_EMPTY_PATH
      else if httpHasControlChars path then HTTP_CAT_REJ_CONTROL_CHAR
      else if HTTP_CAT_PATH_MAX < length path then HTTP_CAT_REJ_PATH_TOO_LONG
      else if strstr path ''://'' then HTTP_CAT_REJ_ABSOLUTE_URL
      else if hd path = CHR ''/'' then HTTP_CAT_REJ_ABSOLUTE_PATH
      else if BACKSLASH \<in> set path then HTTP_CAT_REJ_BACKSLASH
      else if check_segments path \<noteq> HTTP_CAT_OK then check_segments path
      else if \<not> httpEndsWithNoCase path ''.iso'' \<and> \<not> httpEndsWithNoCase path ''.zso''
           then HTTP_CAT_REJ_UNKNOWN_EXTENSION
      else HTTP_CAT_OK)"

text \<open>The third field; \<open>None\<close> is a bad token, an empty field means DVD.\<close>

definition parse_media :: "cstring \<Rightarrow> http_media option" where
  "parse_media m =
     (if m = [] then Some HTTP_CAT_MEDIA_DVD
      else if length m = 2 \<and> (m ! 0 = CHR ''C'' \<or> m ! 0 = CHR ''c'') \<and> (m ! 1 = CHR ''D'' \<or> m ! 1 = CHR ''d'')
           then Some HTTP_CAT_MEDIA_CD
      else if length m = 3 \<and> (m ! 0 = CHR ''D'' \<or> m ! 0 = CHR ''d'') \<and> (m ! 1 = CHR ''V'' \<or> m ! 1 = CHR ''v'') \<and>
              (m ! 2 = CHR ''D'' \<or> m ! 2 = CHR ''d'')
           then Some HTTP_CAT_MEDIA_DVD
      else None)"

text \<open>Title, extension and path of a row without a path field.\<close>

definition derive_path :: "cstring \<Rightarrow> cstring \<times> cstring \<times> cstring" where
  "derive_path title =
     (let tl' = length title;
          (t, e) = (if httpEndsWithNoCase title ''.iso'' \<or> httpEndsWithNoCase title ''.zso''
                    then (bounded (HTTP_CAT_TITLE_MAX + 1) (take (tl' - 4) title),
                          (let x = bounded 5 (drop (tl' - 4) title) in take 1 x @ map to_lower (drop 1 x)))
                    else (bounded (HTTP_CAT_TITLE_MAX + 1) title, ''.iso''))
      in (t, e, bounded (HTTP_CAT_PATH_MAX + 1) (t @ e)))"

definition httpCatalogParseLine :: "cstring \<Rightarrow> http_reject + http_catalog_row" where
  "httpCatalogParseLine line =
     (case httpSplitFields 0 line of
        Inl e \<Rightarrow> Inl e
      | Inr flds \<Rightarrow>
          (let startup = httpTrim (flds ! 0);
               title = (if 2 \<le> length flds \<and> httpTrim (flds ! 1) \<noteq> [] then httpTrim (flds ! 1) else startup);
               media = (if 3 \<le> length flds then parse_media (httpTrim (flds ! 2)) else Some HTTP_CAT_MEDIA_DVD);
               (rtitle, ext, path) =
                 (if 4 \<le> length flds \<and> httpTrim (flds ! 3) \<noteq> []
                  then (let p = httpTrim (flds ! 3)
                        in (bounded (HTTP_CAT_TITLE_MAX + 1) title,
                            if httpEndsWithNoCase p ''.zso'' then ''.zso'' else ''.iso'', p))
                  else derive_path title)
           in if startup = [] then Inl HTTP_CAT_REJ_EMPTY_STARTUP
              else if httpHasControlChars startup then Inl HTTP_CAT_REJ_CONTROL_CHAR
              else if HTTP_CAT_STARTUP_MAX < length startup then Inl HTTP_CAT_REJ_STARTUP_TOO_LONG
              else if httpHasControlChars title then Inl HTTP_CAT_REJ_CONTROL_CHAR
              else if HTTP_CAT_TITLE_MAX < length title then Inl HTTP_CAT_REJ_TITLE_TOO_LONG
              else case media of
                None \<Rightarrow> Inl HTTP_CAT_REJ_BAD_MEDIA
              | Some md \<Rightarrow>
                  if httpCheckPath path \<noteq> HTTP_CAT_OK then Inl (httpCheckPath path)
                  else Inr \<lparr>hr_startup = bounded (HTTP_CAT_STARTUP_MAX + 1) startup, hr_title = rtitle,
                            hr_path = bounded (HTTP_CAT_PATH_MAX + 1) path, hr_extension = ext, hr_media = md,
                            hr_supported = httpEndsWithNoCase path ''.iso''\<rparr>))"

section \<open>Paths\<close>

text \<open>The components of a path between slashes.\<close>

function path_segments :: "cstring \<Rightarrow> cstring list" where
  "path_segments s = before_char CHR ''/'' s #
     (if CHR ''/'' \<in> set s then path_segments (tl (from_char CHR ''/'' s)) else [])"
  by pat_completeness auto
termination
proof (relation "measure length")
  fix s :: cstring
  assume "CHR ''/'' \<in> set s"
  then have "s \<noteq> []" by auto
  then show "(tl (from_char CHR ''/'' s), s) \<in> measure length" by simp
qed simp

declare path_segments.simps [simp del]

lemma from_char_Nil_iff: "from_char c s = [] \<longleftrightarrow> c \<notin> set s"
  using from_char_head [of c s] by auto

lemma check_segments_OK:
  "check_segments s = HTTP_CAT_OK \<longleftrightarrow> (\<forall>seg \<in> set (path_segments s). seg \<notin> {[], ''.'', ''..''})"
proof (induction s rule: check_segments.induct)
  case (1 s)
  show ?case
  proof (cases "before_char CHR ''/'' s \<in> {[], ''.'', ''..''}")
    case True
    then show ?thesis by (subst check_segments.simps, subst path_segments.simps) (auto simp: Let_def)
  next
    case False
    then show ?thesis using 1
      by (subst check_segments.simps, subst path_segments.simps) (auto simp: Let_def from_char_Nil_iff)
  qed
qed

text \<open>What the server may be asked for: a relative path below the base, without control characters,
  that names an image.\<close>

definition path_safe :: "cstring \<Rightarrow> bool" where
  "path_safe p \<longleftrightarrow> p \<noteq> [] \<and> length p \<le> HTTP_CAT_PATH_MAX \<and> (\<forall>c \<in> set p. \<not> is_control c) \<and>
     hd p \<noteq> CHR ''/'' \<and> BACKSLASH \<notin> set p \<and> \<not> strstr p ''://'' \<and>
     (\<forall>seg \<in> set (path_segments p). seg \<notin> {[], ''.'', ''..''}) \<and>
     (httpEndsWithNoCase p ''.iso'' \<or> httpEndsWithNoCase p ''.zso'')"

lemma httpCheckPath_OK: "httpCheckPath p = HTTP_CAT_OK \<longleftrightarrow> path_safe p"
  unfolding path_safe_def check_segments_OK [symmetric]
  by (auto simp: httpCheckPath_def httpHasControlChars_def)

section \<open>Quoting\<close>

definition csv_double :: "cstring \<Rightarrow> cstring" where
  "csv_double f = concat (map (\<lambda>c. if c = DQUOTE then [DQUOTE, DQUOTE] else [c]) f)"

definition csv_quote :: "cstring \<Rightarrow> cstring" where
  "csv_quote f = DQUOTE # csv_double f @ [DQUOTE]"

fun csv_join :: "cstring list \<Rightarrow> cstring" where
  "csv_join [] = []"
| "csv_join [f] = csv_quote f"
| "csv_join (f # fs) = csv_quote f @ CHR '','' # csv_join fs"

lemma quoted_field_double:
  "r = [] \<or> hd r \<noteq> DQUOTE \<Longrightarrow> quoted_field (csv_double f @ DQUOTE # r) = Some (f, r)"
  by (induction f) (auto simp: csv_double_def split: list.splits)

lemma csv_join_nonempty: "fs \<noteq> [] \<Longrightarrow> csv_join fs \<noteq> []"
  by (cases fs rule: csv_join.cases) (auto simp: csv_quote_def)

lemma split_join:
  "fs \<noteq> [] \<Longrightarrow> count + length fs \<le> HTTP_CSV_MAX_FIELDS \<Longrightarrow> httpSplitFields count (csv_join fs) = Inr fs"
proof (induction fs arbitrary: count rule: csv_join.induct)
  case (2 f)
  then show ?case using quoted_field_double [of "[]" f]
    by (subst httpSplitFields.simps) (simp add: csv_quote_def)
next
  case (3 f g fs)
  let ?r = "csv_join (g # fs)"
  have "httpSplitFields (Suc count) ?r = Inr (g # fs)" using 3 by simp
  moreover have "?r \<noteq> []" by (rule csv_join_nonempty) simp
  moreover have "quoted_field (csv_double f @ DQUOTE # CHR '','' # ?r) = Some (f, CHR '','' # ?r)"
    by (rule quoted_field_double) simp
  ultimately show ?case using 3(3)
    by (subst httpSplitFields.simps) (simp add: csv_quote_def del: csv_join.simps(3)
        add: csv_join.simps(3) [of f g fs])
qed simp

lemma split_length: "httpSplitFields count p = Inr fs \<Longrightarrow> fs \<noteq> [] \<and> count + length fs \<le> HTTP_CSV_MAX_FIELDS"
proof (induction "HTTP_CSV_MAX_FIELDS - count" arbitrary: count p fs)
  case 0
  then show ?case by (subst (asm) httpSplitFields.simps) simp
next
  case (Suc n)
  have IH: "httpSplitFields (Suc count) q = Inr gs \<Longrightarrow> gs \<noteq> [] \<and> Suc count + length gs \<le> HTTP_CSV_MAX_FIELDS" for q gs
    using Suc.hyps(1) [of "Suc count"] Suc.hyps(2) by simp
  show ?case using Suc.prems
    by (subst (asm) httpSplitFields.simps)
      (auto simp: Let_def split: if_splits option.splits sum.splits dest!: IH)
qed

section \<open>Rows\<close>

lemma to_lower_fixed: "to_lower c = c'\<Longrightarrow> c' \<in> {CHR ''.'', CHR ''i'', CHR ''s'', CHR ''o'', CHR ''z''} \<Longrightarrow> to_lower c' = c'"
  by (auto simp: to_lower_def isupper_def char_code_def)

lemma ends_append: "t \<noteq> [] \<Longrightarrow> httpEndsWithNoCase (t @ e) suf \<longleftrightarrow> map to_lower e = map to_lower suf" if "length e = length suf"
  using that by (simp add: httpEndsWithNoCase_def)

lemma derive_path_props:
  assumes "derive_path title = (t, e, p)" "length title \<le> HTTP_CAT_TITLE_MAX"
  shows "length t \<le> HTTP_CAT_TITLE_MAX" "length e \<le> 4" "p = t @ e" "set t \<subseteq> set title"
proof -
  have "length (bounded 5 (drop (length title - 4) title)) \<le> 4" by (simp add: bounded_def)
  then show "length t \<le> HTTP_CAT_TITLE_MAX" "length e \<le> 4"
    using assms by (auto simp: derive_path_def Let_def bounded_def http_lens split: if_splits)
  then have "length (t @ e) < HTTP_CAT_PATH_MAX + 1" by (simp add: http_lens)
  then show "p = t @ e" using assms(1) by (auto simp: derive_path_def Let_def split: if_splits)
  show "set t \<subseteq> set title"
    using assms(1) by (auto simp: derive_path_def Let_def bounded_def dest!: in_set_takeD split: if_splits)
qed

lemma rstrip_subset: "set (rstrip P s) \<subseteq> set s"
  using prefix_rstrip [of P s] set_mono_prefix by blast

lemma httpTrim_id: "s = [] \<or> (\<not> blank (hd s) \<and> \<not> blank (last s)) \<Longrightarrow> httpTrim s = s"
  unfolding httpTrim_def by (cases "s = []") (auto simp: dropWhile_id)

definition row_ok :: "http_catalog_row \<Rightarrow> bool" where
  "row_ok r \<longleftrightarrow>
     hr_startup r \<noteq> [] \<and> length (hr_startup r) \<le> HTTP_CAT_STARTUP_MAX \<and> (\<forall>c \<in> set (hr_startup r). \<not> is_control c) \<and>
     length (hr_title r) \<le> HTTP_CAT_TITLE_MAX \<and> (\<forall>c \<in> set (hr_title r). \<not> is_control c) \<and>
     path_safe (hr_path r) \<and> (hr_supported r \<longleftrightarrow> httpEndsWithNoCase (hr_path r) ''.iso'')"

section \<open>Properties\<close>

text \<open>C17. Every row the catalogue parser accepts is safe to use: the fields fit the row's arrays and
  hold no control character, and the path is relative, has no empty, dot or dot-dot component, no
  backslash and no scheme, and names an ISO or ZSO image; only an ISO is marked launchable.\<close>

theorem http_row_safe:
  assumes "httpCatalogParseLine line = Inr row"
  shows "row_ok row"
proof -
  obtain fs where fs: "httpSplitFields 0 line = Inr fs"
    using assms by (auto simp: httpCatalogParseLine_def split: sum.splits)
  define startup where "startup = httpTrim (fs ! 0)"
  define title where "title = (if 2 \<le> length fs \<and> httpTrim (fs ! 1) \<noteq> [] then httpTrim (fs ! 1) else startup)"
  define named where "named \<longleftrightarrow> 4 \<le> length fs \<and> httpTrim (fs ! 3) \<noteq> []"
  define tri where "tri = (if named then (bounded (HTTP_CAT_TITLE_MAX + 1) title,
      if httpEndsWithNoCase (httpTrim (fs ! 3)) ''.zso'' then ''.zso'' else ''.iso'', httpTrim (fs ! 3)) else derive_path title)"
  obtain t e p where tri: "tri = (t, e, p)" by (cases tri) auto
  have l: "httpCatalogParseLine line =
      (if startup = [] then Inl HTTP_CAT_REJ_EMPTY_STARTUP
       else if httpHasControlChars startup then Inl HTTP_CAT_REJ_CONTROL_CHAR
       else if HTTP_CAT_STARTUP_MAX < length startup then Inl HTTP_CAT_REJ_STARTUP_TOO_LONG
       else if httpHasControlChars title then Inl HTTP_CAT_REJ_CONTROL_CHAR
       else if HTTP_CAT_TITLE_MAX < length title then Inl HTTP_CAT_REJ_TITLE_TOO_LONG
       else case (if 3 \<le> length fs then parse_media (httpTrim (fs ! 2)) else Some HTTP_CAT_MEDIA_DVD) of
          None \<Rightarrow> Inl HTTP_CAT_REJ_BAD_MEDIA
        | Some md \<Rightarrow>
            if httpCheckPath p \<noteq> HTTP_CAT_OK then Inl (httpCheckPath p)
            else Inr \<lparr>hr_startup = bounded (HTTP_CAT_STARTUP_MAX + 1) startup, hr_title = t,
                      hr_path = bounded (HTTP_CAT_PATH_MAX + 1) p, hr_extension = e, hr_media = md,
                      hr_supported = httpEndsWithNoCase p ''.iso''\<rparr>)"
    unfolding httpCatalogParseLine_def fs sum.case Let_def startup_def [symmetric] title_def [symmetric]
      named_def [symmetric] tri_def [symmetric] tri prod.case by (rule refl)
  have c: "startup \<noteq> []" "\<not> httpHasControlChars startup" "length startup \<le> HTTP_CAT_STARTUP_MAX"
    "\<not> httpHasControlChars title" "length title \<le> HTTP_CAT_TITLE_MAX" "path_safe p"
    using assms unfolding l by (auto simp: httpCheckPath_OK split: if_splits option.splits)
  have r: "hr_startup row = startup" "hr_title row = t" "hr_path row = p"
    "hr_supported row = httpEndsWithNoCase p ''.iso''"
    using assms c unfolding l by (auto simp: path_safe_def split: if_splits option.splits)
  have "length t \<le> HTTP_CAT_TITLE_MAX \<and> set t \<subseteq> set title"
  proof (cases named)
    case True
    then show ?thesis using tri c(5) by (auto simp: tri_def bounded_def dest: in_set_takeD)
  next
    case False
    then show ?thesis using tri derive_path_props [of title t e p] c(5) by (simp add: tri_def)
  qed
  then show ?thesis using c r by (auto simp: row_ok_def httpHasControlChars_def)
qed

theorem http_row_safe_witness:
  "row_ok \<lparr>hr_startup = ''A'', hr_title = ''A'', hr_path = ''A.iso'', hr_extension = ''.iso'',
     hr_media = HTTP_CAT_MEDIA_DVD, hr_supported = True\<rparr>"
proof (rule http_row_safe [of "''A''"])
  have "httpSplitFields 0 ''A'' = Inr [''A'']"
    by (subst httpSplitFields.simps) (simp add: http_lens before_char_def from_char_def)
  then show "httpCatalogParseLine ''A'' = Inr \<lparr>hr_startup = ''A'', hr_title = ''A'', hr_path = ''A.iso'',
      hr_extension = ''.iso'', hr_media = HTTP_CAT_MEDIA_DVD, hr_supported = True\<rparr>"
    by (simp add: httpCatalogParseLine_def httpTrim_id derive_path_def httpEndsWithNoCase_def http_lens bounded_def
        httpHasControlChars_def is_control_def char_code_def httpCheckPath_def strstr_def
        check_segments.simps before_char_def Let_def)
qed

text \<open>A row written with every field quoted, whatever commas and quotes it contains, is read back
  exactly: the startup name, the title, the medium and the path are those of the row, and the path
  field is used as it stands.\<close>

lemma http_row_complete:
  assumes "startup \<noteq> []" and "length startup \<le> HTTP_CAT_STARTUP_MAX" and "\<not> httpHasControlChars startup"
    and "title \<noteq> []" and "length title \<le> HTTP_CAT_TITLE_MAX" and "\<not> httpHasControlChars title"
    and "httpTrim startup = startup" and "httpTrim title = title" and "httpTrim path = path"
    and "path_safe path"
  shows "httpCatalogParseLine (csv_join [startup, title, ''CD'', path]) =
    Inr \<lparr>hr_startup = startup, hr_title = title, hr_path = path,
         hr_extension = (if httpEndsWithNoCase path ''.zso'' then ''.zso'' else ''.iso''),
         hr_media = HTTP_CAT_MEDIA_CD, hr_supported = httpEndsWithNoCase path ''.iso''\<rparr>"
proof -
  have f: "httpSplitFields 0 (csv_join [startup, title, ''CD'', path]) = Inr [startup, title, ''CD'', path]"
    by (rule split_join) (simp_all add: http_lens)
  have m: "parse_media (httpTrim ''CD'') = Some HTTP_CAT_MEDIA_CD"
    by (simp add: httpTrim_id parse_media_def)
  have p: "httpCheckPath path = HTTP_CAT_OK" "path \<noteq> []" "length path \<le> HTTP_CAT_PATH_MAX"
    using assms(10) by (auto simp: httpCheckPath_OK path_safe_def)
  show ?thesis using assms p m
    unfolding httpCatalogParseLine_def f sum.case by (simp add: Let_def numeral_3_eq_3 numeral_2_eq_2)
qed

lemma http_row_complete_witness:
  "httpCatalogParseLine (csv_join [''SLUS_200.62'', ''a, '' @ [DQUOTE, CHR ''b''], ''CD'', ''CD/a.iso'']) =
    Inr \<lparr>hr_startup = ''SLUS_200.62'', hr_title = ''a, '' @ [DQUOTE, CHR ''b''], hr_path = ''CD/a.iso'',
         hr_extension = (if httpEndsWithNoCase ''CD/a.iso'' ''.zso'' then ''.zso'' else ''.iso''),
         hr_media = HTTP_CAT_MEDIA_CD, hr_supported = httpEndsWithNoCase ''CD/a.iso'' ''.iso''\<rparr>"
  by (rule http_row_complete)
    (simp_all add: http_lens httpHasControlChars_def is_control_def char_code_def httpTrim_id path_safe_def
      path_segments.simps before_char_def from_char_def strstr_def httpEndsWithNoCase_def)

end
