(* ===== verification/LibView.thy ===== *)
theory LibView
  imports ConfigStore
begin

text \<open>
  Which list each page of the library shows (\<^verbatim>\<open>src/libview.c\<close>): the ring of views the L3 button cycles
  through per page, the two-phase change of view (staged by the GUI, committed by the I/O worker
  once the old rows are gone), and the positions remembered in the configuration.

  A page is an I/O mode, a view a number below \<open>LIB_VIEW_COUNT\<close>; the per-mode byte arrays are lists of
  length \<open>MODE_COUNT\<close>.  The two settings the code reads from globals are part of the state.
\<close>

section \<open>State\<close>

definition MODE_COUNT :: int where "MODE_COUNT = 15"
definition BDM_MODE_LAST :: int where "BDM_MODE_LAST = 7"
definition ETH_MODE :: int where "ETH_MODE = 8"
definition HDD_MODE :: int where "HDD_MODE = 9"
definition APP_MODE :: int where "APP_MODE = 10"
definition MMCE_MODE :: int where "MMCE_MODE = 11"
definition FAV_MODE :: int where "FAV_MODE = 12"
definition UDPFS_MODE :: int where "UDPFS_MODE = 13"

definition LIB_VIEW_ISO :: int where "LIB_VIEW_ISO = 0"
definition LIB_VIEW_PS1 :: int where "LIB_VIEW_PS1 = 1"
definition LIB_VIEW_ELF :: int where "LIB_VIEW_ELF = 2"
definition LIB_VIEW_ALL :: int where "LIB_VIEW_ALL = 3"
definition LIB_VIEW_MIXED :: int where "LIB_VIEW_MIXED = 4"
definition LIB_VIEW_PS1_ELF :: int where "LIB_VIEW_PS1_ELF = 5"
definition LIB_VIEW_COUNT :: int where "LIB_VIEW_COUNT = 6"

lemmas lib_consts = MODE_COUNT_def BDM_MODE_LAST_def ETH_MODE_def HDD_MODE_def APP_MODE_def MMCE_MODE_def
  FAV_MODE_def UDPFS_MODE_def LIB_VIEW_ISO_def LIB_VIEW_PS1_def LIB_VIEW_ELF_def LIB_VIEW_ALL_def
  LIB_VIEW_MIXED_def LIB_VIEW_PS1_ELF_def LIB_VIEW_COUNT_def

definition GAME_VIEW_BOTH :: int where "GAME_VIEW_BOTH = 0"
definition GAME_VIEW_ISO :: int where "GAME_VIEW_ISO = 1"
definition GAME_VIEW_VCD :: int where "GAME_VIEW_VCD = 2"
definition GAME_VIEW_MIXED :: int where "GAME_VIEW_MIXED = 3"

lemmas game_view_consts = GAME_VIEW_BOTH_def GAME_VIEW_ISO_def GAME_VIEW_VCD_def GAME_VIEW_MIXED_def

record lib_state =
  gDefaultGameView :: int
  gAppsSplit :: bool
  retainedView :: "int list"
  mixedView :: "int list"
  mixedViewInitialized :: "bool list"
  libDirty :: "bool list"
  pendingView :: "int list"
  pendingViewValid :: "bool list"
  pendingViewUsesMixedRing :: "bool list"

definition mode_ok :: "int \<Rightarrow> bool" where
  "mode_ok mode \<longleftrightarrow> 0 \<le> mode \<and> mode < MODE_COUNT"

section \<open>Operations\<close>

definition libViewIsDeviceMode :: "int \<Rightarrow> bool" where
  "libViewIsDeviceMode mode \<longleftrightarrow>
     (if 0 \<le> mode \<and> mode \<le> BDM_MODE_LAST then True
      else mode = MMCE_MODE \<or> mode = ETH_MODE \<or> mode = HDD_MODE \<or> mode = UDPFS_MODE)"

definition libViewSupported :: "int \<Rightarrow> int \<Rightarrow> bool" where
  "libViewSupported mode view \<longleftrightarrow>
     (if \<not> mode_ok mode \<or> view < 0 \<or> LIB_VIEW_COUNT \<le> view then False
      else if view = LIB_VIEW_ISO then True
      else if view = LIB_VIEW_PS1 then libViewIsDeviceMode mode \<or> mode = FAV_MODE
      else if view = LIB_VIEW_ELF \<or> view = LIB_VIEW_ALL then mode = FAV_MODE
      else if view = LIB_VIEW_MIXED then libViewIsDeviceMode mode \<or> mode = APP_MODE
      else if view = LIB_VIEW_PS1_ELF then mode = APP_MODE
      else False)"

definition libViewRingSize :: "lib_state \<Rightarrow> int \<Rightarrow> nat" where
  "libViewRingSize s mode =
     (if \<not> mode_ok mode then 1
      else if mode = FAV_MODE then 4
      else if mode = APP_MODE then (if gAppsSplit s then 2 else 1)
      else if \<not> libViewIsDeviceMode mode then 1
      else if gDefaultGameView s = GAME_VIEW_BOTH then 2
      else if gDefaultGameView s = GAME_VIEW_MIXED then 3 else 1)"

definition libViewMixedActive :: "lib_state \<Rightarrow> int \<Rightarrow> lib_state \<times> int" where
  "libViewMixedActive s mode =
     (let i = nat mode;
          s' = (if \<not> mixedViewInitialized s ! i
                then s\<lparr>mixedView := (mixedView s)[i := LIB_VIEW_MIXED],
                       mixedViewInitialized := (mixedViewInitialized s)[i := True]\<rparr>
                else s)
      in (s', mixedView s' ! i))"

definition libViewActive :: "lib_state \<Rightarrow> int \<Rightarrow> lib_state \<times> int" where
  "libViewActive s mode =
     (if \<not> mode_ok mode then (s, LIB_VIEW_ISO)
      else if mode = FAV_MODE then (s, retainedView s ! nat mode)
      else if mode = APP_MODE then (s, if gAppsSplit s then retainedView s ! nat mode else LIB_VIEW_MIXED)
      else if \<not> libViewIsDeviceMode mode then (s, LIB_VIEW_ISO)
      else if gDefaultGameView s = GAME_VIEW_ISO then (s, LIB_VIEW_ISO)
      else if gDefaultGameView s = GAME_VIEW_VCD then (s, LIB_VIEW_PS1)
      else if gDefaultGameView s = GAME_VIEW_MIXED then libViewMixedActive s mode
      else (s, if retainedView s ! nat mode = LIB_VIEW_PS1 then LIB_VIEW_PS1 else LIB_VIEW_ISO))"

text \<open>Item lists: \<open>il_override\<close> is \<^verbatim>\<open>viewOverride\<close>, the two callbacks are optional functions.\<close>

datatype view_override = ITEM_VIEW_NATIVE | ITEM_VIEW_FORCE_ISO | ITEM_VIEW_FORCE_PS1

record item_list =
  il_mode :: int
  il_override :: view_override
  il_itemGetView :: "(int \<Rightarrow> int) option"
  il_itemGetSourceId :: "(int \<Rightarrow> int) option"

definition libListViewActive :: "lib_state \<Rightarrow> item_list option \<Rightarrow> lib_state \<times> int" where
  "libListViewActive s itemList =
     (case itemList of
        None \<Rightarrow> (s, LIB_VIEW_ISO)
      | Some l \<Rightarrow>
          (case il_override l of
             ITEM_VIEW_FORCE_ISO \<Rightarrow> (s, LIB_VIEW_ISO)
           | ITEM_VIEW_FORCE_PS1 \<Rightarrow> (s, LIB_VIEW_PS1)
           | ITEM_VIEW_NATIVE \<Rightarrow> libViewActive s (il_mode l)))"

definition libListRowView :: "lib_state \<Rightarrow> item_list option \<Rightarrow> int \<Rightarrow> lib_state \<times> int" where
  "libListRowView s itemList row =
     (case itemList of
        None \<Rightarrow> (s, LIB_VIEW_ISO)
      | Some l \<Rightarrow>
          (case il_itemGetView l of
             Some f \<Rightarrow> if 0 \<le> f row \<and> f row < LIB_VIEW_COUNT then (s, f row) else libListViewActive s (Some l)
           | None \<Rightarrow> libListViewActive s (Some l)))"

definition libListSourceId :: "item_list option \<Rightarrow> int \<Rightarrow> int" where
  "libListSourceId itemList row =
     (case itemList of
        None \<Rightarrow> row
      | Some l \<Rightarrow> (case il_itemGetSourceId l of None \<Rightarrow> row | Some f \<Rightarrow> f row))"

definition libViewRingUsable :: "lib_state \<Rightarrow> int \<Rightarrow> bool" where
  "libViewRingUsable s mode \<longleftrightarrow> mode_ok mode \<and> 1 < libViewRingSize s mode"

definition next_view :: "lib_state \<Rightarrow> int \<Rightarrow> int \<Rightarrow> int" where
  "next_view s mode cur =
     (if mode = FAV_MODE then
        (if cur = LIB_VIEW_ISO then LIB_VIEW_PS1
         else if cur = LIB_VIEW_PS1 then LIB_VIEW_ELF
         else if cur = LIB_VIEW_ELF then LIB_VIEW_ALL else LIB_VIEW_ISO)
      else if mode = APP_MODE then (if cur = LIB_VIEW_PS1_ELF then LIB_VIEW_ISO else LIB_VIEW_PS1_ELF)
      else if gDefaultGameView s = GAME_VIEW_MIXED then
        (if cur = LIB_VIEW_MIXED then LIB_VIEW_ISO else if cur = LIB_VIEW_ISO then LIB_VIEW_PS1 else LIB_VIEW_MIXED)
      else (if cur = LIB_VIEW_PS1 then LIB_VIEW_ISO else LIB_VIEW_PS1))"

definition libViewStageAdvance :: "lib_state \<Rightarrow> int \<Rightarrow> lib_state \<times> bool" where
  "libViewStageAdvance s mode =
     (if \<not> libViewRingUsable s mode \<or> pendingViewValid s ! nat mode then (s, False)
      else
        let (s1, cur) = libViewActive s mode; i = nat mode
        in (s1\<lparr>pendingView := (pendingView s1)[i := next_view s1 mode cur],
               pendingViewUsesMixedRing := (pendingViewUsesMixedRing s1)
                 [i := (mode \<noteq> FAV_MODE \<and> mode \<noteq> APP_MODE \<and> gDefaultGameView s1 = GAME_VIEW_MIXED)],
               pendingViewValid := (pendingViewValid s1)[i := True],
               libDirty := (libDirty s1)[i := True]\<rparr>, True))"

definition libViewPending :: "lib_state \<Rightarrow> int \<Rightarrow> bool" where
  "libViewPending s mode \<longleftrightarrow> mode_ok mode \<and> pendingViewValid s ! nat mode"

definition libViewPendingTarget :: "lib_state \<Rightarrow> int \<Rightarrow> lib_state \<times> int" where
  "libViewPendingTarget s mode =
     (if libViewPending s mode then (s, pendingView s ! nat mode) else libViewActive s mode)"

definition libViewCommitPending :: "lib_state \<Rightarrow> int \<Rightarrow> lib_state" where
  "libViewCommitPending s mode =
     (if \<not> libViewPending s mode then s
      else if pendingViewUsesMixedRing s ! nat mode
           then s\<lparr>mixedView := (mixedView s)[nat mode := pendingView s ! nat mode]\<rparr>
           else s\<lparr>retainedView := (retainedView s)[nat mode := pendingView s ! nat mode]\<rparr>)"

definition libViewFinishPending :: "lib_state \<Rightarrow> int \<Rightarrow> lib_state" where
  "libViewFinishPending s mode =
     (if mode_ok mode then s\<lparr>pendingViewValid := (pendingViewValid s)[nat mode := False]\<rparr> else s)"

definition libViewConsumeDirty :: "lib_state \<Rightarrow> int \<Rightarrow> lib_state \<times> bool" where
  "libViewConsumeDirty s mode =
     (if \<not> mode_ok mode \<or> \<not> libDirty s ! nat mode then (s, False)
      else (s\<lparr>libDirty := (libDirty s)[nat mode := False]\<rparr>, True))"

definition libViewMarkDirty :: "lib_state \<Rightarrow> int \<Rightarrow> lib_state" where
  "libViewMarkDirty s mode =
     (if mode_ok mode then s\<lparr>libDirty := (libDirty s)[nat mode := True]\<rparr> else s)"

definition libViewMarkAllDirty :: "lib_state \<Rightarrow> lib_state" where
  "libViewMarkAllDirty s = s\<lparr>libDirty := replicate (nat MODE_COUNT) True\<rparr>"

section \<open>Remembered positions\<close>

definition libViewEncodeRing :: "int list \<Rightarrow> bool list option \<Rightarrow> cstring" where
  "libViewEncodeRing view marks =
     map (\<lambda>i. if (case marks of None \<Rightarrow> True | Some fl \<Rightarrow> fl ! i) then char_of (48 + nat (view ! i)) else CHR ''-'')
       [0..<nat MODE_COUNT]"

fun decode_from :: "nat \<Rightarrow> cstring \<Rightarrow> int list \<Rightarrow> bool list \<Rightarrow> int list \<times> bool list" where
  "decode_from i [] view marks = (view, marks)"
| "decode_from i (c # r) view marks =
     (if nat MODE_COUNT \<le> i then (view, marks)
      else let val = int (char_code c) - 48 in
        if val < 0 \<or> LIB_VIEW_COUNT \<le> val \<or> \<not> libViewSupported (int i) val then decode_from (Suc i) r view marks
        else decode_from (Suc i) r (view[i := val]) (marks[i := True]))"

definition libViewDecodeRing :: "cstring \<Rightarrow> int list \<Rightarrow> bool list \<Rightarrow> int list \<times> bool list" where
  "libViewDecodeRing str view marks = decode_from 0 str view marks"

definition libViewLoadFromConfig :: "lib_state \<Rightarrow> config_set option \<Rightarrow> lib_state" where
  "libViewLoadFromConfig s configLast =
     (case configLast of
        None \<Rightarrow> s
      | Some cs \<Rightarrow>
          (let s1 = (case configGetStr cs ''lib_view_retained'' of
                       None \<Rightarrow> s
                     | Some v \<Rightarrow> s\<lparr>retainedView := fst (libViewDecodeRing v (retainedView s) [])\<rparr>)
           in case configGetStr cs ''lib_view_mixed'' of
                None \<Rightarrow> s1
              | Some v \<Rightarrow>
                  (case libViewDecodeRing v (mixedView s1) (mixedViewInitialized s1) of
                     (mv, fl) \<Rightarrow> s1\<lparr>mixedView := mv, mixedViewInitialized := fl\<rparr>)))"

definition libViewStoreToConfig :: "(nat \<Rightarrow> bool) \<Rightarrow> lib_state \<Rightarrow> config_set option \<Rightarrow> config_set option" where
  "libViewStoreToConfig mem s configLast =
     map_option (\<lambda>cs.
       let cs1 = snd (configSetStr mem cs ''lib_view_retained'' (libViewEncodeRing (retainedView s) None))
       in snd (configSetStr mem cs1 ''lib_view_mixed''
                 (libViewEncodeRing (mixedView s) (Some (mixedViewInitialized s))))) configLast"

section \<open>The invariant\<close>

definition lib_lengths :: "lib_state \<Rightarrow> bool" where
  "lib_lengths s \<longleftrightarrow> length (retainedView s) = 15 \<and> length (mixedView s) = 15 \<and>
     length (mixedViewInitialized s) = 15 \<and> length (libDirty s) = 15 \<and> length (pendingView s) = 15 \<and>
     length (pendingViewValid s) = 15 \<and> length (pendingViewUsesMixedRing s) = 15"

definition lib_ok :: "lib_state \<Rightarrow> bool" where
  "lib_ok s \<longleftrightarrow> lib_lengths s \<and>
     (\<forall>i < 15. libViewSupported (int i) (retainedView s ! i) \<and>
       (mixedViewInitialized s ! i \<longrightarrow> libViewSupported (int i) (mixedView s ! i)) \<and>
       (pendingViewValid s ! i \<longrightarrow> libViewSupported (int i) (pendingView s ! i) \<and>
          (pendingViewUsesMixedRing s ! i \<longrightarrow> mixedViewInitialized s ! i)))"

definition lib_init :: "int \<Rightarrow> bool \<Rightarrow> lib_state" where
  "lib_init g a = \<lparr>gDefaultGameView = g, gAppsSplit = a, retainedView = replicate 15 0, mixedView = replicate 15 0,
     mixedViewInitialized = replicate 15 False, libDirty = replicate 15 False, pendingView = replicate 15 0,
     pendingViewValid = replicate 15 False, pendingViewUsesMixedRing = replicate 15 False\<rparr>"

text \<open>The events of a session, in any order: the user changes the settings, a page asks for its view,
  the GUI stages, the worker commits and finishes, positions are loaded from a configuration set.\<close>

inductive lib_step :: "lib_state \<Rightarrow> lib_state \<Rightarrow> bool" where
  settings: "lib_step s (s\<lparr>gDefaultGameView := g, gAppsSplit := a\<rparr>)"
| active: "lib_step s (fst (libViewActive s mode))"
| stage: "lib_step s (fst (libViewStageAdvance s mode))"
| commit: "lib_step s (libViewCommitPending s mode)"
| finish: "lib_step s (libViewFinishPending s mode)"
| consume: "lib_step s (fst (libViewConsumeDirty s mode))"
| mark: "lib_step s (libViewMarkDirty s mode)"
| mark_all: "lib_step s (libViewMarkAllDirty s)"
| load: "lib_step s (libViewLoadFromConfig s configLast)"

inductive lib_reachable :: "lib_state \<Rightarrow> bool" where
  start: "lib_reachable (lib_init g a)"
| step: "lib_reachable s \<Longrightarrow> lib_step s s' \<Longrightarrow> lib_reachable s'"

lemma mode_okE:
  assumes "mode_ok mode" obtains i where "mode = int i" "i < 15" "nat mode = i"
  using assms by (auto simp: mode_ok_def MODE_COUNT_def intro: that [of "nat mode"])

lemma supported_simps [simp]:
  "libViewSupported mode 0 \<longleftrightarrow> mode_ok mode"
  "libViewSupported mode 1 \<longleftrightarrow> mode_ok mode \<and> (libViewIsDeviceMode mode \<or> mode = FAV_MODE)"
  "libViewSupported mode 2 \<longleftrightarrow> mode = FAV_MODE" "libViewSupported mode 3 \<longleftrightarrow> mode = FAV_MODE"
  "libViewSupported mode 4 \<longleftrightarrow> mode_ok mode \<and> (libViewIsDeviceMode mode \<or> mode = APP_MODE)"
  "libViewSupported mode 5 \<longleftrightarrow> mode = APP_MODE"
  by (auto simp: libViewSupported_def lib_consts mode_ok_def)

lemma lib_ok_init: "lib_ok (lib_init g a)"
  by (simp add: lib_ok_def lib_init_def lib_lengths_def mode_ok_def MODE_COUNT_def)

lemma lib_ok_mixed:
  assumes "lib_ok s" "mode_ok mode" "libViewIsDeviceMode mode"
  shows "lib_ok (fst (libViewMixedActive s mode))" "libViewSupported mode (snd (libViewMixedActive s mode))"
    "mixedViewInitialized (fst (libViewMixedActive s mode)) ! nat mode"
    "pendingViewValid (fst (libViewMixedActive s mode)) = pendingViewValid s"
proof -
  obtain i where i: "mode = int i" "i < 15" by (rule mode_okE [OF assms(2)])
  show "lib_ok (fst (libViewMixedActive s mode))" "libViewSupported mode (snd (libViewMixedActive s mode))"
    "mixedViewInitialized (fst (libViewMixedActive s mode)) ! nat mode"
    "pendingViewValid (fst (libViewMixedActive s mode)) = pendingViewValid s"
    using assms i
    by (auto simp: lib_ok_def lib_lengths_def libViewMixedActive_def Let_def nth_list_update LIB_VIEW_MIXED_def)
qed

lemma lib_ok_active:
  assumes "lib_ok s"
  shows "lib_ok (fst (libViewActive s mode))"
  using assms lib_ok_mixed(1) by (simp add: libViewActive_def)

lemma lib_ok_at:
  assumes "lib_ok s" "mode_ok mode"
  shows "libViewSupported mode (retainedView s ! nat mode)"
    "mixedViewInitialized s ! nat mode \<Longrightarrow> libViewSupported mode (mixedView s ! nat mode)"
    "pendingViewValid s ! nat mode \<Longrightarrow> libViewSupported mode (pendingView s ! nat mode)"
    "pendingViewValid s ! nat mode \<Longrightarrow> pendingViewUsesMixedRing s ! nat mode \<Longrightarrow>
      mixedViewInitialized s ! nat mode"
proof -
  have "nat mode < 15" "int (nat mode) = mode" using assms(2) by (auto simp: mode_ok_def MODE_COUNT_def)
  then show "libViewSupported mode (retainedView s ! nat mode)"
    "mixedViewInitialized s ! nat mode \<Longrightarrow> libViewSupported mode (mixedView s ! nat mode)"
    "pendingViewValid s ! nat mode \<Longrightarrow> libViewSupported mode (pendingView s ! nat mode)"
    "pendingViewValid s ! nat mode \<Longrightarrow> pendingViewUsesMixedRing s ! nat mode \<Longrightarrow>
      mixedViewInitialized s ! nat mode"
    using assms(1) unfolding lib_ok_def by metis+
qed

lemma active_supported:
  assumes "lib_ok s" "mode_ok mode"
  shows "libViewSupported mode (snd (libViewActive s mode))"
  using assms(2) lib_ok_mixed(2) [OF assms] lib_ok_at(1) [OF assms]
  by (auto simp: libViewActive_def LIB_VIEW_ISO_def LIB_VIEW_PS1_def LIB_VIEW_MIXED_def)

lemma active_keeps:
  "pendingViewValid (fst (libViewActive s mode)) = pendingViewValid s"
  "gDefaultGameView (fst (libViewActive s mode)) = gDefaultGameView s"
  "gAppsSplit (fst (libViewActive s mode)) = gAppsSplit s"
  by (simp_all add: libViewActive_def libViewMixedActive_def Let_def)

lemma next_view_supported:
  assumes "libViewRingUsable s mode"
  shows "libViewSupported mode (next_view s mode cur)"
proof -
  have m: "mode_ok mode" and r: "1 < libViewRingSize s mode" using assms by (auto simp: libViewRingUsable_def)
  from r m consider "mode = FAV_MODE" | "mode = APP_MODE" | "libViewIsDeviceMode mode"
    by (auto simp: libViewRingSize_def split: if_splits)
  then show ?thesis
    using m by cases (auto simp: next_view_def LIB_VIEW_ISO_def LIB_VIEW_PS1_def LIB_VIEW_ELF_def
        LIB_VIEW_ALL_def LIB_VIEW_MIXED_def LIB_VIEW_PS1_ELF_def)
qed

lemma active_mixed_initialised:
  assumes "lib_ok s" "libViewRingUsable s mode" "mode \<noteq> FAV_MODE" "mode \<noteq> APP_MODE"
    "gDefaultGameView s = GAME_VIEW_MIXED"
  shows "mixedViewInitialized (fst (libViewActive s mode)) ! nat mode"
proof -
  have "mode_ok mode" "libViewIsDeviceMode mode"
    using assms(2-4) by (auto simp: libViewRingUsable_def libViewRingSize_def split: if_splits)
  then show ?thesis using lib_ok_mixed(3) [OF assms(1)] assms(3-5)
    by (simp add: libViewActive_def game_view_consts)
qed

lemma lib_ok_pending:
  assumes "lib_ok s" "mode_ok mode" "libViewSupported mode v" "u \<longrightarrow> mixedViewInitialized s ! nat mode"
  shows "lib_ok (s\<lparr>pendingView := (pendingView s)[nat mode := v],
    pendingViewUsesMixedRing := (pendingViewUsesMixedRing s)[nat mode := u],
    pendingViewValid := (pendingViewValid s)[nat mode := True], libDirty := (libDirty s)[nat mode := True]\<rparr>)"
proof -
  obtain i where "mode = int i" "i < 15" by (rule mode_okE [OF assms(2)])
  then show ?thesis using assms by (auto simp: lib_ok_def lib_lengths_def nth_list_update)
qed

lemma lib_ok_stage:
  assumes "lib_ok s"
  shows "lib_ok (fst (libViewStageAdvance s mode))"
proof (cases "\<not> libViewRingUsable s mode \<or> pendingViewValid s ! nat mode")
  case True
  then show ?thesis using assms by (simp add: libViewStageAdvance_def)
next
  case False
  obtain s1 cur where a: "libViewActive s mode = (s1, cur)" by (cases "libViewActive s mode")
  have k: "gDefaultGameView s1 = gDefaultGameView s" "gAppsSplit s1 = gAppsSplit s"
    using active_keeps(2,3) [of s mode] a by simp_all
  then have "next_view s1 mode cur = next_view s mode cur" by (simp add: next_view_def)
  then show ?thesis
    using lib_ok_pending [of s1 mode "next_view s mode cur"] False k
      lib_ok_active [OF assms, of mode] a next_view_supported active_mixed_initialised [OF assms, of mode]
    by (auto simp: libViewStageAdvance_def Let_def libViewRingUsable_def)
qed

lemma lib_ok_commit:
  assumes "lib_ok s"
  shows "lib_ok (libViewCommitPending s mode)"
proof (cases "libViewPending s mode")
  case True
  then obtain i where i: "mode = int i" "i < 15" "pendingViewValid s ! i"
    by (auto simp: libViewPending_def elim: mode_okE)
  then show ?thesis using assms True
    by (auto simp: libViewCommitPending_def lib_ok_def lib_lengths_def nth_list_update)
qed (simp add: libViewCommitPending_def assms)

lemma lib_ok_finish: "lib_ok s \<Longrightarrow> lib_ok (libViewFinishPending s mode)"
  by (auto simp: libViewFinishPending_def lib_ok_def lib_lengths_def nth_list_update elim!: mode_okE split: if_splits)

lemma lib_ok_dirty: "lib_ok s \<Longrightarrow> lib_ok (fst (libViewConsumeDirty s mode))"
  "lib_ok s \<Longrightarrow> lib_ok (libViewMarkDirty s mode)" "lib_ok s \<Longrightarrow> lib_ok (libViewMarkAllDirty s)"
  by (simp_all add: libViewConsumeDirty_def libViewMarkDirty_def libViewMarkAllDirty_def lib_ok_def
      lib_lengths_def MODE_COUNT_def)

section \<open>Loading and storing\<close>

definition decoded :: "nat \<Rightarrow> char \<Rightarrow> int option" where
  "decoded i c = (let v = int (char_code c) - 48 in if libViewSupported (int i) v then Some v else None)"

lemma decode_from_Cons:
  "decode_from i (c # r) view marks =
     (if 15 \<le> i then (view, marks)
      else case decoded i c of
             None \<Rightarrow> decode_from (Suc i) r view marks
           | Some v \<Rightarrow> decode_from (Suc i) r (view[i := v]) (marks[i := True]))"
  by (auto simp: decoded_def Let_def MODE_COUNT_def libViewSupported_def)

lemmas decode_simps = decode_from.simps(1) decode_from_Cons

lemma decoded_supported: "decoded i c = Some v \<Longrightarrow> libViewSupported (int i) v"
  by (auto simp: decoded_def Let_def split: if_splits)

declare decode_from.simps [simp del]

lemma decode_from_length:
  "length (fst (decode_from i str view marks)) = length view"
  "length (snd (decode_from i str view marks)) = length marks"
  by (induction str arbitrary: i view marks) (simp_all add: decode_simps split: option.split)

lemma decode_from_at:
  assumes "length view = 15" "j < 15"
  shows "fst (decode_from i str view marks) ! j =
    (if i \<le> j \<and> j < i + length str
     then (case decoded j (str ! (j - i)) of Some v \<Rightarrow> v | None \<Rightarrow> view ! j) else view ! j)"
  using assms
proof (induction str arbitrary: i view marks)
  case (Cons c r)
  show ?case
  proof (cases "i = j")
    case True
    then show ?thesis using Cons by (auto simp: decode_simps split: option.split)
  next
    case False
    then have "i \<le> j \<Longrightarrow> (c # r) ! (j - i) = r ! (j - Suc i)" by (simp add: nth_Cons')
    then show ?thesis using Cons False by (auto simp: decode_simps split: option.split)
  qed
qed (simp add: decode_simps)

lemma decode_marks_at:
  assumes "length marks = 15" "j < 15"
  shows "snd (decode_from i str view marks) ! j \<longleftrightarrow>
    marks ! j \<or> (i \<le> j \<and> j < i + length str \<and> decoded j (str ! (j - i)) \<noteq> None)"
  using assms
proof (induction str arbitrary: i view marks)
  case (Cons c r)
  show ?case
  proof (cases "i = j")
    case True
    then show ?thesis using Cons by (auto simp: decode_simps split: option.split)
  next
    case False
    then have "i \<le> j \<Longrightarrow> (c # r) ! (j - i) = r ! (j - Suc i)" by (simp add: nth_Cons')
    then show ?thesis using Cons False by (auto simp: decode_simps split: option.split)
  qed
qed (auto simp: decode_simps)

lemma decode_from_supported:
  assumes "length view = 15" "length marks = 15"
    "\<forall>j < 15. marks ! j \<longrightarrow> libViewSupported (int j) (view ! j)"
  shows "\<forall>j < 15. snd (decode_from i str view marks) ! j \<longrightarrow>
      libViewSupported (int j) (fst (decode_from i str view marks) ! j)"
    "\<forall>j < 15. marks ! j \<longrightarrow> snd (decode_from i str view marks) ! j"
  using assms by (auto simp: decode_from_at decode_marks_at dest: decoded_supported split: option.split)

lemma decode_from_total:
  assumes "length view = 15" "\<forall>j < 15. libViewSupported (int j) (view ! j)"
  shows "\<forall>j < 15. libViewSupported (int j) (fst (decode_from i str view marks) ! j)"
  using assms by (auto simp: decode_from_at dest: decoded_supported split: option.split)

lemma lib_ok_load:
  assumes "lib_ok s"
  shows "lib_ok (libViewLoadFromConfig s configLast)"
proof -
  have r: "lib_ok (t\<lparr>retainedView := fst (libViewDecodeRing v (retainedView t) [])\<rparr>)" if "lib_ok t" for t v
    using that decode_from_total [of "retainedView t" 0 v "[]"]
    by (simp add: lib_ok_def lib_lengths_def libViewDecodeRing_def decode_from_length)
  have m: "lib_ok (t\<lparr>mixedView := mv, mixedViewInitialized := fl\<rparr>)"
    if "lib_ok t" "libViewDecodeRing v (mixedView t) (mixedViewInitialized t) = (mv, fl)" for t v mv fl
    using that decode_from_supported [of "mixedView t" "mixedViewInitialized t" 0 v]
      decode_from_length [of 0 v "mixedView t" "mixedViewInitialized t"]
    by (simp add: lib_ok_def lib_lengths_def libViewDecodeRing_def)
  show ?thesis using assms r m
    by (auto simp: libViewLoadFromConfig_def Let_def split: option.splits prod.splits)
qed

lemma lib_ok_step: "lib_step s s' \<Longrightarrow> lib_ok s \<Longrightarrow> lib_ok s'"
proof (induction rule: lib_step.induct)
  case (settings s g a)
  then show ?case by (simp add: lib_ok_def lib_lengths_def)
qed (simp_all add: lib_ok_active lib_ok_stage lib_ok_commit lib_ok_finish lib_ok_dirty lib_ok_load)

lemma lib_reachable_ok: "lib_reachable s \<Longrightarrow> lib_ok s"
  by (induction rule: lib_reachable.induct) (auto simp: lib_ok_init intro: lib_ok_step)

lemma encode_at:
  assumes "i < 15"
  shows "libViewEncodeRing view marks ! i =
    (if (case marks of None \<Rightarrow> True | Some fl \<Rightarrow> fl ! i) then char_of (48 + nat (view ! i)) else CHR ''-'')"
  using assms by (cases marks) (simp_all add: libViewEncodeRing_def MODE_COUNT_def nth_map_upt)

lemma encode_length [simp]: "length (libViewEncodeRing view marks) = 15"
  by (simp add: libViewEncodeRing_def MODE_COUNT_def)

lemma supported_range: "libViewSupported m v \<Longrightarrow> 0 \<le> v \<and> v < 6"
  by (auto simp: libViewSupported_def LIB_VIEW_COUNT_def split: if_splits)

lemma decoded_digit: "libViewSupported (int i) v \<Longrightarrow> decoded i (char_of (48 + nat v)) = Some v"
proof -
  assume a: "libViewSupported (int i) v"
  then have "int ((48 + nat v) mod 256) - 48 = v" using supported_range by fastforce
  then show ?thesis using a supported_range [OF a] by (simp add: decoded_def char_code_def Let_def)
qed

lemma decoded_none: "decoded i CHR ''-'' = None"
  by (simp add: decoded_def char_code_def Let_def libViewSupported_def)

lemma decode_encode_all:
  assumes "length view = 15" "length old = 15" "\<forall>j < 15. libViewSupported (int j) (view ! j)"
  shows "fst (libViewDecodeRing (libViewEncodeRing view None) old marks) = view"
  using assms
  by (intro nth_equalityI)
    (simp_all add: libViewDecodeRing_def decode_from_length decode_from_at encode_at decoded_digit)

lemma decode_encode_marked:
  assumes "length view = 15" "length fl = 15" "\<forall>j < 15. fl ! j \<longrightarrow> libViewSupported (int j) (view ! j)"
    and "length old = 15" "length ofl = 15" "j < 15"
  shows "fst (libViewDecodeRing (libViewEncodeRing view (Some fl)) old ofl) ! j = (if fl ! j then view ! j else old ! j)"
    "snd (libViewDecodeRing (libViewEncodeRing view (Some fl)) old ofl) ! j \<longleftrightarrow> fl ! j \<or> ofl ! j"
  using assms
  by (simp_all add: libViewDecodeRing_def decode_from_at decode_marks_at encode_at decoded_digit decoded_none)

section \<open>The ring\<close>

definition lib_advance :: "int \<Rightarrow> lib_state \<Rightarrow> lib_state" where
  "lib_advance mode s =
     libViewFinishPending (libViewCommitPending (fst (libViewStageAdvance s mode)) mode) mode"

definition ring_stops :: "lib_state \<Rightarrow> int \<Rightarrow> int list" where
  "ring_stops s mode =
     (if mode = FAV_MODE then [LIB_VIEW_ISO, LIB_VIEW_PS1, LIB_VIEW_ELF, LIB_VIEW_ALL]
      else if mode = APP_MODE then [LIB_VIEW_ISO, LIB_VIEW_PS1_ELF]
      else if gDefaultGameView s = GAME_VIEW_MIXED then [LIB_VIEW_MIXED, LIB_VIEW_ISO, LIB_VIEW_PS1]
      else [LIB_VIEW_ISO, LIB_VIEW_PS1])"

lemma ring_stops_size:
  assumes "libViewRingUsable s mode"
  shows "length (ring_stops s mode) = libViewRingSize s mode" "distinct (ring_stops s mode)"
  using assms
  by (auto simp: ring_stops_def libViewRingUsable_def libViewRingSize_def lib_consts
      game_view_consts split: if_splits)

lemma next_view_ring:
  assumes "k < length (ring_stops s mode)"
  shows "next_view s mode (ring_stops s mode ! k) = ring_stops s mode ! (Suc k mod length (ring_stops s mode))"
proof -
  have two: "k = 0 \<or> k = 1" if "k < Suc (Suc 0)" using that by linarith
  have three: "k = 0 \<or> k = 1 \<or> k = 2" if "k < Suc (Suc (Suc 0))" using that by linarith
  have four: "k = 0 \<or> k = 1 \<or> k = 2 \<or> k = 3" if "k < Suc (Suc (Suc (Suc 0)))" using that by linarith
  consider "mode = FAV_MODE" | "mode = APP_MODE"
    | "mode \<noteq> FAV_MODE" "mode \<noteq> APP_MODE" "gDefaultGameView s = GAME_VIEW_MIXED"
    | "mode \<noteq> FAV_MODE" "mode \<noteq> APP_MODE" "gDefaultGameView s \<noteq> GAME_VIEW_MIXED" by blast
  then show ?thesis
  proof cases
    case 1
    then show ?thesis using assms four by (auto simp: next_view_def ring_stops_def lib_consts)
  next
    case 2
    then show ?thesis using assms two by (auto simp: next_view_def ring_stops_def lib_consts)
  next
    case 3
    then show ?thesis using assms three by (auto simp: next_view_def ring_stops_def lib_consts)
  next
    case 4
    then show ?thesis using assms two by (auto simp: next_view_def ring_stops_def lib_consts)
  qed
qed

lemma usable_cases:
  assumes "libViewRingUsable s mode"
  obtains (fav) "mode = FAV_MODE"
  | (app) "mode = APP_MODE" "gAppsSplit s"
  | (mixed) "mode \<noteq> FAV_MODE" "mode \<noteq> APP_MODE" "libViewIsDeviceMode mode" "gDefaultGameView s = GAME_VIEW_MIXED"
  | (both) "mode \<noteq> FAV_MODE" "mode \<noteq> APP_MODE" "libViewIsDeviceMode mode" "gDefaultGameView s = GAME_VIEW_BOTH"
  using assms by (auto simp: libViewRingUsable_def libViewRingSize_def split: if_splits)

lemma usable_mode_ok: "libViewRingUsable s mode \<Longrightarrow> mode_ok mode"
  by (simp add: libViewRingUsable_def)

lemma usable_same:
  "gDefaultGameView s' = gDefaultGameView s \<Longrightarrow> gAppsSplit s' = gAppsSplit s \<Longrightarrow>
   libViewRingUsable s' mode = libViewRingUsable s mode \<and> ring_stops s' mode = ring_stops s mode \<and>
   next_view s' mode cur = next_view s mode cur"
  by (simp add: libViewRingUsable_def libViewRingSize_def ring_stops_def next_view_def)

text \<open>The state after one full change of view.\<close>

lemma advance_state:
  fixes s mode
  defines "s1 \<equiv> fst (libViewActive s mode)" and "v \<equiv> next_view s mode (snd (libViewActive s mode))"
    and "mx \<equiv> mode \<noteq> FAV_MODE \<and> mode \<noteq> APP_MODE \<and> gDefaultGameView s = GAME_VIEW_MIXED"
  assumes "lib_ok s" "libViewRingUsable s mode" "\<not> pendingViewValid s ! nat mode"
  shows "lib_advance mode s =
     s1\<lparr>pendingView := (pendingView s1)[nat mode := v],
        pendingViewUsesMixedRing := (pendingViewUsesMixedRing s1)[nat mode := mx],
        libDirty := (libDirty s1)[nat mode := True], pendingViewValid := (pendingViewValid s)[nat mode := False],
        mixedView := (if mx then (mixedView s1)[nat mode := v] else mixedView s1),
        retainedView := (if mx then retainedView s1 else (retainedView s1)[nat mode := v])\<rparr>"
proof -
  obtain cur where a: "libViewActive s mode = (s1, cur)" by (simp add: s1_def prod_eq_iff)
  have m: "mode_ok mode" by (rule usable_mode_ok [OF assms(5)])
  then have i: "nat mode < 15" by (auto simp: mode_ok_def MODE_COUNT_def)
  have l: "lib_lengths s1" using lib_ok_active [OF assms(4), of mode] by (simp add: lib_ok_def s1_def)
  have k: "gDefaultGameView s1 = gDefaultGameView s" "gAppsSplit s1 = gAppsSplit s"
    "pendingViewValid s1 = pendingViewValid s"
    by (simp_all add: s1_def active_keeps)
  have v: "next_view s1 mode cur = v" using usable_same [OF k(1,2)] v_def a by simp
  define t where "t = s1\<lparr>pendingView := (pendingView s1)[nat mode := v],
       pendingViewUsesMixedRing := (pendingViewUsesMixedRing s1)[nat mode := mx],
       pendingViewValid := (pendingViewValid s)[nat mode := True],
       libDirty := (libDirty s1)[nat mode := True]\<rparr>"
  have st: "fst (libViewStageAdvance s mode) = t"
    unfolding libViewStageAdvance_def t_def using assms(5,6) k v by (simp add: a mx_def Let_def)
  have tt: "pendingViewValid t ! nat mode" "pendingViewUsesMixedRing t ! nat mode = mx"
    "pendingView t ! nat mode = v"
    using i l k(3) by (simp_all add: t_def lib_lengths_def)
  have c: "libViewCommitPending t mode =
      (if mx then t\<lparr>mixedView := (mixedView t)[nat mode := v]\<rparr>
       else t\<lparr>retainedView := (retainedView t)[nat mode := v]\<rparr>)"
    using tt m by (simp add: libViewCommitPending_def libViewPending_def)
  show ?thesis
  proof (cases mx)
    case True
    show ?thesis unfolding lib_advance_def st c unfolding libViewFinishPending_def t_def using m True by simp
  next
    case False
    show ?thesis unfolding lib_advance_def st c unfolding libViewFinishPending_def t_def using m False by simp
  qed
qed

lemma advance_keeps:
  assumes "lib_ok s" "libViewRingUsable s mode" "\<not> pendingViewValid s ! nat mode"
  shows "\<not> pendingViewValid (lib_advance mode s) ! nat mode" "lib_ok (lib_advance mode s)"
    "gDefaultGameView (lib_advance mode s) = gDefaultGameView s" "gAppsSplit (lib_advance mode s) = gAppsSplit s"
proof -
  have "nat mode < length (pendingViewValid s)"
    using assms(1) usable_mode_ok [OF assms(2)] by (auto simp: lib_ok_def lib_lengths_def mode_ok_def MODE_COUNT_def)
  then show "\<not> pendingViewValid (lib_advance mode s) ! nat mode" by (simp add: advance_state [OF assms])
  show "lib_ok (lib_advance mode s)"
    using assms(1) by (simp add: lib_advance_def lib_ok_stage lib_ok_commit lib_ok_finish)
  show "gDefaultGameView (lib_advance mode s) = gDefaultGameView s" "gAppsSplit (lib_advance mode s) = gAppsSplit s"
    by (simp_all add: advance_state [OF assms] active_keeps)
qed

lemma advance_active:
  assumes "lib_ok s" "libViewRingUsable s mode" "\<not> pendingViewValid s ! nat mode"
  shows "snd (libViewActive (lib_advance mode s) mode) = next_view s mode (snd (libViewActive s mode))"
proof -
  define cur where "cur = snd (libViewActive s mode)"
  define s1 where "s1 = fst (libViewActive s mode)"
  have m: "mode_ok mode" by (rule usable_mode_ok [OF assms(2)])
  then have i: "nat mode < 15" by (auto simp: mode_ok_def MODE_COUNT_def)
  have l: "length (retainedView s1) = 15" "length (mixedView s1) = 15"
    using lib_ok_active [OF assms(1), of mode] by (simp_all add: lib_ok_def lib_lengths_def s1_def)
  have k: "gDefaultGameView s1 = gDefaultGameView s" "gAppsSplit s1 = gAppsSplit s"
    by (simp_all add: s1_def active_keeps)
  note st = advance_state [OF assms, folded s1_def cur_def]
  from assms(2) show ?thesis
  proof (cases rule: usable_cases)
    case fav
    then show ?thesis unfolding st cur_def [symmetric] using m i l by (simp add: libViewActive_def)
  next
    case app
    then have "mode \<noteq> FAV_MODE" by (simp add: lib_consts)
    then show ?thesis unfolding st cur_def [symmetric] using app m i l k by (simp add: libViewActive_def)
  next
    case mixed
    have "mixedViewInitialized s1 ! nat mode"
      using active_mixed_initialised [OF assms(1,2) mixed(1,2,4)] by (simp add: s1_def)
    then show ?thesis unfolding st cur_def [symmetric] using mixed m i l k
      by (simp add: libViewActive_def libViewMixedActive_def Let_def game_view_consts)
  next
    case both
    then have "next_view s mode cur \<in> {LIB_VIEW_ISO, LIB_VIEW_PS1}"
      by (simp add: next_view_def game_view_consts)
    then show ?thesis unfolding st cur_def [symmetric] using both m i l k by (auto simp: libViewActive_def game_view_consts)
  qed
qed

lemma advance_funpow:
  assumes "lib_ok s" "libViewRingUsable s mode" "\<not> pendingViewValid s ! nat mode"
    and "snd (libViewActive s mode) = ring_stops s mode ! p" "p < length (ring_stops s mode)"
  shows "lib_ok ((lib_advance mode ^^ k) s) \<and> \<not> pendingViewValid ((lib_advance mode ^^ k) s) ! nat mode \<and>
    gDefaultGameView ((lib_advance mode ^^ k) s) = gDefaultGameView s \<and>
    gAppsSplit ((lib_advance mode ^^ k) s) = gAppsSplit s \<and>
    snd (libViewActive ((lib_advance mode ^^ k) s) mode) =
      ring_stops s mode ! ((p + k) mod length (ring_stops s mode))"
proof (induction k)
  case 0
  then show ?case using assms by simp
next
  case (Suc k)
  let ?t = "(lib_advance mode ^^ k) s" and ?n = "length (ring_stops s mode)"
  have u: "libViewRingUsable ?t mode" "next_view ?t mode cur = next_view s mode cur" for cur
    using usable_same [of ?t s mode cur] Suc.IH assms(2) by simp_all
  have "0 < ?n" using assms(5) by linarith
  then have "next_view s mode (ring_stops s mode ! ((p + k) mod ?n)) = ring_stops s mode ! ((p + Suc k) mod ?n)"
    using next_view_ring [of "(p + k) mod ?n" s mode] by (simp add: mod_Suc_eq)
  then show ?case using Suc.IH advance_keeps [of ?t mode] advance_active [of ?t mode] u by simp
qed

lemma stage_keeps_active:
  assumes "lib_ok s" "libViewRingUsable s mode" "\<not> pendingViewValid s ! nat mode"
  shows "snd (libViewActive (fst (libViewStageAdvance s mode)) mode) = snd (libViewActive s mode)"
    "libViewPending (fst (libViewStageAdvance s mode)) mode"
    "snd (libViewPendingTarget (fst (libViewStageAdvance s mode)) mode) = next_view s mode (snd (libViewActive s mode))"
proof -
  obtain s1 cur where a: "libViewActive s mode = (s1, cur)" by (cases "libViewActive s mode")
  have m: "mode_ok mode" by (rule usable_mode_ok [OF assms(2)])
  then have i: "nat mode < 15" by (auto simp: mode_ok_def MODE_COUNT_def)
  have l: "lib_lengths s1" using lib_ok_active [OF assms(1), of mode] by (simp add: lib_ok_def a)
  have k: "gDefaultGameView s1 = gDefaultGameView s" "gAppsSplit s1 = gAppsSplit s"
    using active_keeps [of s mode] a by simp_all
  have v: "next_view s1 mode cur = next_view s mode cur" using usable_same [OF k] by simp
  obtain pv pm d vl where st: "fst (libViewStageAdvance s mode) =
      s1\<lparr>pendingView := (pv :: int list), pendingViewUsesMixedRing := pm, pendingViewValid := vl, libDirty := d\<rparr>"
    and at: "pv ! nat mode = next_view s mode cur" "vl ! nat mode"
    using assms(2,3) i l v unfolding libViewStageAdvance_def by (simp add: a Let_def lib_lengths_def)
  have twice: "snd (libViewActive s1 mode) = cur"
    using a by (auto simp: libViewActive_def libViewMixedActive_def Let_def split: if_splits)
  have "snd (libViewActive (s1\<lparr>pendingView := pv, pendingViewUsesMixedRing := pm, pendingViewValid := vl,
      libDirty := d\<rparr>) mode) = snd (libViewActive s1 mode)"
    by (simp add: libViewActive_def libViewMixedActive_def Let_def)
  then show "snd (libViewActive (fst (libViewStageAdvance s mode)) mode) = snd (libViewActive s mode)"
    using st twice a by simp
  show "libViewPending (fst (libViewStageAdvance s mode)) mode"
    using st at m by (simp add: libViewPending_def)
  then show "snd (libViewPendingTarget (fst (libViewStageAdvance s mode)) mode) =
      next_view s mode (snd (libViewActive s mode))"
    using st at a by (simp add: libViewPendingTarget_def)
qed

lemma active_in_ring:
  assumes "lib_ok s" "libViewRingUsable s mode" "mode = APP_MODE \<Longrightarrow> retainedView s ! nat mode \<noteq> LIB_VIEW_MIXED"
  shows "snd (libViewActive s mode) \<in> set (ring_stops s mode)"
proof -
  have m: "mode_ok mode" by (rule usable_mode_ok [OF assms(2)])
  define v where "v = snd (libViewActive s mode)"
  have sup: "libViewSupported mode v" using active_supported [OF assms(1) m] by (simp add: v_def)
  have "0 \<le> v" "v < 6" using supported_range [OF sup] by simp_all
  then have range: "v = 0 \<or> v = 1 \<or> v = 2 \<or> v = 3 \<or> v = 4 \<or> v = 5" by linarith
  from assms(2) have "v \<in> set (ring_stops s mode)"
  proof (cases rule: usable_cases)
    case fav
    then show ?thesis using range sup by (auto simp: ring_stops_def lib_consts libViewIsDeviceMode_def)
  next
    case app
    then have "v = retainedView s ! nat mode" using m by (simp add: v_def libViewActive_def lib_consts)
    then have "v \<noteq> 4" using app assms(3) by (simp add: LIB_VIEW_MIXED_def)
    then show ?thesis using app range sup
      by (auto simp: ring_stops_def lib_consts libViewIsDeviceMode_def)
  next
    case mixed
    then show ?thesis using range sup by (auto simp: ring_stops_def lib_consts)
  next
    case both
    then have "v = 0 \<or> v = 1" using m by (simp add: v_def libViewActive_def lib_consts game_view_consts)
    then show ?thesis using both by (auto simp: ring_stops_def lib_consts game_view_consts)
  qed
  then show ?thesis by (simp add: v_def)
qed

section \<open>Properties\<close>

lemma lib_init_reachable: "lib_reachable (lib_init 3 True)"
  by (rule start)

text \<open>C15. Every page always shows a view it supports: after any sequence of settings changes, view
  queries, staged, committed and finished changes and loads of arbitrary configuration values, the
  active view and the announced target of every mode are supported views of that mode, and the
  per-mode arrays keep their size.\<close>

theorem libview_supported:
  assumes "lib_reachable s" and "mode_ok mode"
  shows "libViewSupported mode (snd (libViewActive s mode)) \<and>
    libViewSupported mode (snd (libViewPendingTarget s mode)) \<and> lib_lengths s"
proof -
  have ok: "lib_ok s" by (rule lib_reachable_ok [OF assms(1)])
  then show ?thesis
    using active_supported [OF ok assms(2)] lib_ok_at(3) [OF ok assms(2)]
    by (auto simp: libViewPendingTarget_def libViewPending_def lib_ok_def)
qed

theorem libview_supported_witness:
  "libViewSupported 3 (snd (libViewActive (libViewLoadFromConfig (lib_init 3 True)
     (Some (sample_cfg\<lparr>cs_items := [\<lparr>cv_key = ''lib_view_mixed'', cv_val = ''0005''\<rparr>]\<rparr>))) 3))"
  using libview_supported [OF lib_reachable.step [OF lib_init_reachable lib_step.load], of 3]
  by (simp add: mode_ok_def MODE_COUNT_def)

text \<open>The L3 button walks the ring: from the active view of a page with more than one stop,
  complete changes visit every stop of the page's ring once and return to the start after
  \<open>libViewRingSize\<close> presses.  (The Apps page is in its ring unless its remembered position
  is the combined view.)\<close>

lemma libview_ring_cycle:
  assumes "lib_reachable s" and "libViewRingUsable s mode" and "\<not> libViewPending s mode"
    and "mode = APP_MODE \<Longrightarrow> retainedView s ! nat mode \<noteq> LIB_VIEW_MIXED"
  shows "let view_after = (\<lambda>k. snd (libViewActive ((lib_advance mode ^^ k) s) mode)); n = libViewRingSize s mode in
    distinct (map view_after [0..<n]) \<and> set (map view_after [0..<n]) = set (ring_stops s mode) \<and>
    view_after n = view_after 0"
proof -
  have ok: "lib_ok s" by (rule lib_reachable_ok [OF assms(1)])
  have np: "\<not> pendingViewValid s ! nat mode"
    using assms(3) usable_mode_ok [OF assms(2)] by (simp add: libViewPending_def)
  let ?r = "ring_stops s mode" and ?n = "libViewRingSize s mode"
  note size = ring_stops_size [OF assms(2)]
  obtain p where p: "p < length ?r" "snd (libViewActive s mode) = ?r ! p"
    using active_in_ring [OF ok assms(2,4)] by (auto simp: in_set_conv_nth)
  define f where "f = (\<lambda>k. snd (libViewActive ((lib_advance mode ^^ k) s) mode))"
  have at: "f k = ?r ! ((p + k) mod ?n)" for k
    using advance_funpow [OF ok assms(2) np p(2,1), of k] size(1) by (simp add: f_def)
  have "map f [0..<?n] = rotate p ?r"
    by (rule nth_equalityI) (simp_all add: at size(1) nth_rotate add.commute)
  then have "distinct (map f [0..<?n])" "set (map f [0..<?n]) = set ?r" using size(2) by simp_all
  moreover have "f ?n = f 0" by (simp add: at)
  ultimately show ?thesis unfolding f_def by (simp add: Let_def)
qed

lemma libview_ring_cycle_witness:
  "snd (libViewActive ((lib_advance 12 ^^ 4) (lib_init 0 False)) 12) = snd (libViewActive (lib_init 0 False) 12)"
proof -
  have u: "libViewRingUsable (lib_init 0 False) 12"
    by (simp add: libViewRingUsable_def libViewRingSize_def mode_ok_def lib_consts)
  have "\<not> libViewPending (lib_init 0 False) 12" by (simp add: libViewPending_def lib_init_def)
  from libview_ring_cycle [OF start u this] show ?thesis
    by (simp add: Let_def libViewRingSize_def mode_ok_def lib_consts)
qed

text \<open>A change of view is two-phase: on a page with one stop the button changes nothing; staging
  announces the next stop without touching the view that owns the rows on screen, is refused while
  a change is pending, and only committing makes the announced target the active view, which
  finishing keeps.\<close>

lemma libview_two_phase:
  assumes "lib_reachable s"
  shows "(\<not> libViewRingUsable s mode \<longrightarrow> libViewStageAdvance s mode = (s, False)) \<and>
    (libViewRingUsable s mode \<and> \<not> libViewPending s mode \<longrightarrow>
      (let s' = fst (libViewStageAdvance s mode) in
        snd (libViewStageAdvance s mode) \<and> libViewPending s' mode \<and>
        snd (libViewActive s' mode) = snd (libViewActive s mode) \<and>
        libViewStageAdvance s' mode = (s', False) \<and>
        snd (libViewActive (libViewFinishPending (libViewCommitPending s' mode) mode) mode) =
          snd (libViewPendingTarget s' mode)))"
proof -
  have ok: "lib_ok s" by (rule lib_reachable_ok [OF assms])
  have "let s' = fst (libViewStageAdvance s mode) in
        snd (libViewStageAdvance s mode) \<and> libViewPending s' mode \<and>
        snd (libViewActive s' mode) = snd (libViewActive s mode) \<and>
        libViewStageAdvance s' mode = (s', False) \<and>
        snd (libViewActive (libViewFinishPending (libViewCommitPending s' mode) mode) mode) =
          snd (libViewPendingTarget s' mode)"
    if u: "libViewRingUsable s mode" "\<not> libViewPending s mode"
  proof -
    have np: "\<not> pendingViewValid s ! nat mode"
      using u usable_mode_ok [OF u(1)] by (simp add: libViewPending_def)
    have "snd (libViewStageAdvance s mode)"
      using u(1) np by (simp add: libViewStageAdvance_def case_prod_unfold Let_def)
    moreover have "libViewStageAdvance t mode = (t, False)" if "libViewPending t mode" for t
      using that by (simp add: libViewStageAdvance_def libViewPending_def)
    ultimately show ?thesis
      using stage_keeps_active [OF ok u(1) np] advance_active [OF ok u(1) np, unfolded lib_advance_def]
      by (simp add: Let_def)
  qed
  then show ?thesis by (auto simp: libViewStageAdvance_def)
qed

lemma libview_two_phase_witness:
  "libViewStageAdvance (lib_init 1 True) 0 = (lib_init 1 True, False)"
  using libview_two_phase [OF start, of 1 True 0]
  by (simp add: libViewRingUsable_def libViewRingSize_def lib_init_def lib_consts game_view_consts)

text \<open>Positions survive a session: after storing into a configuration set and loading that set in a
  fresh or running state, every mode has the retained view it had, and every visited mode its
  position in the mixed ring; modes never visited stay as they are.\<close>

lemma libview_remembered:
  assumes "lib_reachable s" and "lib_reachable old" and "cfg_ok cs"
  shows "let new = libViewLoadFromConfig old (libViewStoreToConfig (\<lambda>_. True) s (Some cs)) in
    retainedView new = retainedView s \<and>
    (\<forall>i < 15. mixedView new ! i = (if mixedViewInitialized s ! i then mixedView s ! i else mixedView old ! i) \<and>
       (mixedViewInitialized new ! i \<longleftrightarrow> mixedViewInitialized s ! i \<or> mixedViewInitialized old ! i))"
proof -
  have ok: "lib_ok s" "lib_ok old" using assms(1,2) lib_reachable_ok by auto
  let ?r = "libViewEncodeRing (retainedView s) None"
  let ?m = "libViewEncodeRing (mixedView s) (Some (mixedViewInitialized s))"
  let ?put = "\<lambda>c k v. snd (configSetStr (\<lambda>_. True) c k v)"
  define c1 where "c1 = ?put cs ''lib_view_retained'' ?r"
  define c2 where "c2 = ?put c1 ''lib_view_mixed'' ?m"
  have k: "key_legal ''lib_view_retained''" "key_legal ''lib_view_mixed''" and f: "val_fits ?r" "val_fits ?m"
    by (simp_all add: sample_key_defs)
  have c1: "cfg_ok c1" using config_store.good_put [OF assms(3)] by (simp add: c1_def)
  have "configGetStr c1 ''lib_view_retained'' = Some ?r"
    using config_store.get_put [OF assms(3) k(1) k(1) f(1)] by (simp add: c1_def)
  then have get: "configGetStr c2 ''lib_view_retained'' = Some ?r" "configGetStr c2 ''lib_view_mixed'' = Some ?m"
    using config_store.get_put [OF c1 k(2) k(1) f(2)] config_store.get_put [OF c1 k(2) k(2) f(2)]
    by (simp_all add: c2_def)
  have st: "libViewStoreToConfig (\<lambda>_. True) s (Some cs) = Some c2"
    by (simp add: libViewStoreToConfig_def c1_def c2_def Let_def)
  have r: "fst (libViewDecodeRing ?r (retainedView old) []) = retainedView s"
    using ok by (simp add: decode_encode_all lib_ok_def lib_lengths_def)
  show ?thesis using ok
    by (simp add: st libViewLoadFromConfig_def get r Let_def case_prod_unfold decode_encode_marked
        lib_ok_def lib_lengths_def)
qed

lemma libview_remembered_witness:
  "retainedView (libViewLoadFromConfig (lib_init 0 True)
     (libViewStoreToConfig (\<lambda>_. True) (lib_advance 12 (lib_init 0 True)) (Some sample_cfg))) =
   retainedView (lib_advance 12 (lib_init 0 True))"
proof -
  have "lib_reachable (lib_advance 12 (lib_init 0 True))"
    unfolding lib_advance_def by (intro lib_reachable.step [OF _ lib_step.finish]
        lib_reachable.step [OF _ lib_step.commit] lib_reachable.step [OF _ lib_step.stage] start)
  from libview_remembered [OF this start sample_cfg_ok(1)] show ?thesis by (simp add: Let_def)
qed

end
