(* ===== verification/ArtIndex.thy ===== *)
theory ArtIndex
  imports OplPrelude
begin

unbundle bit_operations_syntax

text \<open>
  The art directory index (\<^verbatim>\<open>src/artindex.c\<close>): up to three directory listings held as sorted
  hashes, which let the art worker skip opening a cover that is certainly not there.

  Directories are read through \<open>ix_opendir\<close>, the names \<^verbatim>\<open>readdir\<close> returns for a path or \<open>None\<close> when the
  path cannot be listed.  \<^verbatim>\<open>artIndexInvalidate\<close> may run on another thread while a probe is under way;
  the probe takes the invalidations that arrive between its steps as three flags of its environment:
  after it sampled the generation, while it looks up or sweeps the directory, and while it searches.
\<close>

section \<open>State\<close>

definition ART_INDEX_SLOTS :: nat where "ART_INDEX_SLOTS = 3"
definition ART_INDEX_MAX_ENTRIES :: nat where "ART_INDEX_MAX_ENTRIES = 4096"
definition ART_INDEX_DIR_MAX :: nat where "ART_INDEX_DIR_MAX = 192"

lemmas art_consts = ART_INDEX_SLOTS_def ART_INDEX_MAX_ENTRIES_def ART_INDEX_DIR_MAX_def

record art_index_dir =
  ad_dir :: cstring
  ad_hashes :: "u32 list option"
  ad_count :: nat
  ad_valid :: bool

record art_index =
  gArtIndex :: "art_index_dir list"
  gArtIndexNext :: nat
  gArtIndexAbsentAnswered :: u32
  gArtIndexSweepFailed :: u32
  gArtIndexWrongThread :: u32
  gArtIndexOwnerThread :: int
  gArtIndexGen :: u32

definition art_init :: art_index where
  "art_init = \<lparr>gArtIndex = replicate ART_INDEX_SLOTS \<lparr>ad_dir = [], ad_hashes = None, ad_count = 0, ad_valid = False\<rparr>,
     gArtIndexNext = 0, gArtIndexAbsentAnswered = 0, gArtIndexSweepFailed = 0, gArtIndexWrongThread = 0,
     gArtIndexOwnerThread = - 1, gArtIndexGen = 0\<rparr>"

record art_env =
  ix_opendir :: "cstring \<Rightarrow> cstring list option"
  ix_mem :: bool
  ix_thread :: int
  ix_intr_lookup :: bool
  ix_intr_sweep :: bool
  ix_intr_search :: bool

section \<open>Operations\<close>

definition artIndexSetOwnerThread :: "int \<Rightarrow> art_index \<Rightarrow> art_index" where
  "artIndexSetOwnerThread threadId s = s\<lparr>gArtIndexOwnerThread := threadId\<rparr>"

definition hash_upper :: "char \<Rightarrow> char" where
  "hash_upper c = (if 97 \<le> char_code c \<and> char_code c \<le> 122 then char_of (char_code c - 97 + 65) else c)"

fun hash_loop :: "u32 \<Rightarrow> cstring \<Rightarrow> u32" where
  "hash_loop h [] = h"
| "hash_loop h (c # s) = hash_loop ((h XOR of_nat (char_code (hash_upper c))) * 16777619) s"

definition artIndexHash :: "cstring \<Rightarrow> u32" where
  "artIndexHash s = hash_loop 2166136261 s"

definition artIndexCmp :: "u32 \<Rightarrow> u32 \<Rightarrow> int" where
  "artIndexCmp x y = (if x < y then - 1 else if x > y then 1 else 0)"

text \<open>The directory and the base name of a path.\<close>

definition artIndexSplit :: "cstring \<Rightarrow> nat \<Rightarrow> (cstring \<times> cstring) option" where
  "artIndexSplit fullPath dirMax =
     (case (case strrchr fullPath CHR ''/'' of
              Some slash \<Rightarrow> Some (slash, Suc slash)
            | None \<Rightarrow> map_option (\<lambda>colon. (Suc colon, Suc colon)) (strchr fullPath CHR '':'')) of
        None \<Rightarrow> None
      | Some (pos, base) \<Rightarrow>
          if pos = 0 \<or> dirMax \<le> pos then None
          else if drop base fullPath = [] then None
          else Some (take pos fullPath, drop base fullPath))"

definition list_dir :: "(cstring \<Rightarrow> cstring list option) \<Rightarrow> cstring \<Rightarrow> cstring list option" where
  "list_dir opendir dir =
     (case opendir dir of
        Some names \<Rightarrow> Some names
      | None \<Rightarrow>
          (case strchr dir CHR '':'' of
             None \<Rightarrow> None
           | Some colon \<Rightarrow>
               let rest = drop (Suc colon) dir; alt = take (Suc colon) dir @ CHR ''/'' # rest in
               if rest \<noteq> [] \<and> hd rest \<noteq> CHR ''/'' \<and> length alt < ART_INDEX_DIR_MAX + 1
               then opendir alt else None))"

text \<open>The read loop: the hashes so far, or \<open>None\<close> when the buffer is full.\<close>

fun sweep :: "cstring list \<Rightarrow> u32 list \<Rightarrow> u32 list option" where
  "sweep [] hashes = Some hashes"
| "sweep (d_name # names) hashes =
     (if d_name = [] \<or> hd d_name = CHR ''.'' then sweep names hashes
      else if ART_INDEX_MAX_ENTRIES \<le> length hashes then None
      else sweep names (hashes @ [artIndexHash d_name]))"

definition artIndexInvalidate :: "art_index \<Rightarrow> art_index" where
  "artIndexInvalidate s =
     s\<lparr>gArtIndexGen := gArtIndexGen s + 1,
       gArtIndex := map (\<lambda>slot. slot\<lparr>ad_valid := False, ad_dir := []\<rparr>) (gArtIndex s)\<rparr>"

definition interrupt :: "bool \<Rightarrow> art_index \<Rightarrow> art_index" where
  "interrupt b s = (if b then artIndexInvalidate s else s)"

definition upd_slot :: "nat \<Rightarrow> (art_index_dir \<Rightarrow> art_index_dir) \<Rightarrow> art_index \<Rightarrow> art_index" where
  "upd_slot i f s = s\<lparr>gArtIndex := (gArtIndex s)[i := f (gArtIndex s ! i)]\<rparr>"

definition artIndexBuild :: "art_env \<Rightarrow> cstring \<Rightarrow> art_index \<Rightarrow> nat \<times> art_index" where
  "artIndexBuild e dir s =
     (let i = gArtIndexNext s;
          s1 = s\<lparr>gArtIndexNext := (gArtIndexNext s + 1) mod ART_INDEX_SLOTS\<rparr>;
          s2 = upd_slot i (\<lambda>slot. (if ad_hashes slot \<noteq> None
                                   then slot\<lparr>ad_hashes := None, ad_count := 0, ad_valid := False\<rparr> else slot)
                                  \<lparr>ad_dir := bounded ART_INDEX_DIR_MAX dir, ad_valid := False, ad_count := 0\<rparr>) s1;
          s3 = interrupt (ix_intr_sweep e) s2
      in case list_dir (ix_opendir e) dir of
           None \<Rightarrow> (i, s3\<lparr>gArtIndexSweepFailed := gArtIndexSweepFailed s3 + 1\<rparr>)
         | Some names \<Rightarrow>
             if \<not> ix_mem e then (i, s3)
             else case sweep names [] of
                    None \<Rightarrow> (i, s3)
                  | Some hashes \<Rightarrow>
                      (i, upd_slot i (\<lambda>slot. slot\<lparr>ad_hashes := Some (sort hashes), ad_count := length hashes,
                                                  ad_valid := True\<rparr>) s3))"

fun find_slot :: "cstring \<Rightarrow> art_index_dir list \<Rightarrow> nat \<Rightarrow> nat option" where
  "find_slot dir [] i = None"
| "find_slot dir (slot # r) i = (if ad_dir slot \<noteq> [] \<and> ad_dir slot = dir then Some i else find_slot dir r (Suc i))"

definition artIndexSlotFor :: "art_env \<Rightarrow> cstring \<Rightarrow> art_index \<Rightarrow> nat \<times> art_index" where
  "artIndexSlotFor e dir s =
     (case find_slot dir (gArtIndex s) 0 of
        Some i \<Rightarrow> (i, interrupt (ix_intr_sweep e) s)
      | None \<Rightarrow> artIndexBuild e dir s)"

text \<open>The binary search; \<open>None\<close> is a read outside the listing.\<close>

function bsearch :: "u32 list \<Rightarrow> u32 \<Rightarrow> int \<Rightarrow> int \<Rightarrow> bool option" where
  "bsearch hashes want lo hi =
     (if hi < lo then Some False
      else
        let mid = lo + (hi - lo) div 2 in
        if mid < 0 \<or> int (length hashes) \<le> mid then None
        else
          let got = hashes ! nat mid in
          if got = want then Some True
          else if got < want then bsearch hashes want (mid + 1) hi
          else bsearch hashes want lo (mid - 1))"
  by pat_completeness auto
termination by (relation "measure (\<lambda>(hashes, want, lo, hi). nat (hi - lo + 1))") auto

declare bsearch.simps [simp del]

text \<open>The result is \<open>None\<close> only for a read outside the listing; \<open>Some True\<close> is the answer 1.\<close>

definition art_probe :: "art_env \<Rightarrow> cstring \<Rightarrow> cstring \<Rightarrow> art_index \<Rightarrow> bool option \<times> art_index" where
  "art_probe e dir base s =
     (let genBefore = gArtIndexGen s;
          (i, s1) = artIndexSlotFor e dir (interrupt (ix_intr_lookup e) s);
          slot = gArtIndex s1 ! i;
          s2 = interrupt (ix_intr_search e) s1
      in if \<not> ad_valid slot then (Some True, s2)
         else case ad_hashes slot of
                None \<Rightarrow> (Some True, s2)
              | Some hashes \<Rightarrow>
                  (case bsearch (take (ad_count slot) hashes) (artIndexHash base) 0 (int (ad_count slot) - 1) of
                     None \<Rightarrow> (None, s2)
                   | Some found \<Rightarrow>
                       if found then (Some True, s2)
                       else if gArtIndexGen s2 \<noteq> genBefore then (Some True, s2)
                       else (Some False, s2\<lparr>gArtIndexAbsentAnswered := gArtIndexAbsentAnswered s2 + 1\<rparr>)))"

definition artIndexMayExist :: "art_env \<Rightarrow> cstring option \<Rightarrow> art_index \<Rightarrow> bool option \<times> art_index" where
  "artIndexMayExist e fullPath s =
     (case fullPath of
        None \<Rightarrow> (Some True, s)
      | Some p \<Rightarrow>
          if p = [] then (Some True, s)
          else if strchr p BACKSLASH \<noteq> None \<or> strncmp_eq 3 p ''smb'' then (Some True, s)
          else if gArtIndexOwnerThread s < 0 \<or> ix_thread e \<noteq> gArtIndexOwnerThread s
          then (Some True, s\<lparr>gArtIndexWrongThread := gArtIndexWrongThread s + 1\<rparr>)
          else case artIndexSplit p ART_INDEX_DIR_MAX of
                 None \<Rightarrow> (Some True, s)
               | Some (dir, base) \<Rightarrow> art_probe e dir base s)"

definition artIndexDebug :: "art_index \<Rightarrow> nat \<times> u32 \<times> u32" where
  "artIndexDebug s = (length (filter ad_valid (gArtIndex s)), gArtIndexAbsentAnswered s,
     gArtIndexSweepFailed s + gArtIndexWrongThread s)"

section \<open>The search\<close>

lemma bsearch_correct:
  assumes "sorted hs" "0 \<le> lo" "hi < int (length hs)"
  shows "bsearch hs w lo hi = Some (\<exists>i. lo \<le> int i \<and> int i \<le> hi \<and> hs ! i = w)"
  using assms
proof (induction hs w lo hi rule: bsearch.induct)
  case (1 hs w lo hi)
  show ?case
  proof (cases "hi < lo")
    case False
    define mid where "mid = lo + (hi - lo) div 2"
    have mid: "lo \<le> mid" "mid \<le> hi" "0 \<le> mid" "mid < int (length hs)" using 1 False by (auto simp: mid_def)
    then have m: "nat mid < length hs" by linarith
    have step: "bsearch hs w lo hi =
        (if hs ! nat mid = w then Some True
         else if hs ! nat mid < w then bsearch hs w (mid + 1) hi else bsearch hs w lo (mid - 1))"
      using bsearch.simps [of hs w lo hi] mid False unfolding mid_def [symmetric] Let_def by simp
    have le: "hs ! i \<le> hs ! j" if "i \<le> j" "j < length hs" for i j
      using "1.prems"(1) that sorted_nth_mono by blast
    consider "hs ! nat mid = w" | "hs ! nat mid < w" | "w < hs ! nat mid" using less_linear by blast
    then show ?thesis
    proof cases
      case 1
      then show ?thesis using step mid by (auto intro!: exI [of _ "nat mid"])
    next
      case 2
      have "mid + 1 \<le> int i" if "hs ! i = w" "lo \<le> int i" for i
        using le [of i "nat mid"] m mid(3) 2 that by (cases "i \<le> nat mid") (auto simp: leD)
      then have "(\<exists>i. lo \<le> int i \<and> int i \<le> hi \<and> hs ! i = w) \<longleftrightarrow> (\<exists>i. mid + 1 \<le> int i \<and> int i \<le> hi \<and> hs ! i = w)"
        using mid(1) by (metis add_increasing2 order.trans zero_le_one)
      moreover have "bsearch hs w (mid + 1) hi = Some (\<exists>i. mid + 1 \<le> int i \<and> int i \<le> hi \<and> hs ! i = w)"
        by (rule "1.IH"(1) [OF False mid_def _ refl]) (use 2 "1.prems" mid in auto)
      ultimately show ?thesis using step 2 less_imp_neq [OF 2] by simp
    next
      case 3
      have "int i \<le> mid - 1" if "hs ! i = w" "int i \<le> hi" for i
        using le [of "nat mid" i] m mid(3) 3 that "1.prems"(3) by (cases "nat mid \<le> i") (auto simp: leD)
      then have "(\<exists>i. lo \<le> int i \<and> int i \<le> hi \<and> hs ! i = w) \<longleftrightarrow> (\<exists>i. lo \<le> int i \<and> int i \<le> mid - 1 \<and> hs ! i = w)"
        using mid(2) by fastforce
      moreover have "bsearch hs w lo (mid - 1) = Some (\<exists>i. lo \<le> int i \<and> int i \<le> mid - 1 \<and> hs ! i = w)"
        by (rule "1.IH"(2) [OF False mid_def _ refl]) (use 3 "1.prems" mid in auto)
      ultimately show ?thesis using step less_imp_neq [OF 3] less_not_sym [OF 3] by simp
    qed
  qed (subst bsearch.simps, simp)
qed

lemma bsearch_member: "sorted hs \<Longrightarrow> bsearch hs w 0 (int (length hs) - 1) = Some (w \<in> set hs)"
  using bsearch_correct [of hs 0 "int (length hs) - 1" w] by (fastforce simp: in_set_conv_nth)

definition indexed :: "cstring list \<Rightarrow> u32 list" where
  "indexed names = map artIndexHash (filter (\<lambda>n. n \<noteq> [] \<and> hd n \<noteq> CHR ''.'') names)"

lemma sweep_indexed:
  "sweep names hs = (if length hs + length (indexed names) \<le> 4096 \<or> indexed names = []
     then Some (hs @ indexed names) else None)"
  by (induction names hs rule: sweep.induct) (auto simp: indexed_def ART_INDEX_MAX_ENTRIES_def)

lemma hash_loop_upper: "map hash_upper a = map hash_upper b \<Longrightarrow> hash_loop h a = hash_loop h b"
proof (induction a arbitrary: b h)
  case (Cons x a)
  from Cons.prems obtain y b' where b: "b = y # b'" "hash_upper x = hash_upper y" "map hash_upper a = map hash_upper b'"
    by (cases b) auto
  show ?case unfolding b(1) hash_loop.simps b(2) by (rule Cons.IH [OF b(3)])
qed simp

lemma hash_upper_eq: "map hash_upper a = map hash_upper b \<Longrightarrow> artIndexHash a = artIndexHash b"
  unfolding artIndexHash_def by (rule hash_loop_upper)

section \<open>The invariant\<close>

text \<open>What a slot may claim of the file system \<open>fs\<close>: a readable listing is sorted and complete.\<close>

definition slot_ok :: "(cstring \<Rightarrow> cstring list option) \<Rightarrow> art_index_dir \<Rightarrow> bool" where
  "slot_ok fs slot \<longleftrightarrow> length (ad_dir slot) < 192 \<and>
     (ad_valid slot \<longrightarrow> (\<exists>hs. ad_hashes slot = Some hs \<and> sorted hs \<and> ad_count slot = length hs \<and> length hs \<le> 4096 \<and>
        (ad_dir slot \<noteq> [] \<longrightarrow> (\<exists>names. list_dir fs (ad_dir slot) = Some names \<and> set hs = set (indexed names)))))"

definition index_ok :: "(cstring \<Rightarrow> cstring list option) \<Rightarrow> art_index \<Rightarrow> bool" where
  "index_ok fs s \<longleftrightarrow> length (gArtIndex s) = 3 \<and> gArtIndexNext s < 3 \<and> (\<forall>slot \<in> set (gArtIndex s). slot_ok fs slot)"

lemma index_ok_init: "index_ok fs art_init"
  by (simp add: index_ok_def art_init_def slot_ok_def ART_INDEX_SLOTS_def)

lemma index_ok_invalidate: "index_ok fs s \<Longrightarrow> index_ok fs' (artIndexInvalidate s)"
  by (auto simp: index_ok_def artIndexInvalidate_def slot_ok_def)

lemma index_ok_interrupt: "index_ok fs s \<Longrightarrow> (\<not> b \<Longrightarrow> fs' = fs) \<Longrightarrow> index_ok fs' (interrupt b s)"
  by (auto simp: interrupt_def index_ok_invalidate)

lemma gen_interrupt: "gArtIndexGen (interrupt b s) = gArtIndexGen s + (if b then 1 else 0)"
  by (simp add: interrupt_def artIndexInvalidate_def)

lemma find_slot_Some:
  "find_slot dir slots k = Some i \<Longrightarrow>
    k \<le> i \<and> i - k < length slots \<and> ad_dir (slots ! (i - k)) = dir \<and> dir \<noteq> []"
proof (induction dir slots k rule: find_slot.induct)
  case (2 dir slot r k)
  show ?case
  proof (cases "ad_dir slot \<noteq> [] \<and> ad_dir slot = dir")
    case True
    then show ?thesis using "2.prems" by auto
  next
    case False
    then show ?thesis using 2 by (fastforce simp: nth_Cons' Suc_le_eq)
  qed
qed simp

lemma index_ok_upd:
  assumes "index_ok fs s" "slot_ok fs (f (gArtIndex s ! i))" "i < 3"
  shows "index_ok fs (upd_slot i f s)"
  using assms set_update_subset_insert [of "gArtIndex s" i "f (gArtIndex s ! i)"]
  by (auto simp: index_ok_def upd_slot_def)

text \<open>Sweeping a directory: the slot either answers nothing or holds the listing of the directory as
  it is after the sweep.\<close>

lemma build_ok:
  assumes ok: "index_ok fs s" and len: "length dir < 192"
    and listing: "\<not> ix_intr_sweep e \<Longrightarrow> fs' = fs \<and> ix_opendir e = fs"
    and b: "artIndexBuild e dir s = (i, s')"
  shows "index_ok fs' s'" "i < 3" "gArtIndexGen s' = gArtIndexGen s + (if ix_intr_sweep e then 1 else 0)"
    "ad_dir (gArtIndex s' ! i) = (if ix_intr_sweep e then [] else dir)"
proof -
  define s1 where "s1 = s\<lparr>gArtIndexNext := (gArtIndexNext s + 1) mod ART_INDEX_SLOTS\<rparr>"
  define s2 where "s2 = upd_slot (gArtIndexNext s) (\<lambda>slot. (if ad_hashes slot \<noteq> None
      then slot\<lparr>ad_hashes := None, ad_count := 0, ad_valid := False\<rparr> else slot)
        \<lparr>ad_dir := bounded ART_INDEX_DIR_MAX dir, ad_valid := False, ad_count := 0\<rparr>) s1"
  define s3 where "s3 = interrupt (ix_intr_sweep e) s2"
  let ?n = "gArtIndexNext s"
  have n: "?n < 3" "length (gArtIndex s) = 3" using ok by (auto simp: index_ok_def)
  have ok1: "index_ok fs s1" using ok by (simp add: index_ok_def s1_def ART_INDEX_SLOTS_def)
  have ok2: "index_ok fs s2" unfolding s2_def
    by (rule index_ok_upd [OF ok1 _ n(1)]) (use len in \<open>simp add: slot_ok_def ART_INDEX_DIR_MAX_def\<close>)
  have ok3: "index_ok fs' s3" unfolding s3_def using index_ok_interrupt [OF ok2] listing by blast
  have d: "ad_dir (gArtIndex s3 ! ?n) = (if ix_intr_sweep e then [] else dir)"
    using n len by (simp add: s3_def interrupt_def artIndexInvalidate_def s2_def s1_def upd_slot_def ART_INDEX_DIR_MAX_def)
  have g: "gArtIndexGen s3 = gArtIndexGen s + (if ix_intr_sweep e then 1 else 0)"
    by (simp add: s3_def gen_interrupt s2_def s1_def upd_slot_def)
  have len3: "length (gArtIndex s3) = 3" using ok3 by (simp add: index_ok_def)
  note b' = b [unfolded artIndexBuild_def Let_def, folded s1_def, folded s2_def, folded s3_def]
  consider (unchanged) "s' = s3\<lparr>gArtIndexSweepFailed := gArtIndexSweepFailed s'\<rparr>" "i = ?n"
    | (swept) names hs where "list_dir (ix_opendir e) dir = Some names" "sweep names [] = Some hs" "i = ?n"
      "s' = upd_slot ?n (\<lambda>slot. slot\<lparr>ad_hashes := Some (sort hs), ad_count := length hs, ad_valid := True\<rparr>) s3"
    using b' by (auto split: option.splits if_splits)
  then have "index_ok fs' s' \<and> i < 3 \<and> gArtIndexGen s' = gArtIndexGen s + (if ix_intr_sweep e then 1 else 0) \<and>
    ad_dir (gArtIndex s' ! i) = (if ix_intr_sweep e then [] else dir)"
  proof cases
    case unchanged
    then have "gArtIndex s' = gArtIndex s3" "gArtIndexNext s' = gArtIndexNext s3" "gArtIndexGen s' = gArtIndexGen s3"
      by (metis art_index.ext_inject art_index.surjective art_index.update_convs(4))+
    then show ?thesis using ok3 d g n unchanged(2) by (simp add: index_ok_def)
  next
    case swept
    have hs: "hs = indexed names" "length hs \<le> 4096"
      using swept(2) by (auto simp: sweep_indexed split: if_splits)
    have "slot_ok fs' ((gArtIndex s3 ! ?n)\<lparr>ad_hashes := Some (sort hs), ad_count := length hs, ad_valid := True\<rparr>)"
      using d hs swept(1) listing len by (auto simp: slot_ok_def)
    then have "index_ok fs' s'" unfolding swept(4) by (rule index_ok_upd [OF ok3 _ n(1)])
    then show ?thesis using swept(3,4) d g n len3 by (simp add: upd_slot_def)
  qed
  then show "index_ok fs' s'" "i < 3" "gArtIndexGen s' = gArtIndexGen s + (if ix_intr_sweep e then 1 else 0)"
    "ad_dir (gArtIndex s' ! i) = (if ix_intr_sweep e then [] else dir)" by blast+
qed

lemma slot_for_ok:
  assumes ok: "index_ok fs s" and len: "length dir < 192"
    and listing: "\<not> ix_intr_sweep e \<Longrightarrow> fs' = fs \<and> ix_opendir e = fs"
    and b: "artIndexSlotFor e dir s = (i, s')"
  shows "index_ok fs' s'" "i < 3" "gArtIndexGen s' = gArtIndexGen s + (if ix_intr_sweep e then 1 else 0)"
    "ad_dir (gArtIndex s' ! i) = (if ix_intr_sweep e then [] else dir)"
proof -
  have "index_ok fs' s' \<and> i < 3 \<and> gArtIndexGen s' = gArtIndexGen s + (if ix_intr_sweep e then 1 else 0) \<and>
    ad_dir (gArtIndex s' ! i) = (if ix_intr_sweep e then [] else dir)"
  proof (cases "find_slot dir (gArtIndex s) 0")
    case None
    then have "artIndexBuild e dir s = (i, s')" using b by (simp add: artIndexSlotFor_def)
    from build_ok [OF ok len listing this] show ?thesis by simp
  next
    case (Some j)
    then have s': "i = j" "s' = interrupt (ix_intr_sweep e) s" using b by (simp_all add: artIndexSlotFor_def)
    have "j < 3" "ad_dir (gArtIndex s ! j) = dir" "length (gArtIndex s) = 3"
      using find_slot_Some [OF Some] ok by (simp_all add: index_ok_def)
    moreover have "index_ok fs' s'" unfolding s'(2) using index_ok_interrupt [OF ok] listing by blast
    ultimately show ?thesis unfolding s' by (simp add: gen_interrupt) (simp add: interrupt_def artIndexInvalidate_def)
  qed
  then show "index_ok fs' s'" "i < 3" "gArtIndexGen s' = gArtIndexGen s + (if ix_intr_sweep e then 1 else 0)"
    "ad_dir (gArtIndex s' ! i) = (if ix_intr_sweep e then [] else dir)" by blast+
qed

text \<open>How the file system may change during a probe: only together with an invalidation.\<close>

definition epochs ::
    "art_env \<Rightarrow> (cstring \<Rightarrow> cstring list option) \<Rightarrow> (cstring \<Rightarrow> cstring list option) \<Rightarrow>
     (cstring \<Rightarrow> cstring list option) \<Rightarrow> (cstring \<Rightarrow> cstring list option) \<Rightarrow> bool" where
  "epochs e fs0 fs1 fs2 fs3 \<longleftrightarrow>
     (\<not> ix_intr_lookup e \<longrightarrow> fs1 = fs0) \<and>
     (\<not> ix_intr_sweep e \<longrightarrow> fs2 = fs1 \<and> ix_opendir e = fs1) \<and>
     (\<not> ix_intr_search e \<longrightarrow> fs3 = fs2)"

lemma small_word_sum:
  "(if a then 1 else 0) + ((if b then 1 else 0) + (if c then 1 else 0)) = (0 :: u32) \<longleftrightarrow> \<not> a \<and> \<not> b \<and> \<not> c"
  by simp

lemma probe_ok:
  assumes ok: "index_ok fs0 s" and len: "length dir < 192" and ne: "dir \<noteq> []" and ep: "epochs e fs0 fs1 fs2 fs3"
    and p: "art_probe e dir base s = (r, s')"
  shows "index_ok fs3 s'"
    and "r \<noteq> None"
    and "r = Some False \<Longrightarrow> fs3 = fs0 \<and> (\<exists>names. list_dir fs0 dir = Some names \<and> artIndexHash base \<notin> set (indexed names))"
proof -
  define t where "t = interrupt (ix_intr_lookup e) s"
  obtain i s1 where sf: "artIndexSlotFor e dir t = (i, s1)" by (cases "artIndexSlotFor e dir t")
  define s2 where "s2 = interrupt (ix_intr_search e) s1"
  have okt: "index_ok fs1 t" unfolding t_def using index_ok_interrupt [OF ok] ep by (auto simp: epochs_def)
  have listing: "\<not> ix_intr_sweep e \<Longrightarrow> fs2 = fs1 \<and> ix_opendir e = fs1" using ep by (simp add: epochs_def)
  note sfo = slot_for_ok [OF okt len listing sf]
  have ok2: "index_ok fs3 s2" unfolding s2_def using index_ok_interrupt [OF sfo(1)] ep by (auto simp: epochs_def)
  have gen: "gArtIndexGen s2 = gArtIndexGen s \<longleftrightarrow> \<not> ix_intr_lookup e \<and> \<not> ix_intr_sweep e \<and> \<not> ix_intr_search e"
    by (simp add: s2_def gen_interrupt sfo(3) t_def)
  define slot where "slot = gArtIndex s1 ! i"
  have slot: "slot_ok fs2 slot" using sfo(1,2) by (simp add: index_ok_def slot_def)
  have pr: "art_probe e dir base s =
      (if \<not> ad_valid slot then (Some True, s2)
       else case ad_hashes slot of None \<Rightarrow> (Some True, s2)
            | Some hashes \<Rightarrow>
                (case bsearch (take (ad_count slot) hashes) (artIndexHash base) 0 (int (ad_count slot) - 1) of
                   None \<Rightarrow> (None, s2)
                 | Some found \<Rightarrow> if found then (Some True, s2)
                     else if gArtIndexGen s2 \<noteq> gArtIndexGen s then (Some True, s2)
                     else (Some False, s2\<lparr>gArtIndexAbsentAnswered := gArtIndexAbsentAnswered s2 + 1\<rparr>)))"
    unfolding art_probe_def Let_def sf [unfolded t_def] s2_def slot_def by (simp only: prod.case)
  have abs: "index_ok fs3 (s2\<lparr>gArtIndexAbsentAnswered := w\<rparr>)" for w using ok2 by (simp add: index_ok_def)
  have "index_ok fs3 s' \<and> r \<noteq> None \<and> (r = Some False \<longrightarrow> fs3 = fs0 \<and>
      (\<exists>names. list_dir fs0 dir = Some names \<and> artIndexHash base \<notin> set (indexed names)))"
  proof (cases "ad_valid slot")
    case False
    then show ?thesis using p pr ok2 by auto
  next
    case True
    then obtain hs where hs: "ad_hashes slot = Some hs" "sorted hs" "ad_count slot = length hs"
      "ad_dir slot \<noteq> [] \<longrightarrow> (\<exists>names. list_dir fs2 (ad_dir slot) = Some names \<and> set hs = set (indexed names))"
      using slot by (auto simp: slot_ok_def)
    have found: "bsearch (take (ad_count slot) hs) (artIndexHash base) 0 (int (ad_count slot) - 1) =
        Some (artIndexHash base \<in> set hs)" using bsearch_member [OF hs(2)] hs(3) by simp
    show ?thesis
    proof (cases "artIndexHash base \<in> set hs \<or> gArtIndexGen s2 \<noteq> gArtIndexGen s")
      case True
      then have "art_probe e dir base s = (Some True, s2)" using pr \<open>ad_valid slot\<close> hs(1) found by auto
      then show ?thesis using p ok2 by simp
    next
      case False
      then have "fs3 = fs0" "fs2 = fs0" "ad_dir slot = dir" using gen ep sfo(4) by (auto simp: epochs_def slot_def)
      moreover have "art_probe e dir base s =
          (Some False, s2\<lparr>gArtIndexAbsentAnswered := gArtIndexAbsentAnswered s2 + 1\<rparr>)"
        using pr \<open>ad_valid slot\<close> hs(1) found False by simp
      moreover from calculation(3) obtain names where "list_dir fs2 dir = Some names" "set hs = set (indexed names)"
        using hs(4) ne by auto
      ultimately show ?thesis using p abs False by simp
    qed
  qed
  then show "index_ok fs3 s'" "r \<noteq> None" "r = Some False \<Longrightarrow> fs3 = fs0 \<and>
    (\<exists>names. list_dir fs0 dir = Some names \<and> artIndexHash base \<notin> set (indexed names))" by blast+
qed

lemma split_dir:
  assumes "artIndexSplit p ART_INDEX_DIR_MAX = Some (dir, base)"
  shows "length dir < 192" "dir \<noteq> []"
  using assms by (auto simp: artIndexSplit_def ART_INDEX_DIR_MAX_def split: option.splits prod.splits if_splits)

lemma may_exist_cases:
  obtains "\<exists>w. artIndexMayExist e p s = (Some True, s\<lparr>gArtIndexWrongThread := w\<rparr>)"
  | q dir base where "p = Some q" "artIndexSplit q ART_INDEX_DIR_MAX = Some (dir, base)"
    "artIndexMayExist e p s = art_probe e dir base s"
proof -
  have same: "\<exists>w. (Some True, s) = (Some True, s\<lparr>gArtIndexWrongThread := w\<rparr>)"
    by (rule exI [of _ "gArtIndexWrongThread s"]) simp
  have "(\<exists>w. artIndexMayExist e p s = (Some True, s\<lparr>gArtIndexWrongThread := w\<rparr>)) \<or>
    (\<exists>q dir base. p = Some q \<and> artIndexSplit q ART_INDEX_DIR_MAX = Some (dir, base) \<and>
       artIndexMayExist e p s = art_probe e dir base s)"
    unfolding artIndexMayExist_def using same
    by (cases p; cases "artIndexSplit (the p) ART_INDEX_DIR_MAX") auto
  then show ?thesis using that by blast
qed

text \<open>Histories of an index over a file system that changes only together with invalidations.\<close>

inductive art_reachable :: "(cstring \<Rightarrow> cstring list option) \<Rightarrow> art_index \<Rightarrow> bool" where
  start: "art_reachable fs art_init"
| owner: "art_reachable fs s \<Longrightarrow> art_reachable fs (artIndexSetOwnerThread t s)"
| invalidate: "art_reachable fs s \<Longrightarrow> art_reachable fs' (artIndexInvalidate s)"
| probe: "art_reachable fs0 s \<Longrightarrow> epochs e fs0 fs1 fs2 fs3 \<Longrightarrow> artIndexMayExist e p s = (r, s') \<Longrightarrow>
    art_reachable (if gArtIndexGen s' = gArtIndexGen s then fs0 else fs3) s'"

lemma probe_gen:
  assumes "index_ok fs0 s" "length dir < 192" "epochs e fs0 fs1 fs2 fs3"
    "art_probe e dir base s = (r, s')" "gArtIndexGen s' = gArtIndexGen s"
  shows "fs3 = fs0"
proof -
  define t where "t = interrupt (ix_intr_lookup e) s"
  obtain i s1 where sf: "artIndexSlotFor e dir t = (i, s1)" by (cases "artIndexSlotFor e dir t")
  have okt: "index_ok fs1 t" unfolding t_def using index_ok_interrupt [OF assms(1)] assms(3) by (auto simp: epochs_def)
  have listing: "\<not> ix_intr_sweep e \<Longrightarrow> fs2 = fs1 \<and> ix_opendir e = fs1" using assms(3) by (simp add: epochs_def)
  have "gArtIndexGen s' = gArtIndexGen (interrupt (ix_intr_search e) s1)"
    using assms(4) sf unfolding art_probe_def Let_def t_def
    by (auto split: option.splits if_splits)
  then have "\<not> ix_intr_lookup e \<and> \<not> ix_intr_sweep e \<and> \<not> ix_intr_search e"
    using slot_for_ok(3) [OF okt assms(2) listing sf] assms(5) by (simp add: gen_interrupt t_def split: if_splits)
  then show ?thesis using assms(3) by (simp add: epochs_def)
qed

lemma art_reachable_ok: "art_reachable fs s \<Longrightarrow> index_ok fs s"
proof (induction rule: art_reachable.induct)
  case (probe fs0 s e fs1 fs2 fs3 p r s')
  consider w where "s' = s\<lparr>gArtIndexWrongThread := w\<rparr>"
    | q dir base where "p = Some q" "artIndexSplit q ART_INDEX_DIR_MAX = Some (dir, base)" "art_probe e dir base s = (r, s')"
    by (rule may_exist_cases [of e p s]) (use probe.hyps(3) in auto)
  then show ?case
  proof cases
    case 1
    then show ?thesis using probe.IH by (simp add: index_ok_def)
  next
    case (2 q dir base)
    note d = split_dir [OF 2(2)]
    show ?thesis using probe_ok(1) [OF probe.IH d probe.hyps(2) 2(3)]
        probe_gen [OF probe.IH d(1) probe.hyps(2) 2(3)] by auto
  qed
qed (simp_all add: index_ok_init index_ok_invalidate, simp add: index_ok_def artIndexSetOwnerThread_def)

section \<open>Properties\<close>

text \<open>C6. The index never hides art that exists (except for names that begin with a dot): in every
  history of probes, invalidations and thread registrations over a file system that changes only
  together with an invalidation, also one that arrives in the middle of the probe, the answer
  "absent" means that the directory could be listed and no entry of it has that name, whatever the
  case of its letters; and the search stays inside the listing, which holds at most 4096 hashes.\<close>

theorem artindex_absent_sound:
  assumes "art_reachable fs0 s" and "epochs e fs0 fs1 fs2 fs3"
  shows "fst (artIndexMayExist e (Some p) s) \<noteq> None \<and>
    (\<forall>slot \<in> set (gArtIndex s). ad_valid slot \<longrightarrow> ad_count slot \<le> ART_INDEX_MAX_ENTRIES) \<and>
    (fst (artIndexMayExist e (Some p) s) = Some False \<longrightarrow>
      (\<exists>dir base names. artIndexSplit p ART_INDEX_DIR_MAX = Some (dir, base) \<and> list_dir fs0 dir = Some names \<and>
         (\<forall>n \<in> set names. n \<noteq> [] \<and> hd n \<noteq> CHR ''.'' \<longrightarrow> map hash_upper n \<noteq> map hash_upper base)))"
proof -
  have ok: "index_ok fs0 s" by (rule art_reachable_ok [OF assms(1)])
  then have "\<forall>slot \<in> set (gArtIndex s). ad_valid slot \<longrightarrow> ad_count slot \<le> ART_INDEX_MAX_ENTRIES"
    by (auto simp: index_ok_def slot_ok_def ART_INDEX_MAX_ENTRIES_def)
  moreover have "fst (artIndexMayExist e (Some p) s) \<noteq> None \<and>
    (fst (artIndexMayExist e (Some p) s) = Some False \<longrightarrow>
      (\<exists>dir base names. artIndexSplit p ART_INDEX_DIR_MAX = Some (dir, base) \<and> list_dir fs0 dir = Some names \<and>
         (\<forall>n \<in> set names. n \<noteq> [] \<and> hd n \<noteq> CHR ''.'' \<longrightarrow> map hash_upper n \<noteq> map hash_upper base)))"
  proof (cases rule: may_exist_cases [of e "Some p" s])
    case (2 q dir base)
    obtain r s' where pr: "art_probe e dir base s = (r, s')" by (cases "art_probe e dir base s")
    note po = probe_ok(2,3) [OF ok split_dir [OF 2(2)] assms(2) pr]
    have "map hash_upper n \<noteq> map hash_upper base"
      if "artIndexHash base \<notin> set (indexed names)" "n \<in> set names" "n \<noteq> []" "hd n \<noteq> CHR ''.''" for names n
    proof
      assume "map hash_upper n = map hash_upper base"
      then have "artIndexHash base = artIndexHash n" using hash_upper_eq [of n base] by simp
      then show False using that by (auto simp: indexed_def)
    qed
    then show ?thesis using po 2 pr by fastforce
  qed auto
  ultimately show ?thesis by blast
qed

definition sample_env :: "cstring list \<Rightarrow> art_env" where
  "sample_env names = \<lparr>ix_opendir = (\<lambda>d. if d = ''mass0:/ART'' then Some names else None), ix_mem = True,
     ix_thread = 4, ix_intr_lookup = False, ix_intr_sweep = False, ix_intr_search = False\<rparr>"

theorem artindex_absent_sound_witness:
  "\<exists>dir base names. artIndexSplit ''mass0:/ART/B.png'' 192 = Some (dir, base) \<and>
     list_dir (ix_opendir (sample_env [''a.PNG''])) dir = Some names \<and>
     (\<forall>n \<in> set names. n \<noteq> [] \<and> hd n \<noteq> CHR ''.'' \<longrightarrow> map hash_upper n \<noteq> map hash_upper base)"
proof -
  let ?e = "sample_env [''a.PNG'']" and ?s = "artIndexSetOwnerThread 4 art_init"
  have r: "art_reachable (ix_opendir ?e) ?s" by (rule owner [OF start])
  have ep: "epochs ?e (ix_opendir ?e) (ix_opendir ?e) (ix_opendir ?e) (ix_opendir ?e)"
    by (simp add: epochs_def)
  have "fst (artIndexMayExist ?e (Some ''mass0:/ART/B.png'') ?s) = Some False" by code_simp
  then show ?thesis using artindex_absent_sound [OF r ep, of "''mass0:/ART/B.png''"]
    by (simp add: ART_INDEX_DIR_MAX_def)
qed

text \<open>The binary search of a listing is membership: on a sorted listing it ends, reads only inside
  it, and finds a hash exactly when the listing has it.\<close>

lemma artindex_search_equiv:
  assumes "sorted hashes"
  shows "bsearch hashes want 0 (int (length hashes) - 1) = Some (want \<in> set hashes)"
  by (rule bsearch_member [OF assms])

lemma artindex_search_equiv_witness: "bsearch [3, 7, 9] 7 0 2 = Some True"
  using artindex_search_equiv [of "[3, 7, 9]" 7] by simp

text \<open>A file whose name begins with a dot is reported absent although the directory has it: the
  sweep leaves such entries out of the listing, the probe does not.\<close>

lemma artindex_dot_name_hidden:
  "fst (artIndexMayExist (sample_env [''.hack_COV.png'', ''a.png'']) (Some ''mass0:/ART/.hack_COV.png'')
     (artIndexSetOwnerThread 4 art_init)) = Some False"
  by code_simp

end
