(* ===== verification/CheatMan.thy ===== *)
theory CheatMan
  imports ConfigStore
begin

text \<open>
  PS2RD cheats (\<^verbatim>\<open>src/cheatman.c\<close>): the parser of cheat files, the cheat table, the flat list of
  address/value pairs handed to the in-game core, and the per-game settings.

  \<^item> The table \<^verbatim>\<open>gCheats\<close> is \<open>None\<close> until allocated, then a zeroed array of \<open>MAX_CODES\<close> entries, each
    with an array of \<open>MAX_CHEATLIST\<close> codes.  Both arrays are total functions on indices, and every
    store checks its index: a store outside the array makes the parser return \<open>None\<close>.
  \<^item> The same holds for the 256 bytes of \<^verbatim>\<open>line\<close> and for the step past the end of the text.
\<close>

section \<open>Data\<close>

definition MAX_CODES :: nat where "MAX_CODES = 250"
definition MAX_CHEATLIST :: nat where "MAX_CHEATLIST = 510"
definition MAX_IMAGEBYTES :: nat where "MAX_IMAGEBYTES = 4096"
definition CHEAT_NAME_MAX :: nat where "CHEAT_NAME_MAX = 128"
definition CODE_DIGITS :: nat where "CODE_DIGITS = 16"
definition CHEAT_LINE_MAX :: nat where "CHEAT_LINE_MAX = 255"

lemmas cheat_consts = MAX_CODES_def MAX_CHEATLIST_def MAX_IMAGEBYTES_def CHEAT_NAME_MAX_def CODE_DIGITS_def
  CHEAT_LINE_MAX_def

record code =
  addr :: u32
  val :: u32

definition zero_code :: code where "zero_code = \<lparr>addr = 0, val = 0\<rparr>"

record cheat_entry =
  ce_name :: cstring
  ce_codes :: "nat \<Rightarrow> code"
  ce_enabled :: bool

type_synonym cheat_table = "nat \<Rightarrow> cheat_entry"

definition zero_entry :: cheat_entry where
  "zero_entry = \<lparr>ce_name = [], ce_codes = (\<lambda>_. zero_code), ce_enabled = False\<rparr>"

record cheat_state =
  gCheatSource :: int
  gEnableCheat :: int
  gCheatMode :: int
  gEnableImage :: int
  gCheats :: "cheat_table option"
  gCheatList :: "u32 list"
  gImage :: "char list"

definition cheat_init :: cheat_state where
  "cheat_init = \<lparr>gCheatSource = 0, gEnableCheat = 0, gCheatMode = 0, gEnableImage = 0, gCheats = None,
     gCheatList = replicate MAX_CHEATLIST 0, gImage = replicate MAX_IMAGEBYTES NUL\<rparr>"

section \<open>Settings\<close>

definition freeCheatTable :: "cheat_state \<Rightarrow> cheat_state" where
  "freeCheatTable s = s\<lparr>gCheats := None\<rparr>"

definition load_int :: "config_set \<Rightarrow> cstring \<Rightarrow> int \<Rightarrow> int" where
  "load_int cs key dflt = (case configGetInt cs key of Some i \<Rightarrow> i | None \<Rightarrow> dflt)"

definition cheat_settings :: "config_set \<Rightarrow> cheat_state \<Rightarrow> cheat_state" where
  "cheat_settings cs s =
     (let s1 = s\<lparr>gEnableCheat := load_int cs ''$EnableCheat'' (gEnableCheat s)\<rparr>;
          s2 = (if configGetInt cs ''$EnableCheat'' \<noteq> None \<and> gEnableCheat s1 \<noteq> 0
                then s1\<lparr>gCheatMode := load_int cs ''$CheatMode'' (gCheatMode s1)\<rparr> else s1)
      in s2\<lparr>gEnableImage := load_int cs ''$EnableImage'' (gEnableImage s2)\<rparr>)"

definition InitCheatsConfig :: "config_set \<Rightarrow> config_set \<Rightarrow> cheat_state \<Rightarrow> cheat_state" where
  "InitCheatsConfig configSet configGame s =
     (let s1 = s\<lparr>gCheatSource := load_int configSet ''$CheatsSource'' 0, gEnableCheat := 0, gCheatMode := 0,
                 gEnableImage := 0\<rparr>;
          s2 = cheat_settings (if configGetInt configSet ''$CheatsSource'' \<noteq> None then configSet else configGame) s1
      in if gEnableCheat s2 = 0 then freeCheatTable s2 else s2)"

text \<open>\<open>file\<close> is \<open>None\<close> when the file cannot be opened; a failing read leaves the zeroed image.\<close>

definition LoadImage :: "file_desc option \<Rightarrow> cheat_state \<Rightarrow> int \<times> cheat_state" where
  "LoadImage file s =
     (let s1 = s\<lparr>gImage := replicate MAX_IMAGEBYTES NUL\<rparr> in
      case file of
        None \<Rightarrow> (- 1, s1)
      | Some f \<Rightarrow>
          (case fst (fd_read f MAX_IMAGEBYTES) of
             None \<Rightarrow> (- 1, s1)
           | Some bs \<Rightarrow> (0, s1\<lparr>gImage := put_bytes 0 bs (gImage s1)\<rparr>)))"

section \<open>Codes and lines\<close>

definition hex_value :: "cstring \<Rightarrow> u32" where
  "hex_value ds = foldl (\<lambda>a c. a * 16 + of_int (fromHex c)) 0 ds"

text \<open>\<^verbatim>\<open>sscanf(digits, "%08X%08X", ...)\<close> on a string of hex digits.\<close>

definition make_code :: "cstring \<Rightarrow> code" where
  "make_code s =
     (let digits = take CODE_DIGITS (filter isxdigit s); a = take 8 digits; v = take 8 (drop 8 digits) in
      if a = [] \<or> v = [] then zero_code else \<lparr>addr = hex_value a, val = hex_value v\<rparr>)"

fun cheat_code_loop :: "nat \<Rightarrow> cstring \<Rightarrow> bool" where
  "cheat_code_loop i [] \<longleftrightarrow> i = CODE_DIGITS"
| "cheat_code_loop i (c # s) \<longleftrightarrow>
     (if isxdigit c then (if CODE_DIGITS < Suc i then False else cheat_code_loop (Suc i) s)
      else if \<not> isspace c then False else cheat_code_loop i s)"

definition is_cheat_code :: "cstring \<Rightarrow> bool" where
  "is_cheat_code s = cheat_code_loop 0 s"

definition parse_line :: "cstring \<Rightarrow> code" where
  "parse_line line = (if is_cheat_code line then make_code line else zero_code)"

definition is_cmt_str :: "cstring \<Rightarrow> bool" where
  "is_cmt_str s \<longleftrightarrow> (2 \<le> length s \<and> strncmp_eq 2 s ''//'') \<or> (s \<noteq> [] \<and> hd s = CHR ''#'')"

definition chr_idx :: "cstring \<Rightarrow> char \<Rightarrow> nat option" where
  "chr_idx s c = strchr s c"

fun term_str :: "cstring \<Rightarrow> (cstring \<Rightarrow> bool) \<Rightarrow> cstring" where
  "term_str [] callback = []"
| "term_str (c # s) callback = (if callback (c # s) then [] else c # term_str s callback)"

definition is_empty_str :: "cstring \<Rightarrow> bool" where
  "is_empty_str s \<longleftrightarrow> (\<forall>c \<in> set s. \<not> isgraph c)"

definition is_empty_substr :: "cstring \<Rightarrow> nat \<Rightarrow> bool" where
  "is_empty_substr s count \<longleftrightarrow> (\<forall>c \<in> set (take count s). \<not> isgraph c)"

text \<open>The trimmed string; a string without a printable character is left as it is.\<close>

definition trim_str :: "cstring \<Rightarrow> cstring" where
  "trim_str s = (if is_empty_str s then s else rstrip isspace (dropWhile isspace s))"

section \<open>The parser\<close>

record parse_state =
  ps_table :: cheat_table
  ps_cheat :: int
  ps_code :: nat
  ps_name :: cstring

text \<open>What happens for one screened line.\<close>

definition add_code :: "code \<Rightarrow> parse_state \<Rightarrow> parse_state option" where
  "add_code c ps =
     (let enter = ps_cheat ps + 1 < int MAX_CODES \<and> ps_name ps \<noteq> [];
          idx = (if enter then ps_cheat ps + 1 else ps_cheat ps);
          i = nat idx;
          t = (if enter
               then (ps_table ps)(i := (ps_table ps i)\<lparr>ce_name := take CHEAT_NAME_MAX (ps_name ps), ce_enabled := True\<rparr>)
               else ps_table ps);
          ps1 = ps\<lparr>ps_table := t, ps_cheat := idx, ps_name := (if enter then [] else ps_name ps)\<rparr>
      in if enter \<and> MAX_CODES \<le> i then None
         else if 0 \<le> idx \<and> ps_code ps < MAX_CHEATLIST then
           (if MAX_CODES \<le> i then None
            else Some (ps1\<lparr>ps_table := t(i := (t i)\<lparr>ce_codes := (ce_codes (t i))(ps_code ps := c)\<rparr>),
                           ps_code := Suc (ps_code ps)\<rparr>))
         else Some ps1)"

definition line_step :: "cstring \<Rightarrow> parse_state \<Rightarrow> parse_state option" where
  "line_step line ps =
     (if \<not> is_cheat_code line \<and> 0 < length line
      then Some (ps\<lparr>ps_name := take CHEAT_NAME_MAX line, ps_code := 0\<rparr>)
      else
        let c = parse_line line in
        if \<not> (addr c = 0 \<and> val c = 0) then add_code c ps else Some ps)"

text \<open>The length of the next line in the buffer and the step to the one after it.\<close>

definition scan_line :: "cstring \<Rightarrow> nat \<times> nat" where
  "scan_line buf =
     (let lfIdx = chr_idx buf LF;
          len = min (case lfIdx of Some k \<Rightarrow> k | None \<Rightarrow> length buf) CHEAT_LINE_MAX
      in (len, if lfIdx = None then len else len + 1))"

function parse_loop :: "cstring \<Rightarrow> parse_state \<Rightarrow> parse_state option" where
  "parse_loop buf ps =
     (if buf = [] then Some ps
      else
        let (len, adv) = scan_line buf in
        if CHEAT_LINE_MAX < len \<or> length buf < adv then None
        else if is_empty_substr buf len then parse_loop (drop adv buf) ps
        else case line_step (trim_str (term_str (take len buf) is_cmt_str)) ps of
               None \<Rightarrow> None
             | Some ps' \<Rightarrow> parse_loop (drop adv buf) ps')"
  by pat_completeness auto
termination
proof (relation "measure (\<lambda>(buf, _). length buf)", goal_cases)
  case (2 buf ps x len adv)
  then show ?case by (auto simp: scan_line_def Let_def CHEAT_LINE_MAX_def split: option.splits if_splits)
next
  case (3 buf ps x len adv ps')
  then show ?case by (auto simp: scan_line_def Let_def CHEAT_LINE_MAX_def split: option.splits if_splits)
qed simp

declare parse_loop.simps [simp del]

definition parse_buf :: "cstring \<Rightarrow> cheat_table \<Rightarrow> cheat_table option" where
  "parse_buf buf table =
     map_option ps_table (parse_loop buf \<lparr>ps_table = table, ps_cheat = - 1, ps_code = 0, ps_name = []\<rparr>)"

section \<open>Loading\<close>

record text_file =
  tf_bytes :: "char list"
  tf_seek_end_ok :: bool
  tf_mem_ok :: bool
  tf_seek_set_ok :: bool
  tf_read :: nat

text \<open>The buffer, without the terminating NUL the code adds; \<open>None\<close> is NULL.\<close>

definition read_text_file :: "text_file option \<Rightarrow> nat \<Rightarrow> char list option" where
  "read_text_file file maxsize =
     (case file of
        None \<Rightarrow> None
      | Some f \<Rightarrow>
          let filesize = length (tf_bytes f) in
          if \<not> tf_seek_end_ok f then None
          else if 0 < maxsize \<and> maxsize < filesize then None
          else if \<not> tf_mem_ok f then None
          else if 0 < filesize \<and> \<not> tf_seek_set_ok f then None
          else if 0 < filesize \<and> min (tf_read f) filesize \<noteq> filesize then None
          else Some (tf_bytes f))"

definition ensureCheatTable :: "bool \<Rightarrow> cheat_state \<Rightarrow> int \<times> cheat_state" where
  "ensureCheatTable mem s =
     (if gCheats s = None \<and> \<not> mem then (- 1, s) else (0, s\<lparr>gCheats := Some (\<lambda>_. zero_entry)\<rparr>))"

definition parse_into :: "cstring \<Rightarrow> cheat_state \<Rightarrow> (int \<times> cheat_state) option" where
  "parse_into buf s =
     (case gCheats s of
        None \<Rightarrow> None
      | Some table \<Rightarrow>
          map_option (\<lambda>t. (if gCheatMode s = 0 then 0 else 1, s\<lparr>gCheats := Some t\<rparr>)) (parse_buf buf table))"

definition load_cheats :: "bool \<Rightarrow> text_file option \<Rightarrow> cheat_state \<Rightarrow> (int \<times> cheat_state) option" where
  "load_cheats mem file s =
     (case ensureCheatTable mem s of
        (ret, s1) \<Rightarrow>
          if ret < 0 then Some (- 1, s1)
          else case read_text_file file 0 of
                 None \<Rightarrow> Some (- 1, s1)
               | Some buf \<Rightarrow> parse_into (cstr buf) s1)"

definition load_cheats_buf :: "bool \<Rightarrow> cstring option \<Rightarrow> cheat_state \<Rightarrow> (int \<times> cheat_state) option" where
  "load_cheats_buf mem buf s =
     (case buf of
        None \<Rightarrow> Some (- 1, s)
      | Some b \<Rightarrow>
          (case ensureCheatTable mem s of
             (ret, s1) \<Rightarrow> if ret < 0 then Some (- 1, s1) else parse_into b s1))"

section \<open>The list for the core\<close>

function push_codes :: "cheat_entry \<Rightarrow> nat \<Rightarrow> u32 list \<times> nat \<Rightarrow> u32 list \<times> nat" where
  "push_codes e j (mem, cheatCount) =
     (if j < MAX_CHEATLIST \<and> addr (ce_codes e j) \<noteq> 0 then
        (if cheatCount + 2 \<le> MAX_CHEATLIST
         then push_codes e (Suc j)
                (mem[cheatCount := addr (ce_codes e j), Suc cheatCount := val (ce_codes e j)], cheatCount + 2)
         else (mem, cheatCount))
      else (mem, cheatCount))"
  by pat_completeness auto
termination by (relation "measure (\<lambda>(e, j, _). MAX_CHEATLIST - j)") auto

declare push_codes.simps [simp del]

definition set_cheats_list :: "cheat_state \<Rightarrow> cheat_state" where
  "set_cheats_list s =
     (let zero = replicate MAX_CHEATLIST 0 in
      case gCheats s of
        None \<Rightarrow> s\<lparr>gCheatList := zero\<rparr>
      | Some t \<Rightarrow>
          (let (mem, cheatCount) =
                 fold (\<lambda>i st. if ce_enabled (t i) then push_codes (t i) 0 st else st) [0..<MAX_CODES] (zero, 0)
           in s\<lparr>gCheatList :=
                  (if cheatCount < MAX_CHEATLIST then mem[cheatCount := 0, Suc cheatCount := 0]
                   else mem[cheatCount - 2 := 0, cheatCount - 1 := 0])\<rparr>))"

section \<open>Nothing is stored outside the arrays\<close>

definition table_ok :: "cheat_table \<Rightarrow> bool" where
  "table_ok t \<longleftrightarrow> (\<forall>i. length (ce_name (t i)) \<le> CHEAT_NAME_MAX \<and> (MAX_CODES \<le> i \<longrightarrow> t i = zero_entry) \<and>
     (\<forall>j \<ge> MAX_CHEATLIST. ce_codes (t i) j = zero_code))"

definition parse_ok :: "parse_state \<Rightarrow> bool" where
  "parse_ok ps \<longleftrightarrow> table_ok (ps_table ps) \<and> - 1 \<le> ps_cheat ps \<and> ps_cheat ps < int MAX_CODES"

lemma add_code_ok:
  assumes "parse_ok ps"
  shows "\<exists>ps'. add_code c ps = Some ps' \<and> parse_ok ps'"
  using assms unfolding add_code_def Let_def
  by (auto simp: parse_ok_def table_ok_def nat_less_iff not_less)

lemma line_step_ok: "parse_ok ps \<Longrightarrow> \<exists>ps'. line_step line ps = Some ps' \<and> parse_ok ps'"
  using add_code_ok by (auto simp: line_step_def Let_def parse_ok_def)

lemma scan_line_bounds: "fst (scan_line buf) \<le> 255" "snd (scan_line buf) \<le> length buf"
  using strchr_Some_split(1) [of buf LF]
  by (auto simp: scan_line_def Let_def CHEAT_LINE_MAX_def chr_idx_def split: option.split)

lemma parse_loop_ok: "parse_ok ps \<Longrightarrow> \<exists>ps'. parse_loop buf ps = Some ps' \<and> parse_ok ps'"
proof (induction buf ps rule: parse_loop.induct)
  case (1 buf ps)
  obtain len adv where sc: "scan_line buf = (len, adv)" by (cases "scan_line buf")
  have b: "\<not> CHEAT_LINE_MAX < len" "\<not> length buf < adv"
    using scan_line_bounds [of buf] sc by (simp_all add: CHEAT_LINE_MAX_def)
  obtain ps' where ps': "line_step (trim_str (term_str (take len buf) is_cmt_str)) ps = Some ps'" "parse_ok ps'"
    using line_step_ok [OF "1.prems"] by blast
  show ?case
  proof (cases "buf = [] \<or> is_empty_substr buf len")
    case True
    then show ?thesis using 1 sc b by (subst parse_loop.simps) auto
  next
    case False
    then show ?thesis using "1.IH"(2) [OF _ sc [symmetric] refl _ _ ps'(1) ps'(2)] sc b ps'(1)
      by (subst parse_loop.simps) auto
  qed
qed

lemma table_ok_zero: "table_ok (\<lambda>_. zero_entry)"
  by (simp add: table_ok_def zero_entry_def)

section \<open>What a cheat file means\<close>

datatype cheat_item = Title cstring | Code code

definition is_Code :: "cheat_item \<Rightarrow> bool" where
  "is_Code it \<longleftrightarrow> (case it of Code _ \<Rightarrow> True | Title _ \<Rightarrow> False)"

lemma is_Code_simps [simp]: "is_Code (Code c)" "\<not> is_Code (Title n)"
  by (simp_all add: is_Code_def)

function split_lf :: "cstring \<Rightarrow> cstring list" where
  "split_lf buf = (if buf = [] then [] else before_char LF buf # split_lf (tl (from_char LF buf)))"
  by pat_completeness auto
termination by (relation "measure length") auto

declare split_lf.simps [simp del]

definition screened :: "cstring \<Rightarrow> cstring" where
  "screened l = trim_str (term_str l is_cmt_str)"

definition item_of :: "cstring \<Rightarrow> cheat_item list" where
  "item_of l =
     (if \<forall>c \<in> set l. \<not> isgraph c then []
      else if \<not> is_cheat_code (screened l) \<and> screened l \<noteq> [] then [Title (take CHEAT_NAME_MAX (screened l))]
      else if parse_line (screened l) = zero_code then [] else [Code (parse_line (screened l))])"

definition items_of :: "cstring \<Rightarrow> cheat_item list" where
  "items_of buf = concat (map item_of (split_lf buf))"

fun item_codes :: "cheat_item list \<Rightarrow> code list" where
  "item_codes [] = []"
| "item_codes (Code c # r) = c # item_codes r"
| "item_codes (Title n # r) = item_codes r"

text \<open>The cheats of a file: every title with the codes that follow it.  Titles without a code and codes
  before the first title do not count.\<close>

function cheats_of :: "cheat_item list \<Rightarrow> (cstring \<times> code list) list" where
  "cheats_of [] = []"
| "cheats_of (Code c # r) = cheats_of r"
| "cheats_of (Title n # r) =
     (if takeWhile is_Code r = [] then cheats_of r
      else (n, item_codes (takeWhile is_Code r)) # cheats_of (dropWhile is_Code r))"
  by pat_completeness auto
termination by (relation "measure length") (auto simp: le_imp_less_Suc length_dropWhile_le)

section \<open>The parser builds them\<close>

fun item_step :: "cheat_item \<Rightarrow> parse_state \<Rightarrow> parse_state option" where
  "item_step (Title n) ps = Some (ps\<lparr>ps_name := n, ps_code := 0\<rparr>)"
| "item_step (Code c) ps = add_code c ps"

fun run_items :: "cheat_item list \<Rightarrow> parse_state \<Rightarrow> parse_state option" where
  "run_items [] ps = Some ps"
| "run_items (it # r) ps = (case item_step it ps of None \<Rightarrow> None | Some ps' \<Rightarrow> run_items r ps')"

lemma run_items_append:
  "run_items (xs @ ys) ps = (case run_items xs ps of None \<Rightarrow> None | Some ps' \<Rightarrow> run_items ys ps')"
  by (induction xs arbitrary: ps) (auto split: option.split)

lemma code_zero: "c = zero_code \<longleftrightarrow> addr c = 0 \<and> val c = 0"
  by (cases c) (simp add: zero_code_def)

lemma line_step_items:
  "\<not> (\<forall>c \<in> set l. \<not> isgraph c) \<Longrightarrow> line_step (screened l) ps = run_items (item_of l) ps"
  by (auto simp: line_step_def item_of_def Let_def code_zero split: option.split)

lemma parse_loop_items:
  assumes "\<forall>l \<in> set (split_lf buf). length l \<le> CHEAT_LINE_MAX"
  shows "parse_loop buf ps = run_items (items_of buf) ps"
  using assms
proof (induction buf arbitrary: ps rule: split_lf.induct)
  case (1 buf)
  show ?case
  proof (cases "buf = []")
    case True
    then show ?thesis by (simp add: parse_loop.simps items_of_def split_lf.simps)
  next
    case False
    let ?l = "before_char LF buf" and ?r = "tl (from_char LF buf)"
    have sp: "split_lf buf = ?l # split_lf ?r" using False by (subst split_lf.simps) simp
    have len: "length ?l \<le> 255" using "1.prems" by (simp add: sp CHEAT_LINE_MAX_def)
    have scan: "fst (scan_line buf) = length ?l \<and> take (length ?l) buf = ?l \<and> drop (snd (scan_line buf)) buf = ?r"
    proof (cases "LF \<in> set buf")
      case True
      then obtain t where t: "from_char LF buf = LF # t" using from_char_head by blast
      have buf: "buf = ?l @ LF # t" using before_from [of LF buf] t by simp
      have "scan_line buf = (length ?l, length ?l + 1)"
        using True len by (simp add: scan_line_def chr_idx_def strchr_def CHEAT_LINE_MAX_def Let_def)
      moreover have "drop (length ?l + 1) buf = t" by (subst (2) buf) simp
      moreover have "take (length ?l) buf = ?l" by (subst (2) buf) simp
      ultimately show ?thesis using t by simp
    next
      case False
      then show ?thesis using len by (simp add: scan_line_def chr_idx_def strchr_def CHEAT_LINE_MAX_def Let_def)
    qed
    have IH: "parse_loop ?r ps' = run_items (items_of ?r) ps'" for ps'
      using "1.IH" [OF False] "1.prems" by (simp add: sp)
    have b: "\<not> CHEAT_LINE_MAX < fst (scan_line buf)" "\<not> length buf < snd (scan_line buf)"
      using scan_line_bounds [of buf] by (simp_all add: CHEAT_LINE_MAX_def)
    show ?thesis using scan IH b False line_step_items [of ?l ps]
      by (subst parse_loop.simps)
        (auto simp: case_prod_unfold Let_def items_of_def sp run_items_append is_empty_substr_def screened_def
          item_of_def split: option.split)
  qed
qed

text \<open>The parser's state as an abstract one: the cheats so far and the title that waits for a code.\<close>

type_synonym groups = "(cstring \<times> code list) list \<times> cstring option"

fun group_step :: "cheat_item \<Rightarrow> groups \<Rightarrow> groups" where
  "group_step (Title n) (gs, pend) = (gs, Some n)"
| "group_step (Code c) (gs, Some n) = (gs @ [(n, [c])], None)"
| "group_step (Code c) (gs, None) =
     (if gs = [] then (gs, None) else (butlast gs @ [(fst (last gs), snd (last gs) @ [c])], None))"

definition entry_of :: "cstring \<times> code list \<Rightarrow> cheat_entry" where
  "entry_of g = \<lparr>ce_name = fst g,
     ce_codes = (\<lambda>j. if j < MAX_CHEATLIST \<and> j < length (snd g) then snd g ! j else zero_code), ce_enabled = True\<rparr>"

definition table_of :: "(cstring \<times> code list) list \<Rightarrow> cheat_table" where
  "table_of gs = (\<lambda>i. if i < length gs then entry_of (gs ! i) else zero_entry)"

definition sim :: "groups \<Rightarrow> parse_state \<Rightarrow> bool" where
  "sim a ps \<longleftrightarrow> (case a of (gs, pend) \<Rightarrow>
     ps_table ps = table_of gs \<and> ps_cheat ps = int (length gs) - 1 \<and>
     ps_name ps = (case pend of None \<Rightarrow> [] | Some n \<Rightarrow> n) \<and> pend \<noteq> Some [] \<and>
     (\<forall>n. pend = Some n \<longrightarrow> length n \<le> CHEAT_NAME_MAX) \<and>
     ps_code ps = (if pend = None \<and> gs \<noteq> [] then min MAX_CHEATLIST (length (snd (last gs))) else 0))"

lemma entry_of_snoc:
  "(entry_of (n, cs))\<lparr>ce_codes := (ce_codes (entry_of (n, cs)))(length cs := c)\<rparr> = entry_of (n, cs @ [c])"
  if "length cs < MAX_CHEATLIST"
  using that by (auto simp: entry_of_def fun_eq_iff nth_append)

lemma entry_of_full: "MAX_CHEATLIST \<le> length cs \<Longrightarrow> entry_of (n, cs @ [c]) = entry_of (n, cs)"
  by (auto simp: entry_of_def fun_eq_iff nth_append)

lemma table_of_snoc: "(table_of gs)(length gs := entry_of g) = table_of (gs @ [g])"
  by (auto simp: table_of_def fun_eq_iff nth_append)

lemma table_of_last:
  "gs \<noteq> [] \<Longrightarrow> (table_of gs)(length gs - 1 := entry_of g) = table_of (butlast gs @ [g])"
  by (auto simp: table_of_def fun_eq_iff nth_append nth_butlast)

lemma sim_step:
  assumes "sim (gs, pend) ps" "length (fst (group_step it (gs, pend))) \<le> MAX_CODES"
    "\<forall>n. it = Title n \<longrightarrow> n \<noteq> [] \<and> length n \<le> CHEAT_NAME_MAX"
  shows "\<exists>ps'. item_step it ps = Some ps' \<and> sim (group_step it (gs, pend)) ps'"
proof (cases it)
  case (Title n)
  then show ?thesis using assms by (simp add: sim_def)
next
  case (Code c)
  show ?thesis
  proof (cases pend)
    case (Some n)
    have k: "length gs < MAX_CODES" using assms(2) Code Some by simp
    have z: "(zero_entry\<lparr>ce_name := n, ce_enabled := True\<rparr>)
        \<lparr>ce_codes := (ce_codes (zero_entry\<lparr>ce_name := n, ce_enabled := True\<rparr>))(0 := c)\<rparr> = entry_of (n, [c])"
      by (auto simp: zero_entry_def entry_of_def MAX_CHEATLIST_def fun_eq_iff)
    show ?thesis using assms(1) Code Some k z table_of_snoc [of gs "(n, [c])"]
      by (auto simp: sim_def add_code_def Let_def MAX_CHEATLIST_def table_of_def)
  next
    case None
    show ?thesis
    proof (cases "gs = []")
      case True
      then show ?thesis using assms(1) Code None by (simp add: sim_def add_code_def Let_def)
    next
      case False
      obtain n cs where l: "last gs = (n, cs)" by (cases "last gs")
      have i: "nat (int (length gs) - 1) = length gs - 1" by simp
      have e: "table_of gs (length gs - 1) = entry_of (n, cs)" using False l by (simp add: table_of_def last_conv_nth)
      have k: "\<not> MAX_CODES \<le> length gs - 1" "0 < length gs" using assms(2) Code None False by (auto simp: MAX_CODES_def)
      show ?thesis
      proof (cases "length cs < MAX_CHEATLIST")
        case True
        then show ?thesis using assms(1) Code None False l k entry_of_snoc [OF True, of n c]
            table_of_last [OF False, of "(n, cs @ [c])"]
          by (simp add: sim_def add_code_def Let_def i e [simplified])
      next
        case full: False
        have "table_of (butlast gs @ [(n, cs @ [c])]) = table_of gs"
          using table_of_last [OF False, of "(n, cs @ [c])"] entry_of_full [of cs n c] full e
          by (metis fun_upd_triv not_less)
        then show ?thesis using assms(1) Code None False l full
          by (simp add: sim_def add_code_def Let_def)
      qed
    qed
  qed
qed

lemma group_step_mono: "length (fst a) \<le> length (fst (group_step it a))"
proof (cases a)
  case (Pair gs pend)
  then show ?thesis by (cases it; cases pend) auto
qed

lemma fold_group_mono: "length (fst a) \<le> length (fst (fold group_step items a))"
proof (induction items arbitrary: a)
  case (Cons it items)
  show ?case using order_trans [OF group_step_mono Cons.IH, of a it] by simp
qed simp

lemma sim_run:
  assumes "sim a ps" "length (fst (fold group_step items a)) \<le> MAX_CODES"
    "\<forall>n. Title n \<in> set items \<longrightarrow> n \<noteq> [] \<and> length n \<le> CHEAT_NAME_MAX"
  shows "\<exists>ps'. run_items items ps = Some ps' \<and> sim (fold group_step items a) ps'"
  using assms
proof (induction items arbitrary: a ps)
  case (Cons it items)
  obtain gs pend where a: "a = (gs, pend)" by (cases a)
  have "length (fst (group_step it a)) \<le> MAX_CODES"
    using fold_group_mono [of "group_step it a" items] Cons.prems(2) by simp
  then obtain ps1 where "item_step it ps = Some ps1" "sim (group_step it a) ps1"
    using sim_step [of gs pend ps it] Cons.prems(1,3) a by auto
  then show ?case using Cons.IH [of "group_step it a" ps1] Cons.prems(2,3) by simp
qed simp

lemma fold_group_pending:
  "fst (fold group_step items (gs, Some n)) = gs @ cheats_of (Title n # items)"
  "gs \<noteq> [] \<Longrightarrow> fst (fold group_step items (gs, None)) =
     butlast gs @ (fst (last gs), snd (last gs) @ item_codes (takeWhile is_Code items)) # cheats_of (dropWhile is_Code items)"
proof (induction items arbitrary: gs n)
  case Nil
  { case 1 show ?case by simp
  next case 2 then show ?case by simp }
next
  case (Cons it items)
  { case 1
    show ?case
    proof (cases it)
      case (Title m)
      then show ?thesis using Cons.IH(1) [of gs m] by simp
    next
      case (Code c)
      then show ?thesis using Cons.IH(2) [of "gs @ [(n, [c])]"] by simp
    qed
  next
    case 2
    show ?case
    proof (cases it)
      case (Title m)
      then show ?thesis using Cons.IH(1) [of gs m] 2 by simp
    next
      case (Code c)
      then show ?thesis using Cons.IH(2) [of "butlast gs @ [(fst (last gs), snd (last gs) @ [c])]"] 2 by simp
    qed }
qed

lemma fold_group_cheats: "fst (fold group_step items ([], None)) = cheats_of items"
proof (induction items)
  case (Cons it items)
  then show ?case using fold_group_pending(1) [of items "[]"] by (cases it) simp_all
qed simp

lemma item_titles: "Title n \<in> set (items_of buf) \<Longrightarrow> n \<noteq> [] \<and> length n \<le> CHEAT_NAME_MAX"
  by (auto simp: items_of_def item_of_def CHEAT_NAME_MAX_def split: if_splits)

lemma parse_buf_table:
  assumes "\<forall>l \<in> set (split_lf buf). length l \<le> CHEAT_LINE_MAX" "length (cheats_of (items_of buf)) \<le> MAX_CODES"
  shows "parse_buf buf (\<lambda>_. zero_entry) = Some (table_of (cheats_of (items_of buf)))"
proof -
  let ?ps = "\<lparr>ps_table = (\<lambda>_. zero_entry), ps_cheat = - 1, ps_code = 0, ps_name = []\<rparr>"
  have "sim ([], None) ?ps" by (simp add: sim_def table_of_def)
  from sim_run [OF this, of "items_of buf"] assms(2) item_titles
  obtain ps' where "run_items (items_of buf) ?ps = Some ps'" "sim (fold group_step (items_of buf) ([], None)) ps'"
    by (auto simp: fold_group_cheats)
  then show ?thesis using parse_loop_items [OF assms(1), of ?ps] fold_group_cheats [of "items_of buf"]
    by (auto simp: parse_buf_def sim_def split: prod.splits)
qed

section \<open>The list for the core\<close>

definition flat :: "code list \<Rightarrow> u32 list" where
  "flat ps = concat (map (\<lambda>c. [addr c, val c]) ps)"

definition list_of :: "code list \<Rightarrow> u32 list" where
  "list_of ps = flat ps @ replicate (MAX_CHEATLIST - 2 * length ps) 0"

definition live_codes :: "cheat_entry \<Rightarrow> code list" where
  "live_codes e = takeWhile (\<lambda>c. addr c \<noteq> 0) (map (ce_codes e) [0..<MAX_CHEATLIST])"

definition enabled_codes :: "cheat_table \<Rightarrow> code list" where
  "enabled_codes t = concat (map (\<lambda>i. if ce_enabled (t i) then live_codes (t i) else []) [0..<MAX_CODES])"

lemma length_flat [simp]: "length (flat ps) = 2 * length ps"
  by (induction ps) (simp_all add: flat_def)

lemma flat_append: "flat (ps @ qs) = flat ps @ flat qs"
  by (simp add: flat_def)

lemma list_of_snoc:
  assumes "length ps < 255"
  shows "(list_of ps)[2 * length ps := addr c, Suc (2 * length ps) := val c] = list_of (ps @ [c])"
proof -
  have "510 - 2 * length ps = Suc (Suc (510 - 2 * length (ps @ [c])))" using assms by simp
  then have "list_of ps = flat ps @ 0 # 0 # replicate (510 - 2 * length (ps @ [c])) 0"
    by (simp add: list_of_def MAX_CHEATLIST_def)
  then show ?thesis by (simp add: list_of_def flat_append list_update_append) (simp add: flat_def MAX_CHEATLIST_def)
qed

lemma push_codes_list:
  assumes "length ps \<le> 255" "j \<le> MAX_CHEATLIST"
  shows "push_codes e j (list_of ps, 2 * length ps) =
    (let qs = take 255 (ps @ takeWhile (\<lambda>c. addr c \<noteq> 0) (map (ce_codes e) [j..<MAX_CHEATLIST]))
     in (list_of qs, 2 * length qs))"
  using assms
proof (induction "MAX_CHEATLIST - j" arbitrary: j ps)
  case 0
  then show ?case by (subst push_codes.simps) (simp add: Let_def)
next
  case (Suc d)
  then have j: "j < MAX_CHEATLIST" "[j..<MAX_CHEATLIST] = j # [Suc j..<MAX_CHEATLIST]"
    using upt_conv_Cons [of j MAX_CHEATLIST] by auto
  show ?case
  proof (cases "addr (ce_codes e j) \<noteq> 0 \<and> length ps < 255")
    case True
    have "push_codes e j (list_of ps, 2 * length ps) =
        push_codes e (Suc j) (list_of (ps @ [ce_codes e j]), 2 * length (ps @ [ce_codes e j]))"
      using j True by (subst push_codes.simps) (simp add: list_of_snoc MAX_CHEATLIST_def)
    also have "\<dots> = (let qs = take 255 ((ps @ [ce_codes e j]) @
          takeWhile (\<lambda>c. addr c \<noteq> 0) (map (ce_codes e) [Suc j..<MAX_CHEATLIST])) in (list_of qs, 2 * length qs))"
      using Suc.hyps(2) j True by (intro Suc.hyps(1)) auto
    finally show ?thesis using True by (simp add: j(2))
  next
    case False
    then show ?thesis using j Suc.prems(1)
      by (subst push_codes.simps) (auto simp: MAX_CHEATLIST_def Let_def)
  qed
qed

lemma take_take_append: "take n (take n a @ r) = take n (a @ r)"
  by (cases "length a \<le> n") auto

lemma push_fold_list:
  assumes "length ps \<le> 255"
  shows "fold (\<lambda>i st. if ce_enabled (t i) then push_codes (t i) 0 st else st) ns (list_of ps, 2 * length ps) =
    (let qs = take 255 (ps @ concat (map (\<lambda>i. if ce_enabled (t i) then live_codes (t i) else []) ns))
     in (list_of qs, 2 * length qs))"
  using assms
proof (induction ns arbitrary: ps)
  case (Cons i ns)
  let ?qs = "take 255 (ps @ (if ce_enabled (t i) then live_codes (t i) else []))"
  have "(if ce_enabled (t i) then push_codes (t i) 0 (list_of ps, 2 * length ps) else (list_of ps, 2 * length ps)) =
      (list_of ?qs, 2 * length ?qs)"
    using push_codes_list [OF Cons.prems, of 0 "t i"] Cons.prems by (simp add: live_codes_def Let_def)
  moreover have "take 255 (?qs @ r) = take 255 (ps @ (if ce_enabled (t i) then live_codes (t i) else []) @ r)" for r
    unfolding take_take_append by simp
  ultimately show ?case using Cons.IH [of ?qs] by simp
qed (simp add: Let_def)

lemma list_of_overwrite:
  assumes "length ps = 255"
  shows "(list_of ps)[508 := 0, 509 := 0] = list_of (take 254 ps)"
proof -
  have "ps = take 254 ps @ [ps ! 254]" using assms by (metis id_take_nth_drop drop_all lessI numeral_eq_Suc pred_numeral_simps(3) order_refl append_Nil2 eval_nat_numeral(3))
  then have "flat ps = flat (take 254 ps) @ [addr (ps ! 254), val (ps ! 254)]"
    using flat_append [of "take 254 ps" "[ps ! 254]"] by (simp add: flat_def)
  moreover have "length (flat (take 254 ps)) = 508" using assms by simp
  ultimately show ?thesis using assms
    by (simp add: list_of_def list_update_append MAX_CHEATLIST_def numeral_2_eq_2)
qed

lemma set_cheats_list_codes:
  "gCheatList (set_cheats_list s) = list_of (take 254 (case gCheats s of None \<Rightarrow> [] | Some t \<Rightarrow> enabled_codes t))"
proof (cases "gCheats s")
  case None
  then show ?thesis by (simp add: set_cheats_list_def list_of_def flat_def Let_def)
next
  case (Some t)
  define qs where "qs = take 255 (enabled_codes t)"
  have "fold (\<lambda>i st. if ce_enabled (t i) then push_codes (t i) 0 st else st) [0..<MAX_CODES]
      (replicate MAX_CHEATLIST 0, 0) = (list_of qs, 2 * length qs)"
    using push_fold_list [of "[]" t "[0..<MAX_CODES]"]
    by (simp add: list_of_def flat_def Let_def qs_def enabled_codes_def)
  then have l: "gCheatList (set_cheats_list s) =
      (if 2 * length qs < 510 then (list_of qs)[2 * length qs := 0, Suc (2 * length qs) := 0]
       else (list_of qs)[2 * length qs - 2 := 0, 2 * length qs - 1 := 0])"
    using Some by (simp add: set_cheats_list_def Let_def MAX_CHEATLIST_def)
  show ?thesis
  proof (cases "length qs < 255")
    case True
    have "take 254 (enabled_codes t) = qs" using True by (simp add: qs_def)
    moreover have "(list_of qs)[2 * length qs := 0, Suc (2 * length qs) := 0] = list_of qs"
    proof -
      have "510 - 2 * length qs = Suc (Suc (508 - 2 * length qs))" using True by linarith
      then show ?thesis by (simp add: list_of_def list_update_append MAX_CHEATLIST_def)
    qed
    ultimately show ?thesis using l True Some by simp
  next
    case False
    then have "length qs = 255" by (simp add: qs_def)
    moreover have "take 254 qs = take 254 (enabled_codes t)" by (simp add: qs_def)
    ultimately show ?thesis using l list_of_overwrite [of qs] Some by simp
  qed
qed

lemma live_codes_entry: "live_codes (entry_of g) = takeWhile (\<lambda>c. addr c \<noteq> 0) (take MAX_CHEATLIST (snd g))"
proof -
  let ?n = "min MAX_CHEATLIST (length (snd g))"
  have "map (ce_codes (entry_of g)) [0..<MAX_CHEATLIST] = take MAX_CHEATLIST (snd g) @ replicate (MAX_CHEATLIST - ?n) zero_code"
    by (rule nth_equalityI) (auto simp: entry_of_def nth_append)
  moreover have "takeWhile (\<lambda>c. addr c \<noteq> 0) (xs @ replicate k zero_code) = takeWhile (\<lambda>c. addr c \<noteq> 0) xs" for xs k
    by (induction xs) (cases k, simp_all add: zero_code_def)
  ultimately show ?thesis by (simp add: live_codes_def)
qed

lemma enabled_codes_table:
  assumes "length gs \<le> MAX_CODES"
  shows "enabled_codes (table_of gs) = concat (map (\<lambda>g. takeWhile (\<lambda>c. addr c \<noteq> 0) (take MAX_CHEATLIST (snd g))) gs)"
proof -
  have "[0..<MAX_CODES] = [0..<length gs] @ [length gs..<MAX_CODES]"
    using assms upt_add_eq_append [of 0 "length gs" "MAX_CODES - length gs"] by simp
  moreover have "map (\<lambda>i. if ce_enabled (table_of gs i) then live_codes (table_of gs i) else []) [0..<length gs] =
      map (\<lambda>g. takeWhile (\<lambda>c. addr c \<noteq> 0) (take MAX_CHEATLIST (snd g))) gs"
    by (rule nth_equalityI) (simp_all add: table_of_def live_codes_entry, simp add: entry_of_def)
  moreover have "concat (map (\<lambda>i. if ce_enabled (table_of gs i) then live_codes (table_of gs i) else [])
      [length gs..<MAX_CODES]) = []"
    by (simp add: table_of_def zero_entry_def)
  ultimately show ?thesis by (simp add: enabled_codes_def)
qed

section \<open>Codes as text\<close>

definition hex_digit :: "nat \<Rightarrow> char" where
  "hex_digit d = ''0123456789ABCDEF'' ! d"

definition show_hex8 :: "u32 \<Rightarrow> cstring" where
  "show_hex8 w = map (\<lambda>k. hex_digit (unat w div 16 ^ (7 - k) mod 16)) [0..<8]"

lemma hex_digit_props:
  assumes "d < 16"
  shows "isxdigit (hex_digit d)" "fromHex (hex_digit d) = int d" "\<not> isspace (hex_digit d)"
proof -
  have "\<forall>d \<in> set [0..<16]. isxdigit (hex_digit d) \<and> \<not> isspace (hex_digit d)" by code_simp
  then show "isxdigit (hex_digit d)" "\<not> isspace (hex_digit d)" using assms by simp_all
  show "fromHex (hex_digit d) = int d" using hex_digit_back [OF assms] by (simp add: hex_digit_def)
qed

lemma show_hex8_props: "length (show_hex8 w) = 8" "\<forall>c \<in> set (show_hex8 w). isxdigit c \<and> \<not> isspace c"
  by (auto simp: show_hex8_def hex_digit_props)

lemma hex_value_show: "hex_value (show_hex8 w) = w"
proof -
  let ?n = "unat w"
  have "[0..<8] = [0, 1, 2, 3, 4, 5, 6, 7 :: nat]" by code_simp
  then have "hex_value (show_hex8 w) = of_nat (((((((?n div 16 ^ 7 mod 16 * 16 + ?n div 16 ^ 6 mod 16) * 16 +
      ?n div 16 ^ 5 mod 16) * 16 + ?n div 16 ^ 4 mod 16) * 16 + ?n div 16 ^ 3 mod 16) * 16 +
      ?n div 16 ^ 2 mod 16) * 16 + ?n div 16 mod 16) * 16 + ?n mod 16)"
    by (simp add: hex_value_def show_hex8_def hex_digit_props)
  moreover have "?n div 16 ^ 7 mod 16 = ?n div 16 ^ 7"
    using unsigned_less [of w, where ?'a = nat] by (simp add: less_mult_imp_div_less)
  moreover have "?n div 16 ^ Suc k * 16 + ?n div 16 ^ k mod 16 = ?n div 16 ^ k" for k
    by (metis div_mult2_eq div_mult_mod_eq power_Suc2)
  from this [of 6] this [of 5] this [of 4] this [of 3] this [of 2] this [of 1] this [of 0]
  have "?n div 16 ^ 7 * 16 + ?n div 16 ^ 6 mod 16 = ?n div 16 ^ 6"
    "?n div 16 ^ 6 * 16 + ?n div 16 ^ 5 mod 16 = ?n div 16 ^ 5" "?n div 16 ^ 5 * 16 + ?n div 16 ^ 4 mod 16 = ?n div 16 ^ 4"
    "?n div 16 ^ 4 * 16 + ?n div 16 ^ 3 mod 16 = ?n div 16 ^ 3" "?n div 16 ^ 3 * 16 + ?n div 16 ^ 2 mod 16 = ?n div 16 ^ 2"
    "?n div 16 ^ 2 * 16 + ?n div 16 mod 16 = ?n div 16" "?n div 16 * 16 + ?n mod 16 = ?n"
    by (simp_all only: eval_nat_numeral power_0 div_by_1 power_one_right) simp_all
  ultimately show ?thesis by (simp only: of_nat_unat ucast_id)
qed

lemma cheat_code_loop_append:
  assumes "\<forall>c \<in> set xs. isxdigit c" "i + length xs \<le> CODE_DIGITS"
  shows "cheat_code_loop i (xs @ ys) = cheat_code_loop (i + length xs) ys"
  using assms by (induction xs arbitrary: i) (simp_all add: less_Suc_eq_le)

lemma parse_line_show:
  "is_cheat_code (show_hex8 a @ CHR '' '' # show_hex8 v)"
  "parse_line (show_hex8 a @ CHR '' '' # show_hex8 v) = \<lparr>addr = a, val = v\<rparr>"
proof -
  let ?s = "show_hex8 a @ CHR '' '' # show_hex8 v"
  have sp: "isspace CHR '' ''" "\<not> isxdigit CHR '' ''" by code_simp+
  have d: "\<forall>c \<in> set (show_hex8 a). isxdigit c" "\<forall>c \<in> set (show_hex8 v). isxdigit c"
    using show_hex8_props by blast+
  show code: "is_cheat_code ?s"
    using cheat_code_loop_append [OF d(1), of 0 "CHR '' '' # show_hex8 v"] cheat_code_loop_append [OF d(2), of 8 "[]"] sp
    by (simp add: is_cheat_code_def show_hex8_props CODE_DIGITS_def)
  have "filter isxdigit ?s = show_hex8 a @ show_hex8 v" using d sp by simp
  then have "make_code ?s = \<lparr>addr = a, val = v\<rparr>"
    using show_hex8_props(1) [of a] show_hex8_props(1) [of v]
    by (auto simp: make_code_def Let_def CODE_DIGITS_def hex_value_show)
  then show "parse_line ?s = \<lparr>addr = a, val = v\<rparr>" using code by (simp add: parse_line_def)
qed

section \<open>Properties\<close>

text \<open>C3. From the text of a cheat file to the list the in-game core reads: for a file whose lines fit
  the line buffer and that has at most 250 cheats, loading succeeds, the table holds exactly the
  cheats the file describes (each title with the codes below it, all enabled), and the list is the
  codes of these cheats in order, cut to 254 pairs (each cheat's codes end at a zero address) and
  closed with zero pairs.\<close>

theorem cheat_file_to_list:
  assumes "\<forall>l \<in> set (split_lf buf). length l \<le> CHEAT_LINE_MAX" and "length (cheats_of (items_of buf)) \<le> MAX_CODES"
  shows "\<exists>ret s'. load_cheats_buf True (Some buf) s = Some (ret, s') \<and> 0 \<le> ret \<and>
    gCheats s' = Some (table_of (cheats_of (items_of buf))) \<and>
    gCheatList (set_cheats_list s') = list_of (take 254 (concat
      (map (\<lambda>g. takeWhile (\<lambda>c. addr c \<noteq> 0) (take MAX_CHEATLIST (snd g))) (cheats_of (items_of buf)))))"
  using parse_buf_table [OF assms] enabled_codes_table [OF assms(2)]
  by (simp add: load_cheats_buf_def ensureCheatTable_def parse_into_def set_cheats_list_codes)

definition sample_cht :: cstring where
  "sample_cht = ''Lives'' @ [LF] @ ''20100000 00000063 // 99'' @ [LF, LF] @ ''Ammo # all'' @ [LF] @ ''20100004 000003E7'' @ [LF]"

lemma sample_cht_items:
  "split_lf sample_cht = [''Lives'', ''20100000 00000063 // 99'', [], ''Ammo # all'', ''20100004 000003E7'']"
  "cheats_of (items_of sample_cht) = [(''Lives'', [\<lparr>addr = 0x20100000, val = 99\<rparr>]), (''Ammo'', [\<lparr>addr = 0x20100004, val = 999\<rparr>])]"
  by code_simp+

theorem cheat_file_to_list_witness:
  "\<exists>ret s'. load_cheats_buf True (Some sample_cht) cheat_init = Some (ret, s') \<and>
     gCheatList (set_cheats_list s') = list_of [\<lparr>addr = 0x20100000, val = 99\<rparr>, \<lparr>addr = 0x20100004, val = 999\<rparr>]"
proof -
  have "\<forall>l \<in> set (split_lf sample_cht). length l \<le> CHEAT_LINE_MAX"
    "length (cheats_of (items_of sample_cht)) \<le> MAX_CODES"
    by (simp_all add: sample_cht_items cheat_consts)
  from cheat_file_to_list [OF this, of cheat_init] show ?thesis
    by (auto simp: sample_cht_items MAX_CHEATLIST_def)
qed

text \<open>No cheat file, however malformed, makes the parser store outside the line buffer, the cheat
  table or a cheat's code array, or step past the end of the text: parsing always ends with a
  table whose names fit and whose slots beyond the arrays are untouched.\<close>

lemma cheat_parse_in_bounds: "\<exists>t. parse_buf buf (\<lambda>_. zero_entry) = Some t \<and> table_ok t"
proof -
  have "parse_ok \<lparr>ps_table = (\<lambda>_. zero_entry), ps_cheat = - 1, ps_code = 0, ps_name = []\<rparr>"
    by (simp add: parse_ok_def table_ok_zero MAX_CODES_def)
  from parse_loop_ok [OF this, of buf] show ?thesis by (auto simp: parse_buf_def parse_ok_def)
qed

text \<open>Whatever the table holds and whichever cheats the user enabled, the list has exactly 510 words:
  the codes of the enabled cheats in order, at most 254 of them, and then only zeros, at least the
  last pair, so the in-game core always finds the terminator.\<close>

lemma cheat_list_terminated:
  "length (gCheatList (set_cheats_list s)) = MAX_CHEATLIST \<and>
   gCheatList (set_cheats_list s) = list_of (take 254 (case gCheats s of None \<Rightarrow> [] | Some t \<Rightarrow> enabled_codes t)) \<and>
   drop 508 (gCheatList (set_cheats_list s)) = [0, 0]"
proof -
  define ps where "ps = take 254 (case gCheats s of None \<Rightarrow> [] | Some t \<Rightarrow> enabled_codes t)"
  have len: "length ps \<le> 254" by (simp add: ps_def)
  then have l: "length (list_of ps) = MAX_CHEATLIST" by (simp add: list_of_def MAX_CHEATLIST_def)
  have "drop 508 (list_of ps) = replicate 2 0"
    using len by (simp add: list_of_def MAX_CHEATLIST_def)
  then show ?thesis using l set_cheats_list_codes [of s] by (simp add: ps_def numeral_2_eq_2)
qed

text \<open>A code printed as two groups of eight hex digits is recognised as a code line and reads back
  as the same address and value.\<close>

lemma cheat_code_round_trip:
  "is_cheat_code (show_hex8 (addr c) @ CHR '' '' # show_hex8 (val c)) \<and>
   parse_line (show_hex8 (addr c) @ CHR '' '' # show_hex8 (val c)) = c"
  using parse_line_show [of "addr c" "val c"] by simp

text \<open>A comment that is indented is not skipped: the blanks before it become the name of a new cheat,
  so the codes below it leave the cheat they were written for.\<close>

lemma cheat_indented_comment_is_name:
  assumes "ws \<noteq> []" and "\<forall>c \<in> set ws. c = SPC \<or> c = TAB"
  shows "line_step (trim_str (term_str (ws @ ''//'' @ r) is_cmt_str)) ps =
    Some (ps\<lparr>ps_name := take CHEAT_NAME_MAX ws, ps_code := 0\<rparr>)"
proof -
  have "term_str (ws @ ''//'' @ r) is_cmt_str = ws"
    using assms(2) by (induction ws) (auto simp: is_cmt_str_def strncmp_eq_def)
  moreover have "\<not> isgraph SPC \<and> isspace SPC \<and> \<not> isxdigit SPC" "\<not> isgraph TAB \<and> isspace TAB \<and> \<not> isxdigit TAB"
    by code_simp+
  then have blank: "\<forall>c \<in> set ws. \<not> isgraph c \<and> isspace c \<and> \<not> isxdigit c" using assms(2) by metis
  then have "trim_str ws = ws" by (simp add: trim_str_def is_empty_str_def)
  moreover have "\<not> cheat_code_loop 0 ws" using blank by (induction ws) (auto simp: CODE_DIGITS_def)
  ultimately show ?thesis using assms(1) by (simp add: line_step_def is_cheat_code_def)
qed

lemma cheat_indented_comment_is_name_witness:
  "line_step (trim_str (term_str ''  // part two'' is_cmt_str))
     \<lparr>ps_table = (\<lambda>_. zero_entry), ps_cheat = 0, ps_code = 1, ps_name = []\<rparr> =
   Some \<lparr>ps_table = (\<lambda>_. zero_entry), ps_cheat = 0, ps_code = 0, ps_name = ''  ''\<rparr>"
  using cheat_indented_comment_is_name [of "''  ''" "'' part two''"] by (simp add: CHEAT_NAME_MAX_def)

end
