(* ===== verification/Udprdma.thy ===== *)
theory Udprdma
  imports OplPrelude
begin

text \<open>
  The reliable datagram transport under the network file system
  (\<^verbatim>\<open>modules/network/udpfs_bd/src/udprdma.c\<close>): discovery, stop-and-wait sending with retries, and the
  go-back-N receiver that runs in the interrupt thread.

  \<^item> Sequence numbers are \<^typ>\<open>12 word\<close>: the code masks them with 0xFFF at every step.
  \<^item> A blocking wait takes the list of what happens next: packets that arrive (the receiver \<open>ist\<close>
    runs on each) and the alarm.  It stops when one of the bits it waits for is set; \<open>Blocked\<close> means
    the list ended first.  What \<^verbatim>\<open>WEF_CLEAR\<close> leaves set is the parameter \<open>clr\<close>, a function of the IOP
    kernel.
  \<^item> Memory of the caller is a list of bytes or a function from offsets; a store outside the buffer is a
    fault.  Sent packets are recorded in \<open>us_sent\<close>.
\<close>

section \<open>Data\<close>

type_synonym seq = "12 word"

definition UDPRDMA_RX_ACK_WINDOW :: nat where "UDPRDMA_RX_ACK_WINDOW = 6"
definition UDPRDMA_MAX_SOCKETS :: nat where "UDPRDMA_MAX_SOCKETS = 2"
definition UDPRDMA_MAX_RETRIES :: nat where "UDPRDMA_MAX_RETRIES = 4"
definition UDPRDMA_MAX_PAYLOAD :: nat where "UDPRDMA_MAX_PAYLOAD = 1408"
definition UDPRDMA_MAX_APP_HDR :: nat where "UDPRDMA_MAX_APP_HDR = 32"
definition UDPFS_PORT :: u16 where "UDPFS_PORT = 0xF5F6"

definition UDPRDMA_OK :: int where "UDPRDMA_OK = 0"
definition UDPRDMA_ERR_TIMEOUT :: int where "UDPRDMA_ERR_TIMEOUT = - 1"
definition UDPRDMA_ERR_NACK :: int where "UDPRDMA_ERR_NACK = - 2"
definition UDPRDMA_ERR_INVAL :: int where "UDPRDMA_ERR_INVAL = - 4"
definition UDPRDMA_ERR_NOTCONN :: int where "UDPRDMA_ERR_NOTCONN = - 5"

lemmas rdma_consts = UDPRDMA_RX_ACK_WINDOW_def UDPRDMA_MAX_SOCKETS_def UDPRDMA_MAX_RETRIES_def
  UDPRDMA_MAX_PAYLOAD_def UDPRDMA_MAX_APP_HDR_def
lemmas rdma_errors = UDPRDMA_OK_def UDPRDMA_ERR_TIMEOUT_def UDPRDMA_ERR_NACK_def UDPRDMA_ERR_INVAL_def
  UDPRDMA_ERR_NOTCONN_def

datatype ef_bit = EF_RX_DISC | EF_RX_INFO | EF_RX_ACK | EF_RX_NACK | EF_TIMEOUT | EF_RX_FIN | EF_RX_WINDOW

datatype udprdma_state = STATE_INIT | STATE_DISCOVERING | STATE_CONNECTED | STATE_DISCONNECTED

text \<open>A data packet as the receiver sees it: the header fields at their widths, and the bytes the FIFO
  holds after them.\<close>

record data_pkt =
  dp_seq_nr :: seq
  dp_seq_nr_ack :: seq
  dp_ack :: bool
  dp_fin :: bool
  dp_hdr_word_count :: "4 word"
  dp_data_byte_count :: "14 word"
  dp_fifo :: "nat \<Rightarrow> u8"

datatype rx_pkt =
  RxDiscovery u16 u32
| RxInform u16 u32 u16
| RxData data_pkt
| RxUnknown

record tx_data =
  td_seq_nr :: seq
  td_seq_nr_ack :: seq
  td_ack :: bool
  td_fin :: bool
  td_hdr_word_count :: "4 word"
  td_data_byte_count :: "14 word"
  td_app :: "u8 list"
  td_data :: "u8 list"

datatype tx_pkt = TxDiscovery u16 | TxInform u16 | TxData tx_data

record udprdma_socket =
  us_bound :: bool
  us_port :: u16
  us_service_id :: u16
  us_state :: udprdma_state
  us_peer_ip :: u32
  us_tx_seq_nr :: seq
  us_tx_seq_nr_acked :: seq
  us_rx_buffer :: "u8 list option"
  us_rx_buffer_size :: nat
  us_rx_received :: nat
  us_rx_seq_nr_expected :: seq
  us_rx_window_count :: nat
  us_rx_nack_sent :: bool
  us_rx_hdr_buffer :: "u8 list option"
  us_rx_hdr_size :: nat
  us_rx_hdr_received :: nat
  us_event_flag :: int
  us_flags :: "ef_bit set"
  us_sent :: "tx_pkt list"

datatype rdma_fault = HdrOverflow | BufOverflow | Blocked | OutOfFuel

section \<open>The receiver\<close>

definition set_flag :: "ef_bit \<Rightarrow> udprdma_socket \<Rightarrow> udprdma_socket" where
  "set_flag b s = s\<lparr>us_flags := insert b (us_flags s)\<rparr>"

definition clear_flags :: "ef_bit set \<Rightarrow> udprdma_socket \<Rightarrow> udprdma_socket" where
  "clear_flags bs s = s\<lparr>us_flags := us_flags s - bs\<rparr>"

definition fifo_read :: "data_pkt \<Rightarrow> nat \<Rightarrow> nat \<Rightarrow> u8 list" where
  "fifo_read p offs n = map (\<lambda>i. dp_fifo p (offs + i)) [0..<n]"

definition store :: "u8 list \<Rightarrow> nat \<Rightarrow> u8 list \<Rightarrow> u8 list option" where
  "store mem i bs = (if i + length bs \<le> length mem then Some (take i mem @ bs @ drop (i + length bs) mem) else None)"

text \<open>The application header: into the configured buffer for the first packet, else into a local array.\<close>

definition ist_header :: "data_pkt \<Rightarrow> udprdma_socket \<Rightarrow> rdma_fault + udprdma_socket" where
  "ist_header p s =
     (let hdr_size = unat (dp_hdr_word_count p) * 4 in
      if hdr_size = 0 then Inr s
      else case us_rx_hdr_buffer s of
             Some buf \<Rightarrow>
               if us_rx_hdr_received s = 0 then
                 (case store buf 0 (fifo_read p 0 hdr_size) of
                    None \<Rightarrow> Inl HdrOverflow
                  | Some buf' \<Rightarrow> Inr (s\<lparr>us_rx_hdr_buffer := Some buf', us_rx_hdr_received := hdr_size\<rparr>))
               else if UDPRDMA_MAX_APP_HDR < hdr_size then Inl HdrOverflow
               else Inr (s\<lparr>us_rx_hdr_received := hdr_size\<rparr>)
           | None \<Rightarrow>
               if UDPRDMA_MAX_APP_HDR < hdr_size then Inl HdrOverflow
               else Inr (s\<lparr>us_rx_hdr_received := hdr_size\<rparr>))"

definition ist_body :: "data_pkt \<Rightarrow> u8 list \<Rightarrow> udprdma_socket \<Rightarrow> rdma_fault + udprdma_socket" where
  "ist_body p mem s =
     (let count = unat (dp_data_byte_count p);
          remaining = (us_rx_buffer_size s + 2 ^ 32 - us_rx_received s) mod 2 ^ 32;
          xfer_size = (if count < remaining then count else remaining)
      in if 0 < count then
           (case store mem (us_rx_received s) (fifo_read p (unat (dp_hdr_word_count p) * 4) xfer_size) of
              None \<Rightarrow> Inl BufOverflow
            | Some mem' \<Rightarrow> Inr (s\<lparr>us_rx_buffer := Some mem', us_rx_received := us_rx_received s + xfer_size\<rparr>))
         else Inr s)"

definition ist_accepted :: "data_pkt \<Rightarrow> udprdma_socket \<Rightarrow> udprdma_socket" where
  "ist_accepted p s =
     (let s1 = s\<lparr>us_rx_seq_nr_expected := dp_seq_nr p + 1, us_rx_nack_sent := False\<rparr> in
      if dp_fin p \<or> us_rx_buffer_size s1 \<le> us_rx_received s1 then set_flag EF_RX_FIN s1
      else
        let n = us_rx_window_count s1 + 1 in
        if UDPRDMA_RX_ACK_WINDOW \<le> n then set_flag EF_RX_WINDOW (s1\<lparr>us_rx_window_count := 0\<rparr>)
        else s1\<lparr>us_rx_window_count := n\<rparr>)"

definition ist_data :: "data_pkt \<Rightarrow> udprdma_socket \<Rightarrow> rdma_fault + udprdma_socket" where
  "ist_data p s =
     (let s1 = (if dp_ack p then set_flag EF_RX_ACK (s\<lparr>us_tx_seq_nr_acked := dp_seq_nr_ack p\<rparr>) else s);
          payload_size = unat (dp_hdr_word_count p) * 4 + unat (dp_data_byte_count p)
      in case us_rx_buffer s1 of
           None \<Rightarrow> Inr s1
         | Some mem \<Rightarrow>
             if payload_size = 0 then Inr s1
             else if dp_seq_nr p = us_rx_seq_nr_expected s1 then
               (case ist_header p s1 of
                  Inl f \<Rightarrow> Inl f
                | Inr s2 \<Rightarrow> (case ist_body p mem s2 of Inl f \<Rightarrow> Inl f | Inr s3 \<Rightarrow> Inr (ist_accepted p s3)))
             else if \<not> us_rx_nack_sent s1 then Inr (set_flag EF_RX_NACK (s1\<lparr>us_rx_nack_sent := True\<rparr>))
             else Inr s1)"

definition ist :: "rx_pkt \<Rightarrow> udprdma_socket \<Rightarrow> rdma_fault + udprdma_socket" where
  "ist pkt s =
     (case pkt of
        RxDiscovery service_id ip \<Rightarrow>
          Inr (if service_id = us_service_id s then set_flag EF_RX_DISC (s\<lparr>us_peer_ip := ip\<rparr>) else s)
      | RxInform service_id ip port \<Rightarrow>
          Inr (if us_state s = STATE_CONNECTED then s
               else if service_id = us_service_id s
                    then set_flag EF_RX_INFO (s\<lparr>us_peer_ip := ip, us_port := port\<rparr>) else s)
      | RxData p \<Rightarrow> ist_data p s
      | RxUnknown \<Rightarrow> Inr s)"

section \<open>Waiting\<close>

datatype net_event = Packet rx_pkt | Alarm

fun wait_flags :: "ef_bit set \<Rightarrow> net_event list \<Rightarrow> udprdma_socket \<Rightarrow> rdma_fault + (net_event list \<times> udprdma_socket)" where
  "wait_flags bits evs s =
     (if us_flags s \<inter> bits \<noteq> {} then Inr (evs, s)
      else case evs of
             [] \<Rightarrow> Inl Blocked
           | Alarm # r \<Rightarrow> wait_flags bits r (set_flag EF_TIMEOUT s)
           | Packet p # r \<Rightarrow> (case ist p s of Inl f \<Rightarrow> Inl f | Inr s' \<Rightarrow> wait_flags bits r s'))"

declare wait_flags.simps [simp del]

section \<open>Sending\<close>

definition emit :: "tx_pkt \<Rightarrow> udprdma_socket \<Rightarrow> udprdma_socket" where
  "emit p s = s\<lparr>us_sent := us_sent s @ [p]\<rparr>"

definition send_discovery :: "udprdma_socket \<Rightarrow> udprdma_socket" where
  "send_discovery s = emit (TxDiscovery (us_service_id s)) s"

definition send_inform :: "udprdma_socket \<Rightarrow> udprdma_socket" where
  "send_inform s = emit (TxInform (us_service_id s)) s"

definition send_ack :: "udprdma_socket \<Rightarrow> bool \<Rightarrow> udprdma_socket" where
  "send_ack s is_ack =
     emit (TxData \<lparr>td_seq_nr = us_tx_seq_nr s,
       td_seq_nr_ack = (if is_ack then us_rx_seq_nr_expected s - 1 else us_rx_seq_nr_expected s),
       td_ack = is_ack, td_fin = False, td_hdr_word_count = 0, td_data_byte_count = 0, td_app = [], td_data = []\<rparr>) s"

definition pad4 :: "nat \<Rightarrow> nat" where
  "pad4 n = (n + 3) div 4 * 4"

definition data_packet :: "udprdma_socket \<Rightarrow> u8 list \<Rightarrow> (nat \<Rightarrow> u8) \<Rightarrow> nat \<Rightarrow> tx_pkt" where
  "data_packet s app data sz =
     TxData \<lparr>td_seq_nr = us_tx_seq_nr s, td_seq_nr_ack = us_rx_seq_nr_expected s - 1, td_ack = True, td_fin = True,
       td_hdr_word_count = of_nat (length app div 4), td_data_byte_count = of_nat (pad4 sz), td_app = app,
       td_data = map data [0..<pad4 sz]\<rparr>"

definition send_data :: "udprdma_socket \<Rightarrow> (nat \<Rightarrow> u8) \<Rightarrow> nat \<Rightarrow> udprdma_socket" where
  "send_data s data sz =
     (let sz = (if UDPRDMA_MAX_PAYLOAD < sz then UDPRDMA_MAX_PAYLOAD else sz);
          s1 = emit (data_packet s [] data sz) s
      in s1\<lparr>us_tx_seq_nr := us_tx_seq_nr s1 + 1\<rparr>)"

definition send_data_ll :: "udprdma_socket \<Rightarrow> u8 list \<Rightarrow> (nat \<Rightarrow> u8) \<Rightarrow> nat \<Rightarrow> udprdma_socket" where
  "send_data_ll s app_hdr data data_size =
     (let s1 = emit (data_packet s app_hdr data data_size) s
      in s1\<lparr>us_tx_seq_nr := us_tx_seq_nr s1 + 1\<rparr>)"

text \<open>The test of an acknowledgement against the sequence number sent: \<^verbatim>\<open>int16_t diff\<close>.\<close>

definition ack_accepted :: "seq \<Rightarrow> seq \<Rightarrow> bool" where
  "ack_accepted acked sent =
     (let diff = sint (ucast (acked - sent) :: 16 word) in 0 \<le> diff \<or> diff < - 2048)"

text \<open>The retry loop that both send operations share; \<open>send\<close> sends one copy.  \<open>retries\<close> counts down.\<close>

fun send_loop ::
    "nat \<Rightarrow> (udprdma_socket \<Rightarrow> udprdma_socket) \<Rightarrow> net_event list \<Rightarrow> udprdma_socket \<Rightarrow>
     rdma_fault + (int \<times> net_event list \<times> udprdma_socket)" where
  "send_loop 0 send evs s = Inr (UDPRDMA_ERR_NACK, evs, s\<lparr>us_state := STATE_DISCONNECTED\<rparr>)"
| "send_loop (Suc retries) send evs s =
     (let sent_seq_nr = us_tx_seq_nr s in
      case wait_flags {EF_RX_ACK, EF_TIMEOUT} evs (send s) of
        Inl f \<Rightarrow> Inl f
      | Inr (evs', s1) \<Rightarrow>
          let s2 = clear_flags {EF_RX_ACK, EF_TIMEOUT} s1 in
          if EF_RX_ACK \<in> us_flags s1 \<and> ack_accepted (us_tx_seq_nr_acked s2) sent_seq_nr
          then Inr (UDPRDMA_OK, evs', s2)
          else send_loop retries send evs' (s2\<lparr>us_tx_seq_nr := sent_seq_nr\<rparr>))"

text \<open>\<open>None\<close> as a socket or buffer is a NULL pointer.\<close>

definition udprdma_send ::
    "udprdma_socket option \<Rightarrow> (nat \<Rightarrow> u8) option \<Rightarrow> nat \<Rightarrow> net_event list \<Rightarrow>
     rdma_fault + (int \<times> net_event list \<times> udprdma_socket option)" where
  "udprdma_send socket data sz evs =
     (case (socket, data) of
        (Some s, Some d) \<Rightarrow>
          if sz = 0 then Inr (UDPRDMA_OK, evs, socket)
          else
            let sz = (if UDPRDMA_MAX_PAYLOAD < sz then UDPRDMA_MAX_PAYLOAD else sz) in
            if us_state s \<noteq> STATE_CONNECTED then Inr (UDPRDMA_ERR_NOTCONN, evs, socket)
            else map_sum id (apsnd (apsnd Some))
                   (send_loop UDPRDMA_MAX_RETRIES (\<lambda>s. send_data s d sz) evs (clear_flags {EF_RX_ACK} s))
      | _ \<Rightarrow> Inr (UDPRDMA_ERR_INVAL, evs, socket))"

definition udprdma_send_ll ::
    "udprdma_socket option \<Rightarrow> u8 list option \<Rightarrow> (nat \<Rightarrow> u8) option \<Rightarrow> nat \<Rightarrow> net_event list \<Rightarrow>
     rdma_fault + (int \<times> net_event list \<times> udprdma_socket option)" where
  "udprdma_send_ll socket app_hdr data data_size evs =
     (case (socket, app_hdr, data) of
        (Some s, Some h, Some d) \<Rightarrow>
          if UDPRDMA_MAX_APP_HDR < length h then Inr (UDPRDMA_ERR_INVAL, evs, socket)
          else if length h + data_size = 0 then Inr (UDPRDMA_OK, evs, socket)
          else if us_state s \<noteq> STATE_CONNECTED then Inr (UDPRDMA_ERR_NOTCONN, evs, socket)
          else map_sum id (apsnd (apsnd Some))
                 (send_loop UDPRDMA_MAX_RETRIES (\<lambda>s. send_data_ll s h d data_size) evs (clear_flags {EF_RX_ACK} s))
      | _ \<Rightarrow> Inr (UDPRDMA_ERR_INVAL, evs, socket))"

section \<open>Receiving and connecting\<close>

fun discover_loop ::
    "nat \<Rightarrow> (ef_bit set \<Rightarrow> ef_bit set \<Rightarrow> ef_bit set) \<Rightarrow> net_event list \<Rightarrow> udprdma_socket \<Rightarrow>
     rdma_fault + (int \<times> net_event list \<times> udprdma_socket)" where
  "discover_loop 0 clr evs s = Inr (UDPRDMA_ERR_TIMEOUT, evs, s\<lparr>us_state := STATE_DISCONNECTED\<rparr>)"
| "discover_loop (Suc retries) clr evs s =
     (case wait_flags {EF_RX_INFO, EF_TIMEOUT} evs (send_discovery s) of
        Inl f \<Rightarrow> Inl f
      | Inr (evs', s1) \<Rightarrow>
          let s2 = s1\<lparr>us_flags := clr {EF_RX_INFO, EF_TIMEOUT} (us_flags s1)\<rparr> in
          if EF_RX_INFO \<in> us_flags s1 then Inr (UDPRDMA_OK, evs', s2\<lparr>us_state := STATE_CONNECTED\<rparr>)
          else discover_loop retries clr evs' s2)"

definition udprdma_discover ::
    "(ef_bit set \<Rightarrow> ef_bit set \<Rightarrow> ef_bit set) \<Rightarrow> udprdma_socket option \<Rightarrow> net_event list \<Rightarrow>
     rdma_fault + (int \<times> net_event list \<times> udprdma_socket option)" where
  "udprdma_discover clr socket evs =
     (case socket of
        None \<Rightarrow> Inr (UDPRDMA_ERR_INVAL, evs, None)
      | Some s \<Rightarrow> map_sum id (apsnd (apsnd Some))
                    (discover_loop UDPRDMA_MAX_RETRIES clr evs (s\<lparr>us_state := STATE_DISCOVERING\<rparr>)))"

definition udprdma_inform :: "udprdma_socket option \<Rightarrow> udprdma_socket option" where
  "udprdma_inform socket = map_option send_inform socket"

text \<open>The results of a receive: the return value, the caller's buffer and header as they are then.\<close>

type_synonym recv_result = "int \<times> u8 list option \<times> u8 list option"

fun recv_loop ::
    "nat \<Rightarrow> (ef_bit set \<Rightarrow> ef_bit set \<Rightarrow> ef_bit set) \<Rightarrow> net_event list \<Rightarrow> udprdma_socket \<Rightarrow>
     rdma_fault + (recv_result \<times> net_event list \<times> udprdma_socket)" where
  "recv_loop 0 clr evs s = Inl OutOfFuel"
| "recv_loop (Suc fuel) clr evs s =
     (let bits = {EF_RX_FIN, EF_RX_NACK, EF_RX_WINDOW, EF_TIMEOUT} in
      case wait_flags bits evs s of
        Inl f \<Rightarrow> Inl f
      | Inr (evs', s1) \<Rightarrow>
          let s2 = s1\<lparr>us_flags := clr bits (us_flags s1)\<rparr>;
              done = (\<lambda>s. s\<lparr>us_rx_buffer := None, us_rx_hdr_buffer := None\<rparr>)
          in if EF_RX_FIN \<in> us_flags s1 then
               (let s3 = send_ack s2 True in
                Inr ((int (us_rx_received s3), us_rx_buffer s3, us_rx_hdr_buffer s3), evs', done s3))
             else if EF_RX_NACK \<in> us_flags s1 then recv_loop fuel clr evs' (send_ack s2 False)
             else if EF_RX_WINDOW \<in> us_flags s1 then recv_loop fuel clr evs' (send_ack s2 True)
             else if EF_TIMEOUT \<in> us_flags s1 then
               Inr ((UDPRDMA_ERR_TIMEOUT, us_rx_buffer s2, us_rx_hdr_buffer s2), evs',
                    (done s2)\<lparr>us_state := STATE_DISCONNECTED\<rparr>)
             else recv_loop fuel clr evs' s2)"

text \<open>Every turn but the first consumes an event, so the number of events bounds the turns.\<close>

definition udprdma_recv ::
    "(ef_bit set \<Rightarrow> ef_bit set \<Rightarrow> ef_bit set) \<Rightarrow> udprdma_socket option \<Rightarrow> u8 list option \<Rightarrow> nat \<Rightarrow> net_event list \<Rightarrow>
     rdma_fault + (recv_result \<times> net_event list \<times> udprdma_socket option)" where
  "udprdma_recv clr socket buffer sz evs =
     (case (socket, buffer) of
        (Some s, Some buf) \<Rightarrow>
          if sz = 0 then Inr ((0, buffer, None), evs, socket)
          else if us_state s \<noteq> STATE_CONNECTED then Inr ((UDPRDMA_ERR_NOTCONN, buffer, None), evs, socket)
          else
            let s1 = (if us_rx_buffer s = None
                      then s\<lparr>us_rx_buffer := Some buf, us_rx_buffer_size := sz, us_rx_received := 0\<rparr> else s)
            in map_sum id (apsnd (apsnd Some)) (recv_loop (length evs + 2) clr evs s1)
      | _ \<Rightarrow> Inr ((UDPRDMA_ERR_INVAL, buffer, None), evs, socket))"

definition udprdma_is_connected :: "udprdma_socket option \<Rightarrow> int" where
  "udprdma_is_connected socket =
     (case socket of None \<Rightarrow> 0 | Some s \<Rightarrow> if us_state s = STATE_CONNECTED then 1 else 0)"

definition udprdma_get_peer_ip :: "udprdma_socket option \<Rightarrow> u32" where
  "udprdma_get_peer_ip socket = (case socket of None \<Rightarrow> 0 | Some s \<Rightarrow> us_peer_ip s)"

definition udprdma_set_rx_buffer :: "udprdma_socket option \<Rightarrow> u8 list option \<Rightarrow> nat \<Rightarrow> udprdma_socket option" where
  "udprdma_set_rx_buffer socket buffer sz =
     map_option (\<lambda>s. s\<lparr>us_rx_buffer := buffer, us_rx_buffer_size := sz, us_rx_received := 0,
                        us_rx_window_count := 0, us_rx_nack_sent := False\<rparr>) socket"

definition udprdma_set_rx_app_header :: "udprdma_socket option \<Rightarrow> u8 list option \<Rightarrow> nat \<Rightarrow> udprdma_socket option" where
  "udprdma_set_rx_app_header socket hdr_buf hdr_size =
     map_option (\<lambda>s. s\<lparr>us_rx_hdr_buffer := hdr_buf, us_rx_hdr_size := hdr_size, us_rx_hdr_received := 0\<rparr>) socket"

section \<open>Sockets\<close>

definition zero_socket :: udprdma_socket where
  "zero_socket = \<lparr>us_bound = False, us_port = 0, us_service_id = 0, us_state = STATE_INIT, us_peer_ip = 0,
     us_tx_seq_nr = 0, us_tx_seq_nr_acked = 0, us_rx_buffer = None, us_rx_buffer_size = 0, us_rx_received = 0,
     us_rx_seq_nr_expected = 0, us_rx_window_count = 0, us_rx_nack_sent = False, us_rx_hdr_buffer = None,
     us_rx_hdr_size = 0, us_rx_hdr_received = 0, us_event_flag = 0, us_flags = {}, us_sent = []\<rparr>"

fun free_socket :: "udprdma_socket list \<Rightarrow> nat \<Rightarrow> nat option" where
  "free_socket [] i = None"
| "free_socket (s # r) i = (if \<not> us_bound s then Some i else free_socket r (Suc i))"

text \<open>\<open>bind_ok\<close> and \<open>evf\<close> are the results of \<^verbatim>\<open>udp_bind\<close> and \<^verbatim>\<open>CreateEventFlag\<close>.\<close>

definition udprdma_create ::
    "bool \<Rightarrow> int \<Rightarrow> u16 \<Rightarrow> u16 \<Rightarrow> udprdma_socket list \<Rightarrow> nat option \<times> udprdma_socket list" where
  "udprdma_create bind_ok evf port service_id sockets =
     (case free_socket (take UDPRDMA_MAX_SOCKETS sockets) 0 of
        None \<Rightarrow> (None, sockets)
      | Some i \<Rightarrow>
          let s = zero_socket\<lparr>us_port := (if port \<noteq> 0 then port else UDPFS_PORT), us_service_id := service_id\<rparr> in
          if \<not> bind_ok then (None, sockets[i := s])
          else if evf \<le> 0 then (None, sockets[i := s\<lparr>us_event_flag := evf\<rparr>])
          else (Some i, sockets[i := s\<lparr>us_bound := True, us_event_flag := evf\<rparr>]))"

definition udprdma_destroy :: "udprdma_socket option \<Rightarrow> udprdma_socket option" where
  "udprdma_destroy socket =
     map_option (\<lambda>s. s\<lparr>us_bound := False, us_event_flag := 0, us_state := STATE_INIT\<rparr>) socket"

section \<open>The receiver delivers in order\<close>

definition hdr_limit :: "udprdma_socket \<Rightarrow> nat" where
  "hdr_limit s = (case us_rx_hdr_buffer s of None \<Rightarrow> 32 | Some b \<Rightarrow> min 32 (length b))"

text \<open>Packet \<open>p\<close> carries part \<open>k\<close> of a transfer whose first packet has the sequence number \<open>base\<close>.\<close>

definition carries :: "seq \<Rightarrow> u8 list list \<Rightarrow> nat \<Rightarrow> nat \<Rightarrow> data_pkt \<Rightarrow> bool" where
  "carries base chunks hl k p \<longleftrightarrow> k < length chunks \<and> dp_seq_nr p = base + of_nat k \<and>
     unat (dp_hdr_word_count p) * 4 \<le> hl \<and> 0 < unat (dp_hdr_word_count p) * 4 + unat (dp_data_byte_count p) \<and>
     chunks ! k = fifo_read p (unat (dp_hdr_word_count p) * 4) (unat (dp_data_byte_count p))"

text \<open>\<open>n\<close> parts were accepted: the buffer starts with their bytes and is otherwise as it was.\<close>

definition rx_holds :: "seq \<Rightarrow> u8 list list \<Rightarrow> u8 list \<Rightarrow> nat \<Rightarrow> udprdma_socket \<Rightarrow> bool" where
  "rx_holds base chunks mem0 n s \<longleftrightarrow> n \<le> length chunks \<and> us_rx_seq_nr_expected s = base + of_nat n \<and>
     us_rx_buffer_size s \<le> length mem0 \<and> us_rx_buffer_size s < 2 ^ 32 \<and>
     us_rx_received s = min (us_rx_buffer_size s) (length (concat (take n chunks))) \<and>
     us_rx_buffer s = Some (take (us_rx_received s) (concat (take n chunks)) @ drop (us_rx_received s) mem0)"

lemma seq_window:
  fixes base :: seq
  assumes "k < n + 4096" "n < k + 4096"
  shows "base + of_nat k = base + of_nat n \<longleftrightarrow> k = n"
proof
  assume "base + of_nat k = base + of_nat n"
  then have "(of_nat k :: seq) = of_nat n" by simp
  then have "k mod 4096 = n mod 4096" by (simp add: word_of_nat_eq_iff take_bit_eq_mod)
  then have "int k mod 4096 = int n mod 4096" by (metis of_nat_mod of_nat_numeral)
  then have "4096 dvd int k - int n" by (simp add: mod_eq_dvd_iff)
  moreover have "\<bar>int k - int n\<bar> < 4096" using assms by linarith
  ultimately show "k = n" using zdvd_imp_le [of 4096 "\<bar>int k - int n\<bar>"] by fastforce
qed simp

lemma fifo_read_length [simp]: "length (fifo_read p i n) = n"
  by (simp add: fifo_read_def)

lemma fifo_read_take: "m \<le> n \<Longrightarrow> fifo_read p i m = take m (fifo_read p i n)"
  by (simp add: fifo_read_def take_map)

lemma header_ok:
  assumes "unat (dp_hdr_word_count p) * 4 \<le> hdr_limit s"
  obtains hb hr where "ist_header p s = Inr (s\<lparr>us_rx_hdr_buffer := hb, us_rx_hdr_received := hr\<rparr>)"
    "hdr_limit (s\<lparr>us_rx_hdr_buffer := hb, us_rx_hdr_received := hr\<rparr>) = hdr_limit s"
proof -
  define h where "h = unat (dp_hdr_word_count p) * 4"
  have lim: "h \<le> 32" "us_rx_hdr_buffer s = Some b \<Longrightarrow> h \<le> length b" for b
    using assms by (auto simp: h_def hdr_limit_def split: option.splits)
  have eq: "ist_header p s =
      (if h = 0 then Inr s
       else case us_rx_hdr_buffer s of
              Some buf \<Rightarrow>
                if us_rx_hdr_received s = 0
                then Inr (s\<lparr>us_rx_hdr_buffer := Some (fifo_read p 0 h @ drop h buf), us_rx_hdr_received := h\<rparr>)
                else Inr (s\<lparr>us_rx_hdr_received := h\<rparr>)
            | None \<Rightarrow> Inr (s\<lparr>us_rx_hdr_received := h\<rparr>))"
    using lim unfolding ist_header_def h_def [symmetric] Let_def
    by (auto simp: store_def UDPRDMA_MAX_APP_HDR_def split: option.split)
  show thesis
  proof (cases "h = 0")
    case True
    then have "ist_header p s = Inr s" using eq by simp
    then show ?thesis using that [of "us_rx_hdr_received s" "us_rx_hdr_buffer s"] by simp
  next
    case h: False
    show ?thesis
    proof (cases "us_rx_hdr_received s = 0 \<and> us_rx_hdr_buffer s \<noteq> None")
      case True
      then obtain buf where buf: "us_rx_hdr_buffer s = Some buf" by blast
      then have "ist_header p s =
          Inr (s\<lparr>us_rx_hdr_buffer := Some (fifo_read p 0 h @ drop h buf), us_rx_hdr_received := h\<rparr>)"
        using eq h True by simp
      then show ?thesis
        by (rule that) (use lim(2) [OF buf] in \<open>simp add: hdr_limit_def buf\<close>)
    next
      case False
      then have "ist_header p s = Inr (s\<lparr>us_rx_hdr_received := h\<rparr>)"
        using eq h by (cases "us_rx_hdr_buffer s") simp_all
      then show ?thesis using that [of h "us_rx_hdr_buffer s"] by (simp add: hdr_limit_def)
    qed
  qed
qed

lemma concat_take_Suc: "n < length xs \<Longrightarrow> concat (take (Suc n) xs) = concat (take n xs) @ xs ! n"
  by (simp add: take_Suc_conv_app_nth)

text \<open>The data part: the bytes of the next chunk that still fit are appended.\<close>

lemma body_ok:
  assumes h: "rx_holds base chunks mem0 n s" and c: "carries base chunks hl n p" and mem: "us_rx_buffer s = Some mem"
  shows "\<exists>s'. ist_body p mem s = Inr s' \<and> rx_holds base chunks mem0 (Suc n) (ist_accepted p s') \<and>
    us_rx_hdr_buffer s' = us_rx_hdr_buffer s \<and> us_rx_buffer_size s' = us_rx_buffer_size s"
proof -
  let ?size = "us_rx_buffer_size s" and ?rcv = "us_rx_received s" and ?old = "concat (take n chunks)"
  define count where "count = unat (dp_data_byte_count p)"
  have n: "n < length chunks" and ch: "chunks ! n = fifo_read p (unat (dp_hdr_word_count p) * 4) count"
    and sq: "dp_seq_nr p = base + of_nat n"
    using c by (auto simp: carries_def count_def)
  have sz: "?size \<le> length mem0" "?size < 2 ^ 32" and rcv: "?rcv = min ?size (length ?old)"
    and buf: "mem = take ?rcv ?old @ drop ?rcv mem0"
    using h mem by (auto simp: rx_holds_def)
  have rem: "(?size + 2 ^ 32 - ?rcv) mod 2 ^ 32 = ?size - ?rcv"
  proof -
    have "?rcv \<le> ?size" using rcv by simp
    then have "?size + 2 ^ 32 - ?rcv = 2 ^ 32 + (?size - ?rcv)" by simp
    also have "\<dots> mod 2 ^ 32 = ?size - ?rcv" using sz(2) by (simp only: mod_add_self1) simp
    finally show ?thesis .
  qed
  define x where "x = min count (?size - ?rcv)"
  have new: "concat (take (Suc n) chunks) = ?old @ chunks ! n" by (rule concat_take_Suc [OF n])
  have lc: "length (chunks ! n) = count" using ch by simp
  have rcv': "?rcv + x = min ?size (length (?old @ chunks ! n))" using rcv lc by (simp add: x_def)
  have bytes: "take (?rcv + x) (?old @ chunks ! n) = take ?rcv ?old @ take x (chunks ! n)"
    using rcv by (cases "length ?old \<le> ?size") (simp_all add: x_def)
  have lmem: "length mem = length mem0" "?rcv + x \<le> length mem0" "length (take ?rcv ?old) = ?rcv"
    using buf sz rcv by (auto simp: x_def)
  have lx: "x \<le> count" by (simp add: x_def)
  have st: "store mem ?rcv (take x (chunks ! n)) = Some (take (?rcv + x) (?old @ chunks ! n) @ drop (?rcv + x) mem0)"
    unfolding store_def bytes using lmem buf lc lx by (simp add: add.commute)
  have xx: "(if count < ?size - ?rcv then count else ?size - ?rcv) = x" by (simp add: x_def)
  have fr: "fifo_read p (unat (dp_hdr_word_count p) * 4) x = take x (chunks ! n)"
    using fifo_read_take [OF lx] ch by simp
  define s' where "s' = (if 0 < count then s\<lparr>us_rx_buffer := Some (take (?rcv + x) (?old @ chunks ! n) @ drop (?rcv + x) mem0),
      us_rx_received := ?rcv + x\<rparr> else s)"
  have b: "ist_body p mem s = Inr s'"
    using fr st unfolding ist_body_def Let_def count_def [symmetric] rem s'_def xx by simp
  have fields: "us_rx_received s' = ?rcv + x" "us_rx_buffer_size s' = ?size" "us_rx_hdr_buffer s' = us_rx_hdr_buffer s"
    "us_rx_buffer s' = Some (take (?rcv + x) (?old @ chunks ! n) @ drop (?rcv + x) mem0)"
    using mem buf rcv lc by (auto simp: s'_def x_def)
  have "rx_holds base chunks mem0 (Suc n) (ist_accepted p s')"
    using n sz sq rcv' fields unfolding rx_holds_def new ist_accepted_def Let_def set_flag_def by simp
  then show ?thesis using b fields by blast
qed

lemma accepted_keeps: "hdr_limit (ist_accepted p s) = hdr_limit s" "us_rx_buffer_size (ist_accepted p s) = us_rx_buffer_size s"
  by (simp_all add: ist_accepted_def hdr_limit_def set_flag_def Let_def)

lemma data_step:
  assumes h: "rx_holds base chunks mem0 n s" and c: "carries base chunks (hdr_limit s) k p"
    and w: "k < n + 4096" "n < k + 4096"
  shows "\<exists>s'. ist_data p s = Inr s' \<and> rx_holds base chunks mem0 (if k = n then Suc n else n) s' \<and>
    hdr_limit s' = hdr_limit s \<and> us_rx_buffer_size s' = us_rx_buffer_size s"
proof -
  define s1 where "s1 = (if dp_ack p then set_flag EF_RX_ACK (s\<lparr>us_tx_seq_nr_acked := dp_seq_nr_ack p\<rparr>) else s)"
  have keep: "rx_holds base chunks mem0 m s1 = rx_holds base chunks mem0 m s" "hdr_limit s1 = hdr_limit s"
    "us_rx_buffer_size s1 = us_rx_buffer_size s" "us_rx_seq_nr_expected s1 = base + of_nat n" for m
    using h by (simp_all add: s1_def rx_holds_def set_flag_def hdr_limit_def)
  have h1: "rx_holds base chunks mem0 n s1" using keep(1) h by simp
  then obtain mem where mem: "us_rx_buffer s1 = Some mem" by (auto simp: rx_holds_def)
  have pay: "unat (dp_hdr_word_count p) * 4 + unat (dp_data_byte_count p) \<noteq> 0" using c by (simp add: carries_def)
  have sq: "dp_seq_nr p = us_rx_seq_nr_expected s1 \<longleftrightarrow> k = n"
    using c keep(4) seq_window [OF w, of base] by (simp add: carries_def)
  have step: "ist_data p s =
      (if k = n then (case ist_header p s1 of Inl f \<Rightarrow> Inl f
                      | Inr s2 \<Rightarrow> (case ist_body p mem s2 of Inl f \<Rightarrow> Inl f | Inr s3 \<Rightarrow> Inr (ist_accepted p s3)))
       else if \<not> us_rx_nack_sent s1 then Inr (set_flag EF_RX_NACK (s1\<lparr>us_rx_nack_sent := True\<rparr>)) else Inr s1)"
    unfolding ist_data_def Let_def s1_def [symmetric] mem option.case sq using pay by (simp only: if_False)
  show ?thesis
  proof (cases "k = n")
    case True
    have "unat (dp_hdr_word_count p) * 4 \<le> hdr_limit s1" using c keep(2) by (simp add: carries_def)
    from header_ok [OF this] obtain hb hr where hd: "ist_header p s1 = Inr (s1\<lparr>us_rx_hdr_buffer := hb, us_rx_hdr_received := hr\<rparr>)"
      "hdr_limit (s1\<lparr>us_rx_hdr_buffer := hb, us_rx_hdr_received := hr\<rparr>) = hdr_limit s1"
      by blast
    define s2 where "s2 = s1\<lparr>us_rx_hdr_buffer := hb, us_rx_hdr_received := hr\<rparr>"
    have "rx_holds base chunks mem0 n s2" "us_rx_buffer s2 = Some mem"
      using h1 mem by (simp_all add: s2_def rx_holds_def)
    from body_ok [OF this(1) c [unfolded True] this(2)]
    obtain s3 where s3: "ist_body p mem s2 = Inr s3" "rx_holds base chunks mem0 (Suc n) (ist_accepted p s3)"
      "us_rx_hdr_buffer s3 = us_rx_hdr_buffer s2" "us_rx_buffer_size s3 = us_rx_buffer_size s2" by blast
    then have "hdr_limit s3 = hdr_limit s" using hd(2) keep(2) by (simp add: hdr_limit_def s2_def)
    moreover have "us_rx_buffer_size s3 = us_rx_buffer_size s" using s3(4) keep(3) by (simp add: s2_def)
    ultimately show ?thesis using step True hd(1) s3 by (simp add: s2_def accepted_keeps)
  next
    case False
    have "rx_holds base chunks mem0 n (set_flag EF_RX_NACK (s1\<lparr>us_rx_nack_sent := True\<rparr>))"
      "hdr_limit (set_flag EF_RX_NACK (s1\<lparr>us_rx_nack_sent := True\<rparr>)) = hdr_limit s"
      "us_rx_buffer_size (set_flag EF_RX_NACK (s1\<lparr>us_rx_nack_sent := True\<rparr>)) = us_rx_buffer_size s"
      using keep(2,3) h1 by (simp_all add: rx_holds_def set_flag_def hdr_limit_def)
    then show ?thesis using step False keep(2,3) h1 by simp
  qed
qed

fun ist_all :: "data_pkt list \<Rightarrow> udprdma_socket \<Rightarrow> rdma_fault + udprdma_socket" where
  "ist_all [] s = Inr s"
| "ist_all (p # ps) s = (case ist (RxData p) s of Inl f \<Rightarrow> Inl f | Inr s' \<Rightarrow> ist_all ps s')"

text \<open>How many parts an arrival sequence of part numbers completes, and that no part number is a whole
  sequence space away from the next one expected.\<close>

fun accepted :: "nat \<Rightarrow> nat list \<Rightarrow> nat" where
  "accepted n [] = n"
| "accepted n (k # ks) = accepted (if k = n then Suc n else n) ks"

fun in_window :: "nat \<Rightarrow> nat list \<Rightarrow> bool" where
  "in_window n [] = True"
| "in_window n (k # ks) \<longleftrightarrow> k < n + 4096 \<and> n < k + 4096 \<and> in_window (if k = n then Suc n else n) ks"

lemma ist_all_holds:
  assumes "rx_holds base chunks mem0 n s" "list_all2 (carries base chunks (hdr_limit s)) ks ps" "in_window n ks"
  shows "\<exists>s'. ist_all ps s = Inr s' \<and> rx_holds base chunks mem0 (accepted n ks) s' \<and>
    us_rx_buffer_size s' = us_rx_buffer_size s"
  using assms
proof (induction ps arbitrary: ks n s)
  case Nil
  then show ?case by simp
next
  case (Cons p ps)
  then obtain k ks' where ks: "ks = k # ks'" "carries base chunks (hdr_limit s) k p"
    "list_all2 (carries base chunks (hdr_limit s)) ks' ps" by (auto simp: list_all2_Cons2)
  obtain s1 where s1: "ist_data p s = Inr s1" "rx_holds base chunks mem0 (if k = n then Suc n else n) s1"
    "hdr_limit s1 = hdr_limit s" "us_rx_buffer_size s1 = us_rx_buffer_size s"
    using data_step [OF Cons.prems(1) ks(2)] Cons.prems(3) ks(1) by auto
  then show ?case using Cons.IH [OF s1(2), of ks'] ks Cons.prems(3) by (simp add: ist_def)
qed

section \<open>Sending ends and sends one thing\<close>

definition tx_same :: "udprdma_socket \<Rightarrow> udprdma_socket \<Rightarrow> bool" where
  "tx_same s s' \<longleftrightarrow> us_sent s' = us_sent s \<and> us_tx_seq_nr s' = us_tx_seq_nr s \<and> us_state s' = us_state s"

lemma tx_same_refl [simp]: "tx_same s s"
  by (simp add: tx_same_def)

lemma tx_same_trans: "tx_same s t \<Longrightarrow> tx_same t u \<Longrightarrow> tx_same s u"
  by (simp add: tx_same_def)

lemma tx_same_flag [simp]: "tx_same s (set_flag b s)" "tx_same s (clear_flags bs s)"
  by (simp_all add: tx_same_def set_flag_def clear_flags_def)

lemma header_same: "ist_header p s = Inr s' \<Longrightarrow> tx_same s s'"
  by (auto simp: ist_header_def tx_same_def Let_def split: if_splits option.splits)

lemma body_same: "ist_body p mem s = Inr s' \<Longrightarrow> tx_same s s'"
  by (auto simp: ist_body_def tx_same_def Let_def split: if_splits option.splits)

lemma accepted_same: "tx_same s (ist_accepted p s)"
  by (simp add: ist_accepted_def tx_same_def set_flag_def Let_def)

lemma data_same: "ist_data p s = Inr s' \<Longrightarrow> tx_same s s'"
proof -
  assume r: "ist_data p s = Inr s'"
  define s1 where "s1 = (if dp_ack p then set_flag EF_RX_ACK (s\<lparr>us_tx_seq_nr_acked := dp_seq_nr_ack p\<rparr>) else s)"
  have s1: "tx_same s s1" "tx_same s (s1\<lparr>us_rx_nack_sent := True\<rparr>)"
    by (simp_all add: s1_def tx_same_def set_flag_def)
  note r' = r [unfolded ist_data_def Let_def, folded s1_def]
  consider "s' = s1" | "s' = set_flag EF_RX_NACK (s1\<lparr>us_rx_nack_sent := True\<rparr>)"
    | mem s2 s3 where "ist_header p s1 = Inr s2" "ist_body p mem s2 = Inr s3" "s' = ist_accepted p s3"
    using r' by (auto split: option.splits if_splits sum.splits)
  then show ?thesis
  proof cases
    case 3
    then show ?thesis using s1(1) header_same [OF 3(1)] body_same [OF 3(2)] accepted_same [of s3 p]
      by (auto intro: tx_same_trans)
  qed (use s1 in \<open>auto intro: tx_same_trans\<close>)
qed

lemma ist_same: "ist pkt s = Inr s' \<Longrightarrow> tx_same s s'"
proof (cases pkt)
  case (RxData p)
  then show "ist pkt s = Inr s' \<Longrightarrow> tx_same s s'" using data_same by (simp add: ist_def)
qed (auto simp: ist_def tx_same_def set_flag_def split: if_splits)

lemma piece_no_block:
  assumes "f = Blocked \<or> f = OutOfFuel"
  shows "ist_header p s \<noteq> Inl f" "ist_body p mem s \<noteq> Inl f"
  using assms by (auto simp: ist_header_def ist_body_def Let_def split: option.splits)

lemma data_no_block: "f = Blocked \<or> f = OutOfFuel \<Longrightarrow> ist_data p s \<noteq> Inl f"
proof
  assume f: "f = Blocked \<or> f = OutOfFuel" and r: "ist_data p s = Inl f"
  define s1 where "s1 = (if dp_ack p then set_flag EF_RX_ACK (s\<lparr>us_tx_seq_nr_acked := dp_seq_nr_ack p\<rparr>) else s)"
  note r' = r [unfolded ist_data_def Let_def, folded s1_def]
  consider "ist_header p s1 = Inl f" | mem s2 where "ist_body p mem s2 = Inl f"
    using r' by (auto split: option.splits if_splits sum.splits)
  then show False using piece_no_block [OF f] by cases auto
qed

lemma ist_no_block: "ist pkt s \<noteq> Inl Blocked" "ist pkt s \<noteq> Inl OutOfFuel"
  by (cases pkt; simp add: ist_def data_no_block)+

definition alarms :: "net_event list \<Rightarrow> nat" where
  "alarms evs = length (filter (\<lambda>e. e = Alarm) evs)"

lemma wait_flags_props:
  assumes "EF_TIMEOUT \<in> bits"
  shows "wait_flags bits evs s = Inr (evs', s') \<Longrightarrow>
      tx_same s s' \<and> us_flags s' \<inter> bits \<noteq> {} \<and> alarms evs \<le> Suc (alarms evs') \<and> length evs' \<le> length evs \<and>
      (us_flags s \<inter> bits = {} \<longrightarrow> length evs' < length evs)"
    and "0 < alarms evs \<Longrightarrow> wait_flags bits evs s \<noteq> Inl Blocked"
    and "wait_flags bits evs s \<noteq> Inl OutOfFuel"
proof (induction evs arbitrary: s)
  case Nil
  { case 1 then show ?case by (auto simp: wait_flags.simps split: if_splits) }
  { case 2 then show ?case by (simp add: alarms_def) }
  { case 3 then show ?case by (simp add: wait_flags.simps) }
next
  case (Cons e evs)
  have al: "wait_flags bits evs (set_flag EF_TIMEOUT s) = Inr (evs, set_flag EF_TIMEOUT s)" for s
    using assms by (subst wait_flags.simps) (auto simp: set_flag_def)
  { case 1
    show ?case
    proof (cases "us_flags s \<inter> bits = {}")
      case False
      then show ?thesis using 1 by (simp add: wait_flags.simps [of bits "e # evs"])
    next
      case empty: True
      show ?thesis
      proof (cases e)
        case Alarm
        then have "evs' = evs" "s' = set_flag EF_TIMEOUT s"
          using 1 empty al [of s] wait_flags.simps [of bits "e # evs" s] by simp_all
        then show ?thesis using Alarm assms empty by (auto simp: alarms_def set_flag_def tx_same_def)
      next
        case (Packet p)
        then obtain s1 where s1: "ist p s = Inr s1" "wait_flags bits evs s1 = Inr (evs', s')"
          using 1 empty wait_flags.simps [of bits "e # evs" s] by (auto split: sum.splits)
        then show ?thesis using Cons.IH(1) [of s1] ist_same [OF s1(1)] Packet
          by (auto simp: alarms_def intro: tx_same_trans)
      qed
    qed
  next
    case 2
    show ?case
    proof (cases e)
      case Alarm
      then show ?thesis using al [of s] by (subst wait_flags.simps) simp
    next
      case (Packet p)
      then show ?thesis using 2 Cons.IH(2) ist_no_block(1) [of p s]
        by (subst wait_flags.simps) (auto simp: alarms_def split: sum.splits)
    qed
  next
    case 3
    show ?case
    proof (cases e)
      case Alarm
      then show ?thesis using al [of s] by (subst wait_flags.simps) simp
    next
      case (Packet p)
      then show ?thesis using Cons.IH(3) ist_no_block(2) [of p s]
        by (subst wait_flags.simps) (auto split: sum.splits)
    qed }
qed

lemma send_loop_props:
  assumes "\<And>s. us_sent (send s) = us_sent s @ [pk s] \<and> us_tx_seq_nr (send s) = us_tx_seq_nr s + 1 \<and>
    us_state (send s) = us_state s"
  shows "send_loop n send evs s = Inr (ret, evs', s') \<Longrightarrow>
    \<exists>ps. us_sent s' = us_sent s @ ps \<and> length ps \<le> n \<and> (\<forall>p \<in> set ps. \<exists>t. p = pk t \<and> us_tx_seq_nr t = us_tx_seq_nr s) \<and>
      (ret = UDPRDMA_OK \<and> ps \<noteq> [] \<and> us_tx_seq_nr s' = us_tx_seq_nr s + 1 \<and> us_state s' = us_state s \<or>
       ret = UDPRDMA_ERR_NACK \<and> length ps = n \<and> us_tx_seq_nr s' = us_tx_seq_nr s \<and> us_state s' = STATE_DISCONNECTED)"
    and "n \<le> alarms evs \<Longrightarrow> send_loop n send evs s \<noteq> Inl Blocked"
proof (induction n arbitrary: evs s)
  case 0
  { case 1 then show ?case by (auto simp: rdma_errors) }
  { case 2 then show ?case by simp }
next
  case (Suc n)
  let ?bits = "{EF_RX_ACK, EF_TIMEOUT}"
  have to: "EF_TIMEOUT \<in> ?bits" by simp
  { case 1
    then obtain evs1 s1 where w: "wait_flags ?bits evs (send s) = Inr (evs1, s1)"
      by (auto simp: Let_def split: sum.splits)
    have same: "tx_same (send s) s1" using wait_flags_props(1) [OF to w] by blast
    define s2 where "s2 = clear_flags ?bits s1"
    have s2: "us_sent s2 = us_sent s @ [pk s]" "us_tx_seq_nr s2 = us_tx_seq_nr s + 1" "us_state s2 = us_state s"
      using same assms [of s] by (simp_all add: s2_def tx_same_def clear_flags_def)
    have step: "send_loop (Suc n) send evs s =
        (if EF_RX_ACK \<in> us_flags s1 \<and> ack_accepted (us_tx_seq_nr_acked s2) (us_tx_seq_nr s) then Inr (UDPRDMA_OK, evs1, s2)
         else send_loop n send evs1 (s2\<lparr>us_tx_seq_nr := us_tx_seq_nr s\<rparr>))"
      by (simp add: w Let_def s2_def)
    show ?case
    proof (cases "EF_RX_ACK \<in> us_flags s1 \<and> ack_accepted (us_tx_seq_nr_acked s2) (us_tx_seq_nr s)")
      case True
      then have "ret = UDPRDMA_OK" "s' = s2" using 1 step by simp_all
      then show ?thesis using s2 by (intro exI [of _ "[pk s]"]) auto
    next
      case False
      then have "send_loop n send evs1 (s2\<lparr>us_tx_seq_nr := us_tx_seq_nr s\<rparr>) = Inr (ret, evs', s')"
        using 1 unfolding step by (simp only: if_not_P if_False)
      from Suc.IH(1) [OF this] obtain ps where "us_sent s' = us_sent s2 @ ps" "length ps \<le> n"
        "\<forall>p \<in> set ps. \<exists>t. p = pk t \<and> us_tx_seq_nr t = us_tx_seq_nr s"
        "ret = UDPRDMA_OK \<and> ps \<noteq> [] \<and> us_tx_seq_nr s' = us_tx_seq_nr s + 1 \<and> us_state s' = us_state s2 \<or>
         ret = UDPRDMA_ERR_NACK \<and> length ps = n \<and> us_tx_seq_nr s' = us_tx_seq_nr s \<and> us_state s' = STATE_DISCONNECTED"
        by auto
      then show ?thesis using s2 by (intro exI [of _ "pk s # ps"]) auto
    qed
  next
    case 2
    show ?case
    proof (cases "wait_flags ?bits evs (send s)")
      case (Inl f)
      then show ?thesis using wait_flags_props(2) [OF to, of evs "send s"] 2 by (auto simp: Let_def)
    next
      case (Inr r)
      obtain evs1 s1 where r: "r = (evs1, s1)" by (cases r)
      have "n \<le> alarms evs1" using wait_flags_props(1) [OF to Inr [unfolded r]] 2 by simp
      then show ?thesis using Suc.IH(2) [of evs1] Inr r by (simp add: Let_def)
    qed }
qed

lemma ack_always_accepted: "ack_accepted acked sent"
proof -
  have "uint (acked - sent) < 2 ^ 12" using uint_lt2p [of "acked - sent"] by simp
  then have "signed_take_bit 15 (uint (acked - sent)) = uint (acked - sent)"
    by (intro signed_take_bit_int_eq_self order_trans [OF _ uint_ge_0]) simp_all
  then have "sint (ucast (acked - sent) :: 16 word) = uint (acked - sent)"
    by (simp add: sint_uint uint_up_ucast is_up)
  then show ?thesis by (simp add: ack_accepted_def)
qed

section \<open>Receiving ends\<close>

abbreviation recv_bits :: "ef_bit set" where
  "recv_bits \<equiv> {EF_RX_FIN, EF_RX_NACK, EF_RX_WINDOW, EF_TIMEOUT}"

lemma recv_turn:
  assumes clr: "\<And>bits fl. clr bits fl \<inter> bits = {}"
    and more: "\<And>evs s. length evs < fuel \<Longrightarrow> us_flags s \<inter> recv_bits = {} \<Longrightarrow> recv_loop fuel clr evs s \<noteq> Inl OutOfFuel"
    and less: "\<And>evs1 s1. wait_flags recv_bits evs s = Inr (evs1, s1) \<Longrightarrow> length evs1 < fuel"
  shows "recv_loop (Suc fuel) clr evs s \<noteq> Inl OutOfFuel"
proof (cases "wait_flags recv_bits evs s")
  case (Inl f)
  have "EF_TIMEOUT \<in> recv_bits" by simp
  from wait_flags_props(3) [OF this, of evs s] show ?thesis using Inl by (auto simp: Let_def)
next
  case (Inr r)
  obtain evs1 s1 where r: "r = (evs1, s1)" by (cases r)
  have len: "length evs1 < fuel" using less Inr r by simp
  have "us_flags (send_ack (s1\<lparr>us_flags := clr recv_bits (us_flags s1)\<rparr>) b) \<inter> recv_bits = {}"
    "us_flags (s1\<lparr>us_flags := clr recv_bits (us_flags s1)\<rparr>) \<inter> recv_bits = {}" for b
    using clr [of recv_bits "us_flags s1"] by (simp_all add: send_ack_def emit_def)
  note IH = more [OF len this(1)] more [OF len this(2)]
  show ?thesis using IH unfolding recv_loop.simps Let_def Inr r by simp
qed

lemma recv_loop_fuel:
  assumes clr: "\<And>bits fl. clr bits fl \<inter> bits = {}"
    and "length evs < fuel" "us_flags s \<inter> recv_bits = {}"
  shows "recv_loop fuel clr evs s \<noteq> Inl OutOfFuel"
  using assms(2,3)
proof (induction fuel arbitrary: evs s)
  case (Suc fuel)
  have to: "EF_TIMEOUT \<in> recv_bits" by simp
  show ?case
    by (rule recv_turn [OF clr Suc.IH]) (use Suc.prems wait_flags_props(1) [OF to] in fastforce)+
qed simp

lemma recv_loop_first:
  assumes clr: "\<And>bits fl. clr bits fl \<inter> bits = {}"
  shows "recv_loop (length evs + 2) clr evs s \<noteq> Inl OutOfFuel"
proof -
  have to: "EF_TIMEOUT \<in> recv_bits" by simp
  have "recv_loop (Suc (Suc (length evs))) clr evs s \<noteq> Inl OutOfFuel"
  proof (rule recv_turn [OF clr])
    show "length evs1 < Suc (length evs)" if "wait_flags recv_bits evs s = Inr (evs1, s1)" for evs1 s1
      using wait_flags_props(1) [OF to that] by simp
  qed (rule recv_loop_fuel [OF clr])
  then show ?thesis unfolding add_2_eq_Suc' .
qed

lemma recv_loop_result:
  assumes "recv_loop fuel clr evs s = Inr ((r, buf, hdr), evs', s')"
  shows "us_rx_buffer s' = None \<and> us_rx_hdr_buffer s' = None \<and>
    (r = UDPRDMA_ERR_TIMEOUT \<and> us_state s' = STATE_DISCONNECTED \<or>
     r = int (us_rx_received s') \<and> (\<exists>t. last (us_sent s') = TxData t \<and> td_ack t \<and>
       td_seq_nr_ack t = us_rx_seq_nr_expected s' - 1))"
  using assms
proof (induction fuel arbitrary: evs s)
  case (Suc fuel)
  let ?bits = "{EF_RX_FIN, EF_RX_NACK, EF_RX_WINDOW, EF_TIMEOUT}"
  obtain evs1 s1 where w: "wait_flags ?bits evs s = Inr (evs1, s1)"
    using Suc.prems by (cases "wait_flags ?bits evs s") (auto simp: Let_def)
  show ?case
    using Suc.prems Suc.IH unfolding recv_loop.simps Let_def w
    by (auto simp: send_ack_def emit_def rdma_errors split: if_splits)
qed simp

section \<open>Properties\<close>

text \<open>C4. The receiver delivers in order, whatever the network does: for any arrival sequence of the parts
  of a transfer, with loss, repetition and reordering (no part a whole sequence space of 4096 away
  from the next one expected) and application headers that fit their buffer, the receive buffer holds
  the bytes of the first parts in order, as many as were accepted consecutively and as fit, and is
  otherwise untouched; the next sequence number expected is the one after them.\<close>

theorem udprdma_in_order:
  assumes "us_rx_buffer s = Some mem" and "us_rx_buffer_size s \<le> length mem" and "us_rx_buffer_size s < 2 ^ 32"
    and "us_rx_received s = 0"
    and "list_all2 (carries (us_rx_seq_nr_expected s) chunks (hdr_limit s)) ks ps" and "in_window 0 ks"
  shows "\<exists>s'. ist_all ps s = Inr s' \<and>
    (let n = accepted 0 ks; got = concat (take n chunks) in
      us_rx_seq_nr_expected s' = us_rx_seq_nr_expected s + of_nat n \<and>
      us_rx_received s' = min (us_rx_buffer_size s) (length got) \<and>
      us_rx_buffer s' = Some (take (us_rx_received s') got @ drop (us_rx_received s') mem))"
proof -
  have "rx_holds (us_rx_seq_nr_expected s) chunks mem 0 s"
    using assms(1-4) by (simp add: rx_holds_def)
  from ist_all_holds [OF this assms(5,6)] show ?thesis by (auto simp: rx_holds_def Let_def)
qed

definition sample_part :: "seq \<Rightarrow> nat \<Rightarrow> data_pkt" where
  "sample_part sq b = \<lparr>dp_seq_nr = sq, dp_seq_nr_ack = 0, dp_ack = False, dp_fin = False, dp_hdr_word_count = 0,
     dp_data_byte_count = 2, dp_fifo = (\<lambda>i. of_nat (b + i))\<rparr>"

definition sample_rx :: udprdma_socket where
  "sample_rx = zero_socket\<lparr>us_state := STATE_CONNECTED, us_rx_buffer := Some [0, 0, 0, 0, 9], us_rx_buffer_size := 4,
     us_rx_seq_nr_expected := 4095\<rparr>"

theorem udprdma_in_order_witness:
  "\<exists>s'. ist_all [sample_part 0 3, sample_part 4095 1, sample_part 4095 1, sample_part 0 3] sample_rx = Inr s' \<and>
     us_rx_buffer s' = Some [1, 2, 3, 4, 9]"
proof -
  let ?ps = "[sample_part 0 3, sample_part 4095 1, sample_part 4095 1, sample_part 0 3]"
  have "list_all2 (carries (us_rx_seq_nr_expected sample_rx) [[1, 2], [3, 4]] (hdr_limit sample_rx)) [1, 0, 0, 1] ?ps"
    by code_simp
  moreover have rx: "us_rx_buffer sample_rx = Some [0, 0, 0, 0, 9]" "us_rx_buffer_size sample_rx = 4"
    "us_rx_received sample_rx = 0" by (simp_all add: sample_rx_def zero_socket_def)
  moreover have "accepted 0 [1, 0, 0, 1] = 2" "in_window 0 [1, 0, 0, 1]" by simp_all
  ultimately obtain s' where "ist_all ?ps sample_rx = Inr s'" "us_rx_received s' = 4"
    "us_rx_buffer s' = Some (take (us_rx_received s') [1, 2, 3, 4] @ drop (us_rx_received s') [0, 0, 0, 0, 9])"
    using udprdma_in_order [of sample_rx "[0, 0, 0, 0, 9]" "[[1, 2], [3, 4]]" "[1, 0, 0, 1]" ?ps]
    by (auto simp: Let_def simp del: ist_all.simps accepted.simps)
  then show ?thesis by simp
qed

text \<open>C40. A send transmits one thing at most four times and ends: every copy has the socket's sequence
  number and the same padded data; success advances the sequence number by one, failure takes four
  copies, restores the number and disconnects; and the call returns as soon as the alarm fires four
  times, whatever packets arrive (an overlong application header apart).\<close>

theorem udprdma_send_bounded:
  assumes "us_state s = STATE_CONNECTED" and "0 < sz" and "sz \<le> UDPRDMA_MAX_PAYLOAD"
  shows "(4 \<le> alarms evs \<longrightarrow> udprdma_send (Some s) (Some d) sz evs \<noteq> Inl Blocked) \<and>
    (\<forall>ret evs' s'. udprdma_send (Some s) (Some d) sz evs = Inr (ret, evs', Some s') \<longrightarrow>
      (\<exists>ps. us_sent s' = us_sent s @ ps \<and> length ps \<le> 4 \<and>
        (\<forall>p \<in> set ps. \<exists>t. p = TxData t \<and> td_seq_nr t = us_tx_seq_nr s \<and> td_data t = map d [0..<pad4 sz]) \<and>
        (ret = UDPRDMA_OK \<and> ps \<noteq> [] \<and> us_tx_seq_nr s' = us_tx_seq_nr s + 1 \<and> us_state s' = STATE_CONNECTED \<or>
         ret = UDPRDMA_ERR_NACK \<and> length ps = 4 \<and> us_tx_seq_nr s' = us_tx_seq_nr s \<and>
           us_state s' = STATE_DISCONNECTED)))"
proof -
  let ?send = "\<lambda>s. send_data s d sz" and ?s = "clear_flags {EF_RX_ACK} s"
  have one: "us_sent (?send t) = us_sent t @ [data_packet t [] d sz] \<and> us_tx_seq_nr (?send t) = us_tx_seq_nr t + 1 \<and>
      us_state (?send t) = us_state t" for t
    using assms(3) by (simp add: send_data_def emit_def Let_def)
  have run: "udprdma_send (Some s) (Some d) sz evs = map_sum id (apsnd (apsnd Some)) (send_loop 4 ?send evs ?s)"
    using assms by (simp add: udprdma_send_def UDPRDMA_MAX_RETRIES_def)
  have clr: "us_sent ?s = us_sent s" "us_tx_seq_nr ?s = us_tx_seq_nr s" "us_state ?s = STATE_CONNECTED"
    using assms(1) by (simp_all add: clear_flags_def)
  have pk: "\<exists>t. data_packet u [] d sz = TxData t \<and> td_seq_nr t = us_tx_seq_nr u \<and> td_data t = map d [0..<pad4 sz]" for u
    by (simp add: data_packet_def)
  show ?thesis
  proof (intro conjI impI allI)
    assume "4 \<le> alarms evs"
    then have "send_loop 4 ?send evs ?s \<noteq> Inl Blocked" by (rule send_loop_props(2) [OF one])
    then show "udprdma_send (Some s) (Some d) sz evs \<noteq> Inl Blocked"
      unfolding run by (cases "send_loop 4 ?send evs ?s") auto
  next
    fix ret evs' s'
    assume "udprdma_send (Some s) (Some d) sz evs = Inr (ret, evs', Some s')"
    then have "send_loop 4 ?send evs ?s = Inr (ret, evs', s')"
      unfolding run by (cases "send_loop 4 ?send evs ?s") auto
    from send_loop_props(1) [OF one this] show "\<exists>ps. us_sent s' = us_sent s @ ps \<and> length ps \<le> 4 \<and>
        (\<forall>p \<in> set ps. \<exists>t. p = TxData t \<and> td_seq_nr t = us_tx_seq_nr s \<and> td_data t = map d [0..<pad4 sz]) \<and>
        (ret = UDPRDMA_OK \<and> ps \<noteq> [] \<and> us_tx_seq_nr s' = us_tx_seq_nr s + 1 \<and> us_state s' = STATE_CONNECTED \<or>
         ret = UDPRDMA_ERR_NACK \<and> length ps = 4 \<and> us_tx_seq_nr s' = us_tx_seq_nr s \<and> us_state s' = STATE_DISCONNECTED)"
      using clr pk by metis
  qed
qed

theorem udprdma_send_bounded_witness:
  "udprdma_send (Some sample_rx) (Some (\<lambda>_. 7)) 10 [Alarm, Alarm, Alarm, Alarm] \<noteq> Inl Blocked"
  using udprdma_send_bounded [of sample_rx 10 "[Alarm, Alarm, Alarm, Alarm]" "\<lambda>_. 7"]
  by (simp add: sample_rx_def zero_socket_def UDPRDMA_MAX_PAYLOAD_def alarms_def)

text \<open>Receiving ends: as long as waiting with clear resets the bits waited for, every call returns
  after at most two turns more than there are events, and a call that returns the data has sent an
  acknowledgement of the last packet accepted and released both buffers.\<close>

lemma udprdma_recv_ends:
  assumes "\<And>bits fl. clr bits fl \<inter> bits = {}"
  shows "udprdma_recv clr socket buffer sz evs \<noteq> Inl OutOfFuel \<and>
    (\<forall>r buf hdr evs' s'. udprdma_recv clr socket buffer sz evs = Inr ((r, buf, hdr), evs', Some s') \<and> 0 < r \<longrightarrow>
       us_rx_buffer s' = None \<and> us_rx_hdr_buffer s' = None \<and> r = int (us_rx_received s') \<and>
       (\<exists>t. last (us_sent s') = TxData t \<and> td_ack t \<and> td_seq_nr_ack t = us_rx_seq_nr_expected s' - 1))"
proof -
  have "(\<exists>s1. udprdma_recv clr socket buffer sz evs =
        map_sum id (apsnd (apsnd Some)) (recv_loop (length evs + 2) clr evs s1)) \<or>
      (\<exists>r \<le> 0. udprdma_recv clr socket buffer sz evs = Inr ((r, buffer, None), evs, socket))"
  proof (cases "\<exists>s buf. socket = Some s \<and> buffer = Some buf \<and> sz \<noteq> 0 \<and> us_state s = STATE_CONNECTED")
    case True
    then show ?thesis unfolding udprdma_recv_def Let_def by (auto simp del: recv_loop.simps)
  next
    case False
    have "\<exists>r \<le> 0. udprdma_recv clr socket buffer sz evs = Inr ((r, buffer, None), evs, socket)"
      unfolding udprdma_recv_def using False
      by (cases socket; cases buffer) (auto simp: rdma_errors simp del: recv_loop.simps)
    then show ?thesis ..
  qed
  then consider (run) s1 where "udprdma_recv clr socket buffer sz evs =
        map_sum id (apsnd (apsnd Some)) (recv_loop (length evs + 2) clr evs s1)"
    | (err) r where "r \<le> 0" "udprdma_recv clr socket buffer sz evs = Inr ((r, buffer, None), evs, socket)"
    by blast
  then show ?thesis
  proof cases
    case run
    show ?thesis
    proof (cases "recv_loop (length evs + 2) clr evs s1")
      case (Inl f)
      have "recv_loop (length evs + 2) clr evs s1 \<noteq> Inl OutOfFuel" by (rule recv_loop_first) (rule assms)
      then have "f \<noteq> OutOfFuel" unfolding Inl by simp
      then show ?thesis unfolding run Inl by simp
    next
      case (Inr q)
      obtain r buf hdr evs' s' where q: "q = ((r, buf, hdr), evs', s')" by (cases q) auto
      show ?thesis unfolding run Inr q using recv_loop_result [OF Inr [unfolded q]] by (auto simp: rdma_errors)
    qed
  qed auto
qed

lemma udprdma_recv_ends_witness:
  "udprdma_recv (\<lambda>bits fl. fl - bits) (Some sample_rx) (Some [0]) 1 [Packet (RxData (sample_part 0 3)), Alarm] \<noteq> Inl OutOfFuel"
  using udprdma_recv_ends [of "\<lambda>bits fl. fl - bits" "Some sample_rx" "Some [0]" 1] by blast

text \<open>The check for stale acknowledgements never rejects: the difference of two 12-bit numbers masked to
  12 bits is not negative as a 16-bit number, so every acknowledgement ends the send as successful,
  whichever packet it acknowledges.\<close>

lemma udprdma_stale_ack_accepted:
  assumes "us_state s = STATE_CONNECTED" and "0 < sz" and "dp_ack p" and "dp_hdr_word_count p = 0"
    and "dp_data_byte_count p = 0" and "us_flags s = {}"
  shows "\<exists>s'. udprdma_send (Some s) (Some d) sz (Packet (RxData p) # evs) = Inr (UDPRDMA_OK, evs, Some s')"
proof -
  let ?m = "if UDPRDMA_MAX_PAYLOAD < sz then UDPRDMA_MAX_PAYLOAD else sz"
  define t where "t = send_data (clear_flags {EF_RX_ACK} s) d ?m"
  define t1 where "t1 = set_flag EF_RX_ACK (t\<lparr>us_tx_seq_nr_acked := dp_seq_nr_ack p\<rparr>)"
  have fl: "us_flags t = {}" using assms(6) by (simp add: t_def send_data_def emit_def clear_flags_def Let_def)
  have "ist (RxData p) t = Inr t1"
    using assms(3-5) by (simp add: ist_def ist_data_def t1_def Let_def split: option.split)
  then have "wait_flags {EF_RX_ACK, EF_TIMEOUT} (Packet (RxData p) # evs) t = Inr (evs, t1)"
    using fl wait_flags.simps [of "{EF_RX_ACK, EF_TIMEOUT}" "Packet (RxData p) # evs" t]
      wait_flags.simps [of "{EF_RX_ACK, EF_TIMEOUT}" evs t1]
    by (simp add: t1_def set_flag_def)
  then have "send_loop 4 (\<lambda>s. send_data s d ?m) (Packet (RxData p) # evs) (clear_flags {EF_RX_ACK} s) =
      Inr (UDPRDMA_OK, evs, clear_flags {EF_RX_ACK, EF_TIMEOUT} t1)"
    unfolding t_def by (simp add: numeral_eq_Suc Let_def ack_always_accepted t1_def set_flag_def)
  then show ?thesis using assms(1,2) by (simp add: udprdma_send_def UDPRDMA_MAX_RETRIES_def Let_def)
qed

lemma udprdma_stale_ack_accepted_witness:
  "\<exists>s'. udprdma_send (Some sample_rx) (Some (\<lambda>_. 7)) 10
     [Packet (RxData ((sample_part 5 0)\<lparr>dp_ack := True, dp_seq_nr_ack := 4000, dp_data_byte_count := 0\<rparr>))] =
     Inr (UDPRDMA_OK, [], Some s')"
  by (rule udprdma_stale_ack_accepted) (simp_all add: sample_rx_def zero_socket_def sample_part_def)

text \<open>The application header of a packet is stored without a check of its size: an expected packet that
  announces more bytes than the header buffer has (or more than 32 when there is none) makes the
  receiver write past it.\<close>

lemma udprdma_header_overflow:
  assumes "us_rx_buffer s \<noteq> None" and "dp_seq_nr p = us_rx_seq_nr_expected s" and "\<not> dp_ack p"
    and "case us_rx_hdr_buffer s of
           None \<Rightarrow> 8 < unat (dp_hdr_word_count p)
         | Some b \<Rightarrow> us_rx_hdr_received s = 0 \<and> length b < unat (dp_hdr_word_count p) * 4"
  shows "ist (RxData p) s = Inl HdrOverflow"
proof -
  obtain mem where mem: "us_rx_buffer s = Some mem" using assms(1) by blast
  have pos: "unat (dp_hdr_word_count p) * 4 \<noteq> 0" using assms(4) by (auto split: option.splits)
  have "ist_header p s = Inl HdrOverflow"
    using assms(4) pos unfolding ist_header_def Let_def
    by (auto simp: store_def UDPRDMA_MAX_APP_HDR_def split: option.splits)
  then show ?thesis using assms(2,3) mem pos by (simp add: ist_def ist_data_def Let_def)
qed

lemma udprdma_header_overflow_witness:
  "ist (RxData ((sample_part 4095 0)\<lparr>dp_hdr_word_count := 9\<rparr>)) sample_rx = Inl HdrOverflow"
  by (rule udprdma_header_overflow) (simp_all add: sample_rx_def zero_socket_def sample_part_def)

end
