(* ===== verification/Atlas.thy ===== *)
theory Atlas
  imports OplPrelude
begin

text \<open>
  The texture atlas (\<^verbatim>\<open>src/atlas.c\<close>): glyphs are packed into one surface by a binary tree of
  rectangles, each placement splitting a free rectangle in three.

  A node is \<open>Node x y w h leaf1 leaf2\<close>, \<open>Null\<close> a NULL pointer.  Coordinates are natural numbers: the
  code only forms sums of sizes that fit the surface and differences it has tested.  The surface is
  the list of its bytes; a store outside it, or through the NULL that \<^verbatim>\<open>malloc\<close> may return, makes an
  operation return \<open>None\<close>.  The size \<^verbatim>\<open>gsKit\<close> computes for the surface is a parameter.
\<close>

section \<open>Definitions\<close>

datatype alloc = Null | Node nat nat nat nat alloc alloc

datatype gs_psm = GS_PSM_CT32 | GS_PSM_CT24 | GS_PSM_CT16 | GS_PSM_CT16S | GS_PSM_T8 | GS_PSM_OTHER

record atlas =
  at_allocation :: alloc
  at_psm :: gs_psm
  at_mem :: "u8 list"
  at_invalidations :: nat

definition allocNew :: "bool \<Rightarrow> nat \<Rightarrow> nat \<Rightarrow> nat \<Rightarrow> nat \<Rightarrow> alloc option" where
  "allocNew mem x y width height = (if mem then Some (Node x y width height Null Null) else None)"

definition ALLOC_FITS :: "nat \<Rightarrow> nat \<Rightarrow> nat \<Rightarrow> nat \<Rightarrow> bool" where
  "ALLOC_FITS w h width height \<longleftrightarrow> width \<le> w \<and> height \<le> h"

definition ALLOC_ISFREE :: "alloc \<Rightarrow> alloc \<Rightarrow> bool" where
  "ALLOC_ISFREE leaf1 leaf2 \<longleftrightarrow> leaf1 = Null \<and> leaf2 = Null"

text \<open>The position of the node that takes the rectangle, or \<open>None\<close> for no room, and the tree.\<close>

fun allocPlace :: "bool \<Rightarrow> alloc \<Rightarrow> nat \<Rightarrow> nat \<Rightarrow> ((nat \<times> nat) option \<times> alloc) option" where
  "allocPlace mem Null width height = None"
| "allocPlace mem (Node x y w h leaf1 leaf2) width height =
     (if \<not> ALLOC_FITS w h width height then Some (None, Node x y w h leaf1 leaf2)
      else if ALLOC_ISFREE leaf1 leaf2 then
        (let dx = w - width; dy = h - height;
             (l1, l2) = (if dx < dy
                         then (allocNew mem (x + width) y dx height, allocNew mem x (y + height) w dy)
                         else (allocNew mem x (y + height) width dy, allocNew mem (x + width) y dx h))
         in case (l1, l2) of
              (Some a, Some b) \<Rightarrow> Some (Some (x, y), Node x y w h a b)
            | _ \<Rightarrow> None)
      else
        (case allocPlace mem leaf1 width height of
           None \<Rightarrow> None
         | Some (Some p, leaf1') \<Rightarrow> Some (Some p, Node x y w h leaf1' leaf2)
         | Some (None, leaf1') \<Rightarrow>
             (case allocPlace mem leaf2 width height of
                None \<Rightarrow> None
              | Some (r, leaf2') \<Rightarrow> Some (r, Node x y w h leaf1' leaf2'))))"

definition atlasNew :: "bool \<Rightarrow> bool \<Rightarrow> nat \<Rightarrow> nat \<Rightarrow> nat \<Rightarrow> gs_psm \<Rightarrow> atlas option option" where
  "atlasNew mem surface_mem txtsize width height psm =
     (case allocNew mem 0 0 width height of
        None \<Rightarrow> None
      | Some a \<Rightarrow> Some (if surface_mem then Some \<lparr>at_allocation = a, at_psm = psm, at_mem = replicate txtsize 0,
          at_invalidations = 0\<rparr> else None))"

definition pixelSize :: "gs_psm \<Rightarrow> nat" where
  "pixelSize psm = (case psm of GS_PSM_CT32 \<Rightarrow> 4 | GS_PSM_CT24 \<Rightarrow> 4 | GS_PSM_CT16 \<Rightarrow> 2 | GS_PSM_CT16S \<Rightarrow> 2 | GS_PSM_T8 \<Rightarrow> 1
     | GS_PSM_OTHER \<Rightarrow> 0)"

definition root_width :: "alloc \<Rightarrow> nat" where
  "root_width a = (case a of Null \<Rightarrow> 0 | Node x y w h l r \<Rightarrow> w)"

text \<open>\<^verbatim>\<open>memcpy\<close> into the surface, and the loop over the rows; \<open>n\<close> rows are left.\<close>

definition copy_bytes :: "u8 list \<Rightarrow> nat \<Rightarrow> u8 list \<Rightarrow> u8 list option" where
  "copy_bytes mem data bs = (if data + length bs \<le> length mem then Some (take data mem @ bs @ drop (data + length bs) mem) else None)"

fun copy_rows :: "nat \<Rightarrow> nat \<Rightarrow> nat \<Rightarrow> u8 list \<Rightarrow> nat \<Rightarrow> u8 list \<Rightarrow> u8 list option" where
  "copy_rows 0 rowsize stride mem data src = Some mem"
| "copy_rows (Suc n) rowsize stride mem data src =
     (case (if length src < rowsize then None else copy_bytes mem data (take rowsize src)) of
        None \<Rightarrow> None
      | Some mem' \<Rightarrow> copy_rows n rowsize stride mem' (data + stride) (drop rowsize src))"

definition atlasCopyData :: "atlas \<Rightarrow> nat \<times> nat \<Rightarrow> nat \<Rightarrow> nat \<Rightarrow> u8 list \<Rightarrow> atlas option" where
  "atlasCopyData at al width height src =
     (let ps = pixelSize (at_psm at); W = root_width (at_allocation at) in
      if ps = 0 then Some at
      else map_option (\<lambda>m. at\<lparr>at_mem := m\<rparr>)
             (copy_rows height (width * ps) (ps * W) (at_mem at) (ps * (snd al * W + fst al)) src))"

text \<open>\<^verbatim>\<open>rmInvalidateTexture\<close> tells \<^verbatim>\<open>gsKit\<close> to upload the surface again; the model counts the requests.\<close>

definition rmInvalidateTexture :: "atlas \<Rightarrow> atlas" where
  "rmInvalidateTexture at = at\<lparr>at_invalidations := at_invalidations at + 1\<rparr>"

definition atlasPlace ::
    "bool \<Rightarrow> atlas \<Rightarrow> nat \<Rightarrow> nat \<Rightarrow> u8 list option \<Rightarrow> ((nat \<times> nat) option \<times> atlas) option" where
  "atlasPlace mem at width height surface =
     (case surface of
        None \<Rightarrow> Some (None, at)
      | Some src \<Rightarrow>
          (case allocPlace mem (at_allocation at) (width + 1) (height + 1) of
             None \<Rightarrow> None
           | Some (None, a) \<Rightarrow> Some (None, at\<lparr>at_allocation := a\<rparr>)
           | Some (Some al, a) \<Rightarrow>
               map_option (\<lambda>at'. (Some al, rmInvalidateTexture at')) (
                 atlasCopyData (at\<lparr>at_allocation := a\<rparr>) al width height src)))"

text \<open>Releasing the tree and the atlas: the number of calls of \<^verbatim>\<open>free\<close>.\<close>

fun allocFree :: "alloc \<Rightarrow> nat" where
  "allocFree Null = 0"
| "allocFree (Node x y w h leaf1 leaf2) = allocFree leaf1 + allocFree leaf2 + 1"

definition atlasFree :: "atlas option \<Rightarrow> nat" where
  "atlasFree atlas = (case atlas of None \<Rightarrow> 0 | Some at \<Rightarrow> allocFree (at_allocation at) + 2)"

section \<open>Packing\<close>

text \<open>The cells of a rectangle, and the free cells of a tree.\<close>

definition cells :: "nat \<Rightarrow> nat \<Rightarrow> nat \<Rightarrow> nat \<Rightarrow> (nat \<times> nat) set" where
  "cells x y w h = {x..<x + w} \<times> {y..<y + h}"

fun node_cells :: "alloc \<Rightarrow> (nat \<times> nat) set" where
  "node_cells Null = {}"
| "node_cells (Node x y w h l r) = cells x y w h"

fun free_cells :: "alloc \<Rightarrow> (nat \<times> nat) set" where
  "free_cells Null = {}"
| "free_cells (Node x y w h l r) = (if l = Null \<and> r = Null then cells x y w h else free_cells l \<union> free_cells r)"

fun tree_ok :: "alloc \<Rightarrow> bool" where
  "tree_ok Null = True"
| "tree_ok (Node x y w h l r) \<longleftrightarrow> (l = Null \<longleftrightarrow> r = Null) \<and> tree_ok l \<and> tree_ok r \<and>
     node_cells l \<union> node_cells r \<subseteq> cells x y w h \<and> node_cells l \<inter> node_cells r = {}"

lemma free_in_node: "tree_ok t \<Longrightarrow> free_cells t \<subseteq> node_cells t"
  by (induction t) auto

lemma split_cells:
  assumes "width \<le> w" "height \<le> h"
  shows "cells (x + width) y (w - width) height \<inter> cells x (y + height) w (h - height) = {}"
    "cells x (y + height) width (h - height) \<inter> cells (x + width) y (w - width) h = {}"
    "cells (x + width) y (w - width) height \<union> cells x (y + height) w (h - height) = cells x y w h - cells x y width height"
    "cells x (y + height) width (h - height) \<union> cells (x + width) y (w - width) h = cells x y w h - cells x y width height"
  using assms by (auto simp: cells_def)

lemma place_spec:
  assumes "tree_ok t" "t \<noteq> Null" "0 < width" "0 < height"
  shows "\<exists>r t'. allocPlace True t width height = Some (r, t') \<and> tree_ok t' \<and> t' \<noteq> Null \<and>
    node_cells t' = node_cells t \<and> root_width t' = root_width t \<and>
    (case r of None \<Rightarrow> t' = t
     | Some (px, py) \<Rightarrow> cells px py width height \<subseteq> free_cells t \<and> free_cells t' = free_cells t - cells px py width height)"
  using assms(1,2)
proof (induction t)
  case (Node x y w h l r)
  show ?case
  proof (cases "ALLOC_FITS w h width height")
    case False
    then show ?thesis using Node.prems by simp
  next
    case fits: True
    then have le: "width \<le> w" "height \<le> h" by (simp_all add: ALLOC_FITS_def)
    show ?thesis
    proof (cases "ALLOC_ISFREE l r")
      case True
      have sub: "cells x y width height \<subseteq> cells x y w h" using le by (auto simp: cells_def)
      show ?thesis using fits True sub split_cells [OF le, of x y]
        by (cases "w - width < h - height") (auto simp: ALLOC_ISFREE_def allocNew_def Let_def root_width_def)
    next
      case used: False
      then have ne: "l \<noteq> Null" "r \<noteq> Null" using Node.prems by (auto simp: ALLOC_ISFREE_def)
      have ok: "tree_ok l" "tree_ok r" "node_cells l \<inter> node_cells r = {}" using Node.prems by auto
      have fl: "free_cells l \<subseteq> node_cells l" "free_cells r \<subseteq> node_cells r" using ok free_in_node by auto
      obtain a l' where l: "allocPlace True l width height = Some (a, l')" "tree_ok l'" "l' \<noteq> Null"
        "node_cells l' = node_cells l"
        "case a of None \<Rightarrow> l' = l | Some (px, py) \<Rightarrow> cells px py width height \<subseteq> free_cells l \<and>
           free_cells l' = free_cells l - cells px py width height"
        using Node.IH(1) [OF ok(1) ne(1)] by blast
      obtain b r' where r: "allocPlace True r width height = Some (b, r')" "tree_ok r'" "r' \<noteq> Null"
        "node_cells r' = node_cells r"
        "case b of None \<Rightarrow> r' = r | Some (px, py) \<Rightarrow> cells px py width height \<subseteq> free_cells r \<and>
           free_cells r' = free_cells r - cells px py width height"
        using Node.IH(2) [OF ok(2) ne(2)] by blast
      have dis: "free_cells l \<inter> free_cells r = {}" using ok(3) fl by blast
      show ?thesis
      proof (cases a)
        case (Some p)
        obtain px py where p: "p = (px, py)" by (cases p)
        have "cells px py width height \<inter> free_cells r = {}" using l(5) Some p dis by auto
        then show ?thesis using fits used ne ok l Node.prems Some p by (auto simp: root_width_def)
      next
        case None
        show ?thesis
        proof (cases b)
          case None
          then show ?thesis using fits used ne l(1,5) r Node.prems \<open>a = None\<close> by (simp add: root_width_def)
        next
          case (Some p)
          obtain px py where p: "p = (px, py)" by (cases p)
          have "cells px py width height \<inter> free_cells l = {}" using r(5) Some p dis by auto
          then show ?thesis using fits used ne l(1,5) r Node.prems \<open>a = None\<close> Some p by (auto simp: root_width_def)
        qed
      qed
    qed
  qed
qed simp

text \<open>A placement allocates two nodes, a refused one none: what \<^verbatim>\<open>atlasFree\<close> releases is what was allocated.\<close>

lemma place_nodes:
  "allocPlace mem t width height = Some (r, t') \<Longrightarrow> allocFree t' = allocFree t + (if r = None then 0 else 2)"
  by (induction t arbitrary: r t')
    (auto simp: allocNew_def ALLOC_ISFREE_def Let_def split: if_splits option.splits)

section \<open>The surface\<close>

lemma copy_bytes_nth:
  assumes "data + length bs \<le> length mem"
  shows "\<exists>m. copy_bytes mem data bs = Some m \<and> length m = length mem \<and>
    (\<forall>c < length bs. m ! (data + c) = bs ! c) \<and>
    (\<forall>k < length mem. \<not> (data \<le> k \<and> k < data + length bs) \<longrightarrow> m ! k = mem ! k)"
  using assms by (auto simp: copy_bytes_def nth_append)

text \<open>Copying rows: row \<open>j\<close> lands at its place, all other bytes stay.\<close>

lemma copy_rows_spec:
  assumes "n * rowsize \<le> length src" "rowsize \<le> stride" "n = 0 \<or> data + (n - 1) * stride + rowsize \<le> length mem"
  shows "\<exists>m. copy_rows n rowsize stride mem data src = Some m \<and> length m = length mem \<and>
    (\<forall>j < n. \<forall>c < rowsize. m ! (data + j * stride + c) = src ! (j * rowsize + c)) \<and>
    (\<forall>k < length mem. (\<forall>j < n. \<not> (data + j * stride \<le> k \<and> k < data + j * stride + rowsize)) \<longrightarrow> m ! k = mem ! k)"
  using assms
proof (induction n arbitrary: mem data src)
  case (Suc n)
  let ?bs = "take rowsize src"
  have bs: "length ?bs = rowsize" using Suc.prems(1) by simp
  have fit: "data + length ?bs \<le> length mem" using Suc.prems(3) bs by simp
  from copy_bytes_nth [OF fit] bs obtain m1 where m1: "copy_bytes mem data ?bs = Some m1" "length m1 = length mem"
    "\<forall>c < rowsize. m1 ! (data + c) = src ! c"
    "\<forall>k < length mem. \<not> (data \<le> k \<and> k < data + rowsize) \<longrightarrow> m1 ! k = mem ! k"
    by auto
  have p1: "n * rowsize \<le> length (drop rowsize src)" using Suc.prems(1) by simp
  have p3: "n = 0 \<or> (data + stride) + (n - 1) * stride + rowsize \<le> length m1"
    using Suc.prems(3) m1(2) by (cases n) (simp_all add: algebra_simps)
  from Suc.IH [OF p1 Suc.prems(2) p3] obtain m where m: "copy_rows n rowsize stride m1 (data + stride) (drop rowsize src) = Some m"
    "length m = length m1"
    "\<forall>j < n. \<forall>c < rowsize. m ! (data + stride + j * stride + c) = drop rowsize src ! (j * rowsize + c)"
    "\<forall>k < length m1. (\<forall>j < n. \<not> (data + stride + j * stride \<le> k \<and> k < data + stride + j * stride + rowsize)) \<longrightarrow> m ! k = m1 ! k"
    by blast
  have row: "m ! (data + j * stride + c) = src ! (j * rowsize + c)" if "j < Suc n" "c < rowsize" for j c
  proof (cases j)
    case 0
    have "m ! (data + c) = m1 ! (data + c)" using m(4) that(2) fit bs m1(2) Suc.prems(2) by simp
    then show ?thesis using m1(3) that(2) 0 by simp
  next
    case (Suc j')
    then have "m ! (data + stride + j' * stride + c) = drop rowsize src ! (j' * rowsize + c)" using m(3) that by simp
    moreover have "drop rowsize src ! (j' * rowsize + c) = src ! (j * rowsize + c)"
      using Suc.prems(1) \<open>j = Suc j'\<close> by (simp add: add.assoc)
    moreover have "data + j * stride + c = data + stride + j' * stride + c" using \<open>j = Suc j'\<close> by simp
    ultimately show ?thesis by metis
  qed
  have other: "m ! k = mem ! k"
    if k: "k < length mem" "\<forall>j < Suc n. \<not> (data + j * stride \<le> k \<and> k < data + j * stride + rowsize)" for k
  proof -
    have "\<not> (data + stride + j * stride \<le> k \<and> k < data + stride + j * stride + rowsize)" if "j < n" for j
      using k(2) [rule_format, of "Suc j"] that by (simp add: algebra_simps)
    then have "m ! k = m1 ! k" using m(4) k(1) m1(2) by simp
    also have "\<dots> = mem ! k" using m1(4) k(1) k(2) [rule_format, of 0] by simp
    finally show ?thesis .
  qed
  have "\<not> length src < rowsize" using Suc.prems(1) by simp
  then show ?case using m1(1,2) m(1,2) row other by simp
qed simp

text \<open>The cell a byte of the surface belongs to.\<close>

definition cell_of :: "nat \<Rightarrow> nat \<Rightarrow> nat \<Rightarrow> nat \<times> nat" where
  "cell_of ps W k = (k div ps mod W, k div ps div W)"

lemma cell_of_byte:
  assumes "0 < ps" "c < width * ps" "x + width \<le> W"
  shows "cell_of ps W (ps * ((y + j) * W + x) + c) = (x + c div ps, y + j)"
proof -
  have "c div ps < width" using assms(2) by (simp add: less_mult_imp_div_less)
  then have lt: "x + c div ps < W" using assms(3) by linarith
  have "(ps * ((y + j) * W + x) + c) div ps = (y + j) * W + (x + c div ps)" using assms(1) by simp
  then show ?thesis using lt by (simp add: cell_of_def)
qed

text \<open>A pixmap of \<open>width\<close> by \<open>height\<close> pixels is on the surface at \<open>(x, y)\<close>.\<close>

definition shows_at :: "nat \<Rightarrow> nat \<Rightarrow> u8 list \<Rightarrow> nat \<times> nat \<Rightarrow> nat \<Rightarrow> nat \<Rightarrow> u8 list \<Rightarrow> bool" where
  "shows_at ps W mem p width height src \<longleftrightarrow>
     (\<forall>j < height. \<forall>c < width * ps. mem ! (ps * ((snd p + j) * W + fst p) + c) = src ! (j * (width * ps) + c))"

definition atlas_ok :: "nat \<Rightarrow> nat \<Rightarrow> nat \<Rightarrow> atlas \<Rightarrow> bool" where
  "atlas_ok ps W H at \<longleftrightarrow> tree_ok (at_allocation at) \<and> at_allocation at \<noteq> Null \<and> root_width (at_allocation at) = W \<and>
     node_cells (at_allocation at) = cells 0 0 W H \<and> pixelSize (at_psm at) = ps \<and> ps * (W * H) \<le> length (at_mem at)"

lemma copy_data_spec:
  assumes "0 < ps" "pixelSize (at_psm at) = ps" "root_width (at_allocation at) = W" "ps * (W * H) \<le> length (at_mem at)"
    and "x + width \<le> W" "y + height \<le> H" "length src = width * height * ps"
  shows "\<exists>m. atlasCopyData at (x, y) width height src = Some (at\<lparr>at_mem := m\<rparr>) \<and> length m = length (at_mem at) \<and>
    shows_at ps W m (x, y) width height src \<and>
    (\<forall>k < length (at_mem at). cell_of ps W k \<notin> cells x y width height \<longrightarrow> m ! k = at_mem at ! k)"
proof -
  let ?row = "width * ps" and ?stride = "ps * W" and ?data = "ps * (y * W + x)"
  have st: "?row \<le> ?stride" using assms(5) by (simp add: mult.commute)
  have "height = 0 \<or> ?data + (height - 1) * ?stride + ?row \<le> length (at_mem at)"
  proof (cases height)
    case (Suc n)
    have "?data + n * ?stride + ?row = ps * ((y + n) * W + (x + width))" by (simp add: algebra_simps)
    also have "\<dots> \<le> ps * ((y + n) * W + W)" using assms(5) by simp
    also have "\<dots> = ps * (W * (y + height))" using Suc by (simp add: algebra_simps)
    also have "\<dots> \<le> ps * (W * H)" using assms(6) by simp
    finally show ?thesis using assms(4) Suc by simp
  qed simp
  moreover have "height * ?row \<le> length src" using assms(7) by (simp add: algebra_simps)
  ultimately obtain m where m: "copy_rows height ?row ?stride (at_mem at) ?data src = Some m" "length m = length (at_mem at)"
    "\<forall>j < height. \<forall>c < ?row. m ! (?data + j * ?stride + c) = src ! (j * ?row + c)"
    "\<forall>k < length (at_mem at). (\<forall>j < height. \<not> (?data + j * ?stride \<le> k \<and> k < ?data + j * ?stride + ?row)) \<longrightarrow> m ! k = at_mem at ! k"
    using copy_rows_spec [OF _ st] by blast
  have eq: "?data + j * ?stride = ps * ((y + j) * W + x)" for j by (simp add: algebra_simps)
  have "shows_at ps W m (x, y) width height src" using m(3) unfolding shows_at_def eq by simp
  moreover have "m ! k = at_mem at ! k" if k: "k < length (at_mem at)" "cell_of ps W k \<notin> cells x y width height" for k
  proof -
    have "\<not> (?data + j * ?stride \<le> k \<and> k < ?data + j * ?stride + ?row)" if "j < height" for j
    proof
      assume a: "?data + j * ?stride \<le> k \<and> k < ?data + j * ?stride + ?row"
      then obtain c where c: "k = ps * ((y + j) * W + x) + c" "c < ?row" unfolding eq by (metis less_diff_conv2 le_iff_add nat_add_left_cancel_less)
      then have "c div ps < width" by (simp add: less_mult_imp_div_less)
      then show False using k(2) cell_of_byte [OF assms(1) c(2) assms(5), of y j] c(1) that by (simp add: cells_def)
    qed
    then show ?thesis using m(4) k(1) by blast
  qed
  ultimately show ?thesis using m(1,2) assms(1-3) by (auto simp: atlasCopyData_def Let_def)
qed

lemma shows_at_keep:
  assumes "shows_at ps W mem p width height src" "0 < ps" "fst p + width \<le> W" "snd p + height \<le> H" "ps * (W * H) \<le> length mem"
    and "\<forall>k < length mem. cell_of ps W k \<in> cells (fst p) (snd p) width height \<longrightarrow> m ! k = mem ! k"
  shows "shows_at ps W m p width height src"
  unfolding shows_at_def
proof (intro allI impI)
  fix j c
  assume j: "j < height" and c: "c < width * ps"
  let ?k = "ps * ((snd p + j) * W + fst p) + c"
  have "c div ps < width" using c by (simp add: less_mult_imp_div_less)
  then have cell: "cell_of ps W ?k \<in> cells (fst p) (snd p) width height"
    using cell_of_byte [OF assms(2) c assms(3)] j by (simp add: cells_def)
  have "?k < ps * ((snd p + j) * W + (fst p + width))" using c by (simp add: algebra_simps)
  also have "\<dots> \<le> ps * ((snd p + j) * W + W)" using assms(3) by simp
  also have "\<dots> = ps * (W * (snd p + Suc j))" by (simp add: algebra_simps)
  also have "\<dots> \<le> ps * (W * H)" using assms(4) j by (intro mult_le_mono2) simp
  finally have "?k < length mem" using assms(5) by linarith
  then show "m ! ?k = src ! (j * (width * ps) + c)" using assms(1,6) cell j c by (simp add: shows_at_def)
qed

section \<open>Sequences of placements\<close>

text \<open>A request is the width, the height and the pixels; the results are in the order of the requests.\<close>

type_synonym request = "nat \<times> nat \<times> u8 list"

fun place_all :: "atlas \<Rightarrow> request list \<Rightarrow> ((nat \<times> nat) option list \<times> atlas) option" where
  "place_all at [] = Some ([], at)"
| "place_all at ((width, height, src) # reqs) =
     (case atlasPlace True at width height (Some src) of
        None \<Rightarrow> None
      | Some (r, at') \<Rightarrow> map_option (\<lambda>(rs, at''). (r # rs, at'')) (place_all at' reqs))"

text \<open>The cells a request got, its border included, and that its pixels are on the surface.\<close>

fun taken :: "(nat \<times> nat) option \<times> request \<Rightarrow> (nat \<times> nat) set" where
  "taken (None, q) = {}"
| "taken (Some (x, y), width, height, src) = cells x y (width + 1) (height + 1)"

fun intact :: "nat \<Rightarrow> nat \<Rightarrow> u8 list \<Rightarrow> (nat \<times> nat) option \<times> request \<Rightarrow> bool" where
  "intact ps W mem (None, q) = True"
| "intact ps W mem (Some p, width, height, src) = shows_at ps W mem p width height src"

definition placed_ok :: "nat \<Rightarrow> nat \<Rightarrow> nat \<Rightarrow> atlas \<Rightarrow> ((nat \<times> nat) option \<times> request) list \<Rightarrow> bool" where
  "placed_ok ps W H at es \<longleftrightarrow> atlas_ok ps W H at \<and>
     (\<forall>e \<in> set es. taken e \<subseteq> cells 0 0 W H - free_cells (at_allocation at) \<and> intact ps W (at_mem at) e) \<and>
     sorted_wrt (\<lambda>a b. taken a \<inter> taken b = {}) es"

lemma cells_inside:
  assumes "cells x y (w + 1) (h + 1) \<subseteq> cells 0 0 W H"
  shows "x + w < W" "y + h < H"
proof -
  have "(x + w, y + h) \<in> cells x y (w + 1) (h + 1)" by (simp add: cells_def)
  then have "(x + w, y + h) \<in> cells 0 0 W H" using assms by blast
  then show "x + w < W" "y + h < H" by (simp_all add: cells_def)
qed

lemma intact_keep:
  assumes "intact ps W mem e" "0 < ps" "taken e \<subseteq> cells 0 0 W H" "ps * (W * H) \<le> length mem"
    and "\<forall>k < length mem. cell_of ps W k \<in> taken e \<longrightarrow> m ! k = mem ! k"
  shows "intact ps W m e"
proof (cases "(ps, W, m, e)" rule: intact.cases)
  case (2 ps' W' mem' p width height src)
  obtain x y where p: "p = (x, y)" by (cases p)
  have e: "e = (Some (x, y), width, height, src)" using 2 p by simp
  have "x + width < W" "y + height < H" using cells_inside [of x y width height W H] assms(3) e by simp_all
  then have le: "fst (x, y) + width \<le> W" "snd (x, y) + height \<le> H" by simp_all
  have "cells x y width height \<subseteq> taken e" unfolding e taken.simps by (auto simp: cells_def)
  then have keep: "\<forall>k < length mem. cell_of ps W k \<in> cells (fst (x, y)) (snd (x, y)) width height \<longrightarrow> m ! k = mem ! k"
    using assms(5) by (metis fst_conv snd_conv subsetD)
  have "shows_at ps W mem (x, y) width height src" using assms(1) e by simp
  from shows_at_keep [OF this assms(2) le assms(4) keep]
  have "shows_at ps W m (x, y) width height src" .
  then show ?thesis using e by simp
qed simp

text \<open>One placement: the results so far survive, and the new one joins them.\<close>

lemma place_step:
  assumes ok: "placed_ok ps W H at es" and ps: "0 < ps" and len: "length src = width * height * ps"
  shows "\<exists>r at'. atlasPlace True at width height (Some src) = Some (r, at') \<and>
    placed_ok ps W H at' (es @ [(r, width, height, src)])"
proof -
  let ?t = "at_allocation at"
  have inv: "tree_ok ?t" "?t \<noteq> Null" "root_width ?t = W" "node_cells ?t = cells 0 0 W H" "pixelSize (at_psm at) = ps"
    "ps * (W * H) \<le> length (at_mem at)"
    using ok by (simp_all add: placed_ok_def atlas_ok_def)
  obtain r t where t: "allocPlace True ?t (width + 1) (height + 1) = Some (r, t)" "tree_ok t" "t \<noteq> Null"
    "node_cells t = node_cells ?t" "root_width t = root_width ?t"
    "case r of None \<Rightarrow> t = ?t | Some (px, py) \<Rightarrow> cells px py (width + 1) (height + 1) \<subseteq> free_cells ?t \<and>
       free_cells t = free_cells ?t - cells px py (width + 1) (height + 1)"
    using place_spec [OF inv(1,2), of "width + 1" "height + 1"] by auto
  show ?thesis
  proof (cases r)
    case None
    then show ?thesis using ok t(1,6) by (auto simp: atlasPlace_def placed_ok_def sorted_wrt_append)
  next
    case (Some p)
    obtain x y where p: "p = (x, y)" by (cases p)
    let ?new = "cells x y (width + 1) (height + 1)"
    have new: "?new \<subseteq> free_cells ?t" "free_cells t = free_cells ?t - ?new" using t(6) Some p by simp_all
    then have inside: "?new \<subseteq> cells 0 0 W H" using free_in_node [OF inv(1)] inv(4) by blast
    have "x + width \<le> W" "y + height \<le> H" using cells_inside [OF inside] by simp_all
    then obtain m where m: "atlasCopyData (at\<lparr>at_allocation := t\<rparr>) (x, y) width height src = Some (at\<lparr>at_allocation := t, at_mem := m\<rparr>)"
      "length m = length (at_mem at)" "shows_at ps W m (x, y) width height src"
      "\<forall>k < length (at_mem at). cell_of ps W k \<notin> cells x y width height \<longrightarrow> m ! k = at_mem at ! k"
      using copy_data_spec [of ps "at\<lparr>at_allocation := t\<rparr>" W H x width y height src] ps inv(3,5,6) t(5) len by auto
    let ?at = "rmInvalidateTexture (at\<lparr>at_allocation := t, at_mem := m\<rparr>)"
    have "atlas_ok ps W H ?at" using t inv m(2) by (simp add: atlas_ok_def rmInvalidateTexture_def)
    moreover have "taken e \<subseteq> cells 0 0 W H - free_cells t \<and> intact ps W m e \<and> taken e \<inter> ?new = {}" if "e \<in> set es" for e
    proof -
      have e: "taken e \<subseteq> cells 0 0 W H - free_cells ?t" "intact ps W (at_mem at) e" using ok that by (auto simp: placed_ok_def)
      then have dis: "taken e \<inter> ?new = {}" using new(1) by blast
      then have "taken e \<inter> cells x y width height = {}" by (auto simp: cells_def)
      then have "intact ps W m e" using intact_keep [OF e(2) ps _ inv(6)] e(1) m(4) by blast
      then show ?thesis using e(1) dis new(2) by blast
    qed
    ultimately have "placed_ok ps W H ?at (es @ [(Some (x, y), width, height, src)])"
      using ok inside new(2) m(3) by (auto simp: placed_ok_def sorted_wrt_append rmInvalidateTexture_def)
    then show ?thesis using t(1) Some p m(1) by (simp add: atlasPlace_def)
  qed
qed

lemma place_all_spec:
  assumes "placed_ok ps W H at es" "0 < ps" "\<forall>(width, height, src) \<in> set reqs. length src = width * height * ps"
  shows "\<exists>rs at'. place_all at reqs = Some (rs, at') \<and> length rs = length reqs \<and> placed_ok ps W H at' (es @ zip rs reqs)"
  using assms(1,3)
proof (induction reqs arbitrary: at es)
  case (Cons q reqs)
  obtain width height src where q: "q = (width, height, src)" by (cases q)
  have len: "length src = width * height * ps" using Cons.prems(2) q by simp
  obtain r at1 where r: "atlasPlace True at width height (Some src) = Some (r, at1)"
    "placed_ok ps W H at1 (es @ [(r, width, height, src)])"
    using place_step [OF Cons.prems(1) assms(2) len] by blast
  obtain rs at' where "place_all at1 reqs = Some (rs, at')" "length rs = length reqs"
    "placed_ok ps W H at' ((es @ [(r, width, height, src)]) @ zip rs reqs)"
    using Cons.IH [OF r(2)] Cons.prems(2) by auto
  then show ?case using q r(1) by simp
qed simp

text \<open>C16. Glyphs on a new atlas never overlap and never leave it: for any sequence of pixmaps whose
  buffers have the size they claim, every placement returns, the rectangles it hands out (each with
  its border of one pixel) are inside the surface and disjoint, and at the end the surface still
  shows every pixmap that was given a place.  The surface has at least the bytes its pixels need.
\<close>

theorem atlas_pixmaps_intact:
  assumes "0 < pixelSize psm" "pixelSize psm * (W * H) \<le> txtsize"
    and "\<forall>(width, height, src) \<in> set reqs. length src = width * height * pixelSize psm"
  shows "\<exists>at rs at'. atlasNew True True txtsize W H psm = Some (Some at) \<and> place_all at reqs = Some (rs, at') \<and>
    length rs = length reqs \<and>
    (\<forall>e \<in> set (zip rs reqs). taken e \<subseteq> cells 0 0 W H \<and> intact (pixelSize psm) W (at_mem at') e) \<and>
    sorted_wrt (\<lambda>a b. taken a \<inter> taken b = {}) (zip rs reqs)"
proof -
  obtain at where at: "atlasNew True True txtsize W H psm = Some (Some at)" "placed_ok (pixelSize psm) W H at []"
    using assms(2) by (simp add: atlasNew_def allocNew_def placed_ok_def atlas_ok_def root_width_def)
  obtain rs at' where "place_all at reqs = Some (rs, at')" "length rs = length reqs"
    "placed_ok (pixelSize psm) W H at' ([] @ zip rs reqs)"
    using place_all_spec [OF at(2) assms(1,3)] by blast
  then show ?thesis using at(1) by (auto simp: placed_ok_def)
qed

theorem atlas_pixmaps_intact_witness:
  "\<exists>at rs at'. atlasNew True True 16 4 4 GS_PSM_T8 = Some (Some at) \<and>
     place_all at [(1, 2, [7, 8]), (2, 1, [5, 6]), (1, 1, [9])] = Some (rs, at') \<and>
     rs = [Some (0, 0), None, Some (2, 0)] \<and> at_mem at' = [7, 0, 9, 0, 8, 0, 0, 0, 0, 0, 0, 0, 0, 0, 0, 0] \<and>
     sorted_wrt (\<lambda>a b. taken a \<inter> taken b = {}) (zip rs [(1, 2, [7, 8]), (2, 1, [5, 6]), (1, 1, [9])])"
proof -
  let ?reqs = "[(1, 2, [7, 8]), (2, 1, [5, 6]), (1, 1, [9])] :: request list"
  have "\<exists>at rs at'. atlasNew True True 16 4 4 GS_PSM_T8 = Some (Some at) \<and> place_all at ?reqs = Some (rs, at') \<and>
    length rs = length ?reqs \<and>
    (\<forall>e \<in> set (zip rs ?reqs). taken e \<subseteq> cells 0 0 4 4 \<and> intact (pixelSize GS_PSM_T8) 4 (at_mem at') e) \<and>
    sorted_wrt (\<lambda>a b. taken a \<inter> taken b = {}) (zip rs ?reqs)"
    by (rule atlas_pixmaps_intact) (simp_all add: pixelSize_def)
  then obtain at rs at' where r: "atlasNew True True 16 4 4 GS_PSM_T8 = Some (Some at)" "place_all at ?reqs = Some (rs, at')"
    "sorted_wrt (\<lambda>a b. taken a \<inter> taken b = {}) (zip rs ?reqs)" by blast
  have "map_option (\<lambda>(rs, at). (rs, at_mem at)) (place_all (the (the (atlasNew True True 16 4 4 GS_PSM_T8))) ?reqs) =
    Some ([Some (0, 0), None, Some (2, 0)], [7, 0, 9, 0, 8, 0, 0, 0, 0, 0, 0, 0, 0, 0, 0, 0])"
    by code_simp
  then show ?thesis using r by auto
qed

text \<open>Out of memory: the first store of \<^verbatim>\<open>allocNew\<close> faults before the test in \<^verbatim>\<open>atlasNew\<close> is reached; only
  the surface's own allocation can fail gracefully.\<close>

lemma atlas_new_oom:
  "atlasNew False surface_mem txtsize W H psm = None" "atlasNew True False txtsize W H psm = Some None"
  by (simp_all add: atlasNew_def allocNew_def)

end
