(* ===== verification/Ps2Cnf.thy ===== *)
theory Ps2Cnf
  imports OplPrelude
begin

text \<open>
  The boot file of a disc (\<^verbatim>\<open>src/ps2cnf.c\<close>) and the game identifier taken from it
  (\<^verbatim>\<open>GetStartupExecName\<close> of \<^verbatim>\<open>src/supportbase.c\<close>).

  A pointer into \<^verbatim>\<open>system_cnf\<close> is the list of the bytes from it to \<^verbatim>\<open>cnf_end\<close>; the byte at \<^verbatim>\<open>cnf_end\<close> is
  NUL.  \<open>CnfFault\<close> is a read through NULL or behind an array.
\<close>

section \<open>Definitions\<close>

definition CNF_LEN_MAX :: nat where "CNF_LEN_MAX = 1024"

definition CNF_PATH_LEN_MAX :: nat where "CNF_PATH_LEN_MAX = 64"

definition ENOENT :: int where "ENOENT = 2"

definition EIO :: int where "EIO = 5"

text \<open>What \<^verbatim>\<open>CNFGetToken\<close> returns: a pointer behind the token, NULL, or \<^verbatim>\<open>(const char *)-1\<close>.\<close>

datatype cnf_token = Behind cstring | NonMatch | UnexpectedEof

fun token_loop :: "cstring \<Rightarrow> cstring \<Rightarrow> cnf_token" where
  "token_loop cnf [] = Behind cnf"
| "token_loop [] (k # key) = UnexpectedEof"
| "token_loop (c # cnf) (k # key) =
     (if c = NUL then UnexpectedEof else if c \<noteq> k then NonMatch else token_loop cnf key)"

definition CNFGetToken :: "cstring \<Rightarrow> cstring \<Rightarrow> cnf_token" where
  "CNFGetToken cnf key = token_loop (dropWhile isspace cnf) key"

fun CNFAdvanceLine :: "cstring \<Rightarrow> cstring option" where
  "CNFAdvanceLine [] = None"
| "CNFAdvanceLine (c # start) = (if c = LF then (if start = [] then None else Some start) else CNFAdvanceLine start)"

text \<open>The loop of \<^verbatim>\<open>CNFGetKey\<close>; \<open>n\<close> rounds are left.  The result is the bytes stored and whether a NUL
  was stored behind them.  A byte that is neither printable nor a blank uses up the rounds.\<close>

fun key_loop :: "nat \<Rightarrow> cstring \<Rightarrow> cstring \<times> bool" where
  "key_loop 0 line = ([], False)"
| "key_loop (Suc n) [] = ([], False)"
| "key_loop (Suc n) (c # line) =
     (if c = NUL then ([], False)
      else if isgraph c then (case key_loop n line of (k, t) \<Rightarrow> (c # k, t))
      else if isspace c then ([], True)
      else key_loop n (c # line))"

definition CNFGetKey :: "cstring \<Rightarrow> cstring \<Rightarrow> cstring option" where
  "CNFGetKey line key =
     (case dropWhile isspace line of
        [] \<Rightarrow> None
      | c # r \<Rightarrow> if c = NUL then None
          else (case key_loop CNF_PATH_LEN_MAX (c # r) of
                  (k, t) \<Rightarrow> let b = k @ drop (length k) key in Some (if t then b[length k := NUL] else b)))"

datatype 'a cnf_result = CnfOk 'a | CnfErr int | CnfFault

lemma length_advance: "CNFAdvanceLine s = Some r \<Longrightarrow> length r < length s"
  by (induction s) (auto split: if_splits)

function find_boot :: "cstring \<Rightarrow> cstring option" where
  "find_boot cnf_start =
     (case CNFGetToken cnf_start ''BOOT2'' of
        NonMatch \<Rightarrow> (case CNFAdvanceLine cnf_start of None \<Rightarrow> None | Some r \<Rightarrow> find_boot r)
      | UnexpectedEof \<Rightarrow> None
      | Behind p \<Rightarrow> Some p)"
  by pat_completeness auto
termination
  by (relation "measure length") (auto simp: length_advance)

declare find_boot.simps [simp del]

text \<open>A file is its bytes and whether \<^verbatim>\<open>fread\<close> delivers them; \<open>None\<close> when it cannot be opened.\<close>

type_synonym cnf_file = "(cstring \<times> bool) option"

definition ps2cnfGetBootFile :: "cnf_file \<Rightarrow> cstring \<Rightarrow> cstring cnf_result" where
  "ps2cnfGetBootFile path bootfile =
     (case path of
        None \<Rightarrow> CnfErr ENOENT
      | Some (bytes, read_ok) \<Rightarrow>
          if \<not> read_ok then CnfErr EIO
          else
            (case find_boot (take (CNF_LEN_MAX - 1) bytes) of
               None \<Rightarrow> CnfErr (-1)
             | Some p \<Rightarrow>
                 (case CNFGetToken p ''='' of
                    UnexpectedEof \<Rightarrow> CnfErr (-1)
                  | NonMatch \<Rightarrow> CnfFault
                  | Behind q \<Rightarrow>
                      (case CNFGetKey q bootfile of
                         None \<Rightarrow> CnfErr (-1)
                       | Some b \<Rightarrow> CnfOk b))))"

text \<open>The scans of \<^verbatim>\<open>GetStartupExecName\<close>; the end of the list is the end of the array \<^verbatim>\<open>ps2disc_boot\<close>.\<close>

fun skip_device :: "cstring \<Rightarrow> cstring cnf_result" where
  "skip_device [] = CnfFault"
| "skip_device (c # key) = (if c = CHR '':'' then CnfOk key else if c = NUL then CnfErr (-1) else skip_device key)"

fun scan_name :: "cstring \<Rightarrow> cstring option" where
  "scan_name [] = None"
| "scan_name (c # key) = (if c = CHR '';'' \<or> c = NUL then Some [] else map_option ((#) c) (scan_name key))"

definition GetStartupExecName :: "cnf_file \<Rightarrow> nat \<Rightarrow> cstring cnf_result" where
  "GetStartupExecName path maxlength =
     (case ps2cnfGetBootFile path (replicate CNF_PATH_LEN_MAX NUL) of
        CnfErr e \<Rightarrow> CnfErr e
      | CnfFault \<Rightarrow> CnfFault
      | CnfOk ps2disc_boot \<Rightarrow>
          (case skip_device ps2disc_boot of
             CnfErr e \<Rightarrow> CnfErr e
           | CnfFault \<Rightarrow> CnfFault
           | CnfOk key \<Rightarrow>
               (case scan_name (dropWhile (\<lambda>c. c = BACKSLASH) key) of
                  None \<Rightarrow> CnfFault
                | Some name \<Rightarrow>
                    (let len = min (length name) maxlength in
                     if len = 0 then CnfErr (-1) else CnfOk (take len name)))))"

section \<open>Lemmas\<close>

lemma token_loop_append: "token_loop s k = NonMatch \<Longrightarrow> token_loop (s @ t) k = NonMatch"
  by (induction s k rule: token_loop.induct) (auto split: if_splits)

lemma token_loop_key: "NUL \<notin> set k \<Longrightarrow> token_loop (k @ t) k = Behind t"
  by (induction k) auto

lemma get_token_append:
  assumes "CNFGetToken s k = NonMatch"
  shows "CNFGetToken (s @ t) k = NonMatch"
proof -
  have "dropWhile isspace s \<noteq> []"
  proof
    assume "dropWhile isspace s = []"
    with assms have "token_loop [] k = NonMatch" unfolding CNFGetToken_def by (simp only:)
    then show False by (cases k) simp_all
  qed
  then have "dropWhile isspace (s @ t) = dropWhile isspace s @ t"
    by (metis dropWhile_append dropWhile_eq_Nil_conv)
  then show ?thesis using assms token_loop_append by (simp add: CNFGetToken_def)
qed

lemma get_token_key:
  assumes "\<forall>c \<in> set w. isspace c" "NUL \<notin> set (k # key)" "\<not> isspace k"
  shows "CNFGetToken (w @ (k # key) @ t) (k # key) = Behind t"
proof -
  have "dropWhile isspace (w @ (k # key) @ t) = (k # key) @ t"
    using assms(1,3) by (simp add: dropWhile_append)
  then show ?thesis using token_loop_key [OF assms(2)] by (simp only: CNFGetToken_def)
qed

lemma advance_line: "LF \<notin> set l \<Longrightarrow> t \<noteq> [] \<Longrightarrow> CNFAdvanceLine (l @ LF # t) = Some t"
  by (induction l) auto

text \<open>Lines before the entry are passed over.\<close>

lemma find_boot_lines:
  assumes "\<forall>l \<in> set ls. LF \<notin> set l \<and> CNFGetToken (l @ [LF]) ''BOOT2'' = NonMatch" "t \<noteq> []"
  shows "find_boot (concat (map (\<lambda>l. l @ [LF]) ls) @ t) = find_boot t"
  using assms(1)
proof (induction ls)
  case (Cons l ls)
  let ?r = "concat (map (\<lambda>l. l @ [LF]) ls) @ t"
  have "CNFGetToken ((l @ [LF]) @ ?r) ''BOOT2'' = NonMatch" using Cons.prems get_token_append [of "l @ [LF]" _ ?r] by simp
  moreover have "CNFAdvanceLine (l @ LF # ?r) = Some ?r" using Cons.prems assms(2) advance_line by simp
  ultimately have "find_boot (l @ LF # ?r) = find_boot ?r" by (simp add: find_boot.simps [of "l @ LF # ?r"])
  then show ?case using Cons by simp
qed simp

lemma key_loop_graph:
  "\<forall>c \<in> set k. isgraph c \<and> c \<noteq> NUL \<Longrightarrow> length k < n \<Longrightarrow> t = [] \<or> (isspace (hd t) \<and> \<not> isgraph (hd t) \<and> hd t \<noteq> NUL) \<Longrightarrow>
   key_loop n (k @ t) = (k, t \<noteq> [])"
proof (induction k arbitrary: n)
  case Nil
  then show ?case by (cases n; cases t) auto
next
  case (Cons c k)
  then show ?case by (cases n) auto
qed

lemma isgraph_not_space: "isgraph c \<Longrightarrow> \<not> isspace c"
  by (auto simp: isgraph_def isspace_def)

lemma not_graph_NUL [simp]: "\<not> isgraph NUL" "\<not> isspace NUL"
  by (simp_all add: isgraph_def isspace_def char_code_def)

lemma get_key_graph:
  assumes k: "\<forall>c \<in> set k. isgraph c" "k \<noteq> []" "length k < CNF_PATH_LEN_MAX"
    and w: "\<forall>c \<in> set w. isspace c" and t: "t = [] \<or> isspace (hd t)"
  shows "CNFGetKey (w @ k @ t) (replicate CNF_PATH_LEN_MAX NUL) = Some (k @ replicate (CNF_PATH_LEN_MAX - length k) NUL)"
proof -
  obtain c r where c: "k = c # r" using k(2) by (cases k) auto
  have nul: "\<forall>c \<in> set k. isgraph c \<and> c \<noteq> NUL" using k(1) by (metis not_graph_NUL(1))
  have tt: "t = [] \<or> (isspace (hd t) \<and> \<not> isgraph (hd t) \<and> hd t \<noteq> NUL)"
    using t isgraph_not_space not_graph_NUL(2) by metis
  have dw: "dropWhile isspace (w @ k @ t) = c # r @ t"
    using w k(1) c isgraph_not_space by (simp add: dropWhile_append)
  have kl: "key_loop CNF_PATH_LEN_MAX (c # r @ t) = (k, t \<noteq> [])" using key_loop_graph [OF nul k(3) tt] c by simp
  have upd: "(k @ replicate n NUL)[length k := NUL] = k @ replicate n NUL" for n
    by (cases n) (simp_all add: list_update_append list_update_beyond)
  show ?thesis using dw kl nul c upd by (auto simp: CNFGetKey_def Let_def)
qed

lemma skip_device_ok:
  "CHR '':'' \<notin> set d \<Longrightarrow> NUL \<notin> set d \<Longrightarrow> skip_device (d @ CHR '':'' # t) = CnfOk t"
  by (induction d) auto

lemma scan_name_ok:
  "CHR '';'' \<notin> set s \<Longrightarrow> NUL \<notin> set s \<Longrightarrow> c = CHR '';'' \<or> c = NUL \<Longrightarrow> scan_name (s @ c # t) = Some s"
  by (induction s) auto

section \<open>Properties\<close>

text \<open>The identifier of a game image: a \<^verbatim>\<open>SYSTEM.CNF\<close> whose lines before the entry do not start with
  \<^verbatim>\<open>BOOT2\<close> and whose entry reads \<^verbatim>\<open>BOOT2 = device:\name;version\<close>, with any blanks around the equals
  sign and a path shorter than 64 bytes, gives the first 11 bytes of the name, whatever follows.\<close>

lemma ps2cnf_startup:
  assumes lines: "\<forall>l \<in> set ls. LF \<notin> set l \<and> CNFGetToken (l @ [LF]) ''BOOT2'' = NonMatch"
    and blanks: "\<forall>c \<in> set (wa @ wb @ wc). isspace c" "rest = [] \<or> isspace (hd rest)"
    and boot: "boot = dev @ '':'' @ replicate n BACKSLASH @ name @ '';'' @ version"
    and chars: "\<forall>c \<in> set boot. isgraph c" "length boot < CNF_PATH_LEN_MAX"
    and parts: "CHR '':'' \<notin> set dev" "CHR '';'' \<notin> set name" "name \<noteq> []" "hd name \<noteq> BACKSLASH"
    and cnf: "cnf = concat (map (\<lambda>l. l @ [LF]) ls) @ wa @ ''BOOT2'' @ wb @ ''='' @ wc @ boot @ rest"
    and size: "length cnf < CNF_LEN_MAX" and maxlength: "0 < maxlength"
  shows "GetStartupExecName (Some (cnf, True)) maxlength = CnfOk (take maxlength name)"
proof -
  let ?entry = "wa @ ''BOOT2'' @ wb @ ''='' @ wc @ boot @ rest"
  have "CNFGetToken ?entry ''BOOT2'' = Behind (wb @ ''='' @ wc @ boot @ rest)"
    using get_token_key [of wa "CHR ''B''" "''OOT2''"] blanks(1) by (simp add: isspace_def char_code_def)
  then have fe: "find_boot ?entry = Some (wb @ ''='' @ wc @ boot @ rest)" by (subst find_boot.simps) simp
  have ne: "?entry \<noteq> []" by simp
  have fb: "find_boot cnf = Some (wb @ ''='' @ wc @ boot @ rest)"
    using find_boot_lines [OF lines ne] fe cnf by (simp only:)
  have eq: "CNFGetToken (wb @ ''='' @ wc @ boot @ rest) ''='' = Behind (wc @ boot @ rest)"
    using get_token_key [of wb "CHR ''=''" "[]"] blanks(1) by (simp add: isspace_def char_code_def)
  have "boot \<noteq> []" using boot by simp
  then have key: "CNFGetKey (wc @ boot @ rest) (replicate CNF_PATH_LEN_MAX NUL) = Some (boot @ replicate (CNF_PATH_LEN_MAX - length boot) NUL)"
    using get_key_graph [OF chars(1) _ chars(2), of wc rest] blanks by simp
  have nul: "NUL \<notin> set boot" using chars(1) not_graph_NUL(1) by metis
  let ?tail = "replicate (CNF_PATH_LEN_MAX - length boot) NUL"
  have bf: "ps2cnfGetBootFile (Some (cnf, True)) (replicate CNF_PATH_LEN_MAX NUL) = CnfOk (boot @ ?tail)"
    using fb eq key size by (simp add: ps2cnfGetBootFile_def)
  have dev: "skip_device (boot @ ?tail) = CnfOk (replicate n BACKSLASH @ name @ '';'' @ version @ ?tail)"
    using skip_device_ok parts(1) nul boot by simp
  have "dropWhile (\<lambda>c. c = BACKSLASH) (replicate n BACKSLASH @ name @ '';'' @ version @ ?tail) = name @ '';'' @ version @ ?tail"
    using parts(3,4) by (cases name) (auto simp: dropWhile_append)
  moreover have "scan_name (name @ '';'' @ version @ ?tail) = Some name"
    using scan_name_ok [of name "CHR '';''" "version @ ?tail"] parts(2) nul boot by simp
  ultimately show ?thesis using bf dev parts(3) maxlength by (simp add: GetStartupExecName_def Let_def min_def)
qed

lemma ps2cnf_startup_witness:
  "GetStartupExecName (Some (''VER = 1.00'' @ [CR, LF] @ ''BOOT2 = cdrom0:'' @ [BACKSLASH] @ ''SLUS_200.02;1'' @ [CR, LF] @ ''VMODE = NTSC'', True)) 11 =
   CnfOk ''SLUS_200.02''"
proof -
  have "GetStartupExecName (Some (''VER = 1.00'' @ [CR, LF] @ ''BOOT2 = cdrom0:'' @ [BACKSLASH] @ ''SLUS_200.02;1'' @ [CR, LF] @ ''VMODE = NTSC'', True)) 11 =
    CnfOk (take 11 ''SLUS_200.02'')"
  proof (rule ps2cnf_startup [where ls = "[''VER = 1.00'' @ [CR]]" and wa = "[]" and wb = "'' ''" and wc = "'' ''"
        and dev = "''cdrom0''" and n = 1 and version = "''1''" and rest = "[CR, LF] @ ''VMODE = NTSC''"
        and boot = "''cdrom0:'' @ [BACKSLASH] @ ''SLUS_200.02;1''"])
  qed (simp_all add: CNFGetToken_def isspace_def isgraph_def char_code_def CNF_PATH_LEN_MAX_def CNF_LEN_MAX_def)
  then show ?thesis by simp
qed

text \<open>Malformed entries: \<^verbatim>\<open>BOOT2\<close> that is not followed by an equals sign makes \<^verbatim>\<open>CNFGetKey\<close> read through
  NULL, since only \<^verbatim>\<open>(const char *)-1\<close> is tested; a path of 64 bytes or more is not terminated, and the
  scan for its end leaves the array.\<close>

lemma ps2cnf_no_equals:
  assumes "CNFGetToken cnf ''BOOT2'' = Behind p" "CNFGetToken p ''='' = NonMatch" "length cnf < CNF_LEN_MAX"
  shows "ps2cnfGetBootFile (Some (cnf, True)) buf = CnfFault"
  using assms by (simp add: ps2cnfGetBootFile_def find_boot.simps [of cnf])

lemma key_loop_full: "\<forall>c \<in> set k. isgraph c \<Longrightarrow> n \<le> length k \<Longrightarrow> key_loop n k = (take n k, False)"
proof (induction k arbitrary: n)
  case (Cons c k)
  then have "c \<noteq> NUL" using not_graph_NUL(1) by auto
  then show ?case using Cons by (cases n) auto
qed simp

lemma skip_device_sub: "CHR '':'' \<in> set b \<Longrightarrow> NUL \<notin> set b \<Longrightarrow> \<exists>key. skip_device b = CnfOk key \<and> set key \<subseteq> set b"
  by (induction b) auto

lemma scan_name_None: "CHR '';'' \<notin> set s \<Longrightarrow> NUL \<notin> set s \<Longrightarrow> scan_name s = None"
  by (induction s) auto

lemma ps2cnf_long_path:
  assumes g: "\<forall>c \<in> set boot. isgraph c" and len: "CNF_PATH_LEN_MAX \<le> length boot" "length boot < 1000"
    and colon: "CHR '':'' \<in> set (take CNF_PATH_LEN_MAX boot)" and semi: "CHR '';'' \<notin> set (take CNF_PATH_LEN_MAX boot)"
  shows "GetStartupExecName (Some (''BOOT2='' @ boot, True)) maxlength = CnfFault"
proof -
  let ?b = "take CNF_PATH_LEN_MAX boot"
  obtain c r where c: "boot = c # r" using len(1) by (cases boot) (auto simp: CNF_PATH_LEN_MAX_def)
  have nul: "NUL \<notin> set boot" using g not_graph_NUL(1) by metis
  then have nb: "NUL \<notin> set ?b" by (meson in_set_takeD)
  have "find_boot (''BOOT2='' @ boot) = Some (''='' @ boot)"
    by (subst find_boot.simps) (simp add: CNFGetToken_def isspace_def char_code_def)
  moreover have "CNFGetToken (''='' @ boot) ''='' = Behind boot" by (simp add: CNFGetToken_def isspace_def char_code_def)
  moreover have "CNFGetKey boot (replicate CNF_PATH_LEN_MAX NUL) = Some ?b"
    using key_loop_full [OF g len(1)] c g nul isgraph_not_space [of c] len(1) by (auto simp: CNFGetKey_def Let_def)
  ultimately have bf: "ps2cnfGetBootFile (Some (''BOOT2='' @ boot, True)) (replicate CNF_PATH_LEN_MAX NUL) = CnfOk ?b"
    using len(2) by (simp add: ps2cnfGetBootFile_def CNF_LEN_MAX_def)
  obtain key where key: "skip_device ?b = CnfOk key" "set key \<subseteq> set ?b" using skip_device_sub [OF colon nb] by blast
  let ?k = "dropWhile (\<lambda>c. c = BACKSLASH) key"
  have "set ?k \<subseteq> set ?b" using key(2) set_dropWhileD by fast
  then have "scan_name ?k = None" using semi nb scan_name_None [of ?k] by blast
  then show ?thesis using bf key(1) by (simp add: GetStartupExecName_def)
qed

end
