(* ===== verification/ByteLayout.thy ===== *)
theory ByteLayout
  imports OplPrelude
begin

text \<open>
  Bytes of structures in files: the EE is little-endian; arrays of structures are read in elements of
  a fixed size.  The locale \<open>fixed_layout\<close> is the contract of a structure that is written to a file and
  read back; it is interpreted on the game entries of \<^verbatim>\<open>games.bin\<close> and the index entries of the archive
  cache.
\<close>

definition byte_char :: "u8 \<Rightarrow> char" where
  "byte_char b = char_of (unat b)"

definition char_byte :: "char \<Rightarrow> u8" where
  "char_byte c = of_nat (of_char c)"

definition le32 :: "u32 \<Rightarrow> char list" where
  "le32 w = map (\<lambda>i. char_of (unat (take_bit 8 (drop_bit (8 * i) w)))) [0, 1, 2, 3]"

definition of_le32 :: "char list \<Rightarrow> u32" where
  "of_le32 cs = foldr (\<lambda>i w. or (push_bit (8 * i) (of_nat (of_char (cs ! i)))) w) [0, 1, 2, 3] 0"

definition le16 :: "u16 \<Rightarrow> char list" where
  "le16 w = [char_of (unat (take_bit 8 w)), char_of (unat (take_bit 8 (drop_bit 8 w)))]"

definition of_le16 :: "char list \<Rightarrow> u16" where
  "of_le16 cs = or (of_nat (of_char (cs ! 0))) (push_bit 8 (of_nat (of_char (cs ! 1))))"

text \<open>Elements of \<open>n\<close> bytes; an incomplete one at the end is left out.\<close>

function elements :: "nat \<Rightarrow> char list \<Rightarrow> char list list" where
  "elements n bs = (if n = 0 \<or> length bs < n then [] else take n bs # elements n (drop n bs))"
  by pat_completeness auto
termination
  by (relation "measure (\<lambda>(n, bs). length bs)") auto

declare elements.simps [simp del]

lemma char_byte_char [simp]: "char_byte (byte_char b) = b"
proof -
  have "unat b < 256" using unsigned_less [of b, where ?'a = nat] by simp
  then show ?thesis by (simp add: char_byte_def byte_char_def)
qed

lemma low_byte [simp]: "(of_nat (of_char (char_of (unat (take_bit 8 x :: u32)) :: char)) :: u32) = take_bit 8 x"
proof -
  have "unat (take_bit 8 x) < 256"
    using take_bit_nat_less_exp [of 8 "unat x"] by (simp add: unsigned_take_bit_eq)
  then show ?thesis by simp
qed

lemma le32_back: "of_le32 (le32 w) = w"
proof (rule bit_word_eqI)
  fix n
  assume n: "n < LENGTH(32)"
  then consider "n < 8" | "8 \<le> n" "n < 16" | "16 \<le> n" "n < 24" | "24 \<le> n" "n < 32" by force
  then show "bit (of_le32 (le32 w)) n = bit w n"
    by cases (auto simp: of_le32_def le32_def bit_simps simp del: of_char_of)
qed

lemma low_byte16 [simp]: "(of_nat (of_char (char_of (unat (take_bit 8 x :: u16)) :: char)) :: u16) = take_bit 8 x"
proof -
  have "unat (take_bit 8 x) < 256"
    using take_bit_nat_less_exp [of 8 "unat x"] by (simp add: unsigned_take_bit_eq)
  then show ?thesis by simp
qed

lemma of_le32_append [simp]: "of_le32 (le32 w @ r) = w"
  using le32_back [of w] by (simp add: of_le32_def le32_def)

lemma length_le16 [simp]: "length (le16 w) = 2" by (simp add: le16_def)

lemma of_le16_append [simp]: "of_le16 (le16 w @ r) = w"
proof -
  have "or (take_bit 8 w) (push_bit 8 (take_bit 8 (drop_bit 8 w))) = w"
  proof (rule bit_word_eqI)
    fix n
    assume "n < LENGTH(16)"
    then consider "n < 8" | "8 \<le> n" "n < 16" by force
    then show "bit (or (take_bit 8 w) (push_bit 8 (take_bit 8 (drop_bit 8 w)))) n = bit w n" by cases (auto simp: bit_simps)
  qed
  then show ?thesis by (simp add: of_le16_def le16_def del: of_char_of)
qed

lemma length_le32 [simp]: "length (le32 w) = 4" by (simp add: le32_def)

lemma elements_concat:
  "0 < n \<Longrightarrow> \<forall>x \<in> set xs. length x = n \<Longrightarrow> elements n (concat xs) = xs"
  by (induction xs) (simp_all add: elements.simps)

lemma length_elements: "0 < n \<Longrightarrow> length (elements n bs) = length bs div n"
proof (induction n bs rule: elements.induct)
  case (1 n bs)
  show ?case
  proof (cases "length bs < n")
    case False
    then have "length (elements n (drop n bs)) = length (drop n bs) div n" using 1 by simp
    then show ?thesis using False 1(2) by (subst elements.simps) (simp add: le_div_geq)
  next
    case True
    then show ?thesis by (simp add: elements.simps)
  qed
qed

lemma cstr_replicate [simp]: "cstr (replicate n NUL) = []"
  by (cases n) (simp_all add: cstr_def)

lemma cstr_append: "NUL \<in> set s \<Longrightarrow> cstr (s @ t) = cstr s"
  by (simp add: cstr_def takeWhile_append1)

lemma cstr_append_free: "NUL \<notin> set s \<Longrightarrow> cstr (s @ t) = s @ cstr t"
  by (induction s) (auto simp: cstr_def)

section \<open>Arrays of structures in files\<close>

text \<open>A structure with a fixed size that its bytes determine.\<close>

locale fixed_layout =
  fixes ok :: "'a \<Rightarrow> bool" and enc :: "'a \<Rightarrow> char list" and dec :: "char list \<Rightarrow> 'a" and n :: nat
  assumes enc_pos: "0 < n"
    and enc_length: "ok x \<Longrightarrow> length (enc x) = n"
    and dec_enc: "ok x \<Longrightarrow> dec (enc x) = x"
begin

lemma array_length: "\<forall>x \<in> set xs. ok x \<Longrightarrow> length (concat (map enc xs)) = n * length xs"
  by (induction xs) (simp_all add: enc_length)

lemma array_elements: "\<forall>x \<in> set xs. ok x \<Longrightarrow> elements n (concat (map enc xs)) = map enc xs"
  using enc_pos enc_length by (intro elements_concat) auto

lemma array_back: "\<forall>x \<in> set xs. ok x \<Longrightarrow> map dec (elements n (concat (map enc xs))) = xs"
  by (simp add: array_elements dec_enc map_idI)

lemma array_torn: "\<forall>x \<in> set xs. ok x \<Longrightarrow> k < n * length xs \<Longrightarrow> length (elements n (take k (concat (map enc xs)))) < length xs"
  using enc_pos by (simp add: length_elements array_length div_less_iff_less_mult mult.commute)

end

end
