(* ===== verification/GameList.thy ===== *)
theory GameList
  imports Ps2Cnf ByteLayout
begin

text \<open>
  Game lists (\<^verbatim>\<open>src/supportbase.c\<close>): scanning \<^verbatim>\<open>CD\<close> and \<^verbatim>\<open>DVD\<close> for disc images with the cache file
  \<^verbatim>\<open>games.bin\<close>, folder rows, the split games of \<^verbatim>\<open>ul.cfg\<close>, the published list, and the paths under which
  games are launched, deleted and renamed.

  A \<^verbatim>\<open>char\<close> array is the list of its bytes.  Structures that are written to files have their byte
  layout.  An array access out of bounds makes an operation return \<open>None\<close>.  The record \<open>device\<close> holds what
  the file system and the allocator answer.
\<close>

section \<open>Data\<close>

definition UL_GAME_NAME_MAX :: nat where "UL_GAME_NAME_MAX = 32"
definition ISO_GAME_NAME_MAX :: nat where "ISO_GAME_NAME_MAX = 160"
definition ISO_GAME_EXTENSION_MAX :: nat where "ISO_GAME_EXTENSION_MAX = 4"
definition GAME_STARTUP_MAX :: nat where "GAME_STARTUP_MAX = 12"
definition ISO_GAME_FNAME_MAX :: nat where "ISO_GAME_FNAME_MAX = ISO_GAME_NAME_MAX + ISO_GAME_EXTENSION_MAX"
definition FOLDER_SUB_MAX :: nat where "FOLDER_SUB_MAX = 128"

definition GAME_FORMAT_USBLD :: u8 where "GAME_FORMAT_USBLD = 0"
definition GAME_FORMAT_OLD_ISO :: u8 where "GAME_FORMAT_OLD_ISO = 1"
definition GAME_FORMAT_ISO :: u8 where "GAME_FORMAT_ISO = 2"
definition GAME_FORMAT_FOLDER :: u8 where "GAME_FORMAT_FOLDER = 3"

text \<open>Media types of \<^verbatim>\<open>libcdvd\<close>.\<close>

definition SCECdPS2CD :: u8 where "SCECdPS2CD = 0x12"
definition SCECdPS2DVD :: u8 where "SCECdPS2DVD = 0x14"

lemmas game_consts = UL_GAME_NAME_MAX_def ISO_GAME_NAME_MAX_def ISO_GAME_EXTENSION_MAX_def GAME_STARTUP_MAX_def
  ISO_GAME_FNAME_MAX_def FOLDER_SUB_MAX_def

lemmas game_formats = GAME_FORMAT_USBLD_def GAME_FORMAT_OLD_ISO_def GAME_FORMAT_ISO_def GAME_FORMAT_FOLDER_def

record base_game_info =
  g_name :: "char list"
  g_startup :: "char list"
  g_extension :: "char list"
  g_parts :: u8
  g_media :: u8
  g_format :: u8
  g_sizeMB :: u32

definition zero_game :: base_game_info where
  "zero_game = \<lparr>g_name = replicate (ISO_GAME_NAME_MAX + 1) NUL, g_startup = replicate (GAME_STARTUP_MAX + 1) NUL,
     g_extension = replicate (ISO_GAME_EXTENSION_MAX + 1) NUL, g_parts = 0, g_media = 0, g_format = 0, g_sizeMB = 0\<rparr>"

text \<open>The structure has two bytes of padding before the size.\<close>

definition GAME_INFO_SIZE :: nat where "GAME_INFO_SIZE = 188"

definition game_bytes :: "base_game_info \<Rightarrow> char list" where
  "game_bytes g = g_name g @ g_startup g @ g_extension g @ map byte_char [g_parts g, g_media g, g_format g] @ [NUL, NUL] @
     le32 (g_sizeMB g)"

definition game_of_bytes :: "char list \<Rightarrow> base_game_info" where
  "game_of_bytes bs = \<lparr>g_name = take 161 bs, g_startup = take 13 (drop 161 bs), g_extension = take 5 (drop 174 bs),
     g_parts = char_byte (bs ! 179), g_media = char_byte (bs ! 180), g_format = char_byte (bs ! 181),
     g_sizeMB = of_le32 (drop 184 bs)\<rparr>"

text \<open>The C library on arrays: \<^verbatim>\<open>strncpy\<close> pads with NUL; \<^verbatim>\<open>memcpy\<close> to the start of an array.\<close>

definition strncpy :: "char list \<Rightarrow> cstring \<Rightarrow> nat \<Rightarrow> char list" where
  "strncpy dst src n = take n src @ replicate (n - length src) NUL @ drop n dst"

definition memcpy :: "char list \<Rightarrow> char list \<Rightarrow> nat \<Rightarrow> char list" where
  "memcpy dst src n = take n src @ drop n dst"

text \<open>What the device and the allocator answer: the names \<^verbatim>\<open>readdir\<close> lists, mounted images with their
  \<^verbatim>\<open>SYSTEM.CNF\<close>, failures of allocations, opens and writes, and what lies behind the cache array.\<close>

record device =
  dv_dir :: "cstring \<Rightarrow> cstring list option"
  dv_mount :: "cstring \<Rightarrow> cnf_file option"
  dv_node :: "cstring \<Rightarrow> bool"
  dv_cache_mem :: bool
  dv_cache_read :: bool
  dv_save_mem :: bool
  dv_save_open :: bool
  dv_save_write :: bool
  dv_beyond :: "nat \<Rightarrow> base_game_info"
  dv_list_mem :: bool
  dv_junk :: "char list"

type_synonym files = "cstring \<Rightarrow> char list option"

section \<open>Scanning for images\<close>

definition isValidIsoName :: "cstring \<Rightarrow> (u8 \<times> nat) option" where
  "isValidIsoName name =
     (let len = length name in
      if len < 5 then None
      else if strcasecmp_eq (drop (len - 4) name) ''.iso'' \<or> strcasecmp_eq (drop (len - 4) name) ''.zso'' then
        if 17 \<le> len \<and> name ! 4 = CHR ''_'' \<and> name ! 8 = CHR ''.'' \<and> name ! 11 = CHR ''.''
        then Some (GAME_FORMAT_OLD_ISO, len - 16)
        else Some (GAME_FORMAT_ISO, len - 4)
      else None)"

definition games_bin :: "cstring \<Rightarrow> cstring option" where
  "games_bin path = (let f = path @ ''/games.bin'' in if length f < 256 then Some f else None)"

text \<open>\<open>None\<close> inside: the cache could not be loaded.\<close>

definition loadISOGameListCache :: "device \<Rightarrow> files \<Rightarrow> cstring \<Rightarrow> base_game_info list option option" where
  "loadISOGameListCache dv fs path =
     (case games_bin path of
        None \<Rightarrow> None
      | Some filename \<Rightarrow> Some
          (case fs filename of
             None \<Rightarrow> None
           | Some bytes \<Rightarrow>
               let count = length bytes div GAME_INFO_SIZE in
               if 0 < count then
                 if dv_cache_mem dv then
                   if dv_cache_read dv then Some (map game_of_bytes (elements GAME_INFO_SIZE bytes)) else None
                 else None
               else None))"

text \<open>A string of a cached entry, read from its offset in the structure.\<close>

definition str_at :: "nat \<Rightarrow> base_game_info \<Rightarrow> cstring" where
  "str_at off g = cstr (drop off (game_bytes g))"

definition queryISOGameListCache :: "base_game_info list \<Rightarrow> cstring \<Rightarrow> base_game_info option" where
  "queryISOGameListCache cache filename =
     List.find (\<lambda>g. filename = bounded (ISO_GAME_FNAME_MAX + 1) (str_at 0 g @ str_at 174 g)) cache"

definition same_entry :: "base_game_info \<Rightarrow> base_game_info \<Rightarrow> bool" where
  "same_entry c g \<longleftrightarrow> strncmp_eq (ISO_GAME_NAME_MAX + 1) (cstr (g_name c)) (cstr (g_name g)) \<and>
     strncmp_eq (ISO_GAME_EXTENSION_MAX + 1) (cstr (g_extension c)) (cstr (g_extension g))"

text \<open>The comparison of the list with the cache: the inner loop over \<open>j\<close> tests \<^verbatim>\<open>cache->games[i]\<close> in each
  round, so it ends at once or runs to the end; for \<open>i\<close> beyond the cache it reads what lies behind it.\<close>

definition cache_at :: "device \<Rightarrow> base_game_info list \<Rightarrow> nat \<Rightarrow> base_game_info" where
  "cache_at dv cache i = (if i < length cache then cache ! i else dv_beyond dv i)"

fun inner_loop :: "bool \<Rightarrow> nat \<Rightarrow> nat \<Rightarrow> nat" where
  "inner_loop same 0 j = j"
| "inner_loop same (Suc left) j = (if same then j else inner_loop same left (j + 1))"

fun game_added :: "device \<Rightarrow> base_game_info list \<Rightarrow> nat \<Rightarrow> base_game_info list \<Rightarrow> bool" where
  "game_added dv cache i [] = False"
| "game_added dv cache i (game # games) =
     (if inner_loop (same_entry (cache_at dv cache i) game) (length cache) 0 = length cache then True
      else game_added dv cache (i + 1) games)"

definition list_modified :: "device \<Rightarrow> base_game_info list option \<Rightarrow> base_game_info list \<Rightarrow> nat \<Rightarrow> bool" where
  "list_modified dv cache head count =
     (case cache of
        Some c \<Rightarrow> head \<noteq> [] \<and> 0 < count \<and> (game_added dv c 0 (take count head) \<or> count \<noteq> length c)
      | None \<Rightarrow> head \<noteq> [] \<and> 0 < count)"

definition updateISOGameList ::
    "device \<Rightarrow> files \<Rightarrow> cstring \<Rightarrow> base_game_info list option \<Rightarrow> base_game_info list \<Rightarrow> nat \<Rightarrow> files option" where
  "updateISOGameList dv fs path cache head count =
     (if \<not> list_modified dv cache head count then Some fs
      else
        (case games_bin path of
           None \<Rightarrow> None
         | Some filename \<Rightarrow> Some
             (if head \<noteq> [] \<and> 0 < count then
                if dv_save_mem dv then
                  if dv_save_open dv then
                    if dv_save_write dv then fs(filename \<mapsto> concat (map game_bytes (take count head)))
                    else fs(filename := None)
                  else fs
                else fs
              else fs(filename := None))))"

text \<open>One directory entry.  \<open>Skip\<close> leaves it out, \<open>Stop\<close> ends the loop, \<open>Fault\<close> is a memory error.\<close>

datatype scan_entry = Skip | Stop | Fault | Game base_game_info | Folder base_game_info

definition folder_entry :: "device \<Rightarrow> cstring \<Rightarrow> u8 \<Rightarrow> cstring \<Rightarrow> scan_entry" where
  "folder_entry dv path type d_name =
     (if (d_name = [] \<or> hd d_name \<noteq> CHR ''.'') \<and> length d_name \<le> ISO_GAME_NAME_MAX \<and> length path + 1 + length d_name < 256 \<and>
         dv_dir dv (path @ ''/'' @ d_name) \<noteq> None \<and> dv_node dv d_name
      then Folder (zero_game\<lparr>g_format := GAME_FORMAT_FOLDER, g_media := type,
             g_name := (strncpy (g_name zero_game) d_name ISO_GAME_NAME_MAX)[ISO_GAME_NAME_MAX := NUL]\<rparr>)
      else Skip)"

definition old_iso_entry :: "cstring \<Rightarrow> nat \<Rightarrow> base_game_info" where
  "old_iso_entry d_name NameLen = zero_game\<lparr>
     g_name := (strncpy (g_name zero_game) (drop GAME_STARTUP_MAX d_name) NameLen)[NameLen := NUL],
     g_startup := (strncpy (g_startup zero_game) d_name (GAME_STARTUP_MAX - 1))[GAME_STARTUP_MAX - 1 := NUL],
     g_extension := (strncpy (g_extension zero_game) (drop (GAME_STARTUP_MAX + NameLen) d_name) ISO_GAME_EXTENSION_MAX)
       [ISO_GAME_EXTENSION_MAX := NUL]\<rparr>"

definition iso_entry :: "cstring \<Rightarrow> cstring \<Rightarrow> nat \<Rightarrow> base_game_info" where
  "iso_entry startup d_name NameLen = zero_game\<lparr>
     g_startup := memcpy (g_startup zero_game) (startup @ [NUL]) (length startup + 1),
     g_name := (strncpy (g_name zero_game) d_name NameLen)[NameLen := NUL],
     g_extension := (strncpy (g_extension zero_game) (drop NameLen d_name) ISO_GAME_EXTENSION_MAX)
       [ISO_GAME_EXTENSION_MAX := NUL]\<rparr>"

definition stamp :: "u8 \<Rightarrow> u8 \<Rightarrow> base_game_info \<Rightarrow> base_game_info" where
  "stamp type format game = game\<lparr>g_parts := 1, g_media := type, g_format := format, g_sizeMB := 0\<rparr>"

definition scan_one :: "device \<Rightarrow> base_game_info list option \<Rightarrow> cstring \<Rightarrow> u8 \<Rightarrow> bool \<Rightarrow> cstring \<Rightarrow> scan_entry" where
  "scan_one dv cache path type folders d_name =
     (case isValidIsoName d_name of
        None \<Rightarrow> if folders then folder_entry dv path type d_name else Skip
      | Some (format, NameLen) \<Rightarrow>
          if ISO_GAME_NAME_MAX < NameLen then (if folders then folder_entry dv path type d_name else Skip)
          else if 256 \<le> length path + 1 + length d_name then Skip
          else if \<not> dv_node dv d_name then Stop
          else if format = GAME_FORMAT_OLD_ISO then Game (stamp type format (old_iso_entry d_name NameLen))
          else
            (case (case cache of None \<Rightarrow> None | Some c \<Rightarrow> queryISOGameListCache c d_name) of
               Some cachedGInfo \<Rightarrow> Game (stamp type format cachedGInfo)
             | None \<Rightarrow>
                 (case dv_mount dv (path @ ''/'' @ d_name) of
                    None \<Rightarrow> Skip
                  | Some cnf \<Rightarrow>
                      (case GetStartupExecName cnf (GAME_STARTUP_MAX - 1) of
                         CnfErr e \<Rightarrow> Skip
                       | CnfFault \<Rightarrow> Fault
                       | CnfOk startup \<Rightarrow> Game (stamp type format (iso_entry startup d_name NameLen))))))"

text \<open>New games and folders go to the front of their lists.\<close>

fun scan_loop :: "device \<Rightarrow> base_game_info list option \<Rightarrow> cstring \<Rightarrow> u8 \<Rightarrow> bool \<Rightarrow> cstring list \<Rightarrow>
    nat \<times> base_game_info list \<times> base_game_info list \<Rightarrow> (nat \<times> base_game_info list \<times> base_game_info list) option" where
  "scan_loop dv cache path type folders [] s = Some s"
| "scan_loop dv cache path type folders (d_name # ds) (count, glist, flist) =
     (case scan_one dv cache path type folders d_name of
        Skip \<Rightarrow> scan_loop dv cache path type folders ds (count, glist, flist)
      | Stop \<Rightarrow> Some (count, glist, flist)
      | Fault \<Rightarrow> None
      | Game g \<Rightarrow> scan_loop dv cache path type folders ds (count + 1, g # glist, flist)
      | Folder g \<Rightarrow> scan_loop dv cache path type folders ds (count, glist, g # flist))"

definition scanForISO :: "device \<Rightarrow> files \<Rightarrow> cstring \<Rightarrow> u8 \<Rightarrow> bool \<Rightarrow> base_game_info list \<Rightarrow> base_game_info list \<Rightarrow>
    (int \<times> base_game_info list \<times> base_game_info list \<times> files) option" where
  "scanForISO dv fs path type folders glist flist =
     (case loadISOGameListCache dv fs path of
        None \<Rightarrow> None
      | Some cache \<Rightarrow>
          (case dv_dir dv path of
             None \<Rightarrow> Some (-1, glist, flist, fs)
           | Some ds \<Rightarrow>
               if 255 \<le> length path then Some (0, glist, flist, fs)
               else
                 (case scan_loop dv cache path type folders ds (0, glist, flist) of
                    None \<Rightarrow> None
                  | Some (count, glist', flist') \<Rightarrow>
                      map_option (\<lambda>fs'. (int count, glist', flist', fs')) (updateISOGameList dv fs path cache glist' count))))"

section \<open>Reading the list\<close>

text \<open>An entry of \<^verbatim>\<open>ul.cfg\<close>, of 64 bytes.\<close>

definition UL_ENTRY_SIZE :: nat where "UL_ENTRY_SIZE = 64"

definition ul_bytes :: "char list \<Rightarrow> char list \<Rightarrow> u8 \<Rightarrow> u8 \<Rightarrow> char list" where
  "ul_bytes name startup parts media =
     name @ ''ul.'' @ startup @ [byte_char parts, byte_char media] @ replicate 4 NUL @ [CHR 0x08] @ replicate 10 NUL"

definition ul_game :: "char list \<Rightarrow> base_game_info \<Rightarrow> base_game_info" where
  "ul_game GameEntry g = g\<lparr>
     g_name := (memcpy (g_name g) GameEntry UL_GAME_NAME_MAX)[UL_GAME_NAME_MAX := NUL],
     g_startup := (memcpy (g_startup g) (drop 35 GameEntry) GAME_STARTUP_MAX)[GAME_STARTUP_MAX := NUL],
     g_extension := (g_extension g)[0 := NUL],
     g_parts := char_byte (GameEntry ! 47), g_media := char_byte (GameEntry ! 48),
     g_format := GAME_FORMAT_USBLD, g_sizeMB := 0\<rparr>"

text \<open>The loop over \<^verbatim>\<open>ul.cfg\<close>: \<open>rest\<close> are the bytes not yet read.  A short read leaves the end of
  \<^verbatim>\<open>GameEntry\<close> as it was.\<close>

function ul_loop :: "char list \<Rightarrow> char list \<Rightarrow> nat \<Rightarrow> base_game_info list \<Rightarrow> (nat \<times> base_game_info list) option" where
  "ul_loop rest GameEntry i newlist =
     (if rest = [] then Some (i, newlist)
      else
        let ge = memcpy GameEntry rest (min UL_ENTRY_SIZE (length rest)) in
        if i < length newlist
        then ul_loop (drop UL_ENTRY_SIZE rest) ge (i + 1) (newlist[i := ul_game ge (newlist ! i)])
        else None)"
  by pat_completeness auto
termination
  by (relation "measure (\<lambda>(rest, _). length rest)") (auto simp: UL_ENTRY_SIZE_def)

declare ul_loop.simps [simp del]

text \<open>Copying a linked list into the array while there is room.\<close>

fun copy_nodes :: "base_game_info list \<Rightarrow> nat \<Rightarrow> base_game_info list \<Rightarrow> nat \<times> base_game_info list" where
  "copy_nodes [] i newlist = (i, newlist)"
| "copy_nodes (g # nodes) i newlist =
     (if i < length newlist then copy_nodes nodes (i + 1) (newlist[i := g]) else (i, newlist))"

fun drop_dups :: "base_game_info \<Rightarrow> base_game_info list \<Rightarrow> base_game_info list" where
  "drop_dups a [] = []"
| "drop_dups a (b # bs) =
     (if strcasecmp_eq (cstr (g_name b)) (cstr (g_name a)) then drop_dups a bs else b # drop_dups a bs)"

lemma drop_dups_filter: "drop_dups a bs = filter (\<lambda>b. \<not> strcasecmp_eq (cstr (g_name b)) (cstr (g_name a))) bs"
  by (induction bs) auto

function sbDedupFolderList :: "base_game_info list \<Rightarrow> base_game_info list" where
  "sbDedupFolderList [] = []"
| "sbDedupFolderList (a # bs) = a # sbDedupFolderList (drop_dups a bs)"
  by pat_completeness auto
termination
  by (relation "measure length") (auto simp: drop_dups_filter le_imp_less_Suc)

text \<open>The caller's variables, the files and the browse path of the module.\<close>

record lists =
  ls_list :: "base_game_info list option"
  ls_fsize :: int
  ls_gamecount :: int
  ls_sub :: cstring
  ls_files :: files

definition sbSetBrowseSub :: "cstring option \<Rightarrow> lists \<Rightarrow> lists" where
  "sbSetBrowseSub sub s = s\<lparr>ls_sub := (case sub of None \<Rightarrow> [] | Some t \<Rightarrow> bounded FOLDER_SUB_MAX t)\<rparr>"

definition scan_path :: "cstring \<Rightarrow> cstring \<Rightarrow> cstring option \<Rightarrow> cstring" where
  "scan_path pfx dir sub =
     bounded 256 (case sub of None \<Rightarrow> pfx @ dir | Some t \<Rightarrow> if t = [] then pfx @ dir else pfx @ dir @ ''/'' @ t)"

text \<open>The array: allocated when there is something to hold, filled from \<^verbatim>\<open>ul.cfg\<close>, then from the lists.\<close>

definition fill_list :: "device \<Rightarrow> char list option \<Rightarrow> nat \<Rightarrow> base_game_info list \<Rightarrow> base_game_info list \<Rightarrow> base_game_info list option option" where
  "fill_list dv ul count dlist flist =
     (let total = count + (case ul of None \<Rightarrow> 0 | Some bytes \<Rightarrow> length bytes div UL_ENTRY_SIZE) + length flist in
      if 0 < total \<and> dv_list_mem dv then
        (case (case ul of None \<Rightarrow> Some (0, replicate total zero_game)
               | Some bytes \<Rightarrow> ul_loop bytes (dv_junk dv) 0 (replicate total zero_game)) of
           None \<Rightarrow> None
         | Some (i, l) \<Rightarrow>
             (case copy_nodes dlist i l of (i', l') \<Rightarrow>
                (case copy_nodes flist i' l' of (i'', l'') \<Rightarrow> Some (Some l''))))
      else Some None)"

definition sbReadList :: "device \<Rightarrow> bool \<Rightarrow> cstring \<Rightarrow> cstring option \<Rightarrow> lists \<Rightarrow> (int \<times> lists) option" where
  "sbReadList dv gEnableFolderNav pfx sub s0 =
     (let atRoot = (sub = None \<or> sub = Some []);
          s = sbSetBrowseSub sub s0;
          folders = (gEnableFolderNav \<and> sub \<noteq> None) in
      case scanForISO dv (ls_files s) (scan_path pfx ''CD'' sub) SCECdPS2CD folders [] [] of
        None \<Rightarrow> None
      | Some (cdRet, dl1, fl1, fs1) \<Rightarrow>
          (case scanForISO dv fs1 (scan_path pfx ''DVD'' sub) SCECdPS2DVD folders dl1 fl1 of
             None \<Rightarrow> None
           | Some (dvdRet, dl2, fl2, fs2) \<Rightarrow>
               let s2 = s\<lparr>ls_files := fs2\<rparr>;
                   count = (if 0 \<le> dvdRet then (if cdRet < 0 then dvdRet else cdRet + dvdRet) else cdRet);
                   fl = sbDedupFolderList fl2;
                   ul = (if atRoot then fs2 (bounded 256 (pfx @ ''ul.cfg'')) else None) in
               (case fill_list dv ul (nat (max 0 count)) dl2 fl of
                  None \<Rightarrow> None
                | Some newlist \<Rightarrow>
                    if cdRet < 0 \<and> dvdRet < 0 \<and> ul = None then Some (ls_gamecount s2, s2)
                    else
                      let published = (case newlist of None \<Rightarrow> 0 | Some l \<Rightarrow> int (length l)) in
                      Some (published, s2\<lparr>ls_list := newlist,
                        ls_fsize := (case ul of None \<Rightarrow> -1 | Some bytes \<Rightarrow> int (length bytes)),
                        ls_gamecount := published\<rparr>))))"

definition sbIsSameSize :: "files \<Rightarrow> cstring \<Rightarrow> int \<Rightarrow> bool" where
  "sbIsSameSize fs pfx prevSize \<longleftrightarrow>
     (case fs (bounded 256 (pfx @ ''ul.cfg'')) of None \<Rightarrow> -1 | Some bytes \<Rightarrow> int (length bytes)) = prevSize"

section \<open>Paths, deleting and renaming\<close>

text \<open>The checksum in the names of split games; the table is recomputed by every call.\<close>

fun crc_rounds :: "nat \<Rightarrow> u32 \<Rightarrow> u32" where
  "crc_rounds 0 crc = crc"
| "crc_rounds (Suc n) crc =
     crc_rounds n (if bit crc 31 then push_bit 1 crc else xor (push_bit 1 crc) 0x04C11DB7)"

definition crctab :: "u8 \<Rightarrow> u32" where
  "crctab i = crc_rounds 8 (push_bit 24 (of_nat (255 - unat i)))"

definition crc_byte :: "u32 \<Rightarrow> char \<Rightarrow> u32" where
  "crc_byte crc c = xor (crctab (xor (char_byte c) (of_nat (unat (drop_bit 24 crc))))) (push_bit 8 crc)"

definition USBA_crc32 :: "cstring \<Rightarrow> u32" where
  "USBA_crc32 str = foldl crc_byte (crctab 0) (take 33 (str @ [NUL]))"

definition hex_char :: "bool \<Rightarrow> nat \<Rightarrow> char" where
  "hex_char upper d = (if d < 10 then char_of (48 + d) else char_of ((if upper then 55 else 87) + d))"

text \<open>\<^verbatim>\<open>%08X\<close>, and \<^verbatim>\<open>%02x\<close> of a part number below 256.\<close>

definition show_08X :: "u32 \<Rightarrow> cstring" where
  "show_08X w = map (\<lambda>i. hex_char True (unat (drop_bit (4 * i) w) mod 16)) [7, 6, 5, 4, 3, 2, 1, 0]"

definition show_02x :: "nat \<Rightarrow> cstring" where
  "show_02x n = [hex_char False (n div 16), hex_char False (n mod 16)]"

text \<open>\<open>None\<close>: the format is none of the four and \<^verbatim>\<open>path\<close> keeps what it held.\<close>

definition sbCreatePath_name :: "cstring \<Rightarrow> base_game_info \<Rightarrow> cstring \<Rightarrow> cstring \<Rightarrow> nat \<Rightarrow> cstring \<Rightarrow> cstring option" where
  "sbCreatePath_name sub game pfx sep part game_name =
     (let subseg = (if sub \<noteq> [] then bounded (FOLDER_SUB_MAX + 2) (sub @ sep) else []);
          dir = (if g_media game = SCECdPS2CD then ''CD'' else ''DVD'') in
      if g_format game = GAME_FORMAT_USBLD then
        Some (bounded 256 (pfx @ ''ul.'' @ show_08X (USBA_crc32 game_name) @ ''.'' @ cstr (g_startup game) @ ''.'' @ show_02x part))
      else if g_format game = GAME_FORMAT_ISO then
        Some (bounded 256 (pfx @ dir @ sep @ subseg @ game_name @ cstr (g_extension game)))
      else if g_format game = GAME_FORMAT_OLD_ISO then
        Some (bounded 256 (pfx @ dir @ sep @ subseg @ cstr (g_startup game) @ ''.'' @ game_name @ cstr (g_extension game)))
      else if g_format game = GAME_FORMAT_FOLDER then Some []
      else None)"

definition sbCreatePath :: "cstring \<Rightarrow> base_game_info \<Rightarrow> cstring \<Rightarrow> cstring \<Rightarrow> nat \<Rightarrow> cstring option" where
  "sbCreatePath sub game pfx sep part = sbCreatePath_name sub game pfx sep part (cstr (g_name game))"

definition ul_entry :: "base_game_info \<Rightarrow> char list" where
  "ul_entry game = ul_bytes (take UL_GAME_NAME_MAX (g_name game)) (take GAME_STARTUP_MAX (g_startup game)) (g_parts game) (g_media game)"

definition sbRebuildULCfg :: "base_game_info list \<Rightarrow> cstring \<Rightarrow> int \<Rightarrow> bool \<Rightarrow> files \<Rightarrow> files" where
  "sbRebuildULCfg list pfx excludeID open_ok fs =
     (if open_ok then
        fs(bounded 256 (pfx @ ''ul.cfg'') \<mapsto> concat (map (\<lambda>(i, game).
             if g_format game = GAME_FORMAT_USBLD \<and> int i \<noteq> excludeID
             then ul_entry game
             else []) (enumerate 0 list)))
      else fs)"

text \<open>\<^verbatim>\<open>unlink\<close> and \<^verbatim>\<open>rename\<close> of existing files succeed; other calls change nothing.\<close>

definition unlink :: "cstring \<Rightarrow> files \<Rightarrow> files" where
  "unlink path fs = fs(path := None)"

definition rename_file :: "cstring \<Rightarrow> cstring \<Rightarrow> files \<Rightarrow> files" where
  "rename_file a b fs = (if fs a = None \<or> a = b then fs else fs(b := fs a, a := None))"

fun delete_parts :: "cstring \<Rightarrow> base_game_info \<Rightarrow> cstring \<Rightarrow> cstring \<Rightarrow> nat list \<Rightarrow> files \<Rightarrow> files option" where
  "delete_parts sub game pfx sep [] fs = Some fs"
| "delete_parts sub game pfx sep (part # ps) fs =
     (case sbCreatePath sub game pfx sep part of
        None \<Rightarrow> None
      | Some path \<Rightarrow> delete_parts sub game pfx sep ps (unlink path fs))"

definition sbDelete :: "cstring \<Rightarrow> base_game_info list \<Rightarrow> cstring \<Rightarrow> cstring \<Rightarrow> nat \<Rightarrow> bool \<Rightarrow> files \<Rightarrow> files option" where
  "sbDelete sub list pfx sep i open_ok fs =
     (if i < length list then
        map_option (\<lambda>fs1. if g_format (list ! i) = GAME_FORMAT_USBLD then sbRebuildULCfg list pfx (int i) open_ok fs1 else fs1)
          (delete_parts sub (list ! i) pfx sep [0..<unat (g_parts (list ! i))] fs)
      else None)"

fun rename_parts :: "cstring \<Rightarrow> base_game_info \<Rightarrow> cstring \<Rightarrow> cstring \<Rightarrow> cstring \<Rightarrow> nat list \<Rightarrow> files \<Rightarrow> files option" where
  "rename_parts sub game pfx sep newname [] fs = Some fs"
| "rename_parts sub game pfx sep newname (part # ps) fs =
     (case (sbCreatePath_name sub game pfx sep part (cstr (g_name game)), sbCreatePath_name sub game pfx sep part newname) of
        (Some oldpath, Some newpath) \<Rightarrow> rename_parts sub game pfx sep newname ps (rename_file oldpath newpath fs)
      | _ \<Rightarrow> None)"

definition renamed_game :: "base_game_info \<Rightarrow> char list \<Rightarrow> base_game_info" where
  "renamed_game game newname = game\<lparr>g_name :=
     memcpy (memcpy (g_name game) (replicate (UL_GAME_NAME_MAX + 1) NUL) (UL_GAME_NAME_MAX + 1)) newname UL_GAME_NAME_MAX\<rparr>"

text \<open>\<open>newname\<close> is the caller's array, of which 32 bytes are copied.\<close>

definition sbRename :: "cstring \<Rightarrow> base_game_info list \<Rightarrow> cstring \<Rightarrow> cstring \<Rightarrow> nat \<Rightarrow> char list \<Rightarrow> bool \<Rightarrow> files \<Rightarrow>
    (base_game_info list \<times> files) option" where
  "sbRename sub list pfx sep i newname open_ok fs =
     (if i < length list then
        (case rename_parts sub (list ! i) pfx sep (cstr newname) [0..<unat (g_parts (list ! i))] fs of
           None \<Rightarrow> None
         | Some fs1 \<Rightarrow>
             if g_format (list ! i) = GAME_FORMAT_USBLD then
               if UL_GAME_NAME_MAX \<le> length newname then
                 let list' = list[i := renamed_game (list ! i) newname]
                 in Some (list', sbRebuildULCfg list' pfx (-1) open_ok fs1)
               else None
             else Some (list, fs1))
      else None)"

section \<open>Layout\<close>

definition game_ok :: "base_game_info \<Rightarrow> bool" where
  "game_ok g \<longleftrightarrow> length (g_name g) = 161 \<and> length (g_startup g) = 13 \<and> length (g_extension g) = 5"

lemma length_game_bytes: "game_ok g \<Longrightarrow> length (game_bytes g) = GAME_INFO_SIZE"
  by (simp add: game_ok_def game_bytes_def GAME_INFO_SIZE_def)

lemma game_bytes_back: "game_ok g \<Longrightarrow> game_of_bytes (game_bytes g) = g"
  by (simp add: game_ok_def game_bytes_def game_of_bytes_def nth_append le32_back)

interpretation game_layout: fixed_layout game_ok game_bytes game_of_bytes GAME_INFO_SIZE
  by unfold_locales (simp_all add: length_game_bytes game_bytes_back GAME_INFO_SIZE_def)

lemma cstr_strncpy:
  assumes "n \<le> length src" "n < length dst" "NUL \<notin> set src"
  shows "cstr ((strncpy dst src n)[n := NUL]) = take n src" "NUL \<in> set ((strncpy dst src n)[n := NUL])"
    "length ((strncpy dst src n)[n := NUL]) = length dst"
proof -
  have nn: "NUL \<notin> set (take n src)" using assms(3) by (meson in_set_takeD)
  obtain x d where "drop n dst = x # d" using assms(2) by (cases "drop n dst") auto
  then have "(strncpy dst src n)[n := NUL] = take n src @ NUL # d"
    using assms(1) by (simp add: strncpy_def list_update_append)
  then show "cstr ((strncpy dst src n)[n := NUL]) = take n src" "NUL \<in> set ((strncpy dst src n)[n := NUL])"
    using nn by simp_all
  show "length ((strncpy dst src n)[n := NUL]) = length dst" using assms(1,2) by (simp add: strncpy_def)
qed

section \<open>Entries and their paths\<close>

lemma cstr_strncpy_all:
  assumes "length src \<le> n" "n < length dst" "NUL \<notin> set src"
  shows "cstr ((strncpy dst src n)[n := NUL]) = src" "NUL \<in> set ((strncpy dst src n)[n := NUL])"
    "length ((strncpy dst src n)[n := NUL]) = length dst"
proof -
  obtain x d where "drop n dst = x # d" using assms(2) by (cases "drop n dst") auto
  then have "(strncpy dst src n)[n := NUL] = src @ replicate (n - length src) NUL @ NUL # d"
    using assms(1) by (simp add: strncpy_def list_update_append)
  moreover have "cstr (replicate k NUL @ NUL # d) = []" for k by (cases k) (simp_all add: cstr_def)
  ultimately show "cstr ((strncpy dst src n)[n := NUL]) = src" "NUL \<in> set ((strncpy dst src n)[n := NUL])"
    using assms(3) by (simp_all add: cstr_append_free)
  show "length ((strncpy dst src n)[n := NUL]) = length dst" using assms(1,2) by (simp add: strncpy_def)
qed

definition terminated :: "base_game_info \<Rightarrow> bool" where
  "terminated g \<longleftrightarrow> game_ok g \<and> NUL \<in> set (g_name g) \<and> NUL \<in> set (g_startup g) \<and> NUL \<in> set (g_extension g)"

lemma iso_name_cases:
  assumes "isValidIsoName d = Some (f, n)"
  shows "(f = GAME_FORMAT_OLD_ISO \<and> 17 \<le> length d \<and> n = length d - 16 \<and> d ! 11 = CHR ''.'') \<or>
    (f = GAME_FORMAT_ISO \<and> 5 \<le> length d \<and> n = length d - 4)"
  using assms by (auto simp: isValidIsoName_def Let_def split: if_splits)

lemma old_iso_strings:
  assumes "17 \<le> length d" "n = length d - 16" "n \<le> ISO_GAME_NAME_MAX" "NUL \<notin> set d" "d ! 11 = CHR ''.''"
  shows "cstr (g_startup (old_iso_entry d n)) @ ''.'' @ cstr (g_name (old_iso_entry d n)) @ cstr (g_extension (old_iso_entry d n)) = d"
    "cstr (g_name (old_iso_entry d n)) = take n (drop 12 d)" "cstr (g_extension (old_iso_entry d n)) = drop (12 + n) d"
    "terminated (old_iso_entry d n)"
proof -
  have nul: "NUL \<notin> set (drop k d)" for k using assms(4) by (meson in_set_dropD)
  note copy = cstr_strncpy [of n "drop 12 d" "g_name zero_game", OF _ _ nul]
    cstr_strncpy [of 11 d "g_startup zero_game", OF _ _ assms(4)]
    cstr_strncpy [of 4 "drop (12 + n) d" "g_extension zero_game", OF _ _ nul]
  have parts: "cstr (g_startup (old_iso_entry d n)) = take 11 d" "cstr (g_name (old_iso_entry d n)) = take n (drop 12 d)"
    "cstr (g_extension (old_iso_entry d n)) = take 4 (drop (12 + n) d)"
    using copy assms(1-3) by (simp_all add: old_iso_entry_def zero_game_def game_consts)
  show "terminated (old_iso_entry d n)"
    using copy assms(1-3) by (simp add: terminated_def game_ok_def old_iso_entry_def zero_game_def game_consts)
  have e: "take 4 (drop (12 + n) d) = drop (12 + n) d" using assms(1,2) by simp
  have "take 11 d @ d ! 11 # drop 12 d = d" using assms(1) id_take_nth_drop [of 11 d] by simp
  moreover have "take n (drop 12 d) @ drop (12 + n) d = drop 12 d" by (metis append_take_drop_id drop_drop add.commute)
  ultimately show "cstr (g_startup (old_iso_entry d n)) @ ''.'' @ cstr (g_name (old_iso_entry d n)) @ cstr (g_extension (old_iso_entry d n)) = d"
    using parts e assms(5) by simp
  show "cstr (g_name (old_iso_entry d n)) = take n (drop 12 d)" "cstr (g_extension (old_iso_entry d n)) = drop (12 + n) d"
    using parts e by simp_all
qed

lemma iso_strings:
  assumes "5 \<le> length d" "n = length d - 4" "n \<le> ISO_GAME_NAME_MAX" "NUL \<notin> set d" "length st \<le> 11" "NUL \<notin> set st"
  shows "cstr (g_name (iso_entry st d n)) = take n d" "cstr (g_extension (iso_entry st d n)) = drop n d"
    "terminated (iso_entry st d n)"
proof -
  have nul: "NUL \<notin> set (drop k d)" for k using assms(4) by (meson in_set_dropD)
  note copy = cstr_strncpy [of n d "g_name zero_game", OF _ _ assms(4)]
    cstr_strncpy [of 4 "drop n d" "g_extension zero_game", OF _ _ nul]
  show "cstr (g_name (iso_entry st d n)) = take n d" "cstr (g_extension (iso_entry st d n)) = drop n d"
    using copy assms(1-3) by (simp_all add: iso_entry_def zero_game_def game_consts)
  show "terminated (iso_entry st d n)"
    using copy assms(1-3,5) by (simp add: terminated_def game_ok_def iso_entry_def zero_game_def game_consts memcpy_def)
qed

text \<open>A cached entry is found by its name and extension.\<close>

lemma str_at_terminated:
  assumes "terminated g"
  shows "str_at 0 g = cstr (g_name g)" "str_at 174 g = cstr (g_extension g)"
proof -
  have "drop 0 (game_bytes g) = g_name g @ drop 161 (game_bytes g)" using assms by (simp add: terminated_def game_ok_def game_bytes_def)
  then show "str_at 0 g = cstr (g_name g)" using assms unfolding str_at_def terminated_def by (metis cstr_append)
  have "drop 174 (game_bytes g) = g_extension g @ drop 179 (game_bytes g)" using assms by (simp add: terminated_def game_ok_def game_bytes_def)
  then show "str_at 174 g = cstr (g_extension g)" using assms unfolding str_at_def terminated_def by (metis cstr_append)
qed

lemma query_Some:
  assumes "queryISOGameListCache c d = Some g" "\<forall>g \<in> set c. terminated g" "length d < 165"
  shows "g \<in> set c" "cstr (g_name g) @ cstr (g_extension g) = d"
proof -
  have f: "g \<in> set c" "d = bounded 165 (str_at 0 g @ str_at 174 g)"
    using assms(1) by (auto simp: queryISOGameListCache_def find_Some_iff game_consts)
  then show "g \<in> set c" by simp
  show "cstr (g_name g) @ cstr (g_extension g) = d"
  proof -
    let ?s = "cstr (g_name g) @ cstr (g_extension g)"
    have t: "terminated g" using f(1) assms(2) by blast
    have shorter: "length (cstr x) < length x" if "NUL \<in> set x" for x
    proof -
      have "cstr x \<noteq> x" using that cstr_no_NUL [of x] by metis
      then show ?thesis using length_takeWhile_le [of "\<lambda>c. c \<noteq> NUL" x] takeWhile_eq_take [of "\<lambda>c. c \<noteq> NUL" x]
        unfolding cstr_def by (metis nat_less_le take_all_iff order_refl)
    qed
    have "length ?s < 165" using t shorter [of "g_name g"] shorter [of "g_extension g"]
      by (simp add: terminated_def game_ok_def)
    then show ?thesis using f(2) t by (simp add: str_at_terminated)
  qed
qed

lemma startup_bound:
  assumes "GetStartupExecName cnf m = CnfOk st"
  shows "length st \<le> m" "NUL \<notin> set st"
proof -
  obtain name where n: "st = take (min (length name) m) name" "\<exists>s. scan_name s = Some name"
    using assms by (auto simp: GetStartupExecName_def Let_def split: cnf_result.splits option.splits if_splits)
  have "scan_name s = Some x \<Longrightarrow> NUL \<notin> set x" for s x
    by (induction s arbitrary: x) (auto split: if_splits)
  then have "NUL \<notin> set name" using n(2) by blast
  then show "length st \<le> m" "NUL \<notin> set st" using n(1) by (auto dest: in_set_takeD)
qed

text \<open>The strings of an entry the scan adds, by format.\<close>

lemma scan_one_strings:
  assumes "scan_one dv cache path type folders d = Game g" "NUL \<notin> set d"
    and "\<forall>c. cache = Some c \<longrightarrow> (\<forall>g \<in> set c. terminated g)"
  shows "terminated g \<and> g_media g = type \<and> g_parts g = 1 \<and> length path + 1 + length d < 256 \<and>
    ((g_format g = GAME_FORMAT_OLD_ISO \<and> cstr (g_startup g) @ ''.'' @ cstr (g_name g) @ cstr (g_extension g) = d) \<or>
     (g_format g = GAME_FORMAT_ISO \<and> cstr (g_name g) @ cstr (g_extension g) = d))"
proof -
  obtain f n where v: "isValidIsoName d = Some (f, n)"
    using assms(1) by (cases "isValidIsoName d") (auto simp: scan_one_def folder_entry_def split: if_splits)
  have fits: "n \<le> ISO_GAME_NAME_MAX" "length path + 1 + length d < 256"
    using assms(1) v by (auto simp: scan_one_def folder_entry_def split: if_splits)
  have st: "terminated (stamp type f x) = terminated x" "g_media (stamp type f x) = type" "g_parts (stamp type f x) = 1"
    "g_format (stamp type f x) = f" "g_name (stamp type f x) = g_name x" "g_startup (stamp type f x) = g_startup x"
    "g_extension (stamp type f x) = g_extension x" for x
    by (simp_all add: stamp_def terminated_def game_ok_def)
  from iso_name_cases [OF v] show ?thesis
  proof (elim disjE conjE)
    assume o: "f = GAME_FORMAT_OLD_ISO" "17 \<le> length d" "n = length d - 16" "d ! 11 = CHR ''.''"
    have "g = stamp type f (old_iso_entry d n)"
      using assms(1) v fits o(1) by (auto simp: scan_one_def split: if_splits)
    then show ?thesis using old_iso_strings [OF o(2,3) fits(1) assms(2) o(4)] st o(1) fits(2) by simp
  next
    assume o: "f = GAME_FORMAT_ISO" "5 \<le> length d" "n = length d - 4"
    have ne: "GAME_FORMAT_ISO \<noteq> GAME_FORMAT_OLD_ISO" by (simp add: game_formats)
    have len: "length d < 165" using o fits(1) by (simp add: game_consts)
    consider (cached) c g0 where "cache = Some c" "queryISOGameListCache c d = Some g0" "g = stamp type f g0"
      | (mounted) st where "length st \<le> 11" "NUL \<notin> set st" "g = stamp type f (iso_entry st d n)"
    proof (cases "case cache of None \<Rightarrow> None | Some c \<Rightarrow> queryISOGameListCache c d")
      case None
      then obtain cnf s where "GetStartupExecName cnf 11 = CnfOk s" "g = stamp type f (iso_entry s d n)"
        using assms(1) v fits o(1) ne
        by (auto simp: scan_one_def game_consts split: if_splits option.splits cnf_result.splits)
      then show ?thesis using mounted startup_bound by blast
    next
      case (Some g0)
      then show ?thesis using cached assms(1) v fits o(1) ne
        by (auto simp: scan_one_def split: if_splits option.splits)
    qed
    then show ?thesis
    proof cases
      case cached
      have "\<forall>g \<in> set c. terminated g" using cached assms(3) by blast
      from query_Some [OF cached(2) this len] have "terminated g0" "cstr (g_name g0) @ cstr (g_extension g0) = d"
        using cached assms(3) by auto
      then show ?thesis using cached(3) st o(1) fits(2) by simp
    next
      case mounted
      then show ?thesis using iso_strings [OF o(2,3) fits(1) assms(2) mounted(1,2)] st o(1) fits(2) by simp
    qed
  qed
qed

lemma scan_path_full:
  assumes "length (scan_path pfx dir sub) < 255"
  shows "scan_path pfx dir sub = pfx @ dir @ (case sub of None \<Rightarrow> [] | Some t \<Rightarrow> if t = [] then [] else ''/'' @ t)"
  using assms by (auto simp: scan_path_def bounded_def split: option.splits if_splits)

text \<open>C24. A listed image is found again: the path composed for launching, deleting or renaming an entry
  the scan added (old naming with the identifier in front, plain naming, from the cache or from the
  image itself, in a browsed folder or not) is the path of the file the scan saw.\<close>

theorem sb_path_round_trip:
  assumes "scan_one dv cache (scan_path pfx dir sub) type folders d = Game g" "NUL \<notin> set d"
    and "\<forall>c. cache = Some c \<longrightarrow> (\<forall>g \<in> set c. terminated g)"
    and "dir = ''CD'' \<and> type = SCECdPS2CD \<or> dir = ''DVD'' \<and> type = SCECdPS2DVD"
    and "\<forall>t. sub = Some t \<longrightarrow> length t < FOLDER_SUB_MAX"
  shows "sbCreatePath (ls_sub (sbSetBrowseSub sub s)) g pfx ''/'' part = Some (scan_path pfx dir sub @ ''/'' @ d)"
proof -
  let ?path = "scan_path pfx dir sub" and ?t = "case sub of None \<Rightarrow> [] | Some t \<Rightarrow> t"
  note g = scan_one_strings [OF assms(1-3)]
  have path: "?path @ ''/'' = pfx @ dir @ ''/'' @ (if ?t \<noteq> [] then bounded (FOLDER_SUB_MAX + 2) (?t @ ''/'') else [])"
    using scan_path_full [of pfx dir sub] g assms(5) by (cases sub) (auto simp: FOLDER_SUB_MAX_def)
  have sub: "ls_sub (sbSetBrowseSub sub s) = ?t" using assms(5) by (cases sub) (simp_all add: sbSetBrowseSub_def)
  have dir: "(if g_media g = SCECdPS2CD then ''CD'' else ''DVD'') = dir"
    using g assms(4) by (auto simp: SCECdPS2CD_def SCECdPS2DVD_def)
  have fit: "length (?path @ ''/'' @ d) < 256" using g by simp
  from g consider "g_format g = GAME_FORMAT_OLD_ISO" "cstr (g_startup g) @ ''.'' @ cstr (g_name g) @ cstr (g_extension g) = d"
    | "g_format g = GAME_FORMAT_ISO" "cstr (g_name g) @ cstr (g_extension g) = d" by blast
  then show ?thesis
  proof cases
    case 1
    have "sbCreatePath ?t g pfx ''/'' part = Some (bounded 256 ((?path @ ''/'') @ cstr (g_startup g) @ ''.'' @ cstr (g_name g) @ cstr (g_extension g)))"
      unfolding path using 1(1) dir by (simp add: sbCreatePath_def sbCreatePath_name_def Let_def game_formats)
    then show ?thesis using sub fit 1(2) by (metis append.assoc bounded_id)
  next
    case 2
    have "sbCreatePath ?t g pfx ''/'' part = Some (bounded 256 ((?path @ ''/'') @ cstr (g_name g) @ cstr (g_extension g)))"
      unfolding path using 2(1) dir by (simp add: sbCreatePath_def sbCreatePath_name_def Let_def game_formats)
    then show ?thesis using sub fit 2(2) by (metis append.assoc bounded_id)
  qed
qed

section \<open>The scan\<close>

definition found_games :: "scan_entry list \<Rightarrow> base_game_info list" where
  "found_games es = concat (map (\<lambda>e. case e of Game g \<Rightarrow> [g] | _ \<Rightarrow> []) es)"

definition found_folders :: "scan_entry list \<Rightarrow> base_game_info list" where
  "found_folders es = concat (map (\<lambda>e. case e of Folder g \<Rightarrow> [g] | _ \<Rightarrow> []) es)"

lemma scan_loop_found:
  assumes "Fault \<notin> set (map (scan_one dv cache path type folders) ds)" "Stop \<notin> set (map (scan_one dv cache path type folders) ds)"
  shows "scan_loop dv cache path type folders ds (count, gl, fl) =
    (let es = map (scan_one dv cache path type folders) ds
     in Some (count + length (found_games es), rev (found_games es) @ gl, rev (found_folders es) @ fl))"
  using assms
proof (induction ds arbitrary: count gl fl)
  case (Cons d ds)
  then show ?case
    by (cases "scan_one dv cache path type folders d") (auto simp: found_games_def found_folders_def Let_def)
qed (simp add: found_games_def found_folders_def)

lemma scan_one_stop: "scan_one dv cache path type folders d = Stop \<Longrightarrow> \<not> dv_node dv d"
  unfolding scan_one_def folder_entry_def by (force split: option.splits prod.splits if_splits cnf_result.splits)

lemma scan_loop_fault:
  assumes "Fault \<in> set (map (scan_one dv cache path type folders) ds)" "Stop \<notin> set (map (scan_one dv cache path type folders) ds)"
  shows "scan_loop dv cache path type folders ds (count, gl, fl) = None"
  using assms
proof (induction ds arbitrary: count gl fl)
  case (Cons d ds)
  show ?case
  proof (cases "scan_one dv cache path type folders d = Fault")
    case False
    then have f: "Fault \<in> set (map (scan_one dv cache path type folders) ds)" "Stop \<notin> set (map (scan_one dv cache path type folders) ds)"
      and ns: "scan_one dv cache path type folders d \<noteq> Stop" using Cons.prems by (simp_all only: list.map set_simps insert_iff) metis+
    show ?thesis using Cons.IH [OF f] False ns by (cases "scan_one dv cache path type folders d") simp_all
  qed simp
qed simp

text \<open>Whatever fails, the number returned is the number of games added in front.\<close>

lemma scan_loop_count:
  assumes "Fault \<notin> set (map (scan_one dv cache path type folders) ds)"
  shows "\<exists>gs fs. scan_loop dv cache path type folders ds (count, gl, fl) = Some (count + length gs, gs @ gl, fs @ fl)"
  using assms
proof (induction ds arbitrary: count gl fl)
  case (Cons d ds)
  have nf: "Fault \<notin> set (map (scan_one dv cache path type folders) ds)" using Cons.prems by simp
  show ?case
  proof (cases "scan_one dv cache path type folders d")
    case (Game g)
    then obtain gs fs where "scan_loop dv cache path type folders ds (count + 1, g # gl, fl) = Some (count + 1 + length gs, gs @ g # gl, fs @ fl)"
      using Cons.IH [OF nf, of "count + 1" "g # gl" fl] by blast
    then show ?thesis using Game by (intro exI [of _ "gs @ [g]"] exI [of _ fs]) simp
  next
    case (Folder g)
    then obtain gs fs where "scan_loop dv cache path type folders ds (count, gl, g # fl) = Some (count + length gs, gs @ gl, fs @ g # fl)"
      using Cons.IH [OF nf, of count gl "g # fl"] by blast
    then show ?thesis using Folder by (intro exI [of _ gs] exI [of _ "fs @ [g]"]) simp
  qed (use Cons in auto)
qed simp

section \<open>Filling the array\<close>

definition ul_list :: "char list \<Rightarrow> base_game_info list" where
  "ul_list bytes = map (\<lambda>e. ul_game e zero_game) (elements UL_ENTRY_SIZE bytes)"

lemma ul_loop_fills:
  assumes "length rest = 64 * k" "k \<le> m" "length ge = 64"
  shows "ul_loop rest ge (length pre) (pre @ replicate m zero_game) =
    Some (length pre + k, pre @ ul_list rest @ replicate (m - k) zero_game)"
  using assms
proof (induction k arbitrary: rest ge pre m)
  case 0
  then show ?case by (simp add: ul_loop.simps ul_list_def elements.simps UL_ENTRY_SIZE_def)
next
  case (Suc k)
  obtain m' where m: "m = Suc m'" using Suc.prems(2) by (cases m) auto
  have ge: "memcpy ge rest 64 = take 64 rest" using Suc.prems by (simp add: memcpy_def)
  have ul: "ul_list rest = ul_game (take 64 rest) zero_game # ul_list (drop 64 rest)"
    using Suc.prems(1) by (simp add: ul_list_def elements.simps [of _ rest] UL_ENTRY_SIZE_def)
  let ?pre = "pre @ [ul_game (take 64 rest) zero_game]"
  have "ul_loop rest ge (length pre) (pre @ replicate m zero_game) =
    ul_loop (drop 64 rest) (take 64 rest) (length ?pre) (?pre @ replicate m' zero_game)"
    using Suc.prems(1) by (subst ul_loop.simps) (auto simp: ge Let_def m UL_ENTRY_SIZE_def nth_append list_update_append)
  also have "\<dots> = Some (length ?pre + k, ?pre @ ul_list (drop 64 rest) @ replicate (m' - k) zero_game)"
    using Suc.prems m by (intro Suc.IH) auto
  finally show ?case using ul m by simp
qed

lemma ul_loop_overflow:
  "(length l - i) * 64 < length rest \<Longrightarrow> ul_loop rest ge i l = None"
proof (induction rest ge i l rule: ul_loop.induct)
  case (1 rest ge i l)
  show ?case
  proof (cases "i < length l")
    case True
    have "(length l - (i + 1)) * 64 < length (drop UL_ENTRY_SIZE rest)" using 1(2) True by (simp add: UL_ENTRY_SIZE_def)
    then show ?thesis using 1 True by (subst ul_loop.simps) (auto simp: Let_def)
  qed (use 1(2) in \<open>subst ul_loop.simps, auto simp: Let_def\<close>)
qed

lemma copy_nodes_fit:
  "length nodes \<le> m \<Longrightarrow> copy_nodes nodes (length pre) (pre @ replicate m zero_game) =
     (length pre + length nodes, pre @ nodes @ replicate (m - length nodes) zero_game)"
proof (induction nodes arbitrary: pre m)
  case (Cons g nodes)
  obtain m' where m: "m = Suc m'" using Cons.prems by (cases m) auto
  have "copy_nodes nodes (length (pre @ [g])) ((pre @ [g]) @ replicate m' zero_game) =
    (length (pre @ [g]) + length nodes, (pre @ [g]) @ nodes @ replicate (m' - length nodes) zero_game)"
    using Cons m by (intro Cons.IH) simp
  then show ?case using m by (simp add: list_update_append)
qed simp

text \<open>With room for the games counted and the folders, everything is copied.\<close>

lemma fill_list_all:
  assumes "\<forall>b. ul = Some b \<longrightarrow> length b mod 64 = 0" "length (dv_junk dv) = 64" "dv_list_mem dv"
  shows "fill_list dv ul (length dl) dl fl =
    (let l = (case ul of None \<Rightarrow> [] | Some b \<Rightarrow> ul_list b) @ dl @ fl in Some (if l = [] then None else Some l))"
proof -
  let ?u = "case ul of None \<Rightarrow> [] | Some b \<Rightarrow> ul_list b"
  let ?k = "case ul of None \<Rightarrow> 0 | Some b \<Rightarrow> length b div UL_ENTRY_SIZE"
  let ?m = "length dl + ?k + length fl"
  have start: "(case ul of None \<Rightarrow> Some (0, replicate ?m zero_game) | Some b \<Rightarrow> ul_loop b (dv_junk dv) 0 (replicate ?m zero_game)) =
    Some (length ?u, ?u @ replicate (length dl + length fl) zero_game)"
  proof (cases ul)
    case (Some b)
    have k: "length b = 64 * (length b div 64)" using assms(1) Some by auto
    from ul_loop_fills [OF this _ assms(2), of ?m "[]"] Some
    have r: "ul_loop b (dv_junk dv) 0 (replicate ?m zero_game) = Some (length b div 64, ul_list b @ replicate (length dl + length fl) zero_game)"
      by (simp add: UL_ENTRY_SIZE_def)
    show ?thesis using r Some by (simp add: ul_list_def UL_ENTRY_SIZE_def length_elements)
  qed simp
  have d: "copy_nodes dl (length ?u) (?u @ replicate (length dl + length fl) zero_game) =
    (length (?u @ dl), (?u @ dl) @ replicate (length fl) zero_game)"
    using copy_nodes_fit [of dl "length dl + length fl" ?u] by simp
  have f: "copy_nodes fl (length (?u @ dl)) ((?u @ dl) @ replicate (length fl) zero_game) =
    (length (?u @ dl) + length fl, (?u @ dl) @ fl)"
    using copy_nodes_fit [of fl "length fl" "?u @ dl"] by simp
  have total: "0 < ?m \<longleftrightarrow> ?u @ dl @ fl \<noteq> []"
  proof (cases ul)
    case (Some b)
    then show ?thesis using assms(1) by (auto simp: ul_list_def elements.simps UL_ENTRY_SIZE_def)
  qed simp
  show ?thesis using start d f total assms(3) unfolding fill_list_def Let_def by simp
qed

section \<open>The published list\<close>

lemma games_bin_Some: "length path < 246 \<Longrightarrow> games_bin path = Some (path @ ''/games.bin'')"
  by (simp add: games_bin_def Let_def)

lemma update_files:
  assumes "length path < 246"
  shows "\<exists>fs'. updateISOGameList dv fs path cache head count = Some fs' \<and> (\<forall>p. p \<noteq> path @ ''/games.bin'' \<longrightarrow> fs' p = fs p)"
  using assms by (simp add: updateISOGameList_def games_bin_Some)

lemma load_cong:
  "fs' (path @ ''/games.bin'') = fs (path @ ''/games.bin'') \<Longrightarrow> loadISOGameListCache dv fs' path = loadISOGameListCache dv fs path"
  by (simp add: loadISOGameListCache_def games_bin_def Let_def)

lemma load_total:
  "length path < 246 \<Longrightarrow> \<exists>cache. loadISOGameListCache dv fs path = Some cache"
  by (simp add: loadISOGameListCache_def games_bin_Some)

text \<open>What the scan makes of the entries of a directory.\<close>

definition dir_entries :: "device \<Rightarrow> files \<Rightarrow> bool \<Rightarrow> cstring \<Rightarrow> u8 \<Rightarrow> scan_entry list" where
  "dir_entries dv fs folders path type =
     (case dv_dir dv path of
        None \<Rightarrow> []
      | Some ds \<Rightarrow> map (scan_one dv (the (loadISOGameListCache dv fs path)) path type folders) ds)"

lemma dir_entries_cong:
  "fs' (path @ ''/games.bin'') = fs (path @ ''/games.bin'') \<Longrightarrow> dir_entries dv fs' folders path type = dir_entries dv fs folders path type"
  using load_cong [of fs' path fs dv] by (cases "dv_dir dv path") (simp_all add: dir_entries_def)

lemma iso_scan_found:
  assumes "length path < 246" "Fault \<notin> set (dir_entries dv fs folders path type)" "Stop \<notin> set (dir_entries dv fs folders path type)"
  shows "\<exists>fs'. scanForISO dv fs path type folders gl fl =
      Some (if dv_dir dv path = None then -1 else int (length (found_games (dir_entries dv fs folders path type))),
        rev (found_games (dir_entries dv fs folders path type)) @ gl, rev (found_folders (dir_entries dv fs folders path type)) @ fl, fs') \<and>
    (\<forall>p. p \<noteq> path @ ''/games.bin'' \<longrightarrow> fs' p = fs p)"
proof (cases "dv_dir dv path")
  case None
  then show ?thesis using load_total [OF assms(1), of dv fs] by (auto simp: scanForISO_def dir_entries_def found_games_def found_folders_def)
next
  case (Some ds)
  let ?cache = "the (loadISOGameListCache dv fs path)"
  let ?es = "map (scan_one dv ?cache path type folders) ds"
  have es: "dir_entries dv fs folders path type = ?es" using Some by (simp add: dir_entries_def)
  have loop: "scan_loop dv ?cache path type folders ds (0, gl, fl) =
    Some (length (found_games ?es), rev (found_games ?es) @ gl, rev (found_folders ?es) @ fl)"
    using scan_loop_found [of dv ?cache path type folders ds 0 gl fl] assms(2,3) es by (simp add: Let_def)
  obtain fs' where u: "updateISOGameList dv fs path ?cache (rev (found_games ?es) @ gl) (length (found_games ?es)) = Some fs'"
    "\<forall>p. p \<noteq> path @ ''/games.bin'' \<longrightarrow> fs' p = fs p"
    using update_files [OF assms(1), of dv fs ?cache "rev (found_games ?es) @ gl" "length (found_games ?es)"] by blast
  obtain cache where load: "loadISOGameListCache dv fs path = Some cache" "?cache = cache"
    using load_total [OF assms(1), of dv fs] by auto
  then show ?thesis using Some es loop u assms(1) unfolding load(2) by (simp add: scanForISO_def)
qed

definition sub_text :: "cstring option \<Rightarrow> cstring" where
  "sub_text sub = (case sub of None \<Rightarrow> [] | Some t \<Rightarrow> t)"

definition ul_file :: "files \<Rightarrow> cstring \<Rightarrow> cstring option \<Rightarrow> char list option" where
  "ul_file fs pfx sub = (if sub_text sub = [] then fs (pfx @ ''ul.cfg'') else None)"

text \<open>Paths of one read do not meet.\<close>

lemma scan_paths:
  assumes "length pfx + length (sub_text sub) \<le> 240"
  shows "length (scan_path pfx ''CD'' sub) < 246" "length (scan_path pfx ''DVD'' sub) < 246"
    "scan_path pfx ''DVD'' sub @ ''/games.bin'' \<noteq> scan_path pfx ''CD'' sub @ ''/games.bin''"
    "bounded 256 (pfx @ ''ul.cfg'') = pfx @ ''ul.cfg''" "pfx @ ''ul.cfg'' \<noteq> scan_path pfx ''CD'' sub @ ''/games.bin''"
    "pfx @ ''ul.cfg'' \<noteq> scan_path pfx ''DVD'' sub @ ''/games.bin''"
proof -
  have p: "scan_path pfx dir sub = pfx @ dir @ (if sub_text sub = [] then [] else ''/'' @ sub_text sub)" if "length dir \<le> 3" for dir
    using assms that by (cases sub) (auto simp: scan_path_def sub_text_def bounded_def)
  show "length (scan_path pfx ''CD'' sub) < 246" "length (scan_path pfx ''DVD'' sub) < 246"
    "scan_path pfx ''DVD'' sub @ ''/games.bin'' \<noteq> scan_path pfx ''CD'' sub @ ''/games.bin''"
    "bounded 256 (pfx @ ''ul.cfg'') = pfx @ ''ul.cfg''" "pfx @ ''ul.cfg'' \<noteq> scan_path pfx ''CD'' sub @ ''/games.bin''"
    "pfx @ ''ul.cfg'' \<noteq> scan_path pfx ''DVD'' sub @ ''/games.bin''"
    using assms by (simp_all add: p)
qed

text \<open>One row per folder name, spelled out by position: a folder row stays when no earlier row has its
  name up to case.\<close>

definition folder_key :: "base_game_info \<Rightarrow> cstring" where
  "folder_key g = map to_lower (cstr (g_name g))"

definition first_rows :: "base_game_info list \<Rightarrow> base_game_info list" where
  "first_rows fl = map ((!) fl) (filter (\<lambda>i. folder_key (fl ! i) \<notin> set (map folder_key (take i fl))) [0..<length fl])"

lemma first_rows_snoc:
  "map ((!) (ys @ [y])) (filter (\<lambda>i. folder_key ((ys @ [y]) ! i) \<notin> K \<union> folder_key ` set (take i (ys @ [y]))) [0..<length (ys @ [y])]) =
   map ((!) ys) (filter (\<lambda>i. folder_key (ys ! i) \<notin> K \<union> folder_key ` set (take i ys)) [0..<length ys]) @
   (if folder_key y \<in> K \<union> folder_key ` set ys then [] else [y])"
proof -
  have "filter (\<lambda>i. folder_key ((ys @ [y]) ! i) \<notin> K \<union> folder_key ` set (take i (ys @ [y]))) [0..<length ys] =
      filter (\<lambda>i. folder_key (ys ! i) \<notin> K \<union> folder_key ` set (take i ys)) [0..<length ys]"
    by (rule filter_cong) (auto simp: nth_append)
  moreover have "map ((!) (ys @ [y])) (filter P [0..<length ys]) = map ((!) ys) (filter P [0..<length ys])" for P :: "nat \<Rightarrow> bool"
    by (rule map_cong) (auto simp: nth_append)
  ultimately show ?thesis unfolding length_append_singleton upt_Suc_append [OF le0] filter_append map_append
    by (simp only: filter.simps list.map nth_append_length take_append) auto
qed

lemma first_rows_append:
  "first_rows (ys @ [y]) = first_rows ys @ (if folder_key y \<in> folder_key ` set ys then [] else [y])"
  using first_rows_snoc [of ys y "{}"] by (simp only: first_rows_def set_map Un_empty_left)

lemma first_rows_later:
  "map ((!) bs) (filter (\<lambda>i. folder_key (bs ! i) \<notin> {k} \<union> folder_key ` set (take i bs)) [0..<length bs]) =
   first_rows (filter (\<lambda>b. folder_key b \<noteq> k) bs)"
proof (induction bs rule: rev_induct)
  case (snoc x xs)
  then show ?case unfolding first_rows_snoc by (auto simp: first_rows_append)
qed (simp add: first_rows_def)

lemma first_rows_Cons:
  "first_rows (a # bs) = a # first_rows (filter (\<lambda>b. folder_key b \<noteq> folder_key a) bs)"
proof -
  have "filter (\<lambda>i. folder_key ((a # bs) ! i) \<notin> set (map folder_key (take i (a # bs)))) [0..<length (a # bs)] =
      0 # map Suc (filter (\<lambda>i. folder_key (bs ! i) \<notin> {folder_key a} \<union> folder_key ` set (take i bs)) [0..<length bs])"
    by (simp add: upt_conv_Cons map_Suc_upt [symmetric] filter_map o_def del: upt_Suc)
  then show ?thesis using first_rows_later [of bs "folder_key a"] by (simp add: first_rows_def [of "a # bs"] o_def)
qed

lemma dedup_first_rows: "sbDedupFolderList fl = first_rows fl"
proof (induction fl rule: sbDedupFolderList.induct)
  case (2 a bs)
  then show ?case by (simp add: first_rows_Cons drop_dups_filter strcasecmp_eq_def folder_key_def)
qed (simp add: first_rows_def)

definition sb_rows :: "device \<Rightarrow> files \<Rightarrow> bool \<Rightarrow> cstring \<Rightarrow> cstring option \<Rightarrow> base_game_info list" where
  "sb_rows dv fs nav pfx sub =
     (let folders = (nav \<and> sub \<noteq> None);
          cd = dir_entries dv fs folders (scan_path pfx ''CD'' sub) SCECdPS2CD;
          dd = dir_entries dv fs folders (scan_path pfx ''DVD'' sub) SCECdPS2DVD in
      (case ul_file fs pfx sub of None \<Rightarrow> [] | Some b \<Rightarrow> ul_list b) @ rev (found_games dd) @ rev (found_games cd) @
      first_rows (rev (found_folders dd) @ rev (found_folders cd)))"

text \<open>The read after both scans.\<close>

lemma read_list_scans:
  assumes len: "length pfx + length (sub_text sub) \<le> 240"
    and c: "scanForISO dv (ls_files s) (scan_path pfx ''CD'' sub) SCECdPS2CD (nav \<and> sub \<noteq> None) [] [] = Some (nc, dl1, fl1, fs1)"
      "\<forall>q. q \<noteq> scan_path pfx ''CD'' sub @ ''/games.bin'' \<longrightarrow> fs1 q = ls_files s q"
    and d: "scanForISO dv fs1 (scan_path pfx ''DVD'' sub) SCECdPS2DVD (nav \<and> sub \<noteq> None) dl1 fl1 = Some (nd, dl, fl, fs2)"
      "\<forall>q. q \<noteq> scan_path pfx ''DVD'' sub @ ''/games.bin'' \<longrightarrow> fs2 q = fs1 q"
    and ul: "ul = ul_file (ls_files s) pfx sub"
    and count: "count = (if 0 \<le> nd then (if nc < 0 then nd else nc + nd) else nc)"
    and s2: "s2 = sbSetBrowseSub sub s\<lparr>ls_files := fs2\<rparr>"
  shows "sbReadList dv nav pfx sub s =
    (case fill_list dv ul (nat (max 0 count)) dl (sbDedupFolderList fl) of
       None \<Rightarrow> None
     | Some l \<Rightarrow>
         if nc < 0 \<and> nd < 0 \<and> ul = None then Some (ls_gamecount s2, s2)
         else Some (case l of None \<Rightarrow> 0 | Some l \<Rightarrow> int (length l), s2\<lparr>ls_list := l,
           ls_fsize := (case ul of None \<Rightarrow> -1 | Some bytes \<Rightarrow> int (length bytes)),
           ls_gamecount := case l of None \<Rightarrow> 0 | Some l \<Rightarrow> int (length l)\<rparr>))"
proof -
  have u: "(if sub = None \<or> sub = Some [] then fs2 (bounded 256 (pfx @ ''ul.cfg'')) else None) = ul"
    using c(2) d(2) scan_paths [OF len] ul by (auto simp: ul_file_def sub_text_def split: option.splits)
  have st: "ls_files (sbSetBrowseSub sub s) = ls_files s" by (simp add: sbSetBrowseSub_def)
  show ?thesis unfolding sbReadList_def Let_def st s2 count by (simp only: c(1) d(1) option.case prod.case u)
qed

text \<open>C5. Reading a device: unless nothing on it could be read, the published list has the split games of
  \<^verbatim>\<open>ul.cfg\<close> (at the root only), then the images of \<^verbatim>\<open>DVD\<close> and of \<^verbatim>\<open>CD\<close>, the last entry of a directory first,
  then one row per folder name (the first row of a name up to case, \<^term>\<open>first_rows\<close>), and the count is its
  length; an unreadable directory counts as empty.  Hypotheses: the allocations of the read succeed, prefix
  and subfolder have at most 240 bytes together, \<^verbatim>\<open>ul.cfg\<close> has whole entries (\<open>sb_ulcfg_overflow\<close> is the
  other case), no directory entry faults the parser of \<^verbatim>\<open>SYSTEM.CNF\<close> or runs out of memory for its node.\<close>

theorem sb_read_list:
  assumes len: "length pfx + length (sub_text sub) \<le> 240" and mem: "dv_list_mem dv" "length (dv_junk dv) = 64"
    and cd: "set (dir_entries dv (ls_files s) (nav \<and> sub \<noteq> None) (scan_path pfx ''CD'' sub) SCECdPS2CD) \<inter> {Fault, Stop} = {}"
    and dd: "set (dir_entries dv (ls_files s) (nav \<and> sub \<noteq> None) (scan_path pfx ''DVD'' sub) SCECdPS2DVD) \<inter> {Fault, Stop} = {}"
    and ul: "\<forall>b. ul_file (ls_files s) pfx sub = Some b \<longrightarrow> length b mod 64 = 0"
    and some: "dv_dir dv (scan_path pfx ''CD'' sub) \<noteq> None \<or> dv_dir dv (scan_path pfx ''DVD'' sub) \<noteq> None \<or> ul_file (ls_files s) pfx sub \<noteq> None"
  shows "\<exists>s'. sbReadList dv nav pfx sub s = Some (int (length (sb_rows dv (ls_files s) nav pfx sub)), s') \<and>
    ls_list s' = (if sb_rows dv (ls_files s) nav pfx sub = [] then None else Some (sb_rows dv (ls_files s) nav pfx sub)) \<and>
    ls_gamecount s' = int (length (sb_rows dv (ls_files s) nav pfx sub))"
proof -
  let ?fs = "ls_files s" and ?fol = "nav \<and> sub \<noteq> None"
  let ?pc = "scan_path pfx ''CD'' sub" and ?pd = "scan_path pfx ''DVD'' sub"
  let ?ec = "dir_entries dv ?fs ?fol ?pc SCECdPS2CD" and ?ed = "dir_entries dv ?fs ?fol ?pd SCECdPS2DVD"
  note p = scan_paths [OF len]
  let ?nc = "if dv_dir dv ?pc = None then -1 else int (length (found_games ?ec))"
  let ?nd = "if dv_dir dv ?pd = None then -1 else int (length (found_games ?ed))"
  let ?dl = "rev (found_games ?ed) @ rev (found_games ?ec)" and ?fl = "rev (found_folders ?ed) @ rev (found_folders ?ec)"
  obtain fs1 where c: "scanForISO dv ?fs ?pc SCECdPS2CD ?fol [] [] = Some (?nc, rev (found_games ?ec), rev (found_folders ?ec), fs1)"
    "\<forall>q. q \<noteq> ?pc @ ''/games.bin'' \<longrightarrow> fs1 q = ?fs q"
    using iso_scan_found [OF p(1), of dv ?fs ?fol SCECdPS2CD "[]" "[]"] cd by auto
  have same: "dir_entries dv fs1 ?fol ?pd SCECdPS2DVD = ?ed" using dir_entries_cong c(2) p(3) by blast
  obtain fs2 where d: "scanForISO dv fs1 ?pd SCECdPS2DVD ?fol (rev (found_games ?ec)) (rev (found_folders ?ec)) = Some (?nd, ?dl, ?fl, fs2)"
    "\<forall>q. q \<noteq> ?pd @ ''/games.bin'' \<longrightarrow> fs2 q = fs1 q"
    using iso_scan_found [OF p(2), of dv fs1 ?fol SCECdPS2DVD "rev (found_games ?ec)" "rev (found_folders ?ec)"] dd same by auto
  let ?count = "if 0 \<le> ?nd then (if ?nc < 0 then ?nd else ?nc + ?nd) else ?nc"
  have none: "found_games ?ec = []" if "dv_dir dv ?pc = None" using that by (simp add: dir_entries_def found_games_def)
  have none': "found_games ?ed = []" if "dv_dir dv ?pd = None" using that by (simp add: dir_entries_def found_games_def)
  have count: "nat (max 0 ?count) = length ?dl" using none none' by (auto simp: nat_add_distrib)
  let ?rows = "sb_rows dv ?fs nav pfx sub"
  have fill: "fill_list dv (ul_file ?fs pfx sub) (length ?dl) ?dl (sbDedupFolderList ?fl) = Some (if ?rows = [] then None else Some ?rows)"
    using fill_list_all [OF ul mem(2,1), of ?dl "sbDedupFolderList ?fl"] by (simp add: sb_rows_def Let_def dedup_first_rows)
  have read: "\<not> (?nc < 0 \<and> ?nd < 0 \<and> ul_file ?fs pfx sub = None)" using some by auto
  note r = read_list_scans [OF len c d refl refl refl]
  show ?thesis using r read unfolding count fill by (cases "?rows = []") (auto simp del: not_less)
qed

text \<open>A device that cannot be read at all (neither directory opens and there is no \<^verbatim>\<open>ul.cfg\<close>) keeps
  the list, its count and size, and every file, the cache files included, as they were.\<close>

lemma sb_last_good:
  assumes "length pfx + length (sub_text sub) \<le> 240" "dv_dir dv (scan_path pfx ''CD'' sub) = None"
    "dv_dir dv (scan_path pfx ''DVD'' sub) = None" "ul_file (ls_files s) pfx sub = None"
  shows "sbReadList dv nav pfx sub s = Some (ls_gamecount s, sbSetBrowseSub sub s)"
proof -
  have scan: "scanForISO dv fs path type f gl fl = Some (-1, gl, fl, fs)" if "dv_dir dv path = None" "length path < 246" for fs path type f gl fl
    using that load_total [of path dv fs] by (auto simp: scanForISO_def)
  note p = scan_paths [OF assms(1)]
  from read_list_scans [OF assms(1) scan [OF assms(2) p(1)] _ scan [OF assms(3) p(2)] _ refl refl refl, of s nav]
  show ?thesis by (simp add: assms(4) fill_list_def sbSetBrowseSub_def)
qed

text \<open>The count is the length of the list, zero without a list.\<close>

definition lists_ok :: "lists \<Rightarrow> bool" where
  "lists_ok s \<longleftrightarrow> ls_gamecount s = (case ls_list s of None \<Rightarrow> 0 | Some l \<Rightarrow> int (length l))"

lemma scan_count:
  assumes "length path < 246" "Fault \<notin> set (dir_entries dv fs folders path type)"
  shows "\<exists>n gs fl' fs'. scanForISO dv fs path type folders gl fl = Some (n, gs @ gl, fl', fs') \<and>
    (n = int (length gs) \<or> n = -1 \<and> gs = []) \<and> (\<forall>p. p \<noteq> path @ ''/games.bin'' \<longrightarrow> fs' p = fs p)"
proof -
  obtain cache where load: "loadISOGameListCache dv fs path = Some cache" using load_total [OF assms(1)] by blast
  show ?thesis
  proof (cases "dv_dir dv path")
    case None
    then show ?thesis using load by (auto simp: scanForISO_def)
  next
    case (Some ds)
    then have "Fault \<notin> set (map (scan_one dv cache path type folders) ds)" using assms(2) load by (simp add: dir_entries_def)
    from scan_loop_count [OF this, of 0 gl fl] obtain gs fs2 where
      l: "scan_loop dv cache path type folders ds (0, gl, fl) = Some (length gs, gs @ gl, fs2 @ fl)" by auto
    obtain fs' where "updateISOGameList dv fs path cache (gs @ gl) (length gs) = Some fs'"
      "\<forall>p. p \<noteq> path @ ''/games.bin'' \<longrightarrow> fs' p = fs p" using update_files [OF assms(1)] by blast
    then show ?thesis using Some load l assms(1) by (auto simp: scanForISO_def)
  qed
qed

text \<open>C30. Whatever allocation or write fails, reading a device returns, and the count it publishes is the
  length of the published list, so no row outside the array is ever drawn.  \<^verbatim>\<open>ul.cfg\<close> has whole entries (\<open>sb_ulcfg_overflow\<close>
  is the other case), no image faults the parser of \<^verbatim>\<open>SYSTEM.CNF\<close>, and prefix and subfolder have at most 240 bytes.\<close>

theorem sb_count_exact:
  assumes len: "length pfx + length (sub_text sub) \<le> 240" and junk: "length (dv_junk dv) = 64" and ok: "lists_ok s"
    and cd: "Fault \<notin> set (dir_entries dv (ls_files s) (nav \<and> sub \<noteq> None) (scan_path pfx ''CD'' sub) SCECdPS2CD)"
    and dd: "Fault \<notin> set (dir_entries dv (ls_files s) (nav \<and> sub \<noteq> None) (scan_path pfx ''DVD'' sub) SCECdPS2DVD)"
    and ul: "\<forall>b. ul_file (ls_files s) pfx sub = Some b \<longrightarrow> length b mod 64 = 0"
  shows "\<exists>n s'. sbReadList dv nav pfx sub s = Some (n, s') \<and> lists_ok s' \<and> n = ls_gamecount s'"
proof -
  note p = scan_paths [OF len]
  obtain nc gc fl1 fs1 where c: "scanForISO dv (ls_files s) (scan_path pfx ''CD'' sub) SCECdPS2CD (nav \<and> sub \<noteq> None) [] [] = Some (nc, gc, fl1, fs1)"
    "nc = int (length gc) \<or> nc = -1 \<and> gc = []" "\<forall>q. q \<noteq> scan_path pfx ''CD'' sub @ ''/games.bin'' \<longrightarrow> fs1 q = ls_files s q"
    using scan_count [OF p(1) cd, of "[]" "[]"] by auto
  have "fs1 (scan_path pfx ''DVD'' sub @ ''/games.bin'') = ls_files s (scan_path pfx ''DVD'' sub @ ''/games.bin'')"
    using c(3) p(3) by blast
  from dir_entries_cong [of fs1 "scan_path pfx ''DVD'' sub" "ls_files s", OF this] dd
  have "Fault \<notin> set (dir_entries dv fs1 (nav \<and> sub \<noteq> None) (scan_path pfx ''DVD'' sub) SCECdPS2DVD)" by simp
  from scan_count [OF p(2) this, of gc fl1] obtain nd gd fl fs2 where
    d: "scanForISO dv fs1 (scan_path pfx ''DVD'' sub) SCECdPS2DVD (nav \<and> sub \<noteq> None) gc fl1 = Some (nd, gd @ gc, fl, fs2)"
    "nd = int (length gd) \<or> nd = -1 \<and> gd = []" "\<forall>q. q \<noteq> scan_path pfx ''DVD'' sub @ ''/games.bin'' \<longrightarrow> fs2 q = fs1 q"
    by auto
  let ?count = "if 0 \<le> nd then (if nc < 0 then nd else nc + nd) else nc"
  have count: "nat (max 0 ?count) = length (gd @ gc)" using c(2) d(2) by auto
  have "fill_list dv (ul_file (ls_files s) pfx sub) (length (gd @ gc)) (gd @ gc) (sbDedupFolderList fl) \<noteq> None"
  proof (cases "dv_list_mem dv")
    case True
    show ?thesis using fill_list_all [OF ul junk True, of "gd @ gc" "sbDedupFolderList fl"] by (simp add: Let_def)
  qed (simp add: fill_list_def Let_def)
  then obtain l where l: "fill_list dv (ul_file (ls_files s) pfx sub) (length (gd @ gc)) (gd @ gc) (sbDedupFolderList fl) = Some l" by blast
  note r = read_list_scans [OF len c(1,3) d(1,3) refl refl refl]
  have keep: "lists_ok (sbSetBrowseSub sub s\<lparr>ls_files := fs2\<rparr>)" using ok by (simp add: lists_ok_def sbSetBrowseSub_def)
  show ?thesis using r keep unfolding count l by (auto simp: lists_ok_def split: if_splits)
qed

text \<open>A \<^verbatim>\<open>ul.cfg\<close> with bytes behind its last whole entry is written past the end of the list: the
  array has one element per whole entry, the loop runs once more for the rest.\<close>

lemma sb_ulcfg_overflow:
  assumes "length pfx + length (sub_text sub) \<le> 240" "dv_list_mem dv"
    and "\<forall>dir \<in> {''CD'', ''DVD''}. dv_dir dv (scan_path pfx dir sub) = Some []"
    and "ul_file (ls_files s) pfx sub = Some bytes" "64 < length bytes" "length bytes mod 64 \<noteq> 0"
  shows "sbReadList dv nav pfx sub s = None"
proof -
  have scan: "scanForISO dv fs path type f [] [] = Some (0, [], [], fs)" if "dv_dir dv path = Some []" "length path < 246" for fs path type f
    using that load_total [of path dv fs] by (auto simp: scanForISO_def updateISOGameList_def list_modified_def split: option.splits)
  note p = scan_paths [OF assms(1)]
  have cd: "dv_dir dv (scan_path pfx ''CD'' sub) = Some []" and dd: "dv_dir dv (scan_path pfx ''DVD'' sub) = Some []"
    using assms(3) by simp_all
  have "ul_loop bytes (dv_junk dv) 0 (replicate (length bytes div 64) zero_game) = None"
    using assms(6) by (intro ul_loop_overflow) (metis length_replicate diff_zero div_mult_mod_eq less_add_same_cancel1 not_gr_zero)
  then have "fill_list dv (Some bytes) 0 [] [] = None"
    using assms(2,5) by (simp add: fill_list_def Let_def UL_ENTRY_SIZE_def)
  with read_list_scans [OF assms(1) scan [OF cd p(1)] _ scan [OF dd p(2)] _ refl refl refl, of s nav]
  show ?thesis using assms(4) by simp
qed

section \<open>The cache\<close>

lemma inner_loop_same [simp]: "0 < n \<Longrightarrow> inner_loop True n 0 = 0"
  by (cases n) simp_all

lemma not_added:
  "i + length gs = length c \<Longrightarrow> drop i c = gs \<Longrightarrow> \<not> game_added dv c i gs"
proof (induction gs arbitrary: i)
  case (Cons g gs)
  have i: "i < length c" using Cons.prems(1) by simp
  then have "c ! i = g" "drop (Suc i) c = gs" using Cons.prems(2) by (metis Cons_nth_drop_Suc list.inject)+
  moreover have "0 < length c" using i by linarith
  ultimately show ?case using Cons i inner_loop_same [of "length c"] by (auto simp: cache_at_def same_entry_def)
qed simp

lemma stamp_stamp [simp]: "stamp type f (stamp type f g) = stamp type f g"
  by (simp add: stamp_def)

lemma set_found_games: "set (found_games (map f ds)) = {g. \<exists>d \<in> set ds. f d = Game g}"
  by (induction ds) (auto simp: found_games_def split: scan_entry.splits)

text \<open>Entries of a scan without cache, found again in the cache made of them.\<close>

lemma scan_one_cached:
  assumes c: "set c = {g. \<exists>d \<in> set ds. scan_one dv None path type folders d = Game g}"
    and names: "\<forall>d \<in> set ds. NUL \<notin> set d" and nodes: "\<forall>d \<in> set ds. dv_node dv d" and d: "d \<in> set ds"
    and clash: "\<forall>x \<in> set ds. \<forall>n. isValidIsoName x = Some (GAME_FORMAT_OLD_ISO, n) \<longrightarrow> drop 12 x \<noteq> d"
  shows "scan_one dv (Some c) path type folders d = scan_one dv None path type folders d"
proof -
  have tm: "\<forall>g \<in> set c. terminated g"
  proof
    fix g
    assume "g \<in> set c"
    then obtain x where x: "x \<in> set ds" "scan_one dv None path type folders x = Game g" using c by blast
    show "terminated g" using scan_one_strings [OF x(2)] names x(1) by simp
  qed
  consider (iso) n where "isValidIsoName d = Some (GAME_FORMAT_ISO, n)" "n \<le> ISO_GAME_NAME_MAX" "length path + 1 + length d < 256"
    | (other) "\<nexists>n. isValidIsoName d = Some (GAME_FORMAT_ISO, n) \<and> n \<le> ISO_GAME_NAME_MAX \<and> length path + 1 + length d < 256" by blast
  then show ?thesis
  proof cases
    case iso
    have len: "length d < 165" using iso(1,2) iso_name_cases [OF iso(1)] by (auto simp: game_consts game_formats)
    have ne: "GAME_FORMAT_ISO \<noteq> GAME_FORMAT_OLD_ISO" by (simp add: game_formats)
    show ?thesis
    proof (cases "queryISOGameListCache c d")
      case None
      then show ?thesis using iso ne by (simp add: scan_one_def)
    next
      case (Some g)
      have g: "g \<in> set c" "cstr (g_name g) @ cstr (g_extension g) = d" using query_Some [OF Some tm len] by simp_all
      then obtain x where x: "x \<in> set ds" "scan_one dv None path type folders x = Game g" using c by blast
      have nx: "NUL \<notin> set x" using names x(1) by blast
      obtain f m where v: "isValidIsoName x = Some (f, m)"
        using x(2) by (cases "isValidIsoName x") (auto simp: scan_one_def folder_entry_def split: if_splits)
      have fits: "m \<le> ISO_GAME_NAME_MAX" using x(2) v by (auto simp: scan_one_def folder_entry_def split: if_splits)
      have "f \<noteq> GAME_FORMAT_OLD_ISO"
      proof
        assume o: "f = GAME_FORMAT_OLD_ISO"
        then have "17 \<le> length x" "m = length x - 16" "x ! 11 = CHR ''.''" using iso_name_cases [OF v] by (auto simp: game_formats)
        note old = old_iso_strings [OF this(1,2) fits nx this(3)]
        have "g = stamp type f (old_iso_entry x m)" using x(2) v fits o by (auto simp: scan_one_def split: if_splits)
        then have "take m (drop 12 x) @ drop (12 + m) x = d" using g(2) old by (simp add: stamp_def)
        moreover have "take m (drop 12 x) @ drop (12 + m) x = drop 12 x" by (metis append_take_drop_id drop_drop add.commute)
        ultimately show False using clash x(1) v o by metis
      qed
      then have "f = GAME_FORMAT_ISO" using iso_name_cases [OF v] by blast
      then have "g_format g = GAME_FORMAT_ISO" using x(2) v fits ne
        by (auto simp: scan_one_def stamp_def split: if_splits option.splits cnf_result.splits)
      then have "x = d" using scan_one_strings [OF x(2) nx] g(2) ne by auto
      then have sd: "scan_one dv None path type folders d = Game g" using x(2) by simp
      then obtain g0 where "g = stamp type GAME_FORMAT_ISO g0" using iso ne
        by (auto simp: scan_one_def split: if_splits option.splits cnf_result.splits)
      then show ?thesis using sd Some iso ne nodes d by (simp add: scan_one_def)
    qed
  next
    case other
    have "scan_one dv (Some c) path type folders d = scan_one dv cache path type folders d" for cache
    proof (cases "isValidIsoName d")
      case (Some p)
      obtain f n where p: "p = (f, n)" by (cases p)
      then have "f = GAME_FORMAT_OLD_ISO \<or> ISO_GAME_NAME_MAX < n \<or> 256 \<le> length path + 1 + length d"
        using other iso_name_cases [of d f n] Some by auto
      then show ?thesis using Some p by (auto simp: scan_one_def)
    qed (simp add: scan_one_def)
    then show ?thesis by blast
  qed
qed

lemma load_written:
  assumes "length path < 246" "fs (path @ ''/games.bin'') = Some (concat (map game_bytes gs))" "gs \<noteq> []"
    and "\<forall>g \<in> set gs. game_ok g" "dv_cache_mem dv" "dv_cache_read dv"
  shows "loadISOGameListCache dv fs path = Some (Some gs)"
proof -
  note el = game_layout.array_back [OF assms(4)] game_layout.array_length [OF assms(4)]
  have "0 < length (concat (map game_bytes gs)) div GAME_INFO_SIZE"
    using el(2) assms(3) by (simp add: GAME_INFO_SIZE_def)
  then show ?thesis using assms el(1) by (simp add: loadISOGameListCache_def games_bin_Some Let_def)
qed

text \<open>C7. The cache changes nothing: a second scan of an unchanged directory, which takes its entries from
  the \<^verbatim>\<open>games.bin\<close> the first scan wrote, gives the same list, and the cache file is left as it is.  Names
  hold no NUL, no old-style name is a plain name of the directory with an identifier in front (\<open>sb_cache_clash\<close>
  is that case), the path is shorter than 246 bytes, there is no cache file before, and the operations on device and
  memory succeed.\<close>

theorem sb_cache_transparent:
  assumes len: "length path < 246" and fresh: "fs (path @ ''/games.bin'') = None" and dir: "dv_dir dv path = Some ds"
    and dev: "\<forall>d \<in> set ds. dv_node dv d" "dv_cache_mem dv" "dv_cache_read dv" "dv_save_mem dv" "dv_save_open dv" "dv_save_write dv"
    and names: "\<forall>d \<in> set ds. NUL \<notin> set d"
    and clash: "\<forall>x \<in> set ds. \<forall>n. isValidIsoName x = Some (GAME_FORMAT_OLD_ISO, n) \<longrightarrow> drop 12 x \<notin> set ds"
    and first: "scanForISO dv fs path type folders gl fl = Some (n, gl', fl', fs')"
  shows "scanForISO dv fs' path type folders gl fl = Some (n, gl', fl', fs')"
proof -
  let ?scan = "scan_one dv None path type folders"
  have load: "loadISOGameListCache dv fs path = Some None" using len fresh by (simp add: loadISOGameListCache_def games_bin_Some)
  have nostop: "Stop \<notin> set (map ?scan ds)" using dev(1) scan_one_stop by (metis imageE list.set_map)
  have nofault: "Fault \<notin> set (map ?scan ds)"
  proof
    assume "Fault \<in> set (map ?scan ds)"
    then have "scan_loop dv None path type folders ds (0, gl, fl) = None" using scan_loop_fault nostop by blast
    then show False using first load dir len by (simp add: scanForISO_def)
  qed
  let ?G = "found_games (map ?scan ds)" and ?F = "found_folders (map ?scan ds)"
  have loop: "scan_loop dv None path type folders ds (0, gl, fl) = Some (length ?G, rev ?G @ gl, rev ?F @ fl)"
    using scan_loop_found [OF nofault nostop, of 0 gl fl] by (simp add: Let_def)
  have up: "updateISOGameList dv fs path None (rev ?G @ gl) (length ?G) = Some fs'"
    and res: "n = int (length ?G)" "gl' = rev ?G @ gl" "fl' = rev ?F @ fl"
    using first load dir len loop by (auto simp: scanForISO_def split: option.splits)
  show ?thesis
  proof (cases "?G = []")
    case True
    then have "fs' = fs" using up by (simp add: updateISOGameList_def list_modified_def)
    then show ?thesis using first by simp
  next
    case False
    have ok: "\<forall>g \<in> set (rev ?G). game_ok g"
    proof
      fix g
      assume "g \<in> set (rev ?G)"
      then obtain d where "d \<in> set ds" "?scan d = Game g" by (auto simp: set_found_games)
      then show "game_ok g" using scan_one_strings [of dv None path type folders d g] names by (simp add: terminated_def)
    qed
    have fs': "fs' = fs(path @ ''/games.bin'' \<mapsto> concat (map game_bytes (rev ?G)))"
      using up False dev len by (simp add: updateISOGameList_def list_modified_def games_bin_Some)
    then have load': "loadISOGameListCache dv fs' path = Some (Some (rev ?G))"
      using load_written [of path fs' "rev ?G" dv] len ok False dev by simp
    have "set (rev ?G) = {g. \<exists>d \<in> set ds. ?scan d = Game g}" by (simp add: set_found_games)
    then have same: "map (scan_one dv (Some (rev ?G)) path type folders) ds = map ?scan ds"
      using names dev(1) clash by (auto intro!: scan_one_cached)
    have "scan_loop dv (Some (rev ?G)) path type folders ds (0, gl, fl) = Some (length ?G, rev ?G @ gl, rev ?F @ fl)"
      using scan_loop_found [of dv "Some (rev ?G)" path type folders ds 0 gl fl, unfolded same, OF nofault nostop]
      by (simp only: Let_def add_0)
    moreover have "updateISOGameList dv fs' path (Some (rev ?G)) (rev ?G @ gl) (length ?G) = Some fs'"
      using not_added [of 0 "rev ?G" "rev ?G" dv] by (simp add: updateISOGameList_def list_modified_def)
    ultimately show ?thesis using load' dir len res by (simp add: scanForISO_def)
  qed
qed

section \<open>Split games\<close>

text \<open>An entry as reading \<^verbatim>\<open>ul.cfg\<close> makes it.\<close>

definition ul_shape :: "base_game_info \<Rightarrow> bool" where
  "ul_shape g \<longleftrightarrow> (\<exists>e. length e = 64 \<and> g = ul_game e zero_game)"

lemma ul_game_fields:
  assumes "length e = 64"
  shows "ul_game e zero_game = \<lparr>g_name = take 32 e @ replicate 129 NUL, g_startup = take 12 (drop 35 e) @ [NUL], g_extension = replicate 5 NUL,
    g_parts = char_byte (e ! 47), g_media = char_byte (e ! 48), g_format = GAME_FORMAT_USBLD, g_sizeMB = 0\<rparr>"
proof -
  have z: "(replicate n NUL)[i := NUL] = replicate n NUL" for n i
    by (metis list_update_beyond list_update_id length_replicate linorder_not_less nth_replicate)
  show ?thesis using assms
    by (simp add: ul_game_def zero_game_def memcpy_def game_consts list_update_append z min_def)
qed

lemma ul_entry_back:
  assumes "ul_shape g"
  shows "length (ul_entry g) = 64" "ul_game (ul_entry g) zero_game = g"
proof -
  obtain e where e: "length e = 64" "g = ul_game e zero_game" using assms by (auto simp: ul_shape_def)
  note g = ul_game_fields [OF e(1), folded e(2)]
  have names: "length (take 32 (g_name g)) = 32" "length (take 12 (g_startup g)) = 12" using e(1) by (simp_all add: g)
  then show len: "length (ul_entry g) = 64" by (simp add: ul_entry_def ul_bytes_def game_consts)
  show "ul_game (ul_entry g) zero_game = g"
    unfolding ul_game_fields [OF len] using names e(1)
    by (simp add: ul_entry_def ul_bytes_def game_consts nth_append g)
qed

definition split_games :: "base_game_info list \<Rightarrow> int \<Rightarrow> base_game_info list" where
  "split_games list ex = map snd (filter (\<lambda>(i, g). g_format g = GAME_FORMAT_USBLD \<and> int i \<noteq> ex) (enumerate 0 list))"

lemma rebuild_file:
  assumes "\<forall>g \<in> set list. g_format g = GAME_FORMAT_USBLD \<longrightarrow> ul_shape g" "length pfx \<le> 240"
  shows "\<exists>bytes. sbRebuildULCfg list pfx ex True fs = fs(pfx @ ''ul.cfg'' \<mapsto> bytes) \<and> ul_list bytes = split_games list ex \<and>
    length bytes mod 64 = 0"
proof -
  let ?bytes = "concat (map ul_entry (split_games list ex))"
  have "concat (map (\<lambda>(i, game). if g_format game = GAME_FORMAT_USBLD \<and> int i \<noteq> ex then ul_entry game else []) xs) =
    concat (map ul_entry (map snd (filter (\<lambda>(i, g). g_format g = GAME_FORMAT_USBLD \<and> int i \<noteq> ex) xs)))" for xs
    by (induction xs) (auto split: if_splits)
  then have "sbRebuildULCfg list pfx ex True fs = fs(pfx @ ''ul.cfg'' \<mapsto> ?bytes)"
    using assms(2) by (simp add: sbRebuildULCfg_def split_games_def)
  moreover have shape: "\<forall>g \<in> set (split_games list ex). ul_shape g"
  proof
    fix g
    assume "g \<in> set (split_games list ex)"
    then obtain k where "(k, g) \<in> set (enumerate 0 list)" "g_format g = GAME_FORMAT_USBLD" by (auto simp: split_games_def)
    moreover have "g \<in> set list" using calculation(1) by (metis map_snd_enumerate image_eqI set_map snd_conv)
    ultimately show "ul_shape g" using assms(1) by blast
  qed
  then have len: "\<forall>x \<in> set (map ul_entry (split_games list ex)). length x = 64" using ul_entry_back(1) by auto
  have el: "elements 64 ?bytes = map ul_entry (split_games list ex)" using elements_concat [OF _ len] by simp
  have "ul_list ?bytes = map (\<lambda>g. ul_game (ul_entry g) zero_game) (split_games list ex)"
    unfolding ul_list_def UL_ENTRY_SIZE_def el by (simp add: o_def)
  moreover have "\<dots> = split_games list ex" using shape ul_entry_back(2) by (simp add: map_idI)
  moreover have "length (concat xs) mod 64 = 0" if "\<forall>x \<in> set xs. length x = 64" for xs :: "char list list"
    using that by (induction xs) (auto simp: mod_add_eq)
  ultimately show ?thesis using len by metis
qed

lemma delete_parts_files:
  assumes "\<forall>p \<in> set ps. sbCreatePath sub game pfx sep p \<noteq> None"
  shows "\<exists>fs'. delete_parts sub game pfx sep ps fs = Some fs' \<and>
    (\<forall>q. fs' q = (if Some q \<in> sbCreatePath sub game pfx sep ` set ps then None else fs q))"
  using assms
proof (induction ps arbitrary: fs)
  case (Cons p ps)
  then obtain path where p: "sbCreatePath sub game pfx sep p = Some path" by auto
  from Cons obtain fs' where "delete_parts sub game pfx sep ps (unlink path fs) = Some fs'"
    "\<forall>q. fs' q = (if Some q \<in> sbCreatePath sub game pfx sep ` set ps then None else unlink path fs q)" by fastforce
  then show ?case using p by (auto simp: unlink_def)
qed simp

text \<open>Deleting a split game removes exactly its part files and its entry: \<^verbatim>\<open>ul.cfg\<close> read again lists the
  other split games in their order, and every other file keeps its content.\<close>

lemma sb_delete_split:
  assumes i: "i < length list" "g_format (list ! i) = GAME_FORMAT_USBLD"
    and shape: "\<forall>g \<in> set list. g_format g = GAME_FORMAT_USBLD \<longrightarrow> ul_shape g" and len: "length pfx \<le> 220"
  shows "\<exists>fs' bytes. sbDelete sub list pfx sep i True fs = Some fs' \<and> fs' (pfx @ ''ul.cfg'') = Some bytes \<and>
    ul_list bytes = split_games list (int i) \<and> length bytes mod 64 = 0 \<and>
    (\<forall>part < unat (g_parts (list ! i)). fs' (the (sbCreatePath sub (list ! i) pfx sep part)) = None) \<and>
    (\<forall>q. q \<noteq> pfx @ ''ul.cfg'' \<and> (\<forall>part < unat (g_parts (list ! i)). sbCreatePath sub (list ! i) pfx sep part \<noteq> Some q) \<longrightarrow> fs' q = fs q)"
proof -
  let ?g = "list ! i" and ?ps = "[0..<unat (g_parts (list ! i))]"
  have path: "sbCreatePath sub ?g pfx sep p \<noteq> None \<and> sbCreatePath sub ?g pfx sep p \<noteq> Some (pfx @ ''ul.cfg'')" for p
  proof -
    have "sbCreatePath sub ?g pfx sep p = Some (bounded 256 (pfx @ ''ul.'' @ show_08X (USBA_crc32 (cstr (g_name ?g))) @ ''.'' @ cstr (g_startup ?g) @ ''.'' @ show_02x p))"
      using i(2) by (simp add: sbCreatePath_def sbCreatePath_name_def Let_def)
    moreover have "length (pfx @ ''ul.cfg'') < length (bounded 256 (pfx @ ''ul.'' @ show_08X (USBA_crc32 (cstr (g_name ?g))) @ ''.'' @ cstr (g_startup ?g) @ ''.'' @ show_02x p))"
      using len by (simp add: bounded_def show_08X_def show_02x_def)
    ultimately show ?thesis by (metis less_irrefl option.discI option.inject)
  qed
  obtain fs1 where fs1: "delete_parts sub ?g pfx sep ?ps fs = Some fs1"
    "\<forall>q. fs1 q = (if Some q \<in> sbCreatePath sub ?g pfx sep ` set ?ps then None else fs q)"
    using delete_parts_files [of ?ps sub ?g pfx sep fs] path by blast
  obtain bytes where b: "sbRebuildULCfg list pfx (int i) True fs1 = fs1(pfx @ ''ul.cfg'' \<mapsto> bytes)"
    "ul_list bytes = split_games list (int i)" "length bytes mod 64 = 0"
    using rebuild_file [OF shape, of pfx "int i" fs1] len by auto
  have gone: "(fs1(pfx @ ''ul.cfg'' \<mapsto> bytes)) (the (sbCreatePath sub ?g pfx sep p)) = None" if "p < unat (g_parts ?g)" for p
  proof -
    obtain q where q: "sbCreatePath sub ?g pfx sep p = Some q" "q \<noteq> pfx @ ''ul.cfg''" using path [of p] by auto
    have "Some q \<in> sbCreatePath sub ?g pfx sep ` set ?ps" using q(1) that by (metis atLeastLessThan_iff image_eqI le0 set_upt)
    then show ?thesis using q fs1(2) by simp
  qed
  have keep: "(fs1(pfx @ ''ul.cfg'' \<mapsto> bytes)) q = fs q"
    if "q \<noteq> pfx @ ''ul.cfg''" "\<forall>part < unat (g_parts ?g). sbCreatePath sub ?g pfx sep part \<noteq> Some q" for q
  proof -
    have "Some q \<notin> sbCreatePath sub ?g pfx sep ` set ?ps" using that(2) by (auto dest: sym)
    then show ?thesis using that(1) fs1(2) by simp
  qed
  have "sbDelete sub list pfx sep i True fs = Some (fs1(pfx @ ''ul.cfg'' \<mapsto> bytes))"
    using i fs1(1) b(1) by (simp add: sbDelete_def)
  then show ?thesis using b(2,3) gone keep by fastforce
qed

text \<open>Renaming rewrites the entry: read again, it has the new name.\<close>

lemma renamed_shape:
  assumes "ul_shape g" "32 \<le> length newname"
  shows "ul_shape (renamed_game g newname)" "cstr (g_name (renamed_game g newname)) = take 32 (cstr newname)"
    "g_format (renamed_game g newname) = g_format g"
proof -
  obtain e where e: "length e = 64" "g = ul_game e zero_game" using assms(1) by (auto simp: ul_shape_def)
  note g = ul_game_fields [OF e(1), folded e(2)]
  let ?e = "take 32 newname @ drop 32 e"
  have name: "g_name (renamed_game g newname) = take 32 newname @ replicate 129 NUL"
    using assms(2) e(1) by (simp add: renamed_game_def memcpy_def game_consts g) (simp add: numeral_eq_Suc)
  have "length ?e = 64" using assms(2) e(1) by simp
  moreover have "renamed_game g newname = ul_game ?e zero_game"
    unfolding ul_game_fields [OF calculation] using name assms(2) e(1)
    by (intro base_game_info.equality) (simp_all add: renamed_game_def g nth_append)
  ultimately show "ul_shape (renamed_game g newname)" unfolding ul_shape_def by blast
  show "g_format (renamed_game g newname) = g_format g" by (simp add: renamed_game_def)
  have "cstr (take n s @ replicate (Suc k) NUL) = take n (cstr s)" for n s k
  proof (induction s arbitrary: n)
    case (Cons c s)
    then show ?case by (cases n) (simp_all add: cstr_def)
  qed (simp add: cstr_def)
  from this [of 32 newname 128] show "cstr (g_name (renamed_game g newname)) = take 32 (cstr newname)" using name by simp
qed

lemma sb_rename_entry:
  assumes "sbRename sub list pfx sep i newname True fs = Some (list', fs')" "i < length list" "g_format (list ! i) = GAME_FORMAT_USBLD"
    and "\<forall>g \<in> set list. g_format g = GAME_FORMAT_USBLD \<longrightarrow> ul_shape g" "length pfx \<le> 240"
  shows "\<exists>bytes. fs' (pfx @ ''ul.cfg'') = Some bytes \<and> ul_list bytes = split_games list' (-1) \<and>
    list' = list[i := renamed_game (list ! i) newname] \<and> cstr (g_name (list' ! i)) = take 32 (cstr newname)"
proof -
  obtain fs1 where r: "32 \<le> length newname" "list' = list[i := renamed_game (list ! i) newname]" "fs' = sbRebuildULCfg list' pfx (-1) True fs1"
    using assms(1-3) by (auto simp: sbRename_def Let_def game_consts split: option.splits if_splits)
  have "ul_shape (list ! i)" using assms(2-4) by simp
  note new = renamed_shape [OF this r(1)]
  have "\<forall>g \<in> set list'. g_format g = GAME_FORMAT_USBLD \<longrightarrow> ul_shape g"
    using r(2) new(1) assms(4) set_update_subset_insert [of list i "renamed_game (list ! i) newname"] by blast
  from rebuild_file [OF this assms(5), of "-1" fs1] show ?thesis using r(2,3) new(2) assms(2) by auto
qed

text \<open>One row per folder name.\<close>

lemma strcasecmp_refl: "strcasecmp_eq a a"
  by (simp add: strcasecmp_eq_def)

lemma set_dedup: "set (sbDedupFolderList fl) \<subseteq> set fl"
  by (induction fl rule: sbDedupFolderList.induct) (auto simp: drop_dups_filter)

lemma sb_folders_unique:
  "distinct (map (\<lambda>g. map to_lower (cstr (g_name g))) (sbDedupFolderList fl)) \<and>
   (\<forall>g \<in> set fl. \<exists>h \<in> set (sbDedupFolderList fl). strcasecmp_eq (cstr (g_name g)) (cstr (g_name h)))"
proof (induction fl rule: sbDedupFolderList.induct)
  case (2 a bs)
  let ?r = "sbDedupFolderList (drop_dups a bs)"
  have "\<forall>g \<in> set ?r. \<not> strcasecmp_eq (cstr (g_name g)) (cstr (g_name a))"
    using set_dedup [of "drop_dups a bs"] by (auto simp: drop_dups_filter)
  then have "map to_lower (cstr (g_name a)) \<notin> (\<lambda>g. map to_lower (cstr (g_name g))) ` set ?r"
    by (auto simp: strcasecmp_eq_def dest: sym)
  moreover have "\<exists>h \<in> set (a # ?r). strcasecmp_eq (cstr (g_name g)) (cstr (g_name h))" if "g \<in> set (a # bs)" for g
    using that 2 by (cases "strcasecmp_eq (cstr (g_name g)) (cstr (g_name a))") (auto simp: drop_dups_filter strcasecmp_refl)
  ultimately show ?case using 2 by simp
qed simp

section \<open>Examples\<close>

definition sample_device :: device where
  "sample_device = \<lparr>dv_dir = (\<lambda>p. if p = ''mass0:DVD'' then Some [''SLUS_200.02.A.iso'', ''B.iso'', ''notes.txt''] else None),
     dv_mount = (\<lambda>p. if p = ''mass0:DVD/B.iso'' then Some (Some (''BOOT2=cdrom0:'' @ [BACKSLASH] @ ''SLES_500.01;1'', True)) else None),
     dv_node = (\<lambda>p. True), dv_cache_mem = True, dv_cache_read = True, dv_save_mem = True, dv_save_open = True, dv_save_write = True,
     dv_beyond = (\<lambda>i. zero_game), dv_list_mem = True, dv_junk = replicate 64 NUL\<rparr>"

definition sample_lists :: lists where
  "sample_lists = \<lparr>ls_list = None, ls_fsize = -1, ls_gamecount = 0, ls_sub = [],
     ls_files = (\<lambda>p. if p = ''mass0:ul.cfg'' then Some (ul_bytes (''Gran'' @ replicate 28 NUL) (''SCES_502.94'' @ [NUL]) 2 SCECdPS2DVD) else None)\<rparr>"

lemma sample_paths: "scan_path ''mass0:'' ''CD'' None = ''mass0:CD''" "scan_path ''mass0:'' ''DVD'' None = ''mass0:DVD''"
  by (simp_all add: scan_path_def bounded_def)

lemma sample_entries:
  "dir_entries sample_device (ls_files sample_lists) False ''mass0:CD'' SCECdPS2CD = []"
  "map (\<lambda>e. case e of Game g \<Rightarrow> Some (cstr (g_name g), cstr (g_startup g)) | _ \<Rightarrow> None)
     (dir_entries sample_device (ls_files sample_lists) False ''mass0:DVD'' SCECdPS2DVD) =
   [Some (''A'', ''SLUS_200.02''), Some (''B'', ''SLES_500.01''), None]"
  "set (dir_entries sample_device (ls_files sample_lists) False ''mass0:DVD'' SCECdPS2DVD) \<inter> {Fault, Stop} = {}"
  by code_simp+

lemma sample_ul: "ul_file (ls_files sample_lists) ''mass0:'' None = Some (ul_bytes (''Gran'' @ replicate 28 NUL) (''SCES_502.94'' @ [NUL]) 2 SCECdPS2DVD)"
  by (simp add: ul_file_def sub_text_def sample_lists_def)

lemma length_ul_bytes: "length (ul_bytes name startup parts media) = length name + length startup + 20"
  by (simp add: ul_bytes_def)

theorem sb_read_list_witness:
  "\<exists>s'. sbReadList sample_device True ''mass0:'' None sample_lists = Some (3, s') \<and> ls_gamecount s' = 3 \<and>
     map_option (map (\<lambda>g. (cstr (g_name g), cstr (g_startup g)))) (ls_list s') =
       Some [(''Gran'', ''SCES_502.94''), (''B'', ''SLES_500.01''), (''A'', ''SLUS_200.02'')]"
proof -
  let ?rows = "sb_rows sample_device (ls_files sample_lists) True ''mass0:'' None"
  have names: "map (\<lambda>g. (cstr (g_name g), cstr (g_startup g))) ?rows = [(''Gran'', ''SCES_502.94''), (''B'', ''SLES_500.01''), (''A'', ''SLUS_200.02'')]"
    by code_simp
  have len: "length ?rows = 3" using arg_cong [OF names, of length] by simp
  have mem: "dv_list_mem sample_device" "length (dv_junk sample_device) = 64" by (simp_all add: sample_device_def)
  have "\<exists>s'. sbReadList sample_device True ''mass0:'' None sample_lists = Some (int (length ?rows), s') \<and>
    ls_list s' = (if ?rows = [] then None else Some ?rows) \<and> ls_gamecount s' = int (length ?rows)"
    using sample_entries(3) by (intro sb_read_list mem) (simp_all add: sample_paths sample_entries(1) sample_ul sub_text_def length_ul_bytes)
  then show ?thesis using names len by auto
qed

theorem sb_path_round_trip_witness:
  "\<exists>g. scan_one sample_device None ''mass0:DVD'' SCECdPS2DVD False ''SLUS_200.02.A.iso'' = Game g \<and>
     sbCreatePath [] g ''mass0:'' ''/'' 0 = Some ''mass0:DVD/SLUS_200.02.A.iso''"
proof -
  let ?g = "stamp SCECdPS2DVD GAME_FORMAT_OLD_ISO (old_iso_entry ''SLUS_200.02.A.iso'' 1)"
  have g: "scan_one sample_device None (scan_path ''mass0:'' ''DVD'' None) SCECdPS2DVD False ''SLUS_200.02.A.iso'' = Game ?g"
    by code_simp
  have "sbCreatePath (ls_sub (sbSetBrowseSub None sample_lists)) ?g ''mass0:'' ''/'' 0 =
    Some (scan_path ''mass0:'' ''DVD'' None @ ''/'' @ ''SLUS_200.02.A.iso'')"
    by (rule sb_path_round_trip [OF g]) simp_all
  then show ?thesis using g by (simp add: sample_paths sbSetBrowseSub_def)
qed

lemma sb_last_good_witness:
  "sbReadList (sample_device\<lparr>dv_dir := \<lambda>p. None\<rparr>) True ''mass0:'' None (sample_lists\<lparr>ls_list := Some [zero_game], ls_gamecount := 1, ls_files := \<lambda>p. None\<rparr>) =
   Some (1, sample_lists\<lparr>ls_list := Some [zero_game], ls_gamecount := 1, ls_files := \<lambda>p. None\<rparr>)"
  using sb_last_good [of "''mass0:''" None "sample_device\<lparr>dv_dir := \<lambda>p. None\<rparr>" "sample_lists\<lparr>ls_list := Some [zero_game], ls_gamecount := 1, ls_files := \<lambda>p. None\<rparr>" True]
  by (simp add: sub_text_def ul_file_def sbSetBrowseSub_def sample_lists_def)

theorem sb_count_exact_witness:
  "\<exists>n s'. sbReadList (sample_device\<lparr>dv_list_mem := False\<rparr>) True ''mass0:'' None sample_lists = Some (n, s') \<and> lists_ok s' \<and> n = ls_gamecount s'"
proof (rule sb_count_exact)
  show "lists_ok sample_lists" by (simp add: lists_ok_def sample_lists_def)
  have l: "loadISOGameListCache (sample_device\<lparr>dv_list_mem := False\<rparr>) = loadISOGameListCache sample_device"
    by (intro ext) (simp add: loadISOGameListCache_def cong: option.case_cong if_cong)
  have "scan_one (sample_device\<lparr>dv_list_mem := False\<rparr>) c p t f d = scan_one sample_device c p t f d" for c p t f d
    by (simp add: scan_one_def folder_entry_def cong: option.case_cong prod.case_cong if_cong)
  then have e: "dir_entries (sample_device\<lparr>dv_list_mem := False\<rparr>) fs f p t = dir_entries sample_device fs f p t" for fs f p t
    by (simp add: dir_entries_def l cong: option.case_cong map_cong)
  show "Fault \<notin> set (dir_entries (sample_device\<lparr>dv_list_mem := False\<rparr>) (ls_files sample_lists) (True \<and> None \<noteq> None) (scan_path ''mass0:'' ''CD'' None) SCECdPS2CD)"
    "Fault \<notin> set (dir_entries (sample_device\<lparr>dv_list_mem := False\<rparr>) (ls_files sample_lists) (True \<and> None \<noteq> None) (scan_path ''mass0:'' ''DVD'' None) SCECdPS2DVD)"
    using sample_entries(3) by (auto simp: e sample_paths sample_entries(1))
qed (simp_all add: sub_text_def sample_ul length_ul_bytes, simp add: sample_device_def)

lemma sb_ulcfg_overflow_witness:
  "sbReadList (sample_device\<lparr>dv_dir := \<lambda>p. Some []\<rparr>) True ''mass0:'' None (sample_lists\<lparr>ls_files := \<lambda>p. Some (replicate 65 NUL)\<rparr>) = None"
  by (rule sb_ulcfg_overflow [where bytes = "replicate 65 NUL"]) (simp_all add: sub_text_def ul_file_def sample_device_def)

theorem sb_cache_transparent_witness:
  "\<exists>n gl fl fs. scanForISO sample_device (\<lambda>p. None) ''mass0:DVD'' SCECdPS2DVD False [] [] = Some (n, gl, fl, fs) \<and> n = 2 \<and>
     fs ''mass0:DVD/games.bin'' \<noteq> None \<and> scanForISO sample_device fs ''mass0:DVD'' SCECdPS2DVD False [] [] = Some (n, gl, fl, fs)"
proof -
  have ok: "case scanForISO sample_device (\<lambda>p. None) ''mass0:DVD'' SCECdPS2DVD False [] [] of None \<Rightarrow> False
    | Some (n, gl, fl, fs) \<Rightarrow> n = 2 \<and> fs ''mass0:DVD/games.bin'' \<noteq> None" by code_simp
  then obtain n gl fl fs where s: "scanForISO sample_device (\<lambda>p. None) ''mass0:DVD'' SCECdPS2DVD False [] [] = Some (n, gl, fl, fs)"
    by (cases "scanForISO sample_device (\<lambda>p. None) ''mass0:DVD'' SCECdPS2DVD False [] []") auto
  have "scanForISO sample_device fs ''mass0:DVD'' SCECdPS2DVD False [] [] = Some (n, gl, fl, fs)"
    by (rule sb_cache_transparent [OF _ _ _ _ _ _ _ _ _ _ _ s, where ds = "[''SLUS_200.02.A.iso'', ''B.iso'', ''notes.txt'']"])
      (simp_all add: sample_device_def)
  then show ?thesis using s ok by auto
qed

lemma sb_delete_split_witness:
  "\<exists>fs' bytes. sbDelete [] (ul_list (the (ls_files sample_lists ''mass0:ul.cfg''))) ''mass0:'' ''/'' 0 True (ls_files sample_lists) = Some fs' \<and>
     fs' ''mass0:ul.cfg'' = Some bytes \<and> ul_list bytes = []"
proof -
  let ?e = "ul_bytes (''Gran'' @ replicate 28 NUL) (''SCES_502.94'' @ [NUL]) 2 SCECdPS2DVD"
  have len: "length ?e = 64" by (simp add: ul_bytes_def)
  have l: "ul_list (the (ls_files sample_lists ''mass0:ul.cfg'')) = [ul_game ?e zero_game]"
    using elements_concat [of 64 "[?e]"] len by (simp add: sample_lists_def ul_list_def UL_ENTRY_SIZE_def)
  have "split_games [ul_game ?e zero_game] (int 0) = []" by (simp add: split_games_def)
  moreover have "ul_shape (ul_game ?e zero_game)" using len unfolding ul_shape_def by blast
  ultimately show ?thesis unfolding l
    using sb_delete_split [of 0 "[ul_game ?e zero_game]" "''mass0:''" "[]" "''/''" "ls_files sample_lists"]
    by (auto simp: ul_game_def)
qed

text \<open>A plain image whose name is that of an old-style image without its identifier gets the identifier
  of the other image once the list is cached: entries of both namings are written to the cache, and the
  look-up compares name and extension only.\<close>

lemma sb_cache_clash:
  "map_option (\<lambda>g. cstr (g_startup g)) (queryISOGameListCache [old_iso_entry ''SLUS_200.02.A.iso'' 1, iso_entry ''SLES_500.01'' ''A.iso'' 1] ''A.iso'') =
   Some ''SLUS_200.02''"
  by code_simp

end
