(* ===== verification/Neutrino.thy ===== *)
theory Neutrino
  imports ConfigStore
begin

text \<open>
  Launching games with the external Neutrino core (\<^verbatim>\<open>src/supportbase.c\<close>, \<^verbatim>\<open>src/system.c\<close>): parsing and
  assembling the user's launch arguments, finding the installed core, arguments for virtual memory
  cards, keeping the network configuration of the core in step, and the argument vector of the launch.

  Whether a file can be opened is the predicate \<open>there\<close>; the roots of mounted block devices and the
  resident network protocol belong to \<^verbatim>\<open>bdmsupport.c\<close> and are parameters.
\<close>

section \<open>Tokens\<close>

definition is_blank :: "char \<Rightarrow> bool" where
  "is_blank c \<longleftrightarrow> c = SPC \<or> c = TAB"

text \<open>The tokens of \<^verbatim>\<open>strtok(s, " \t")\<close>.\<close>

function tokens :: "cstring \<Rightarrow> cstring list" where
  "tokens s = (case dropWhile is_blank s of
     [] \<Rightarrow> []
   | c # r \<Rightarrow> takeWhile (\<lambda>x. \<not> is_blank x) (c # r) # tokens (dropWhile (\<lambda>x. \<not> is_blank x) (c # r)))"
  by pat_completeness auto
termination
proof (relation "measure length")
  fix s c r
  assume s: "dropWhile is_blank s = c # r"
  then have "\<not> is_blank c" by (metis dropWhile_eq_Cons_conv)
  then have "length (dropWhile (\<lambda>x. \<not> is_blank x) (c # r)) \<le> length r" by (simp add: length_dropWhile_le)
  moreover have "length (c # r) \<le> length s" using s length_dropWhile_le [of is_blank s] by simp
  ultimately show "(dropWhile (\<lambda>x. \<not> is_blank x) (c # r), s) \<in> measure length" by simp
qed simp

declare tokens.simps [simp del]

section \<open>Launch arguments\<close>

definition naAppend :: "nat \<Rightarrow> cstring \<Rightarrow> cstring \<Rightarrow> cstring" where
  "naAppend outSize out tok =
     (if outSize - 1 \<le> length out then out
      else bounded outSize (out @ (if out = [] then [] else [SPC]) @ tok))"

definition naAppendKV :: "nat \<Rightarrow> cstring \<Rightarrow> cstring \<Rightarrow> cstring \<Rightarrow> cstring" where
  "naAppendKV outSize out key val = naAppend outSize out (bounded 96 (key @ val))"

record neutrino_args =
  na_qb :: bool
  na_dbc :: bool
  na_logo :: bool
  na_cwd :: cstring
  na_cfg :: cstring
  na_elf :: cstring
  na_ata0 :: cstring
  na_ata0id :: cstring
  na_ata1 :: cstring
  na_extra :: cstring

definition na_zero :: neutrino_args where
  "na_zero = \<lparr>na_qb = False, na_dbc = False, na_logo = False, na_cwd = [], na_cfg = [], na_elf = [], na_ata0 = [],
     na_ata0id = [], na_ata1 = [], na_extra = []\<rparr>"

definition parse_token :: "bool \<times> neutrino_args \<Rightarrow> cstring \<Rightarrow> bool \<times> neutrino_args" where
  "parse_token s tok = (case s of (breakSeen, na) \<Rightarrow>
     if breakSeen \<or> tok = ''--b'' then (True, na\<lparr>na_extra := naAppend 64 (na_extra na) tok\<rparr>)
     else if tok = ''-qb'' then (False, na\<lparr>na_qb := True\<rparr>)
     else if tok = ''-dbc'' then (False, na\<lparr>na_dbc := True\<rparr>)
     else if tok = ''-logo'' then (False, na\<lparr>na_logo := True\<rparr>)
     else if strncmp_eq 5 tok ''-cwd='' then (False, na\<lparr>na_cwd := bounded 64 (drop 5 tok)\<rparr>)
     else if strncmp_eq 5 tok ''-cfg='' then (False, na\<lparr>na_cfg := bounded 64 (drop 5 tok)\<rparr>)
     else if strncmp_eq 5 tok ''-elf='' then (False, na\<lparr>na_elf := bounded 64 (drop 5 tok)\<rparr>)
     else if strncmp_eq 8 tok ''-ata0id='' then (False, na\<lparr>na_ata0id := bounded 64 (drop 8 tok)\<rparr>)
     else if strncmp_eq 6 tok ''-ata0='' then (False, na\<lparr>na_ata0 := bounded 64 (drop 6 tok)\<rparr>)
     else if strncmp_eq 6 tok ''-ata1='' then (False, na\<lparr>na_ata1 := bounded 64 (drop 6 tok)\<rparr>)
     else (False, na\<lparr>na_extra := naAppend 64 (na_extra na) tok\<rparr>))"

definition neutrinoArgsParse :: "cstring option \<Rightarrow> neutrino_args" where
  "neutrinoArgsParse str = (case str of None \<Rightarrow> na_zero
     | Some t \<Rightarrow> snd (foldl parse_token (False, na_zero) (tokens (bounded 256 t))))"

definition neutrinoArgsAssemble :: "neutrino_args \<Rightarrow> nat \<Rightarrow> cstring" where
  "neutrinoArgsAssemble na outSize =
     (let flag = (\<lambda>b tok out. if b then naAppend outSize out tok else out);
          kv = (\<lambda>key val out. if val \<noteq> [] then naAppendKV outSize out key val else out) in
      flag (na_extra na \<noteq> []) (na_extra na)
       (kv ''-ata1='' (na_ata1 na) (kv ''-ata0id='' (na_ata0id na) (kv ''-ata0='' (na_ata0 na)
       (kv ''-elf='' (na_elf na) (kv ''-cfg='' (na_cfg na) (kv ''-cwd='' (na_cwd na)
       (flag (na_logo na) ''-logo'' (flag (na_dbc na) ''-dbc'' (flag (na_qb na) ''-qb'' []))))))))))"

section \<open>Finding the core\<close>

definition dir_of :: "cstring \<Rightarrow> cstring option" where
  "dir_of path = map_option (\<lambda>i. take i path) (strrchr path (CHR ''/''))"

definition sbNeutrinoInstallComplete :: "(cstring \<Rightarrow> bool) \<Rightarrow> cstring option \<Rightarrow> bool" where
  "sbNeutrinoInstallComplete there elfPath =
     (case elfPath of
        None \<Rightarrow> False
      | Some p \<Rightarrow>
          (case dir_of p of
             None \<Rightarrow> True
           | Some dir \<Rightarrow> there (bounded 320 (dir @ ''/config/system.toml'')) \<or> there (bounded 320 (dir @ ''/system.toml''))))"

text \<open>The loops over bases and name forms; the first hit is returned.\<close>

fun probe_forms :: "(cstring \<Rightarrow> bool) \<Rightarrow> nat \<Rightarrow> cstring \<Rightarrow> cstring list \<Rightarrow> cstring option" where
  "probe_forms there len base [] = None"
| "probe_forms there len base (f # forms) =
     (let p = bounded len (base @ f) in
      if there p \<and> sbNeutrinoInstallComplete there (Some p) then Some p else probe_forms there len base forms)"

fun probe_bases :: "(cstring \<Rightarrow> bool) \<Rightarrow> nat \<Rightarrow> cstring list \<Rightarrow> cstring list \<Rightarrow> cstring option" where
  "probe_bases there len [] forms = None"
| "probe_bases there len (b # bases) forms =
     (case probe_forms there len b forms of Some p \<Rightarrow> Some p | None \<Rightarrow> probe_bases there len bases forms)"

definition game_forms :: "cstring list" where
  "game_forms = [''NEUTRINO/neutrino.elf'', ''neutrino/neutrino.elf'', ''NEUTRINO/NEUTRINO.ELF'', ''neutrino/NEUTRINO.ELF'']"

definition dev_root :: "cstring \<Rightarrow> cstring" where
  "dev_root p = (case strchr p (CHR '':'') of None \<Rightarrow> [] | Some i \<Rightarrow> if i + 1 < 64 then take (i + 1) p else [])"

definition sbNeutrinoProbeGameDevice :: "(cstring \<Rightarrow> bool) \<Rightarrow> cstring option \<Rightarrow> cstring option" where
  "sbNeutrinoProbeGameDevice there activePrefix =
     (case activePrefix of
        None \<Rightarrow> None
      | Some p \<Rightarrow> if p = [] then None else probe_bases there 160 (filter (\<lambda>b. b \<noteq> []) [p, dev_root p]) game_forms)"

datatype neutrino_dev = NEUTRINO_DEV_AUTO | NEUTRINO_DEV_MC | NEUTRINO_DEV_USB | NEUTRINO_DEV_MX4SIO | NEUTRINO_DEV_MMCE
  | NEUTRINO_DEV_EXFAT_HDD | NEUTRINO_DEV_APA_HDD | NEUTRINO_DEV_GAME | NEUTRINO_DEV_ILINK

definition dev_cands :: "(neutrino_dev \<Rightarrow> cstring option) \<Rightarrow> neutrino_dev \<Rightarrow> cstring list" where
  "dev_cands bdm_root dev =
     (case dev of
        NEUTRINO_DEV_MC \<Rightarrow> [''mc0'', ''mc1'']
      | NEUTRINO_DEV_MMCE \<Rightarrow> [''mmce0'', ''mmce1'']
      | NEUTRINO_DEV_APA_HDD \<Rightarrow> [''pfs0'']
      | NEUTRINO_DEV_AUTO \<Rightarrow> []
      | NEUTRINO_DEV_GAME \<Rightarrow> []
      | _ \<Rightarrow> (case bdm_root dev of None \<Rightarrow> [] | Some r \<Rightarrow> [bounded 32 (before_char (CHR '':'') r)]))"

definition dev_forms :: "cstring list" where
  "dev_forms = ['':NEUTRINO/neutrino.elf'', '':/neutrino/neutrino.elf'', '':/NEUTRINO/neutrino.elf'', '':/neutrino/NEUTRINO.ELF'',
     '':/NEUTRINO/NEUTRINO.ELF'', '':NEUTRINO/NEUTRINO.ELF'']"

definition mc_candidates :: "cstring list" where
  "mc_candidates = [''mc0:NEUTRINO/neutrino.elf'', ''mc1:NEUTRINO/neutrino.elf'', ''mc0:/neutrino/neutrino.elf'', ''mc1:/neutrino/neutrino.elf'',
     ''mc0:/neutrino/NEUTRINO.ELF'', ''mc1:/neutrino/NEUTRINO.ELF'', ''mc0:NEUTRINO/NEUTRINO.ELF'', ''mc1:/NEUTRINO/NEUTRINO.ELF'']"

fun probe_list :: "(cstring \<Rightarrow> bool) \<Rightarrow> cstring list \<Rightarrow> cstring option" where
  "probe_list there [] = None"
| "probe_list there (p # ps) = (if there p \<and> sbNeutrinoInstallComplete there (Some p) then Some p else probe_list there ps)"

definition sbResolveNeutrinoPath ::
    "(cstring \<Rightarrow> bool) \<Rightarrow> (neutrino_dev \<Rightarrow> cstring option) \<Rightarrow> neutrino_dev \<Rightarrow> cstring \<Rightarrow> cstring option \<Rightarrow> cstring option" where
  "sbResolveNeutrinoPath there bdm_root gNeutrinoDevice gNeutrinoPath activePrefix =
     (if gNeutrinoDevice = NEUTRINO_DEV_GAME then sbNeutrinoProbeGameDevice there activePrefix
      else
        (case probe_bases there 64 (dev_cands bdm_root gNeutrinoDevice) dev_forms of
           Some p \<Rightarrow> Some p
         | None \<Rightarrow>
             if gNeutrinoPath \<noteq> [] \<and> there gNeutrinoPath \<and> sbNeutrinoInstallComplete there (Some gNeutrinoPath) then Some gNeutrinoPath
             else
               (case sbNeutrinoProbeGameDevice there activePrefix of
                  Some p \<Rightarrow> Some p
                | None \<Rightarrow> probe_list there mc_candidates)))"

section \<open>Virtual memory cards\<close>

definition vmc_arg :: "(cstring \<Rightarrow> bool) \<Rightarrow> config_set \<Rightarrow> cstring \<Rightarrow> nat \<Rightarrow> cstring" where
  "vmc_arg there configSet vmcPrefix slot =
     (let vmcName = configGetVMC configSet 32 (int slot) in
      if vmcName = [] then []
      else if configGetVMCDisable configSet (int slot) 0 \<noteq> 0 then []
      else
        let full = vmcPrefix @ ''VMC/'' @ vmcName @ ''.bin'' in
        if 160 \<le> length full \<or> \<not> there full then []
        else
          let arg = ''-mc'' @ show_nat slot @ ''='' @ full in
          if 160 \<le> length arg then [] else arg)"

definition sbBuildVmcNeutrinoArgs :: "(cstring \<Rightarrow> bool) \<Rightarrow> config_set option \<Rightarrow> cstring option \<Rightarrow> cstring list" where
  "sbBuildVmcNeutrinoArgs there configSet vmcPrefix =
     (case (configSet, vmcPrefix) of
        (Some cs, Some p) \<Rightarrow> map (vmc_arg there cs p) [0, 1]
      | _ \<Rightarrow> [[], []])"

section \<open>The argument vector\<close>

definition getDeviceName :: "bool \<Rightarrow> cstring \<Rightarrow> cstring" where
  "getDeviceName udpfs_resident driver =
     (if driver = ''usb'' then ''usb''
      else if driver = ''ilink'' \<or> driver = ''sd'' then ''ilink''
      else if driver = ''mx4sio'' \<or> driver = ''sdc'' then ''mx4sio''
      else if driver = ''ata'' then ''ata''
      else if driver = ''apa'' then ''apa''
      else if driver = ''mmce'' then ''mmce''
      else if driver = ''udp'' then (if udpfs_resident then ''udpfsbd'' else ''udpbd'')
      else if driver = ''udpfs'' then ''udpfs''
      else ''unsupported'')"

definition convertCompatmaskToModes :: "int \<Rightarrow> int" where
  "convertCompatmaskToModes compatmask =
     atoi ((if bit compatmask 0 then ''1'' else []) @ (if bit compatmask 1 then ''2'' else []) @ (if bit compatmask 2 then ''3'' else []) @
       (if bit compatmask 4 then ''5'' else []) @ (if bit compatmask 6 then ''7'' else []))"

definition argvMax :: nat where "argvMax = 14"

fun token_args :: "cstring list \<Rightarrow> cstring list \<Rightarrow> cstring list" where
  "token_args argv [] = argv"
| "token_args argv (tok # toks) =
     (if length argv < argvMax then token_args (if hd tok \<noteq> CHR ''$'' then argv @ [tok] else argv) toks else argv)"

definition appendArgTokens :: "cstring list \<Rightarrow> cstring option \<Rightarrow> cstring list" where
  "appendArgTokens argv src = (case src of None \<Rightarrow> argv | Some s \<Rightarrow> if s = [] then argv else token_args argv (tokens (bounded 256 s)))"

definition sysStartupShapeOk :: "cstring option \<Rightarrow> bool" where
  "sysStartupShapeOk str =
     (case str of
        None \<Rightarrow> False
      | Some s \<Rightarrow> length s = 11 \<and> s ! 4 = CHR ''_'' \<and> s ! 8 = CHR ''.'' \<and>
          list_all (\<lambda>i. isupper (s ! i) \<or> isdigit (s ! i)) [0, 1, 2, 3] \<and> list_all (\<lambda>i. isdigit (s ! i)) [5, 6, 7, 9, 10])"

text \<open>\<^verbatim>\<open>strstr\<close> from a position on, and the loop over the occurrences of the flag \<open>c # f\<close>.\<close>

fun strstr_from :: "cstring \<Rightarrow> cstring \<Rightarrow> nat \<Rightarrow> nat option" where
  "strstr_from pat [] i = (if pat = [] then Some i else None)"
| "strstr_from pat (c # s) i = (if take (length pat) (c # s) = pat then Some i else strstr_from pat s (i + 1))"

lemma strstr_from_le: "strstr_from (c # f) s i = Some q \<Longrightarrow> i \<le> q \<and> s \<noteq> []"
proof (induction "c # f" s i rule: strstr_from.induct)
  case (2 c' s i)
  then show ?case by (auto split: if_splits)
qed simp

definition active_at :: "cstring \<Rightarrow> cstring \<Rightarrow> nat \<Rightarrow> bool" where
  "active_at args flag p =
     (let flen = length flag;
          keyPrefix = (flag ! (flen - 1) = CHR ''='');
          disabled = (0 < p \<and> args ! (p - 1) = CHR ''$'');
          tokStart = (if disabled then p - 1 else p);
          startOk = (tokStart = 0 \<or> args ! (tokStart - 1) = SPC \<or> args ! (tokStart - 1) = TAB);
          endOk = (keyPrefix \<or> length args \<le> p + flen \<or> args ! (p + flen) = SPC \<or> args ! (p + flen) = TAB)
      in startOk \<and> endOk \<and> \<not> disabled)"

function flag_loop :: "cstring \<Rightarrow> char \<Rightarrow> cstring \<Rightarrow> nat \<Rightarrow> bool" where
  "flag_loop args c f p =
     (case strstr_from (c # f) (drop p args) p of
        None \<Rightarrow> False
      | Some q \<Rightarrow> if active_at args (c # f) q then True else flag_loop args c f (q + length (c # f)))"
  by pat_completeness auto
termination
  by (relation "measure (\<lambda>(args, c, f, p). length args - p)") (auto dest!: strstr_from_le)

declare flag_loop.simps [simp del]

text \<open>The callers pass non-empty flags.\<close>

definition neutrinoArgHasActiveFlag :: "cstring option \<Rightarrow> cstring \<Rightarrow> bool" where
  "neutrinoArgHasActiveFlag args flag =
     (case args of None \<Rightarrow> False | Some a \<Rightarrow> (case flag of [] \<Rightarrow> False | c # f \<Rightarrow> flag_loop a c f 0))"

record neutrino_env =
  ne_args :: cstring
  ne_debug :: bool
  ne_elf_arg :: bool
  ne_udpfs :: bool

definition has_flag :: "neutrino_env \<Rightarrow> cstring option \<Rightarrow> cstring \<Rightarrow> bool" where
  "has_flag env extraArgs flag \<longleftrightarrow> neutrinoArgHasActiveFlag (Some (ne_args env)) flag \<or> neutrinoArgHasActiveFlag extraArgs flag"

definition push :: "bool \<Rightarrow> cstring \<Rightarrow> cstring list \<Rightarrow> cstring list" where
  "push cond a argv = (if cond \<and> length argv < argvMax then argv @ [a] else argv)"

definition bsdfsTokens :: "cstring list" where "bsdfsTokens = [[], ''exfat'', ''hdl'', ''bd'']"
definition bsdfsDvdPrefix :: "cstring list" where "bsdfsDvdPrefix = [[], [], ''hdl:'', ''bdfs:'']"
definition gsmVideoTokens :: "cstring list" where "gsmVideoTokens = [[], ''fp1'', ''fp2'', ''1080ix1'', ''1080ix2'', ''1080ix3'']"

text \<open>The boot-critical arguments.\<close>

definition core_args :: "neutrino_env \<Rightarrow> cstring \<Rightarrow> cstring \<Rightarrow> cstring \<Rightarrow> cstring option \<Rightarrow> int \<Rightarrow> cstring list" where
  "core_args env deviceName path neutrinoPath extraArgs neutrinoBsdfs =
     (let a0 = push True neutrinoPath [] in
      if deviceName = ''apa'' then
        push True (bounded 288 (''-dvd=hdl:'' @ path)) (push True (bounded 16 ''-bsdfs=hdl'') (push True (bounded 16 ''-bsd=ata'') a0))
      else
        let a1 = push True (bounded 16 (''-bsd='' @ deviceName)) a0;
            fsOverride = (if 1 \<le> neutrinoBsdfs \<and> neutrinoBsdfs \<le> 3 \<and> deviceName \<noteq> ''mmce'' \<and> deviceName \<noteq> ''udpfs'' \<and>
                            \<not> has_flag env extraArgs ''-bsdfs='' then nat neutrinoBsdfs else 0);
            a2 = push (fsOverride \<noteq> 0) (bounded 16 (''-bsdfs='' @ bsdfsTokens ! fsOverride)) a1;
            a3 = push True (bounded 288 (''-dvd='' @ bsdfsDvdPrefix ! fsOverride @ path)) a2
        in push ((deviceName = ''usb'' \<or> deviceName = ''ilink'') \<and> \<not> has_flag env extraArgs ''-qb'') ''-qb'' a3)"

definition gsm_arg :: "int \<Rightarrow> int \<Rightarrow> cstring" where
  "gsm_arg neutrinoVideo neutrinoGsmComp =
     bounded 24 (''-gsm='' @ gsmVideoTokens ! nat neutrinoVideo @
       (if 1 \<le> neutrinoGsmComp \<and> neutrinoGsmComp \<le> 3 then '':'' @ show_int neutrinoGsmComp else []))"

definition cwd_arg :: "cstring \<Rightarrow> cstring option" where
  "cwd_arg neutrinoPath = map_option (\<lambda>i. bounded 288 (''-cwd='' @ take (i + 1) neutrinoPath)) (strrchr neutrinoPath (CHR ''/''))"

definition auto_args :: "neutrino_env \<Rightarrow> cstring \<Rightarrow> cstring option \<Rightarrow> int \<Rightarrow> bool \<Rightarrow> cstring option \<Rightarrow> int \<Rightarrow> int \<Rightarrow> cstring list option \<Rightarrow>
    cstring list \<Rightarrow> cstring list" where
  "auto_args env neutrinoPath startup compatmask logo extraArgs neutrinoVideo neutrinoGsmComp vmcArgs argv =
     (let gcModes = convertCompatmaskToModes compatmask;
          a1 = push (0 < gcModes) (bounded 32 (''-gc='' @ show_int gcModes)) argv;
          a2 = push (ne_debug env \<and> \<not> has_flag env extraArgs ''-dbc'') ''-dbc'' a1;
          a3 = push (logo \<and> \<not> has_flag env extraArgs ''-logo'') ''-logo'' a2;
          a4 = push (1 \<le> neutrinoVideo \<and> neutrinoVideo \<le> 5 \<and> \<not> has_flag env extraArgs ''-gsm='') (gsm_arg neutrinoVideo neutrinoGsmComp) a3;
          a5 = push (ne_elf_arg env \<and> sysStartupShapeOk startup \<and> \<not> has_flag env extraArgs ''-elf='')
                 (bounded 40 (''-elf=cdrom0:'' @ [BACKSLASH] @ the startup @ '';1'')) a4;
          a6 = (case vmcArgs of None \<Rightarrow> a5 | Some vs \<Rightarrow> foldl (\<lambda>argv v. push (v \<noteq> []) v argv) a5 vs)
      in if has_flag env extraArgs ''-cwd='' then a6
         else case cwd_arg neutrinoPath of None \<Rightarrow> a6 | Some c \<Rightarrow> push True c a6)"

definition pool_of :: "cstring list \<Rightarrow> nat" where
  "pool_of argv = sum_list (map (\<lambda>a. length a + 1) argv)"

text \<open>Dropping arguments from the end while the strings do not fit the pool.\<close>

function drop_tail :: "nat \<Rightarrow> nat \<Rightarrow> cstring list \<Rightarrow> cstring list" where
  "drop_tail coreArgc used argv =
     (if 256 < used + pool_of argv \<and> coreArgc < length argv then drop_tail coreArgc used (butlast argv) else argv)"
  by pat_completeness auto
termination
  by (relation "measure (\<lambda>(c, u, argv). length argv)") auto

declare drop_tail.simps [simp del]

text \<open>\<open>None\<close>: nothing is launched; otherwise the vector handed to the loader.\<close>

definition sysLaunchNeutrino :: "neutrino_env \<Rightarrow> cstring option \<Rightarrow> cstring option \<Rightarrow> cstring option \<Rightarrow> int \<Rightarrow> bool \<Rightarrow> cstring option \<Rightarrow>
    cstring option \<Rightarrow> int \<Rightarrow> int \<Rightarrow> int \<Rightarrow> cstring list option \<Rightarrow> cstring list option" where
  "sysLaunchNeutrino env driver path startup compatmask EnablePS2Logo neutrinoPath extraArgs neutrinoVideo neutrinoGsmComp neutrinoBsdfs vmcArgs =
     (case (neutrinoPath, driver, path) of
        (Some np, Some dr, Some pa) \<Rightarrow>
          let deviceName = getDeviceName (ne_udpfs env) dr in
          if deviceName = ''unsupported'' then None
          else
            let logo = (EnablePS2Logo \<and> dr \<noteq> ''mmce'');
                core = core_args env deviceName pa np extraArgs neutrinoBsdfs;
                argv = auto_args env np startup compatmask logo extraArgs neutrinoVideo neutrinoGsmComp vmcArgs core;
                full = appendArgTokens (appendArgTokens argv (Some (ne_args env))) extraArgs;
                fit = drop_tail (length core) (length np + 1) full
            in if 256 < length np + 1 + pool_of fit then None else Some fit
      | _ \<Rightarrow> None)"

section \<open>The network configuration of the core\<close>

definition ip_text :: "int list \<Rightarrow> cstring" where
  "ip_text ip = bounded 20 (show_int (ip ! 0) @ ''.'' @ show_int (ip ! 1) @ ''.'' @ show_int (ip ! 2) @ ''.'' @ show_int (ip ! 3))"

definition is_ip_char :: "char \<Rightarrow> bool" where
  "is_ip_char c \<longleftrightarrow> c = CHR ''.'' \<or> isdigit c"

text \<open>The text around the address: before it, the address, behind it.\<close>

definition ip_split :: "cstring \<Rightarrow> (cstring \<times> cstring \<times> cstring) option" where
  "ip_split toml = map_option (\<lambda>q. (take (q + 4) toml, takeWhile is_ip_char (drop (q + 4) toml), dropWhile is_ip_char (drop (q + 4) toml)))
     (strstr_from (DQUOTE # ''ip='') toml 0)"

text \<open>The file: \<open>None\<close> when it cannot be opened; \<open>wr\<close> gives for each of the two writes how many bytes are
  stored, \<open>None\<close> when the open fails.  The result is the return value and the file.\<close>

definition sysSyncNeutrinoUdpfsToml ::
    "int list \<Rightarrow> nat option \<Rightarrow> nat option \<Rightarrow> cstring \<Rightarrow> char list option \<Rightarrow> int \<times> char list option" where
  "sysSyncNeutrinoUdpfsToml ps2_ip wr1 wr2 neutrinoPath toml_file =
     (if strrchr neutrinoPath (CHR ''/'') = None then (0, toml_file)
      else
        (case toml_file of
           None \<Rightarrow> (-1, toml_file)
         | Some bytes \<Rightarrow>
             let raw = take 4095 bytes; toml = cstr raw in
             if raw = [] then (-1, toml_file)
             else if 4095 \<le> length raw then (0, toml_file)
             else
               (case ip_split toml of
                  None \<Rightarrow> (0, toml_file)
                | Some (pre, val, post) \<Rightarrow>
                    let newIp = ip_text ps2_ip; updated = bounded 4116 (pre @ newIp @ post) in
                    if val = newIp then (0, toml_file)
                    else
                      (case wr1 of
                         None \<Rightarrow> (0, toml_file)
                       | Some n \<Rightarrow>
                           if length updated \<le> n then (0, Some updated)
                           else
                             (case wr2 of
                                None \<Rightarrow> (-1, Some (take n updated))
                              | Some k \<Rightarrow> (-1, Some (take k raw)))))))"

definition sysNeutrinoPreflight ::
    "bool \<Rightarrow> int list \<Rightarrow> nat option \<Rightarrow> nat option \<Rightarrow> cstring option \<Rightarrow> cstring option \<Rightarrow> char list option \<Rightarrow> int \<times> char list option" where
  "sysNeutrinoPreflight udpfs_resident ps2_ip wr1 wr2 driver neutrinoPath toml_file =
     (case (driver, neutrinoPath) of
        (Some dr, Some np) \<Rightarrow>
          let deviceName = getDeviceName udpfs_resident dr in
          if deviceName = ''unsupported'' then (-1, toml_file)
          else if deviceName = ''udpfs'' \<or> deviceName = ''udpfsbd'' \<or> deviceName = ''udpbd'' then
            (case sysSyncNeutrinoUdpfsToml ps2_ip wr1 wr2 np toml_file of (r, f) \<Rightarrow> (if r < 0 then -1 else 0, f))
          else (0, toml_file)
      | _ \<Rightarrow> (-1, toml_file))"

section \<open>Lemmas on tokens\<close>

abbreviation word_char :: "char \<Rightarrow> bool" where "word_char x \<equiv> \<not> is_blank x"

lemma tokens_skip: "tokens (dropWhile is_blank s) = tokens s"
  by (subst (1 2) tokens.simps) simp

lemma tokens_Nil [simp]: "tokens [] = []"
  by (simp add: tokens.simps)

lemma tokens_blank_Cons [simp]: "is_blank c \<Longrightarrow> tokens (c # s) = tokens s"
  using tokens_skip [of "c # s"] tokens_skip [of s] by simp

lemma tokens_word:
  assumes "t \<noteq> []" "\<forall>x \<in> set t. word_char x" "v = [] \<or> is_blank (hd v)"
  shows "tokens (t @ v) = t # tokens v"
proof -
  obtain c r where t: "t = c # r" using assms(1) by (cases t) auto
  have tw: "takeWhile word_char (t @ v) = t" and dw: "dropWhile word_char (t @ v) = v"
    using assms by (cases v; simp add: takeWhile_append dropWhile_append)+
  have "dropWhile is_blank (t @ v) = c # (r @ v)" using assms(2) t by simp
  then have "tokens (t @ v) = takeWhile word_char (c # (r @ v)) # tokens (dropWhile word_char (c # (r @ v)))"
    by (subst tokens.simps) (simp only: list.case)
  then show ?thesis using tw dw t by simp
qed

lemma tokens_split: "is_blank c \<Longrightarrow> tokens (u @ c # r) = tokens u @ tokens r"
proof (induction u rule: length_induct)
  case (1 u)
  note c = 1(2)
  show ?case
  proof (cases u)
    case Nil
    then show ?thesis using c by simp
  next
    case (Cons d x)
    show ?thesis
    proof (cases "is_blank d")
      case True
      then show ?thesis using 1 Cons by simp
    next
      case False
      let ?t = "takeWhile word_char u" and ?v = "dropWhile word_char u"
      have t: "?t \<noteq> []" "\<forall>y \<in> set ?t. word_char y" using False Cons by (auto dest: set_takeWhileD)
      have v: "?v = [] \<or> is_blank (hd ?v)" by (metis hd_dropWhile)
      have "length ?v < length u" using False Cons by (simp add: le_imp_less_Suc length_dropWhile_le)
      then have IH: "tokens (?v @ c # r) = tokens ?v @ tokens r" using 1 by blast
      have "u @ c # r = ?t @ (?v @ c # r)" by simp
      moreover have "?v @ c # r = [] \<or> is_blank (hd (?v @ c # r))" using v c by (metis append_Nil hd_append2 list.sel(1))
      ultimately have "tokens (u @ c # r) = ?t # tokens (?v @ c # r)" using tokens_word [OF t] by metis
      moreover have "tokens u = ?t # tokens ?v" using tokens_word [OF t v] by simp
      ultimately show ?thesis using IH by simp
    qed
  qed
qed

lemma tokens_iff:
  "t \<in> set (tokens s) \<longleftrightarrow>
   (\<exists>u v. s = u @ t @ v \<and> t \<noteq> [] \<and> (\<forall>x \<in> set t. word_char x) \<and> (u = [] \<or> is_blank (last u)) \<and> (v = [] \<or> is_blank (hd v)))"
  (is "_ \<longleftrightarrow> ?R s")
proof
  show "?R s" if "t \<in> set (tokens s)"
    using that
  proof (induction s rule: length_induct)
    case (1 s)
    show ?case
    proof (cases s)
      case Nil
      then show ?thesis using 1 by simp
    next
      case (Cons d x)
      show ?thesis
      proof (cases "is_blank d")
        case True
        then have "?R x" using 1 Cons by simp
        then obtain u v where "x = u @ t @ v" "t \<noteq> []" "\<forall>x \<in> set t. word_char x" "u = [] \<or> is_blank (last u)" "v = [] \<or> is_blank (hd v)"
          by blast
        then show ?thesis using Cons True by (intro exI [of _ "d # u"] exI [of _ v]) auto
      next
        case False
        let ?t = "takeWhile word_char s" and ?v = "dropWhile word_char s"
        have t: "?t \<noteq> []" "\<forall>y \<in> set ?t. word_char y" using False Cons by (auto dest: set_takeWhileD)
        have v: "?v = [] \<or> is_blank (hd ?v)" by (metis hd_dropWhile)
        have "tokens s = ?t # tokens ?v" using tokens_word [OF t v] by simp
        then consider "t = ?t" | "t \<in> set (tokens ?v)" using 1(2) by auto
        then show ?thesis
        proof cases
          case 1
          then show ?thesis using t v by (intro exI [of _ "[]"] exI [of _ ?v]) auto
        next
          case 2
          have "length ?v < length s" using False Cons by (simp add: le_imp_less_Suc length_dropWhile_le)
          then obtain u w where w: "?v = u @ t @ w" "t \<noteq> []" "\<forall>x \<in> set t. word_char x" "u = [] \<or> is_blank (last u)" "w = [] \<or> is_blank (hd w)"
            using 1(1) 2 by blast
          have "u \<noteq> []" using w(1-3) v by (cases t) auto
          moreover have "s = (?t @ u) @ t @ w" using w(1) by (metis append.assoc takeWhile_dropWhile_id)
          ultimately show ?thesis using w by (metis last_append)
        qed
      qed
    qed
  qed
  show "t \<in> set (tokens s)" if "?R s"
  proof -
    from that obtain u v where s: "s = u @ t @ v" "t \<noteq> []" "\<forall>x \<in> set t. word_char x" "u = [] \<or> is_blank (last u)" "v = [] \<or> is_blank (hd v)"
      by blast
    note w = tokens_word [OF s(2,3,5)]
    show ?thesis
    proof (cases u rule: rev_cases)
      case Nil
      then show ?thesis using s w by simp
    next
      case (snoc y c)
      then show ?thesis using s w tokens_split [of c y "t @ v"] by simp
    qed
  qed
qed

section \<open>Flags in argument strings\<close>

lemma strstr_from_spec:
  "case strstr_from (c # f) s i of
     None \<Rightarrow> \<forall>j. take (length (c # f)) (drop j s) \<noteq> c # f
   | Some q \<Rightarrow> i \<le> q \<and> take (length (c # f)) (drop (q - i) s) = c # f \<and> (\<forall>j < q - i. take (length (c # f)) (drop j s) \<noteq> c # f)"
proof (induction s arbitrary: i)
  case (Cons d s)
  show ?case
  proof (cases "take (length (c # f)) (d # s) = c # f")
    case True
    then show ?thesis by simp
  next
    case False
    have step: "take (length (c # f)) (drop j (d # s)) \<noteq> c # f" if "j = 0 \<or> take (length (c # f)) (drop (j - 1) s) \<noteq> c # f" for j
      using that False by (cases j) auto
    show ?thesis
    proof (cases "strstr_from (c # f) s (i + 1)")
      case None
      have "\<forall>j. take (length (c # f)) (drop j s) \<noteq> c # f" by (rule Cons [of "i + 1", unfolded None option.case])
      then have "\<forall>j. take (length (c # f)) (drop j (d # s)) \<noteq> c # f" using step by blast
      then show ?thesis using None False by (simp only: strstr_from.simps if_False option.case simp_thms)
    next
      case (Some q)
      have q: "i + 1 \<le> q" "take (length (c # f)) (drop (q - (i + 1)) s) = c # f"
        "\<forall>j < q - (i + 1). take (length (c # f)) (drop j s) \<noteq> c # f" using Cons [of "i + 1"] unfolding Some option.case by blast+
      have "drop (q - i) (d # s) = drop (q - (i + 1)) s" using q(1) by (cases "q - i") (auto simp: diff_Suc split: nat.splits)
      moreover have "\<forall>j < q - i. take (length (c # f)) (drop j (d # s)) \<noteq> c # f"
      proof (intro allI impI)
        fix j
        assume "j < q - i"
        then have "j = 0 \<or> j - 1 < q - (i + 1)" by linarith
        then show "take (length (c # f)) (drop j (d # s)) \<noteq> c # f" using step q(3) by blast
      qed
      ultimately show ?thesis using Some False q(1,2) by (simp only: strstr_from.simps if_False option.case) simp
    qed
  qed
qed simp

text \<open>An occurrence of the flag as a token of its own, or at the start of one.\<close>

definition flag_at :: "cstring \<Rightarrow> cstring \<Rightarrow> nat \<Rightarrow> bool" where
  "flag_at args flag q \<longleftrightarrow> take (length flag) (drop q args) = flag \<and> active_at args flag q"

lemma flag_apart:
  assumes "take (length flag) (drop q args) = flag" "flag_at args flag q'" "\<forall>x \<in> set flag. word_char x" "q < q'"
  shows "q + length flag \<le> q'"
proof (rule ccontr)
  assume "\<not> q + length flag \<le> q'"
  then have k: "q' - 1 - q < length flag" using assms(4) by linarith
  have "flag ! (q' - 1 - q) = take (length flag) (drop q args) ! (q' - 1 - q)" using assms(1) by simp
  also have "\<dots> = args ! (q' - 1)"
  proof -
    have "length (take (length flag) (drop q args)) = length flag" using assms(1) by simp
    then have "q + (q' - 1 - q) < length args" using k by simp
    then show ?thesis using k assms(4) by simp
  qed
  finally have "word_char (args ! (q' - 1))" using assms(3) k by (metis nth_mem)
  moreover have "is_blank (args ! (q' - 1))" using assms(2,4) by (auto simp: flag_at_def active_at_def Let_def is_blank_def split: if_splits)
  ultimately show False by simp
qed

lemma flag_loop_iff:
  "\<forall>x \<in> set (c # f). word_char x \<Longrightarrow> flag_loop args c f p \<longleftrightarrow> (\<exists>q \<ge> p. flag_at args (c # f) q)"
proof (induction args c f p rule: flag_loop.induct)
  case (1 args c f p)
  let ?n = "length (c # f)"
  note spec = strstr_from_spec [of c f "drop p args" p]
  show ?case
  proof (cases "strstr_from (c # f) (drop p args) p")
    case None
    have no: "\<forall>j. take ?n (drop j (drop p args)) \<noteq> c # f" by (rule spec [unfolded None option.case])
    have "\<not> flag_at args (c # f) q" if "p \<le> q" for q
      using no [rule_format, of "q - p"] that by (auto simp: flag_at_def)
    then show ?thesis using None by (subst flag_loop.simps) auto
  next
    case (Some q)
    have q: "p \<le> q" "take ?n (drop (q - p) (drop p args)) = c # f" "\<forall>j < q - p. take ?n (drop j (drop p args)) \<noteq> c # f"
      using spec unfolding Some option.case by blast+
    have match: "take ?n (drop q args) = c # f" using q(1,2) by simp
    show ?thesis
    proof (cases "active_at args (c # f) q")
      case True
      then show ?thesis using Some q(1) match by (subst flag_loop.simps) (auto simp: flag_at_def)
    next
      case False
      have IH: "flag_loop args c f (q + ?n) \<longleftrightarrow> (\<exists>q' \<ge> q + ?n. flag_at args (c # f) q')" using 1 Some False by blast
      have "q + ?n \<le> q'" if q': "p \<le> q'" "flag_at args (c # f) q'" for q'
      proof -
        have "\<not> q' < q"
        proof
          assume "q' < q"
          then have "q' - p < q - p" using q'(1) by linarith
          then show False using q(3) [rule_format, of "q' - p"] q' by (simp add: flag_at_def)
        qed
        moreover have "q' \<noteq> q" using False q'(2) by (auto simp: flag_at_def)
        ultimately show ?thesis using flag_apart [OF match q'(2) 1(2)] by simp
      qed
      then have "(\<exists>q' \<ge> p. flag_at args (c # f) q') \<longleftrightarrow> (\<exists>q' \<ge> q + ?n. flag_at args (c # f) q')" using q(1) by (meson le_trans le_add1)
      moreover have "flag_loop args c f p = flag_loop args c f (q + ?n)" using Some False by (subst flag_loop.simps) simp
      ultimately show ?thesis using IH by simp
    qed
  qed
qed

lemma flag_at_split:
  assumes "flag \<noteq> []" "q \<le> length args"
  shows "flag_at args flag q \<longleftrightarrow>
    (\<exists>u v. args = u @ flag @ v \<and> length u = q \<and> (u = [] \<or> is_blank (last u)) \<and> (last flag = CHR ''='' \<or> v = [] \<or> is_blank (hd v)))"
    (is "_ \<longleftrightarrow> ?R")
proof -
  let ?u = "take q args" and ?v = "drop (q + length flag) args"
  have l: "flag ! (length flag - Suc 0) = last flag" using assms(1) by (simp add: last_conv_nth)
  have u: "?u = [] \<longleftrightarrow> q = 0" "0 < q \<Longrightarrow> last ?u = args ! (q - 1)"
    using assms(2) by (auto simp: take_Suc_conv_app_nth gr0_conv_Suc)
  have v: "?v = [] \<longleftrightarrow> length args \<le> q + length flag" "?v \<noteq> [] \<Longrightarrow> hd ?v = args ! (q + length flag)" by (auto simp: hd_drop_conv_nth)
  have act: "active_at args flag q \<longleftrightarrow> (q = 0 \<or> is_blank (args ! (q - 1))) \<and>
    (last flag = CHR ''='' \<or> length args \<le> q + length flag \<or> is_blank (args ! (q + length flag)))"
    by (auto simp: active_at_def Let_def l is_blank_def)
  show ?thesis
  proof
    assume f: "flag_at args flag q"
    then have "args = ?u @ flag @ ?v" unfolding flag_at_def by (metis append_take_drop_id drop_drop add.commute)
    moreover have "?u = [] \<or> is_blank (last ?u)" using f act u by (auto simp: flag_at_def)
    moreover have "last flag = CHR ''='' \<or> ?v = [] \<or> is_blank (hd ?v)" using f act v by (metis flag_at_def)
    ultimately show ?R using assms(2) by (metis length_take min.absorb2)
  next
    assume ?R
    then obtain u w where r: "args = u @ flag @ w" "length u = q" "u = [] \<or> is_blank (last u)" "last flag = CHR ''='' \<or> w = [] \<or> is_blank (hd w)"
      by blast
    then have "?u = u" "?v = w" "take (length flag) (drop q args) = flag" by auto
    then show "flag_at args flag q" using r(2-4) act u v unfolding flag_at_def by (metis gr0I length_0_conv)
  qed
qed

text \<open>C18. An argument string carries a flag exactly when one of its tokens is the flag, or starts with it for
  a flag that ends in an equals sign: occurrences inside other tokens and tokens disabled with a dollar
  sign do not count.\<close>

theorem neutrino_flag_tokens:
  assumes "flag \<noteq> []" "\<forall>x \<in> set flag. \<not> is_blank x"
  shows "neutrinoArgHasActiveFlag (Some args) flag \<longleftrightarrow>
    (\<exists>t \<in> set (tokens args). if last flag = CHR ''='' then prefix flag t else t = flag)"
proof -
  obtain c f where flag: "flag = c # f" using assms(1) by (cases flag) auto
  have in_range: "q \<le> length args" if "flag_at args flag q" for q
  proof (rule ccontr)
    assume "\<not> q \<le> length args"
    then show False using that assms(1) by (simp add: flag_at_def)
  qed
  have "neutrinoArgHasActiveFlag (Some args) flag \<longleftrightarrow> (\<exists>q. flag_at args flag q)"
    using flag_loop_iff [of c f args 0] assms(2) flag by (simp add: neutrinoArgHasActiveFlag_def)
  also have "\<dots> \<longleftrightarrow> (\<exists>u v. args = u @ flag @ v \<and> (u = [] \<or> is_blank (last u)) \<and> (last flag = CHR ''='' \<or> v = [] \<or> is_blank (hd v)))"
  proof
    assume "\<exists>q. flag_at args flag q"
    then obtain q where "flag_at args flag q" "q \<le> length args" using in_range by blast
    then show "\<exists>u v. args = u @ flag @ v \<and> (u = [] \<or> is_blank (last u)) \<and> (last flag = CHR ''='' \<or> v = [] \<or> is_blank (hd v))"
      using flag_at_split [OF assms(1)] by blast
  next
    assume "\<exists>u v. args = u @ flag @ v \<and> (u = [] \<or> is_blank (last u)) \<and> (last flag = CHR ''='' \<or> v = [] \<or> is_blank (hd v))"
    then obtain u v where uv: "args = u @ flag @ v" "u = [] \<or> is_blank (last u)" "last flag = CHR ''='' \<or> v = [] \<or> is_blank (hd v)"
      by blast
    then have "length u \<le> length args" by simp
    then have "flag_at args flag (length u)" using flag_at_split [OF assms(1)] uv by blast
    then show "\<exists>q. flag_at args flag q" by blast
  qed
  also have "\<dots> \<longleftrightarrow> (\<exists>t \<in> set (tokens args). if last flag = CHR ''='' then prefix flag t else t = flag)"
  proof (cases "last flag = CHR ''=''")
    case True
    have "(\<exists>u v. args = u @ flag @ v \<and> (u = [] \<or> is_blank (last u))) \<longleftrightarrow> (\<exists>t \<in> set (tokens args). prefix flag t)"
    proof
      assume "\<exists>u v. args = u @ flag @ v \<and> (u = [] \<or> is_blank (last u))"
      then obtain u v where a: "args = u @ flag @ v" "u = [] \<or> is_blank (last u)" by blast
      let ?t = "flag @ takeWhile word_char v" and ?w = "dropWhile word_char v"
      have "?w = [] \<or> is_blank (hd ?w)" by (metis hd_dropWhile)
      moreover have "args = u @ ?t @ ?w" using a(1) by simp
      moreover have "\<forall>x \<in> set ?t. word_char x" using assms(2) by (auto dest: set_takeWhileD)
      ultimately have "?t \<in> set (tokens args)" using a(2) assms(1) unfolding tokens_iff by blast
      then show "\<exists>t \<in> set (tokens args). prefix flag t" by (metis prefixI)
    next
      assume "\<exists>t \<in> set (tokens args). prefix flag t"
      then obtain t x where t: "t \<in> set (tokens args)" "t = flag @ x" unfolding prefix_def by blast
      then obtain u v where "args = u @ (flag @ x) @ v" "u = [] \<or> is_blank (last u)" using tokens_iff [of t args] by blast
      then show "\<exists>u v. args = u @ flag @ v \<and> (u = [] \<or> is_blank (last u))" by (intro exI [of _ u] exI [of _ "x @ v"]) simp
    qed
    then show ?thesis using True by simp
  next
    case False
    have "flag \<in> set (tokens args) \<longleftrightarrow> (\<exists>u v. args = u @ flag @ v \<and> (u = [] \<or> is_blank (last u)) \<and> (v = [] \<or> is_blank (hd v)))"
      using tokens_iff [of flag args] assms by blast
    then show ?thesis using False by auto
  qed
  finally show ?thesis .
qed

theorem neutrino_flag_tokens_witness:
  "neutrinoArgHasActiveFlag (Some ''-elf=my-dbc-game.elf $-dbc -gsm=fp2'') ''-dbc'' = False \<and>
   neutrinoArgHasActiveFlag (Some ''-elf=my-dbc-game.elf $-dbc -gsm=fp2'') ''-gsm='' = True"
proof -
  have t: "tokens ''-elf=my-dbc-game.elf $-dbc -gsm=fp2'' = [''-elf=my-dbc-game.elf'', ''$-dbc'', ''-gsm=fp2'']" by code_simp
  show ?thesis
    using neutrino_flag_tokens [of "''-dbc''" "''-elf=my-dbc-game.elf $-dbc -gsm=fp2''"]
      neutrino_flag_tokens [of "''-gsm=''" "''-elf=my-dbc-game.elf $-dbc -gsm=fp2''"]
    by (simp add: t is_blank_def)
qed

section \<open>The vector fits\<close>

text \<open>Arguments are only added behind those present, up to the limit.\<close>

definition grows :: "cstring list \<Rightarrow> cstring list \<Rightarrow> bool" where
  "grows argv argv' \<longleftrightarrow> prefix argv argv' \<and> (length argv \<le> argvMax \<longrightarrow> length argv' \<le> argvMax)"

lemma grows_refl [simp]: "grows argv argv"
  by (simp add: grows_def)

lemma grows_trans: "grows a b \<Longrightarrow> grows b c \<Longrightarrow> grows a c"
  by (auto simp: grows_def intro: prefix_order.trans)

lemma grows_push: "grows a argv \<Longrightarrow> grows a (push b x argv)"
  by (auto simp: grows_def push_def)

lemma grows_vmc: "grows a argv \<Longrightarrow> grows a (foldl (\<lambda>argv v. push (v \<noteq> []) v argv) argv vs)"
  by (induction vs arbitrary: argv) (auto intro: grows_push)

lemma auto_args_grows: "grows argv (auto_args env np startup compatmask logo extra video gcomp vmc argv)"
proof -
  note [intro] = grows_push grows_vmc grows_refl
  show ?thesis unfolding auto_args_def Let_def
    by (cases vmc; cases "cwd_arg np"; cases "has_flag env extra ''-cwd=''"; simp only: option.case if_True if_False) blast+
qed

lemma token_args_grows: "grows a argv \<Longrightarrow> grows a (token_args argv ts)"
  by (induction ts arbitrary: argv) (auto simp: grows_def)

lemma append_tokens_grows: "grows a argv \<Longrightarrow> grows a (appendArgTokens argv src)"
  by (auto simp: appendArgTokens_def token_args_grows split: option.splits)

lemma drop_tail_props:
  "prefix core argv \<Longrightarrow> prefix core (drop_tail (length core) used argv) \<and> prefix (drop_tail (length core) used argv) argv"
proof (induction "length core" used argv rule: drop_tail.induct)
  case (1 used argv)
  show ?case
  proof (cases "256 < used + pool_of argv \<and> length core < length argv")
    case True
    then obtain xs x where argv: "argv = xs @ [x]" by (cases argv rule: rev_cases) auto
    then have "prefix core (butlast argv)" using 1(2) True by (auto simp: prefix_snoc)
    then have "prefix core (drop_tail (length core) used (butlast argv)) \<and> prefix (drop_tail (length core) used (butlast argv)) (butlast argv)"
      using 1(1) True by blast
    moreover have "prefix (butlast argv) argv" using argv by simp
    ultimately show ?thesis using True by (subst (1 2) drop_tail.simps) (auto intro: prefix_order.trans)
  next
    case False
    then have "drop_tail (length core) used argv = argv" by (subst drop_tail.simps) (simp only: if_False)
    then show ?thesis using 1(2) by simp
  qed
qed

lemma drop_tail_stop:
  "prefix core argv \<Longrightarrow> used + pool_of (drop_tail (length core) used argv) \<le> 256 \<or> drop_tail (length core) used argv = core"
proof (induction "length core" used argv rule: drop_tail.induct)
  case (1 used argv)
  show ?case
  proof (cases "256 < used + pool_of argv \<and> length core < length argv")
    case True
    then obtain xs x where argv: "argv = xs @ [x]" by (cases argv rule: rev_cases) auto
    then have "prefix core (butlast argv)" using 1(2) True by (auto simp: prefix_snoc)
    then show ?thesis using 1(1) True by (subst (1 2) drop_tail.simps) simp
  next
    case False
    then have "drop_tail (length core) used argv = argv" by (subst drop_tail.simps) auto
    moreover have "argv = core" if "\<not> length core < length argv" using that 1(2) by (auto simp: prefix_def)
    ultimately show ?thesis using False by auto
  qed
qed

lemma pool_mem: "a \<in> set argv \<Longrightarrow> length a + 1 \<le> pool_of argv"
  by (induction argv) (auto simp: pool_of_def)

lemma core_args_shape:
  "length (core_args env dn pa np extra bsdfs) \<le> argvMax" "np = hd (core_args env dn pa np extra bsdfs)"
  "\<exists>fs \<in> {[], ''hdl:'', ''bdfs:''}. bounded 288 (''-dvd='' @ fs @ pa) \<in> set (core_args env dn pa np extra bsdfs)"
  "bounded 16 (''-bsd='' @ (if dn = ''apa'' then ''ata'' else dn)) \<in> set (core_args env dn pa np extra bsdfs)"
proof -
  have fs: "bsdfsDvdPrefix ! (if P then nat bsdfs else 0) \<in> {[], ''hdl:'', ''bdfs:''}" if "P \<longrightarrow> 1 \<le> bsdfs \<and> bsdfs \<le> 3" for P
  proof -
    have "P \<Longrightarrow> nat bsdfs = 1 \<or> nat bsdfs = 2 \<or> nat bsdfs = 3" using that by auto
    then show ?thesis by (auto simp: bsdfsDvdPrefix_def)
  qed
  show "length (core_args env dn pa np extra bsdfs) \<le> argvMax" "np = hd (core_args env dn pa np extra bsdfs)"
    "bounded 16 (''-bsd='' @ (if dn = ''apa'' then ''ata'' else dn)) \<in> set (core_args env dn pa np extra bsdfs)"
    by (simp_all add: core_args_def push_def argvMax_def Let_def)
  show "\<exists>fs \<in> {[], ''hdl:'', ''bdfs:''}. bounded 288 (''-dvd='' @ fs @ pa) \<in> set (core_args env dn pa np extra bsdfs)"
  proof (cases "dn = ''apa''")
    case False
    let ?P = "1 \<le> bsdfs \<and> bsdfs \<le> 3 \<and> dn \<noteq> ''mmce'' \<and> dn \<noteq> ''udpfs'' \<and> \<not> has_flag env extra ''-bsdfs=''"
    have "bounded 288 (''-dvd='' @ bsdfsDvdPrefix ! (if ?P then nat bsdfs else 0) @ pa) \<in> set (core_args env dn pa np extra bsdfs)"
      using False unfolding core_args_def Let_def by (simp add: push_def argvMax_def)
    moreover have "bsdfsDvdPrefix ! (if ?P then nat bsdfs else 0) \<in> {[], ''hdl:'', ''bdfs:''}" by (rule fs) blast
    ultimately show ?thesis by blast
  qed (simp add: core_args_def push_def argvMax_def Let_def)
qed

text \<open>C11. The argument vector handed over fits the kernel: at most 14 arguments, and with the load path at
  most 256 bytes; the boot-critical arguments are all there and unshortened, among them the path of
  the game, whatever the user's arguments, memory cards and options are.  The launch is refused only
  when the boot-critical arguments alone do not fit.\<close>

theorem neutrino_argv_fits:
  assumes "getDeviceName (ne_udpfs env) dr \<noteq> ''unsupported''"
  shows "let core = core_args env (getDeviceName (ne_udpfs env) dr) pa np extra bsdfs in
    (case sysLaunchNeutrino env (Some dr) (Some pa) startup compatmask logo (Some np) extra video gcomp bsdfs vmc of
       None \<Rightarrow> 256 < length np + 1 + pool_of core
     | Some argv \<Rightarrow> length argv \<le> 14 \<and> length np + 1 + pool_of argv \<le> 256 \<and> prefix core argv \<and> hd argv = np \<and>
         (\<exists>fs \<in> {[], ''hdl:'', ''bdfs:''}. ''-dvd='' @ fs @ pa \<in> set argv))"
proof -
  let ?core = "core_args env (getDeviceName (ne_udpfs env) dr) pa np extra bsdfs"
  let ?a = "auto_args env np startup compatmask (logo \<and> dr \<noteq> ''mmce'') extra video gcomp vmc ?core"
  let ?full = "appendArgTokens (appendArgTokens ?a (Some (ne_args env))) extra"
  let ?argv = "drop_tail (length ?core) (length np + 1) ?full"
  have launch: "sysLaunchNeutrino env (Some dr) (Some pa) startup compatmask logo (Some np) extra video gcomp bsdfs vmc =
      (if 256 < length np + 1 + pool_of ?argv then None else Some ?argv)"
    using assms by (simp add: sysLaunchNeutrino_def Let_def)
  note core = core_args_shape [where env = env and dn = "getDeviceName (ne_udpfs env) dr" and pa = pa and np = np and extra = extra and bsdfs = bsdfs]
  have g: "grows ?core ?full" by (intro append_tokens_grows auto_args_grows)
  have pre: "prefix ?core ?full" and len: "length ?full \<le> argvMax" using g core(1) by (auto simp: grows_def)
  have d: "prefix ?core ?argv" "prefix ?argv ?full" using drop_tail_props [OF pre] by simp_all
  show ?thesis
  proof (cases "256 < length np + 1 + pool_of ?argv")
    case True
    then have "?argv = ?core" using drop_tail_stop [OF pre, of "length np + 1"] by linarith
    then show ?thesis using True launch by (simp add: Let_def)
  next
    case False
    have n: "length ?argv \<le> 14" using prefix_length_le [OF d(2)] len by (simp add: argvMax_def)
    obtain fs where fs: "fs \<in> {[], ''hdl:'', ''bdfs:''}" "bounded 288 (''-dvd='' @ fs @ pa) \<in> set ?core" using core(3) by blast
    define dvd_arg where "dvd_arg = ''-dvd='' @ fs @ pa"
    have mem: "bounded 288 dvd_arg \<in> set ?argv" using set_mono_prefix [OF d(1)] fs(2) unfolding dvd_arg_def by blast
    have "length (bounded 288 dvd_arg) \<le> 255" using pool_mem [OF mem] False by linarith
    then have "bounded 288 dvd_arg = dvd_arg" by (simp add: bounded_def min_def split: if_splits)
    then have "''-dvd='' @ fs @ pa \<in> set ?argv" using mem unfolding dvd_arg_def by (simp only:)
    moreover have "?core \<noteq> []" using fs(2) by auto
    then have "hd ?argv = np" using core(2) d(1) by (auto simp: prefix_def)
    ultimately show ?thesis using launch False n d(1) fs(1) unfolding Let_def by auto
  qed
qed

theorem neutrino_argv_fits_witness:
  "\<exists>argv. sysLaunchNeutrino \<lparr>ne_args = ''-cfg=x'', ne_debug = True, ne_elf_arg = True, ne_udpfs = False\<rparr> (Some ''usb'') (Some ''mass0:DVD/A.iso'')
     (Some ''SLUS_200.02'') 5 True (Some ''mass0:/neutrino/neutrino.elf'') (Some ''$-logo -foo'') 2 0 0 (Some [''-mc0=mass0:VMC/a b.bin'', []]) = Some argv \<and>
   length argv \<le> 14 \<and> ''-mc0=mass0:VMC/a b.bin'' \<in> set argv"
proof -
  let ?env = "\<lparr>ne_args = ''-cfg=x'', ne_debug = True, ne_elf_arg = True, ne_udpfs = False\<rparr>"
  have v: "sysLaunchNeutrino ?env (Some ''usb'') (Some ''mass0:DVD/A.iso'')
     (Some ''SLUS_200.02'') 5 True (Some ''mass0:/neutrino/neutrino.elf'') (Some ''$-logo -foo'') 2 0 0 (Some [''-mc0=mass0:VMC/a b.bin'', []]) =
   Some [''mass0:/neutrino/neutrino.elf'', ''-bsd=usb'', ''-dvd=mass0:DVD/A.iso'', ''-qb'', ''-gc=13'', ''-dbc'', ''-logo'', ''-gsm=fp2'',
     ''-elf=cdrom0:'' @ [BACKSLASH] @ ''SLUS_200.02;1'', ''-mc0=mass0:VMC/a b.bin'', ''-cwd=mass0:/neutrino/'', ''-cfg=x'', ''-foo'']"
    by code_simp
  have "getDeviceName (ne_udpfs ?env) ''usb'' \<noteq> ''unsupported''" by (simp add: getDeviceName_def)
  from neutrino_argv_fits [OF this, of "''mass0:DVD/A.iso''" "''mass0:/neutrino/neutrino.elf''" "Some ''$-logo -foo''" 0 "Some ''SLUS_200.02''" 5 True 2 0
      "Some [''-mc0=mass0:VMC/a b.bin'', []]"]
  show ?thesis unfolding Let_def v by simp
qed

section \<open>Parsing what was assembled\<close>

text \<open>Tokens joined by single spaces.\<close>

fun unwords :: "cstring list \<Rightarrow> cstring" where
  "unwords [] = []"
| "unwords [t] = t"
| "unwords (t # ts) = t @ SPC # unwords ts"

definition word_ok :: "cstring \<Rightarrow> bool" where
  "word_ok t \<longleftrightarrow> t \<noteq> [] \<and> (\<forall>x \<in> set t. \<not> is_blank x)"

lemma is_blank_SPC [simp]: "is_blank SPC"
  by (simp add: is_blank_def)

lemma tokens_unwords: "\<forall>t \<in> set ts. word_ok t \<Longrightarrow> tokens (unwords ts) = ts"
proof (induction ts rule: unwords.induct)
  case (2 t)
  then show ?case using tokens_word [of t "[]"] by (simp add: word_ok_def)
next
  case (3 t u ts)
  have "tokens t = [t]" using tokens_word [of t "[]"] 3(2) by (simp add: word_ok_def)
  then show ?case using 3 tokens_split [of SPC t "unwords (u # ts)"] by simp
qed simp

lemma unwords_Nil_iff: "\<forall>t \<in> set ts. word_ok t \<Longrightarrow> unwords ts = [] \<longleftrightarrow> ts = []"
  by (cases ts rule: unwords.cases) (auto simp: word_ok_def)

lemma unwords_append:
  "ts \<noteq> [] \<Longrightarrow> us \<noteq> [] \<Longrightarrow> unwords (ts @ us) = unwords ts @ SPC # unwords us"
proof (induction ts rule: unwords.induct)
  case (2 t)
  then show ?case by (cases us) simp_all
qed simp_all

lemma naAppend_unwords:
  assumes "\<forall>t \<in> set ts. word_ok t" "us \<noteq> []" "length (unwords (ts @ us)) < n"
  shows "naAppend n (unwords ts) (unwords us) = unwords (ts @ us)"
proof (cases "ts = []")
  case True
  then show ?thesis using assms(3) by (cases n) (auto simp: naAppend_def)
next
  case False
  then have "unwords (ts @ us) = unwords ts @ SPC # unwords us" using unwords_append assms(2) by blast
  then show ?thesis using assms(1,3) False unwords_Nil_iff by (auto simp: naAppend_def)
qed

text \<open>Tokens the parser has a field for, and the tokens of a set of arguments.\<close>

definition key_tokens :: "cstring \<Rightarrow> cstring \<Rightarrow> cstring list" where
  "key_tokens key val = (if val = [] then [] else [key @ val])"

definition plain_token :: "cstring \<Rightarrow> bool" where
  "plain_token t \<longleftrightarrow> t \<notin> {''-qb'', ''-dbc'', ''-logo''} \<and>
     (\<forall>k \<in> {''-cwd='', ''-cfg='', ''-elf='', ''-ata0id='', ''-ata0='', ''-ata1=''}. \<not> prefix k t)"

definition na_tokens :: "neutrino_args \<Rightarrow> cstring list \<Rightarrow> cstring list" where
  "na_tokens na extra = (if na_qb na then [''-qb''] else []) @ (if na_dbc na then [''-dbc''] else []) @ (if na_logo na then [''-logo''] else []) @
     key_tokens ''-cwd='' (na_cwd na) @ key_tokens ''-cfg='' (na_cfg na) @ key_tokens ''-elf='' (na_elf na) @ key_tokens ''-ata0='' (na_ata0 na) @
     key_tokens ''-ata0id='' (na_ata0id na) @ key_tokens ''-ata1='' (na_ata1 na) @ extra"

definition na_fields :: "neutrino_args \<Rightarrow> cstring list" where
  "na_fields na = [na_cwd na, na_cfg na, na_elf na, na_ata0 na, na_ata0id na, na_ata1 na]"

definition na_ok :: "neutrino_args \<Rightarrow> cstring list \<Rightarrow> bool" where
  "na_ok na extra \<longleftrightarrow> (\<forall>v \<in> set (na_fields na). length v < 64 \<and> (\<forall>x \<in> set v. \<not> is_blank x)) \<and> na_extra na = unwords extra \<and>
     length (na_extra na) < 64 \<and> (\<forall>t \<in> set extra. word_ok t) \<and> (\<forall>t \<in> set (takeWhile (\<lambda>t. t \<noteq> ''--b'') extra). plain_token t)"

lemma length_unwords_mono: "prefix ts us \<Longrightarrow> length (unwords ts) \<le> length (unwords us)"
proof -
  assume "prefix ts us"
  then obtain vs where "us = ts @ vs" by (auto simp: prefix_def)
  then show ?thesis using unwords_append [of ts vs] by (cases "ts = []"; cases "vs = []") auto
qed

lemma take_key: "strncmp_eq (length k) (k @ v) k" "n = length k \<Longrightarrow> strncmp_eq n t k \<longleftrightarrow> prefix k t"
proof -
  show "strncmp_eq (length k) (k @ v) k" by (simp add: strncmp_eq_def)
  show "strncmp_eq n t k \<longleftrightarrow> prefix k t" if "n = length k"
    using that by (auto simp: strncmp_eq_def prefix_def) (metis append_take_drop_id)
qed

text \<open>Extra tokens are collected in their order.\<close>

lemma parse_extra:
  assumes "\<forall>t \<in> set (ts @ us). word_ok t" "length (unwords (ts @ us)) < 64" "na_extra na = unwords ts"
    and "b \<or> (\<forall>t \<in> set (takeWhile (\<lambda>t. t \<noteq> ''--b'') us). plain_token t)"
  shows "snd (foldl parse_token (b, na) us) = na\<lparr>na_extra := unwords (ts @ us)\<rparr>"
  using assms
proof (induction us arbitrary: ts na b)
  case (Cons u us)
  have "length (unwords (ts @ [u])) \<le> length (unwords (ts @ u # us))" by (rule length_unwords_mono) simp
  then have ap: "naAppend 64 (na_extra na) u = unwords (ts @ [u])"
    using naAppend_unwords [of ts "[u]" 64] Cons.prems by simp
  have step: "parse_token (b, na) u = (b \<or> u = ''--b'', na\<lparr>na_extra := unwords (ts @ [u])\<rparr>)"
  proof (cases "b \<or> u = ''--b''")
    case True
    then show ?thesis using ap by (auto simp: parse_token_def)
  next
    case False
    then have "plain_token u" using Cons.prems(4) by simp
    then have no: "u \<noteq> ''-qb''" "u \<noteq> ''-dbc''" "u \<noteq> ''-logo''" "\<not> strncmp_eq 5 u ''-cwd=''" "\<not> strncmp_eq 5 u ''-cfg=''" "\<not> strncmp_eq 5 u ''-elf=''"
      "\<not> strncmp_eq 8 u ''-ata0id=''" "\<not> strncmp_eq 6 u ''-ata0=''" "\<not> strncmp_eq 6 u ''-ata1=''"
      by (simp_all add: plain_token_def take_key(2))
    show ?thesis unfolding parse_token_def prod.case using False ap no by (simp only: if_False simp_thms)
  qed
  have "snd (foldl parse_token (b \<or> u = ''--b'', na\<lparr>na_extra := unwords (ts @ [u])\<rparr>) us) =
    na\<lparr>na_extra := unwords (ts @ [u])\<rparr>\<lparr>na_extra := unwords ((ts @ [u]) @ us)\<rparr>"
    using Cons.prems by (intro Cons.IH) auto
  then show ?case using step by simp
qed simp

lemma append_flag:
  assumes "\<forall>t \<in> set ts. word_ok t" "length (unwords (ts @ (if b then [tok] else []))) < n"
  shows "(if b then naAppend n (unwords ts) tok else unwords ts) = unwords (ts @ (if b then [tok] else []))"
  using naAppend_unwords [OF assms(1), of "[tok]" n] assms(2) by (cases b) simp_all

lemma append_key:
  assumes "\<forall>t \<in> set ts. word_ok t" "length (unwords (ts @ key_tokens key val)) < n" "length (key @ val) < 96"
  shows "(if val \<noteq> [] then naAppendKV n (unwords ts) key val else unwords ts) = unwords (ts @ key_tokens key val)"
  using naAppend_unwords [OF assms(1), of "[key @ val]" n] assms(2,3) by (cases "val = []") (simp_all add: key_tokens_def naAppendKV_def)

lemma key_tokens_ok: "word_ok key \<Longrightarrow> \<forall>x \<in> set val. \<not> is_blank x \<Longrightarrow> \<forall>t \<in> set (key_tokens key val). word_ok t"
  by (auto simp: key_tokens_def word_ok_def)

lemma keys_ok [simp]: "word_ok ''-qb''" "word_ok ''-dbc''" "word_ok ''-logo''" "word_ok ''-cwd=''" "word_ok ''-cfg=''" "word_ok ''-elf=''"
  "word_ok ''-ata0=''" "word_ok ''-ata0id=''" "word_ok ''-ata1=''"
  by (simp_all add: word_ok_def is_blank_def)

lemma na_tokens_ok: "na_ok na extra \<Longrightarrow> \<forall>t \<in> set (na_tokens na extra). word_ok t"
  using key_tokens_ok [OF keys_ok(4), of "na_cwd na"] key_tokens_ok [OF keys_ok(5), of "na_cfg na"] key_tokens_ok [OF keys_ok(6), of "na_elf na"]
    key_tokens_ok [OF keys_ok(7), of "na_ata0 na"] key_tokens_ok [OF keys_ok(8), of "na_ata0id na"] key_tokens_ok [OF keys_ok(9), of "na_ata1 na"]
  unfolding na_tokens_def na_ok_def na_fields_def by (auto split: if_splits)

lemma assemble_tokens:
  assumes ok: "na_ok na extra" and fit: "length (unwords (na_tokens na extra)) < n"
  shows "neutrinoArgsAssemble na n = unwords (na_tokens na extra)"
proof -
  let ?all = "na_tokens na extra"
  have w: "\<forall>t \<in> set ts. word_ok t" "length (unwords ts) < n" if "prefix ts ?all" for ts
    using na_tokens_ok [OF ok] set_mono_prefix [OF that] length_unwords_mono [OF that] fit by (blast, linarith)
  let ?t1 = "if na_qb na then [''-qb''] else []"
  let ?t2 = "?t1 @ (if na_dbc na then [''-dbc''] else [])"
  let ?t3 = "?t2 @ (if na_logo na then [''-logo''] else [])"
  let ?t4 = "?t3 @ key_tokens ''-cwd='' (na_cwd na)" let ?t5 = "?t4 @ key_tokens ''-cfg='' (na_cfg na)"
  let ?t6 = "?t5 @ key_tokens ''-elf='' (na_elf na)" let ?t7 = "?t6 @ key_tokens ''-ata0='' (na_ata0 na)"
  let ?t8 = "?t7 @ key_tokens ''-ata0id='' (na_ata0id na)" let ?t9 = "?t8 @ key_tokens ''-ata1='' (na_ata1 na)"
  have all: "?all = ?t9 @ extra" by (simp only: na_tokens_def append.assoc)
  have p: "prefix ?t9 ?all" "prefix ?t8 ?all" "prefix ?t7 ?all" "prefix ?t6 ?all" "prefix ?t5 ?all" "prefix ?t4 ?all" "prefix ?t3 ?all"
    "prefix ?t2 ?all" "prefix ?t1 ?all"
    unfolding all append.assoc by (simp_all only: prefixI same_prefix_prefix append_Nil2 prefix_bot.bot_least prefix_order.refl)
  have len: "length (k @ v) < 96" if "v \<in> set (na_fields na)" "length k \<le> 8" for k v using ok that by (fastforce simp: na_ok_def)
  have f: "na_cwd na \<in> set (na_fields na)" "na_cfg na \<in> set (na_fields na)" "na_elf na \<in> set (na_fields na)" "na_ata0 na \<in> set (na_fields na)"
    "na_ata0id na \<in> set (na_fields na)" "na_ata1 na \<in> set (na_fields na)" by (simp_all add: na_fields_def)
  have e1: "(if na_qb na then naAppend n [] ''-qb'' else []) = unwords ?t1"
    using append_flag [of "[]" "na_qb na" "''-qb''" n] w(2) [OF p(9)] by (cases "na_qb na") simp_all
  have e2: "(if na_dbc na then naAppend n (unwords ?t1) ''-dbc'' else unwords ?t1) = unwords ?t2" by (rule append_flag [OF w(1) [OF p(9)] w(2) [OF p(8)]])
  have e3: "(if na_logo na then naAppend n (unwords ?t2) ''-logo'' else unwords ?t2) = unwords ?t3" by (rule append_flag [OF w(1) [OF p(8)] w(2) [OF p(7)]])
  have e4: "(if na_cwd na \<noteq> [] then naAppendKV n (unwords ?t3) ''-cwd='' (na_cwd na) else unwords ?t3) = unwords ?t4"
    by (rule append_key [OF w(1) [OF p(7)] w(2) [OF p(6)] len [OF f(1)]]) simp
  have e5: "(if na_cfg na \<noteq> [] then naAppendKV n (unwords ?t4) ''-cfg='' (na_cfg na) else unwords ?t4) = unwords ?t5"
    by (rule append_key [OF w(1) [OF p(6)] w(2) [OF p(5)] len [OF f(2)]]) simp
  have e6: "(if na_elf na \<noteq> [] then naAppendKV n (unwords ?t5) ''-elf='' (na_elf na) else unwords ?t5) = unwords ?t6"
    by (rule append_key [OF w(1) [OF p(5)] w(2) [OF p(4)] len [OF f(3)]]) simp
  have e7: "(if na_ata0 na \<noteq> [] then naAppendKV n (unwords ?t6) ''-ata0='' (na_ata0 na) else unwords ?t6) = unwords ?t7"
    by (rule append_key [OF w(1) [OF p(4)] w(2) [OF p(3)] len [OF f(4)]]) simp
  have e8: "(if na_ata0id na \<noteq> [] then naAppendKV n (unwords ?t7) ''-ata0id='' (na_ata0id na) else unwords ?t7) = unwords ?t8"
    by (rule append_key [OF w(1) [OF p(3)] w(2) [OF p(2)] len [OF f(5)]]) simp
  have e9: "(if na_ata1 na \<noteq> [] then naAppendKV n (unwords ?t8) ''-ata1='' (na_ata1 na) else unwords ?t8) = unwords ?t9"
    by (rule append_key [OF w(1) [OF p(2)] w(2) [OF p(1)] len [OF f(6)]]) simp
  have ex: "na_extra na = unwords extra" "extra = [] \<longleftrightarrow> na_extra na = []" using ok unwords_Nil_iff by (auto simp: na_ok_def)
  have e10: "(if na_extra na \<noteq> [] then naAppend n (unwords ?t9) (na_extra na) else unwords ?t9) = unwords ?all"
    using naAppend_unwords [OF w(1) [OF p(1)], of extra n] fit ex unfolding all by (cases "extra = []") simp_all
  show ?thesis unfolding neutrinoArgsAssemble_def Let_def e1 e2 e3 e4 e5 e6 e7 e8 e9 e10 ..
qed

text \<open>C28. What the argument editor saves, it shows again: parsing the assembled string gives the switches,
  the values and the extra tokens back, with everything behind a break kept in order.  Values have no
  blanks and fit their fields, and extra tokens before a break are none the parser has a field for.\<close>

theorem neutrino_args_round_trip:
  assumes ok: "na_ok na extra" and fit: "length (unwords (na_tokens na extra)) < n" "n \<le> 256"
  shows "neutrinoArgsParse (Some (neutrinoArgsAssemble na n)) = na"
proof -
  let ?na = "\<lparr>na_qb = na_qb na, na_dbc = na_dbc na, na_logo = na_logo na, na_cwd = na_cwd na, na_cfg = na_cfg na, na_elf = na_elf na,
    na_ata0 = na_ata0 na, na_ata0id = na_ata0id na, na_ata1 = na_ata1 na, na_extra = []\<rparr>"
  have t: "tokens (bounded 256 (unwords (na_tokens na extra))) = na_tokens na extra"
    using tokens_unwords na_tokens_ok [OF ok] fit by simp
  have len: "length (na_cwd na) < 64" "length (na_cfg na) < 64" "length (na_elf na) < 64" "length (na_ata0 na) < 64"
    "length (na_ata0id na) < 64" "length (na_ata1 na) < 64" using ok by (simp_all add: na_ok_def na_fields_def)
  have kt: "foldl parse_token s (key_tokens k v) = (if v = [] then s else parse_token s (k @ v))" for s k v by (simp add: key_tokens_def)
  have "foldl parse_token (False, na_zero) (na_tokens na extra) = foldl parse_token (False, ?na) extra"
    unfolding na_tokens_def foldl_append kt na_zero_def using len
    by (cases "na_qb na"; cases "na_dbc na"; cases "na_logo na") (simp_all add: parse_token_def strncmp_eq_def)
  moreover have "snd (foldl parse_token (False, ?na) extra) = ?na\<lparr>na_extra := unwords ([] @ extra)\<rparr>"
    using ok by (intro parse_extra) (auto simp: na_ok_def)
  moreover have "\<dots> = na" using ok by (simp add: na_ok_def)
  ultimately show ?thesis using t assemble_tokens [OF ok fit(1)] by (simp add: neutrinoArgsParse_def)
qed

theorem neutrino_args_round_trip_witness:
  "let na = na_zero\<lparr>na_qb := True, na_cfg := ''my.toml'', na_ata0id := ''x'', na_extra := ''-foo --b -qb''\<rparr> in
     neutrinoArgsAssemble na 256 = ''-qb -cfg=my.toml -ata0id=x -foo --b -qb'' \<and> neutrinoArgsParse (Some (neutrinoArgsAssemble na 256)) = na"
proof -
  let ?na = "na_zero\<lparr>na_qb := True, na_cfg := ''my.toml'', na_ata0id := ''x'', na_extra := ''-foo --b -qb''\<rparr>"
  have "na_ok ?na [''-foo'', ''--b'', ''-qb'']"
    by (simp add: na_ok_def na_zero_def na_fields_def word_ok_def is_blank_def plain_token_def)
  moreover have "length (unwords (na_tokens ?na [''-foo'', ''--b'', ''-qb''])) < 256"
    by (simp add: na_tokens_def key_tokens_def na_zero_def)
  ultimately have "neutrinoArgsParse (Some (neutrinoArgsAssemble ?na 256)) = ?na" by (rule neutrino_args_round_trip) simp
  moreover have "neutrinoArgsAssemble ?na 256 = ''-qb -cfg=my.toml -ata0id=x -foo --b -qb''" by code_simp
  ultimately show ?thesis by simp
qed

section \<open>The core that is found\<close>

definition usable :: "(cstring \<Rightarrow> bool) \<Rightarrow> cstring \<Rightarrow> bool" where
  "usable there p \<longleftrightarrow> there p \<and> sbNeutrinoInstallComplete there (Some p)"

lemma find_append: "List.find P (xs @ ys) = (case List.find P xs of None \<Rightarrow> List.find P ys | Some x \<Rightarrow> Some x)"
  by (induction xs) auto

lemma probe_forms_find: "probe_forms there n b fs = List.find (usable there) (map (\<lambda>f. bounded n (b @ f)) fs)"
  by (induction fs) (auto simp: usable_def Let_def)

lemma probe_bases_find: "probe_bases there n bs fs = List.find (usable there) (concat (map (\<lambda>b. map (\<lambda>f. bounded n (b @ f)) fs) bs))"
  by (induction bs) (auto simp: probe_forms_find find_append split: option.splits)

lemma probe_list_find: "probe_list there ps = List.find (usable there) ps"
  by (induction ps) (auto simp: usable_def)

definition game_candidates :: "cstring option \<Rightarrow> cstring list" where
  "game_candidates activePrefix = (case activePrefix of None \<Rightarrow> [] | Some p \<Rightarrow>
     if p = [] then [] else concat (map (\<lambda>b. map (\<lambda>f. bounded 160 (b @ f)) game_forms) (filter (\<lambda>b. b \<noteq> []) [p, dev_root p])))"

definition all_candidates :: "(neutrino_dev \<Rightarrow> cstring option) \<Rightarrow> neutrino_dev \<Rightarrow> cstring \<Rightarrow> cstring option \<Rightarrow> cstring list" where
  "all_candidates bdm_root dev gNeutrinoPath activePrefix =
     (if dev = NEUTRINO_DEV_GAME then game_candidates activePrefix
      else concat (map (\<lambda>b. map (\<lambda>f. bounded 64 (b @ f)) dev_forms) (dev_cands bdm_root dev)) @
        (if gNeutrinoPath = [] then [] else [gNeutrinoPath]) @ game_candidates activePrefix @ mc_candidates)"

text \<open>The core that is launched is the first complete installation in the order picked device, custom
  path, device of the game, memory cards; with the setting for the game's own device no other place is
  tried; without any complete installation none is returned.\<close>

lemma neutrino_resolve_first:
  "sbResolveNeutrinoPath there bdm_root dev gNeutrinoPath activePrefix =
   List.find (\<lambda>p. there p \<and> sbNeutrinoInstallComplete there (Some p)) (all_candidates bdm_root dev gNeutrinoPath activePrefix)"
proof -
  have g: "sbNeutrinoProbeGameDevice there activePrefix = List.find (usable there) (game_candidates activePrefix)"
    by (simp add: sbNeutrinoProbeGameDevice_def game_candidates_def probe_bases_find split: option.splits)
  have "sbResolveNeutrinoPath there bdm_root dev gNeutrinoPath activePrefix = List.find (usable there) (all_candidates bdm_root dev gNeutrinoPath activePrefix)"
    unfolding sbResolveNeutrinoPath_def all_candidates_def g probe_bases_find probe_list_find
    by (auto simp: find_append usable_def split: option.splits)
  then show ?thesis by (simp add: usable_def [abs_def])
qed

section \<open>Memory card arguments\<close>

lemma neutrino_vmc_args:
  assumes "slot < 2" "a = sbBuildVmcNeutrinoArgs there (Some cs) (Some p) ! slot" "a \<noteq> []"
  shows "\<exists>f. a = ''-mc'' @ show_nat slot @ ''='' @ f \<and> there f \<and> f = p @ ''VMC/'' @ configGetVMC cs 32 (int slot) @ ''.bin'' \<and>
    length a < 160 \<and> configGetVMCDisable cs (int slot) 0 = 0"
proof -
  have "slot = 0 \<or> slot = 1" using assms(1) by auto
  then have "a = vmc_arg there cs p slot" using assms(2) by (auto simp: sbBuildVmcNeutrinoArgs_def)
  then show ?thesis using assms(3) by (auto simp: vmc_arg_def Let_def split: if_splits)
qed

section \<open>The address in the configuration\<close>

lemma strstr_prefix:
  assumes "strstr_from (c # f) s 0 = Some q" "take (q + length (c # f)) t = take (q + length (c # f)) s"
  shows "strstr_from (c # f) t 0 = Some q"
proof -
  let ?n = "length (c # f)"
  have s: "take ?n (drop q s) = c # f" "\<forall>j < q. take ?n (drop j s) \<noteq> c # f"
    using strstr_from_spec [of c f s 0] unfolding assms(1) option.case by auto
  have same: "take ?n (drop j t) = take ?n (drop j s)" if "j \<le> q" for j
  proof -
    have "take ?n (drop j x) = take ?n (drop j (take (q + ?n) x))" for x :: cstring using that by (simp add: drop_take min_def)
    then show ?thesis using assms(2) by metis
  qed
  show ?thesis
  proof (cases "strstr_from (c # f) t 0")
    case None
    have "\<forall>j. take ?n (drop j t) \<noteq> c # f" by (rule strstr_from_spec [of c f t 0, unfolded None option.case])
    then show ?thesis using same [OF order.refl] s(1) by simp
  next
    case (Some q')
    have q': "take ?n (drop q' t) = c # f" "\<forall>j < q'. take ?n (drop j t) \<noteq> c # f"
      using strstr_from_spec [of c f t 0] unfolding Some option.case by auto
    have "\<not> q < q'" using q'(2) same [OF order.refl] s(1) by auto
    moreover have "\<not> q' < q" using q'(1) same [of q'] s(2) by auto
    ultimately show ?thesis using Some by simp
  qed
qed

lemma ip_text_chars:
  assumes "\<forall>i < 4. 0 \<le> ip ! i"
  shows "\<forall>c \<in> set (ip_text ip). is_ip_char c"
proof -
  have d: "\<forall>c \<in> set (show_int i). is_ip_char c" if "0 \<le> i" for i
    using that by (auto simp: show_int_def is_ip_char_def dest: show_nat_digits)
  have dot: "is_ip_char (CHR ''.'')" by (simp add: is_ip_char_def)
  have "\<forall>c \<in> set (show_int (ip ! 0) @ ''.'' @ show_int (ip ! 1) @ ''.'' @ show_int (ip ! 2) @ ''.'' @ show_int (ip ! 3)). is_ip_char c"
    using d [of "ip ! 0"] d [of "ip ! 1"] d [of "ip ! 2"] d [of "ip ! 3"] assms dot by (simp add: ball_Un)
  then show ?thesis unfolding ip_text_def using set_bounded_subset by blast
qed

text \<open>C39. Keeping the address of the core in step: a configuration with an address gets exactly that
  address replaced, and a second run leaves the file alone; when the write comes short the original
  content is put back and the launch is refused.\<close>

theorem neutrino_toml_sync:
  assumes fl: "NUL \<notin> set toml" "length toml < 4095" "length toml + 20 < 4116" and split: "ip_split toml = Some (pre, val, post)"
    and ip: "\<forall>i < 4. 0 \<le> ps2_ip ! i" "val \<noteq> ip_text ps2_ip" and path: "CHR ''/'' \<in> set np"
  shows "(length (pre @ ip_text ps2_ip @ post) \<le> n \<longrightarrow>
      sysSyncNeutrinoUdpfsToml ps2_ip (Some n) wr2 np (Some toml) = (0, Some (pre @ ip_text ps2_ip @ post)) \<and>
      (length (pre @ ip_text ps2_ip @ post) < 4095 \<longrightarrow>
        sysSyncNeutrinoUdpfsToml ps2_ip wr3 wr4 np (Some (pre @ ip_text ps2_ip @ post)) = (0, Some (pre @ ip_text ps2_ip @ post)))) \<and>
    (n < length (pre @ ip_text ps2_ip @ post) \<longrightarrow> length toml \<le> k \<longrightarrow>
      sysSyncNeutrinoUdpfsToml ps2_ip (Some n) (Some k) np (Some toml) = (-1, Some toml))"
proof -
  let ?ip = "ip_text ps2_ip" and ?new = "pre @ ip_text ps2_ip @ post"
  obtain q where q: "strstr_from (DQUOTE # ''ip='') toml 0 = Some q" "pre = take (q + 4) toml"
    "val = takeWhile is_ip_char (drop (q + 4) toml)" "post = dropWhile is_ip_char (drop (q + 4) toml)"
    using split by (auto simp: ip_split_def)
  have toml: "toml = pre @ val @ post" using q by simp
  have slash: "strrchr np (CHR ''/'') \<noteq> None" using path by (simp add: strrchr_def)
  have ne: "toml \<noteq> []" using q(1) by auto
  have iplen: "length ?ip \<le> 19" by (simp add: ip_text_def bounded_def)
  have newlen: "length ?new < 4116" using iplen fl(3) toml by simp
  have run: "sysSyncNeutrinoUdpfsToml ps2_ip w v np (Some toml) =
    (case w of None \<Rightarrow> (0, Some toml) | Some n \<Rightarrow> if length ?new \<le> n then (0, Some ?new)
       else case v of None \<Rightarrow> (-1, Some (take n ?new)) | Some k \<Rightarrow> (-1, Some (take k toml)))" for w v
    using slash ne fl ip(2) split newlen by (auto simp: sysSyncNeutrinoUdpfsToml_def Let_def split: option.splits)
  have again: "sysSyncNeutrinoUdpfsToml ps2_ip wr3 wr4 np (Some ?new) = (0, Some ?new)" if short: "length ?new < 4095"
  proof -
    have q4: "q + 4 \<le> length toml"
    proof -
      have "take 4 (drop q toml) = DQUOTE # ''ip=''" using strstr_from_spec [of DQUOTE "''ip=''" toml 0] unfolding q(1) option.case by (simp add: eval_nat_numeral)
      then have "length (take 4 (drop q toml)) = 4" by simp
      then show ?thesis by simp
    qed
    then have "take (q + length (DQUOTE # ''ip='')) ?new = take (q + length (DQUOTE # ''ip='')) toml" using q(2) by simp
    from strstr_prefix [OF q(1) this] have s: "strstr_from (DQUOTE # ''ip='') ?new 0 = Some q" .
    have dr: "drop (q + 4) ?new = ?ip @ post" using q(2) q4 by simp
    have post: "post = [] \<or> \<not> is_ip_char (hd post)" using q(4) by (metis hd_dropWhile)
    have "takeWhile is_ip_char (?ip @ post) = ?ip"
      using ip_text_chars [OF ip(1)] post by (cases post) (simp_all add: takeWhile_append)
    then have "\<exists>a b. ip_split ?new = Some (a, ?ip, b)" using s dr by (simp add: ip_split_def)
    moreover have nul: "NUL \<notin> set ?new"
    proof -
      have "\<not> is_ip_char NUL" by (simp add: is_ip_char_def isdigit_def char_code_def)
      then have "NUL \<notin> set ?ip" using ip_text_chars [OF ip(1)] by blast
      then show ?thesis using fl(1) toml by auto
    qed
    moreover have "?new \<noteq> []" using q(2) ne q4 by auto
    ultimately show ?thesis using slash short by (auto simp: sysSyncNeutrinoUdpfsToml_def Let_def)
  qed
  show ?thesis using run again by auto
qed

theorem neutrino_toml_sync_witness:
  "let toml = ''a'' @ DQUOTE # ''ip=10.0.0.1'' @ DQUOTE # ''b''; new = ''a'' @ DQUOTE # ''ip=192.168.1.10'' @ DQUOTE # ''b''; ip = [192, 168, 1, 10] in
     sysSyncNeutrinoUdpfsToml ip (Some 100) None ''mc0:/n.elf'' (Some toml) = (0, Some new) \<and>
     sysSyncNeutrinoUdpfsToml ip None None ''mc0:/n.elf'' (Some new) = (0, Some new) \<and>
     sysSyncNeutrinoUdpfsToml ip (Some 3) (Some 100) ''mc0:/n.elf'' (Some toml) = (-1, Some toml)"
proof -
  let ?toml = "''a'' @ DQUOTE # ''ip=10.0.0.1'' @ DQUOTE # ''b''" and ?pre = "''a'' @ DQUOTE # ''ip=''" and ?post = "DQUOTE # ''b''" and ?ip = "[192, 168, 1, 10] :: int list"
  have s: "ip_split ?toml = Some (?pre, ''10.0.0.1'', ?post)" and i: "ip_text ?ip = ''192.168.1.10''" by code_simp+
  have four: "\<forall>i < 4. 0 \<le> ?ip ! i" by (simp add: less_Suc_eq numeral_eq_Suc)
  have nul: "NUL \<notin> set ?toml" by simp
  have "sysSyncNeutrinoUdpfsToml ?ip (Some 100) None ''mc0:/n.elf'' (Some ?toml) = (0, Some (?pre @ ip_text ?ip @ ?post)) \<and>
     sysSyncNeutrinoUdpfsToml ?ip None None ''mc0:/n.elf'' (Some (?pre @ ip_text ?ip @ ?post)) = (0, Some (?pre @ ip_text ?ip @ ?post))"
    using neutrino_toml_sync [OF nul _ _ s four, where np = "''mc0:/n.elf''" and n = 100] by (simp add: i)
  moreover have "sysSyncNeutrinoUdpfsToml ?ip (Some 3) (Some 100) ''mc0:/n.elf'' (Some ?toml) = (-1, Some ?toml)"
    using neutrino_toml_sync [OF nul _ _ s four, where np = "''mc0:/n.elf''" and n = 3 and k = 100] by (simp add: i)
  ultimately show ?thesis by (simp add: i Let_def)
qed

end
