(* ===== verification/Tar.thy ===== *)
theory Tar
  imports ByteLayout
begin

text \<open>
  Archives of cover art, settings and cheats (\<^verbatim>\<open>src/tar.c\<close>): the index of an uncompressed archive, its
  cache file beside the archive, the search over devices, look-up by name and reading a member.

  The arrays indexed by the kind are one \<open>tar_slot\<close> each; every operation works on the slot of its kind.
  The number of entries (\<^verbatim>\<open>s_count\<close>) is the length of the index list.  The record \<open>tar_env\<close> holds what the
  file system and the allocator answer: how much a read delivers, which positions can be sought, which
  allocations succeed, how much of the cache file is stored, and the indeterminate padding bytes.
  Reading past the end of the index is the outer \<open>None\<close> of a search.
\<close>

section \<open>Data\<close>

type_synonym u64 = "64 word"
type_synonym tar_files = "cstring \<Rightarrow> char list option"

definition TAR_BLOCK_SIZE :: nat where "TAR_BLOCK_SIZE = 512"
definition MAX_FILE_SIZE :: nat where "MAX_FILE_SIZE = 4 * 1024 * 1024"
definition ARC_MAGIC :: "char list" where "ARC_MAGIC = ''ARC'' @ [NUL]"
definition ARC_VERSION :: u32 where "ARC_VERSION = 4"
definition CACHE_HEADER_SIZE :: nat where "CACHE_HEADER_SIZE = 24"
definition ENTRY_BASE_SIZE :: nat where "ENTRY_BASE_SIZE = 16"

datatype TarKind = TAR_KIND_ART | TAR_KIND_CFG | TAR_KIND_CHT

text \<open>\<^verbatim>\<open>gTarInfo\<close>; the entries of the last two kinds are padded from 36 to 40 bytes.\<close>

fun relPath :: "TarKind \<Rightarrow> cstring" where
  "relPath TAR_KIND_ART = ''ART/art.tar''"
| "relPath TAR_KIND_CFG = ''CFG/cfg.tar''"
| "relPath TAR_KIND_CHT = ''CHT/cht.tar''"

fun cacheName :: "TarKind \<Rightarrow> cstring" where
  "cacheName TAR_KIND_ART = ''art_cache.bin''"
| "cacheName TAR_KIND_CFG = ''cfg_cache.bin''"
| "cacheName TAR_KIND_CHT = ''cht_cache.bin''"

fun entrySize :: "TarKind \<Rightarrow> nat" where
  "entrySize TAR_KIND_ART = 64"
| "entrySize TAR_KIND_CFG = 40"
| "entrySize TAR_KIND_CHT = 40"

definition nameMax :: "TarKind \<Rightarrow> nat" where
  "nameMax kind = entrySize kind - ENTRY_BASE_SIZE - 1"

text \<open>The prefix and the mount root of a device.\<close>

type_synonym tar_device = "cstring \<times> cstring"

definition gDevices :: "tar_device list" where
  "gDevices = map (\<lambda>p. (p, p @ ''/'')) [''mass0:'', ''mass1:'', ''mass2:'', ''mass3:'', ''mass4:'', ''mass5:'', ''mass6:'', ''mass7:'',
     ''mmce0:'', ''mmce1:'', ''hdd0:'', ''pfs0:'', ''smb0:'']"

text \<open>An index entry: the base structure and the bytes behind it.\<close>

record tar_entry =
  te_offset :: u64
  te_rawSize :: u32
  te_paddedSize :: u32
  te_name :: "char list"

definition le64 :: "u64 \<Rightarrow> char list" where
  "le64 w = le32 (ucast w) @ le32 (ucast (drop_bit 32 w))"

definition of_le64 :: "char list \<Rightarrow> u64" where
  "of_le64 cs = or (ucast (of_le32 cs)) (push_bit 32 (ucast (of_le32 (drop 4 cs))))"

definition entry_bytes :: "tar_entry \<Rightarrow> char list" where
  "entry_bytes e = le64 (te_offset e) @ le32 (te_rawSize e) @ le32 (te_paddedSize e) @ te_name e"

definition entry_of_bytes :: "char list \<Rightarrow> tar_entry" where
  "entry_of_bytes bs = \<lparr>te_offset = of_le64 bs, te_rawSize = of_le32 (drop 8 bs), te_paddedSize = of_le32 (drop 12 bs), te_name = drop 16 bs\<rparr>"

record tar_slot =
  ts_index :: "tar_entry list option"
  ts_cap :: nat
  ts_dev :: "tar_device option"
  ts_inactive :: bool
  ts_exactPath :: cstring
  ts_isExact :: bool

definition tar_slot_init :: tar_slot where
  "tar_slot_init = \<lparr>ts_index = None, ts_cap = 0, ts_dev = None, ts_inactive = False, ts_exactPath = [], ts_isExact = False\<rparr>"

definition ts_count :: "tar_slot \<Rightarrow> nat" where
  "ts_count s = (case ts_index s of None \<Rightarrow> 0 | Some idx \<Rightarrow> length idx)"

record tar_env =
  tv_stat :: "cstring \<Rightarrow> bool"
  tv_read :: "cstring \<Rightarrow> nat \<Rightarrow> nat \<Rightarrow> nat option"
  tv_seek :: "cstring \<Rightarrow> nat \<Rightarrow> bool"
  tv_mem :: "nat \<Rightarrow> bool"
  tv_write :: "cstring \<Rightarrow> nat option"
  tv_junk :: "char list"

text \<open>\<^verbatim>\<open>read\<close> at a position: \<open>None\<close> for an error, otherwise at most what was asked for and what the file holds.\<close>

definition rd :: "tar_env \<Rightarrow> cstring \<Rightarrow> char list \<Rightarrow> nat \<Rightarrow> nat \<Rightarrow> char list option" where
  "rd env path bytes pos n = map_option (\<lambda>k. take (min k n) (drop pos bytes)) (tv_read env path pos n)"

section \<open>Parsing an archive\<close>

text \<open>Twelve octal digits stay below \<open>2 ^ 36\<close>, so the 64-bit value does not wrap.\<close>

fun octal_loop :: "nat \<Rightarrow> char list \<Rightarrow> nat" where
  "octal_loop val [] = val"
| "octal_loop val (c # cs) = (if 48 \<le> char_code c \<and> char_code c \<le> 55 then octal_loop (8 * val + (char_code c - 48)) cs else val)"

definition parseOctal :: "char list \<Rightarrow> nat \<Rightarrow> nat" where
  "parseOctal s len = octal_loop 0 (take len s)"

definition isZeroBlock :: "char list \<Rightarrow> bool" where
  "isZeroBlock header \<longleftrightarrow> header = replicate TAR_BLOCK_SIZE NUL"

definition tarCloseInternal :: "tar_slot \<Rightarrow> tar_slot" where
  "tarCloseInternal s = s\<lparr>ts_index := None, ts_cap := 0, ts_dev := None, ts_exactPath := [], ts_isExact := False\<rparr>"

definition buildTarPath :: "tar_device option \<Rightarrow> TarKind \<Rightarrow> cstring option" where
  "buildTarPath dev kind = (case dev of
     None \<Rightarrow> None
   | Some (pfx, mountRoot) \<Rightarrow>
       let p = mountRoot @ relPath kind in if 0 < length p \<and> length p < 256 then Some p else None)"

text \<open>The whole cache file in memory.\<close>

definition cache_buf :: "tar_env \<Rightarrow> tar_files \<Rightarrow> cstring \<Rightarrow> char list option" where
  "cache_buf env fs cachePath = (case fs cachePath of
     None \<Rightarrow> None
   | Some bytes \<Rightarrow>
       let fileSize = sint (of_nat (length bytes) :: u32) in
       if \<not> tv_stat env cachePath \<or> fileSize < int CACHE_HEADER_SIZE \<or> \<not> tv_mem env (nat fileSize) then None
       else (case rd env cachePath bytes 0 (nat fileSize) of None \<Rightarrow> None | Some buf \<Rightarrow> if length buf \<noteq> nat fileSize then None else Some buf))"

definition cache_entries :: "tar_env \<Rightarrow> TarKind \<Rightarrow> nat \<Rightarrow> char list \<Rightarrow> tar_entry list option" where
  "cache_entries env kind tarSize buf =
     (let entryCount = unat (of_le32 (drop 16 buf));
          maxEntries = (length buf - CACHE_HEADER_SIZE) div entrySize kind;
          entries = map entry_of_bytes (elements (entrySize kind) (take (entryCount * entrySize kind) (drop CACHE_HEADER_SIZE buf))) in
      if of_nat tarSize \<noteq> of_le64 (drop 8 buf) then None
      else if maxEntries < entryCount \<or> \<not> tv_mem env (entryCount * entrySize kind) then None
      else if \<exists>e \<in> set entries. MAX_FILE_SIZE < unat (te_rawSize e) then None
      else Some entries)"

definition tarReadCache :: "tar_env \<Rightarrow> tar_files \<Rightarrow> cstring \<Rightarrow> cstring \<Rightarrow> TarKind \<Rightarrow> tar_entry list option" where
  "tarReadCache env fs cachePath tarPath kind = (case cache_buf env fs cachePath of
     None \<Rightarrow> None
   | Some buf \<Rightarrow>
       if take 4 buf \<noteq> ARC_MAGIC \<or> of_le32 (drop 4 buf) \<noteq> ARC_VERSION then None
       else (case fs tarPath of None \<Rightarrow> None | Some tar \<Rightarrow> if \<not> tv_stat env tarPath then None else cache_entries env kind (length tar) buf))"

definition cache_header :: "tar_env \<Rightarrow> nat \<Rightarrow> nat \<Rightarrow> char list" where
  "cache_header env tarSize count =
     ARC_MAGIC @ le32 ARC_VERSION @ le64 (of_nat tarSize) @ le32 (of_nat count) @ map (\<lambda>i. tv_junk env ! i) [0..<4]"

text \<open>The stored bytes are the first ones of what the two writes hand over.\<close>

definition tarWriteCache :: "tar_env \<Rightarrow> tar_files \<Rightarrow> cstring \<Rightarrow> cstring \<Rightarrow> TarKind \<Rightarrow> tar_entry list \<Rightarrow> int \<times> tar_files" where
  "tarWriteCache env fs cachePath tarPath kind index = (case fs tarPath of
     None \<Rightarrow> (-1, fs)
   | Some tar \<Rightarrow>
       if \<not> tv_stat env tarPath then (-1, fs)
       else
         (case tv_write env cachePath of
            None \<Rightarrow> (-1, fs)
          | Some n \<Rightarrow>
              let hdr = cache_header env (length tar) (length index); body = concat (map entry_bytes index) in
              if n < CACHE_HEADER_SIZE then (-1, fs(cachePath \<mapsto> take n hdr))
              else if n < CACHE_HEADER_SIZE + entrySize kind * length index then (-1, fs(cachePath \<mapsto> take n (hdr @ body)))
              else (0, fs(cachePath \<mapsto> hdr @ body))))"

text \<open>A field of the header without its trailing blanks and NULs.\<close>

definition header_field :: "nat \<Rightarrow> nat \<Rightarrow> char list \<Rightarrow> cstring" where
  "header_field off len header = cstr (rstrip (\<lambda>c. c = SPC \<or> c = NUL) (take len (drop off header)))"

definition full_path :: "char list \<Rightarrow> cstring" where
  "full_path header =
     (let nameBuf = header_field 0 100 header; pfx = header_field 345 155 header in
      bounded 256 (if pfx \<noteq> [] then pfx @ ''/'' @ nameBuf else nameBuf))"

definition clean_name :: "cstring \<Rightarrow> cstring" where
  "clean_name s =
     (let s1 = (if strncasecmp_eq 2 s ''./'' then drop 2 s else s) in
      if strncasecmp_eq 4 s1 ''ART/'' \<or> strncasecmp_eq 4 s1 ''CFG/'' \<or> strncasecmp_eq 4 s1 ''CHT/'' then drop 4 s1 else s1)"

definition name_bytes :: "tar_env \<Rightarrow> TarKind \<Rightarrow> cstring \<Rightarrow> char list" where
  "name_bytes env kind cleanName =
     (take (nameMax kind) cleanName @ replicate (nameMax kind - length cleanName) NUL)[nameMax kind - 1 := NUL] @ [tv_junk env ! 0]"

definition header_entry :: "tar_env \<Rightarrow> TarKind \<Rightarrow> nat \<Rightarrow> nat \<Rightarrow> nat \<Rightarrow> char list \<Rightarrow> tar_entry" where
  "header_entry env kind dataOffset rawSize paddedSize header =
     \<lparr>te_offset = of_nat dataOffset, te_rawSize = of_nat rawSize, te_paddedSize = of_nat paddedSize,
      te_name = name_bytes env kind (clean_name (full_path header))\<rparr>"

definition padded :: "nat \<Rightarrow> nat" where
  "padded rawSize = (rawSize + 511) div 512 * 512"

lemma rd_nonempty: "rd env path bytes pos n = Some (c # cs) \<Longrightarrow> pos < length bytes"
  by (cases "pos < length bytes") (auto simp: rd_def)

text \<open>The loop over the blocks: the index and its capacity, \<open>None\<close> for the exit \<^verbatim>\<open>fail\<close>.\<close>

function header_loop :: "tar_env \<Rightarrow> cstring \<Rightarrow> char list \<Rightarrow> TarKind \<Rightarrow> nat \<Rightarrow> tar_entry list \<Rightarrow> nat \<Rightarrow> (tar_entry list \<times> nat) option" where
  "header_loop env path bytes kind pos index cap = (case rd env path bytes pos TAR_BLOCK_SIZE of
     None \<Rightarrow> None
   | Some [] \<Rightarrow> Some (index, cap)
   | Some (c # cs) \<Rightarrow>
       let header = c # cs; dataOffset = pos + TAR_BLOCK_SIZE in
       if length header \<noteq> TAR_BLOCK_SIZE then None
       else if isZeroBlock header then header_loop env path bytes kind dataOffset index cap
       else
         let typeflag = header ! 156; rawSize = parseOctal (drop 124 header) 12; behind = dataOffset + padded rawSize in
         if typeflag \<noteq> NUL \<and> typeflag \<noteq> CHR ''0''
         then if tv_seek env path behind then header_loop env path bytes kind behind index cap else None
         else if \<not> tv_seek env path dataOffset then None
         else if MAX_FILE_SIZE < rawSize
         then if tv_seek env path behind then header_loop env path bytes kind behind index cap else None
         else
           let newCap = cap + 64 in
           if cap \<le> length index \<and> \<not> tv_mem env (entrySize kind * newCap) then None
           else if tv_seek env path behind
           then header_loop env path bytes kind behind (index @ [header_entry env kind dataOffset rawSize (padded rawSize) header])
             (if cap \<le> length index then newCap else cap)
           else None)"
  by pat_completeness auto
termination
  by (relation "measure (\<lambda>(env, path, bytes, kind, pos, index, cap). length bytes - pos)")
    (auto dest!: rd_nonempty simp: TAR_BLOCK_SIZE_def)

declare header_loop.simps [simp del]

definition cache_path :: "TarKind \<Rightarrow> cstring \<Rightarrow> cstring" where
  "cache_path kind path =
     (let dirPath = take 255 path;
          dirPath = (case strrchr dirPath (CHR ''/'') of None \<Rightarrow> dirPath | Some i \<Rightarrow> take (i + 1) dirPath)
      in bounded 256 (dirPath @ cacheName kind))"

definition tarParseFile :: "tar_env \<Rightarrow> tar_files \<Rightarrow> TarKind \<Rightarrow> cstring \<Rightarrow> tar_slot \<Rightarrow> int \<times> tar_slot \<times> tar_files" where
  "tarParseFile env fs kind path s =
     (let fullCachePath = cache_path kind path in
      case tarReadCache env fs fullCachePath path kind of
        Some entries \<Rightarrow> (0, s\<lparr>ts_index := Some entries, ts_cap := length entries\<rparr>, fs)
      | None \<Rightarrow>
          (case fs path of
             None \<Rightarrow> (-1, s, fs)
           | Some bytes \<Rightarrow>
               (case header_loop env path bytes kind 0 [] 0 of
                  None \<Rightarrow> (-1, s\<lparr>ts_index := None, ts_cap := 0\<rparr>, fs)
                | Some (index, cap) \<Rightarrow>
                    (0, s\<lparr>ts_index := (if cap = 0 then None else Some index), ts_cap := cap\<rparr>,
                     snd (tarWriteCache env fs fullCachePath path kind index)))))"

section \<open>Loading\<close>

definition tarLoadFile :: "tar_env \<Rightarrow> tar_files \<Rightarrow> TarKind \<Rightarrow> cstring \<Rightarrow> tar_slot \<Rightarrow> int \<times> tar_slot \<times> tar_files" where
  "tarLoadFile env fs kind path s =
     (if ts_isExact s \<and> ts_index s \<noteq> None \<and> 0 < ts_count s \<and> ts_exactPath s = path then (0, s, fs)
      else
        (case tarParseFile env fs kind path ((tarCloseInternal s)\<lparr>ts_isExact := True\<rparr>) of
           (r, s', fs') \<Rightarrow> (r, if r = 0 then s'\<lparr>ts_exactPath := bounded 256 path\<rparr> else tarCloseInternal s', fs')))"

fun load_devices :: "tar_env \<Rightarrow> tar_files \<Rightarrow> TarKind \<Rightarrow> tar_device list \<Rightarrow> tar_slot \<Rightarrow> bool \<times> tar_slot \<times> tar_files" where
  "load_devices env fs kind [] s = (False, s, fs)"
| "load_devices env fs kind (dev # devs) s = (case buildTarPath (Some dev) kind of
     None \<Rightarrow> load_devices env fs kind devs s
   | Some tarPath \<Rightarrow>
       if fs tarPath = None then load_devices env fs kind devs s
       else
         (case tarParseFile env fs kind tarPath (s\<lparr>ts_dev := Some dev\<rparr>) of
            (r, s', fs') \<Rightarrow> if r = 0 then (True, s', fs') else load_devices env fs' kind devs (tarCloseInternal s')))"

definition tarLoadFromAnyDevice :: "tar_env \<Rightarrow> tar_files \<Rightarrow> TarKind \<Rightarrow> tar_slot \<Rightarrow> int \<times> tar_slot \<times> tar_files" where
  "tarLoadFromAnyDevice env fs kind s =
     (let s1 = (if ts_isExact s then tarCloseInternal s else s) in
      if ts_inactive s1 then (-1, s1, fs)
      else if ts_index s1 \<noteq> None \<and> ts_dev s1 \<noteq> None \<and> (\<exists>p \<in> set_option (buildTarPath (ts_dev s1) kind). fs p \<noteq> None) then (0, s1, fs)
      else
        let s2 = (if ts_index s1 \<noteq> None \<and> ts_dev s1 \<noteq> None then tarCloseInternal s1 else s1) in
        case load_devices env fs kind gDevices s2 of
          (found, s3, fs') \<Rightarrow> if found then (0, s3, fs') else (-1, s3\<lparr>ts_inactive := True\<rparr>, fs'))"

definition tarClose :: "tar_slot \<Rightarrow> int \<times> tar_slot" where
  "tarClose s = (0, (tarCloseInternal s)\<lparr>ts_inactive := False\<rparr>)"

definition tarEnsureLoaded :: "tar_env \<Rightarrow> tar_files \<Rightarrow> TarKind \<Rightarrow> tar_slot \<Rightarrow> int \<times> tar_slot \<times> tar_files" where
  "tarEnsureLoaded env fs kind s =
     (if ts_inactive s then (-1, s, fs)
      else if ts_index s = None \<or> ts_count s = 0 then tarLoadFromAnyDevice env fs kind s
      else (0, s, fs))"

definition tarInvalidate :: "tar_slot \<Rightarrow> tar_slot" where
  "tarInvalidate s = (tarCloseInternal s)\<lparr>ts_inactive := False\<rparr>"

definition tarGetDevicePrefix :: "tar_slot \<Rightarrow> cstring option" where
  "tarGetDevicePrefix s = map_option fst (ts_dev s)"

section \<open>Looking up and reading\<close>

text \<open>The string behind an entry's base: it runs into the next entries when it has no terminator.\<close>

definition entry_name :: "tar_entry \<Rightarrow> tar_entry list \<Rightarrow> cstring option" where
  "entry_name e es = (let rest = te_name e @ concat (map entry_bytes es) in if NUL \<in> set rest then Some (cstr rest) else None)"

definition base_name :: "cstring \<Rightarrow> cstring" where
  "base_name s = (case strrchr s (CHR ''/'') of None \<Rightarrow> s | Some i \<Rightarrow> drop (i + 1) s)"

definition name_matches :: "cstring \<Rightarrow> cstring \<Rightarrow> bool" where
  "name_matches filename fname \<longleftrightarrow> strcasecmp_eq fname filename \<or> strcasecmp_eq fname (clean_name filename) \<or>
     strcasecmp_eq (base_name fname) (clean_name filename)"

definition prefix_matches :: "cstring \<Rightarrow> cstring \<Rightarrow> bool" where
  "prefix_matches pfx fname \<longleftrightarrow> strncasecmp_eq (length pfx) (base_name fname) pfx"

fun find_loop :: "(cstring \<Rightarrow> bool) \<Rightarrow> tar_entry list \<Rightarrow> tar_entry option option" where
  "find_loop P [] = Some None"
| "find_loop P (e # es) = (case entry_name e es of None \<Rightarrow> None | Some fname \<Rightarrow> if P fname then Some (Some e) else find_loop P es)"

definition find_generic :: "(cstring \<Rightarrow> bool) \<Rightarrow> tar_env \<Rightarrow> tar_files \<Rightarrow> TarKind \<Rightarrow> tar_slot \<Rightarrow> tar_entry option option \<times> tar_slot \<times> tar_files" where
  "find_generic P env fs kind s =
     (let s1 = (if ts_isExact s then tarCloseInternal s else s) in
      if ts_inactive s1 then (Some None, s1, fs)
      else
        (case (if ts_index s1 = None \<or> ts_count s1 = 0 then tarLoadFromAnyDevice env fs kind s1 else (0, s1, fs)) of
           (r, s2, fs') \<Rightarrow> if r < 0 then (Some None, s2, fs')
             else (case ts_index s2 of None \<Rightarrow> Some None | Some index \<Rightarrow> find_loop P index, s2, fs')))"

definition tarFind :: "tar_env \<Rightarrow> tar_files \<Rightarrow> TarKind \<Rightarrow> cstring \<Rightarrow> tar_slot \<Rightarrow> tar_entry option option \<times> tar_slot \<times> tar_files" where
  "tarFind env fs kind filename s = find_generic (name_matches filename) env fs kind s"

definition tarFindPrefix :: "tar_env \<Rightarrow> tar_files \<Rightarrow> TarKind \<Rightarrow> cstring \<Rightarrow> tar_slot \<Rightarrow> tar_entry option option \<times> tar_slot \<times> tar_files" where
  "tarFindPrefix env fs kind pfx s = find_generic (prefix_matches pfx) env fs kind s"

definition find_exact :: "(cstring \<Rightarrow> bool) \<Rightarrow> tar_slot \<Rightarrow> tar_entry option option" where
  "find_exact P s =
     (if \<not> ts_isExact s then Some None else case ts_index s of None \<Rightarrow> Some None | Some index \<Rightarrow> find_loop P index)"

definition tarFindExact :: "cstring \<Rightarrow> tar_slot \<Rightarrow> tar_entry option option" where
  "tarFindExact filename s = find_exact (name_matches filename) s"

definition tarFindPrefixExact :: "cstring \<Rightarrow> tar_slot \<Rightarrow> tar_entry option option" where
  "tarFindPrefixExact pfx s = find_exact (prefix_matches pfx) s"

text \<open>The loop of \<^verbatim>\<open>tarRead\<close>: what has been stored so far, and whether it went through.\<close>

function read_loop :: "tar_env \<Rightarrow> cstring \<Rightarrow> char list \<Rightarrow> nat \<Rightarrow> nat \<Rightarrow> char list \<Rightarrow> bool \<times> char list" where
  "read_loop env path bytes offset rawSize dst =
     (if length dst < rawSize
      then (case rd env path bytes (offset + length dst) (rawSize - length dst) of
              Some (c # cs) \<Rightarrow> read_loop env path bytes offset rawSize (dst @ c # cs)
            | _ \<Rightarrow> (False, dst))
      else (True, dst))"
  by pat_completeness auto
termination
  by (relation "measure (\<lambda>(env, path, bytes, offset, rawSize, dst). rawSize - length dst)") auto

declare read_loop.simps [simp del]

text \<open>The path \<^verbatim>\<open>tarRead\<close> opens.\<close>

definition read_path :: "TarKind \<Rightarrow> tar_slot \<Rightarrow> cstring option" where
  "read_path kind s =
     (if ts_isExact s \<and> ts_exactPath s \<noteq> [] then Some (bounded 256 (ts_exactPath s))
      else if ts_inactive s then None
      else buildTarPath (ts_dev s) kind)"

text \<open>The returned count and the bytes stored.\<close>

definition tarRead :: "tar_env \<Rightarrow> tar_files \<Rightarrow> TarKind \<Rightarrow> tar_slot \<Rightarrow> tar_entry option \<Rightarrow> nat \<Rightarrow> nat \<times> char list" where
  "tarRead env fs kind s entry dstSize = (case entry of
     None \<Rightarrow> (0, [])
   | Some e \<Rightarrow>
       let rawSize = unat (te_rawSize e); offset = unat (te_offset e) in
       if dstSize < rawSize then (0, [])
       else
         (case read_path kind s of
            None \<Rightarrow> (0, [])
          | Some tarPath \<Rightarrow>
              (case fs tarPath of
                 None \<Rightarrow> (0, [])
               | Some bytes \<Rightarrow>
                   if \<not> tv_seek env tarPath offset then (0, [])
                   else (case read_loop env tarPath bytes offset rawSize [] of
                           (ok, dst) \<Rightarrow> (if ok then length dst else 0, dst)))))"

text \<open>The buffer with the member's bytes, or NULL; the outer \<open>None\<close> as for the search.\<close>

definition tarGet :: "tar_env \<Rightarrow> tar_files \<Rightarrow> TarKind \<Rightarrow> cstring \<Rightarrow> tar_slot \<Rightarrow> char list option option \<times> tar_slot \<times> tar_files" where
  "tarGet env fs kind filename s =
     (if ts_inactive s then (Some None, s, fs)
      else
        (case tarFind env fs kind filename s of
           (None, s', fs') \<Rightarrow> (None, s', fs')
         | (Some None, s', fs') \<Rightarrow> (Some None, s', fs')
         | (Some (Some e), s', fs') \<Rightarrow>
             (if \<not> tv_mem env (unat (te_rawSize e)) then Some None
              else (case tarRead env fs' kind s' (Some e) (unat (te_rawSize e)) of
                      (n, buf) \<Rightarrow> if n \<noteq> unat (te_rawSize e) then Some None else Some (Some buf)),
              s', fs')))"

section \<open>Layout of the cache\<close>

lemma length_le64 [simp]: "length (le64 w) = 8"
  by (simp add: le64_def)

lemma of_le64_append [simp]: "of_le64 (le64 w @ r) = w"
proof -
  have "or (ucast (ucast w :: u32)) (push_bit 32 (ucast (ucast (drop_bit 32 w) :: u32))) = w"
    by (rule bit_word_eqI) (auto simp: bit_simps)
  then show ?thesis by (simp add: of_le64_def le64_def)
qed

definition entry_ok :: "TarKind \<Rightarrow> tar_entry \<Rightarrow> bool" where
  "entry_ok kind e \<longleftrightarrow> length (te_name e) = entrySize kind - ENTRY_BASE_SIZE"

lemma entrySize_ge [simp]: "40 \<le> entrySize kind"
  by (cases kind) simp_all

lemma entry_bytes_back: "entry_of_bytes (entry_bytes e) = e"
  by (simp add: entry_bytes_def entry_of_bytes_def)

interpretation tar_layout: fixed_layout "entry_ok kind" entry_bytes entry_of_bytes "entrySize kind" for kind
proof
  show "0 < entrySize kind" using entrySize_ge [of kind] by linarith
  show "length (entry_bytes x) = entrySize kind" if "entry_ok kind x" for x
    using that by (cases kind) (simp_all add: entry_ok_def entry_bytes_def ENTRY_BASE_SIZE_def)
qed (rule entry_bytes_back)

lemma length_cache_header [simp]: "length (cache_header env n c) = CACHE_HEADER_SIZE"
  by (simp add: cache_header_def ARC_MAGIC_def CACHE_HEADER_SIZE_def)

lemma cache_header_fields:
  "take 4 (cache_header env n c @ r) = ARC_MAGIC" "of_le32 (drop 4 (cache_header env n c @ r)) = ARC_VERSION"
  "of_le64 (drop 8 (cache_header env n c @ r)) = of_nat n" "of_le32 (drop 16 (cache_header env n c @ r)) = of_nat c"
  by (simp_all add: cache_header_def ARC_MAGIC_def)

text \<open>A system that answers every request.\<close>

definition tar_delivers :: "tar_env \<Rightarrow> bool" where
  "tar_delivers env \<longleftrightarrow> (\<forall>p. tv_stat env p) \<and> (\<forall>p pos n. tv_read env p pos n = Some n) \<and> (\<forall>p pos. tv_seek env p pos) \<and> (\<forall>n. tv_mem env n)"

lemma rd_delivers [simp]: "tar_delivers env \<Longrightarrow> rd env path bytes pos n = Some (take n (drop pos bytes))"
  by (simp add: tar_delivers_def rd_def)

lemma sint_small: "n < 2 ^ 31 \<Longrightarrow> sint (of_nat n :: u32) = int n"
  by (simp add: signed_of_nat signed_take_bit_int_eq_self)

lemma tarWriteCache_stored:
  assumes "fs tarPath = Some tar" "tv_stat env tarPath" "tv_write env cachePath = Some n" "\<forall>e \<in> set index. entry_ok kind e"
  shows "snd (tarWriteCache env fs cachePath tarPath kind index) cachePath =
    Some (take n (cache_header env (length tar) (length index) @ concat (map entry_bytes index)))"
  using assms tar_layout.array_length [OF assms(4)] by (simp add: tarWriteCache_def Let_def)

text \<open>Reading a file that holds the first bytes of a cache.\<close>

lemma cache_buf_Some:
  assumes "cache_buf env fs cachePath = Some buf" "fs cachePath = Some bytes" "length bytes < 2 ^ 31"
  shows "buf = bytes \<and> CACHE_HEADER_SIZE \<le> length bytes"
proof -
  have sz: "sint (of_nat (length bytes) :: u32) = int (length bytes)" by (rule sint_small [OF assms(3)])
  obtain k where k: "tv_read env cachePath 0 (length bytes) = Some k" "buf = take (min k (length bytes)) bytes" "length buf = length bytes"
    "CACHE_HEADER_SIZE \<le> length bytes"
    using assms(1,2) by (auto simp: cache_buf_def sz Let_def rd_def split: option.splits if_splits)
  then show ?thesis by (auto simp: min_def split: if_splits)
qed

lemma cache_buf_delivers:
  assumes "tar_delivers env" "fs cachePath = Some bytes" "length bytes < 2 ^ 31" "CACHE_HEADER_SIZE \<le> length bytes"
  shows "cache_buf env fs cachePath = Some bytes"
  using assms sint_small [OF assms(3)] by (simp add: cache_buf_def tar_delivers_def rd_def)

lemma cache_entries_Some:
  assumes "cache_entries env kind tarSize buf = Some es"
  shows "es = map entry_of_bytes (elements (entrySize kind) (take (unat (of_le32 (drop 16 buf)) * entrySize kind) (drop CACHE_HEADER_SIZE buf)))"
    "of_nat tarSize = of_le64 (drop 8 buf)" "unat (of_le32 (drop 16 buf)) \<le> (length buf - CACHE_HEADER_SIZE) div entrySize kind"
    "\<forall>e \<in> set es. unat (te_rawSize e) \<le> MAX_FILE_SIZE"
  using assms unfolding cache_entries_def Let_def by (auto simp: not_less split: if_splits)

lemma index_count:
  assumes "CACHE_HEADER_SIZE + entrySize kind * length index < 2 ^ 31"
  shows "unat (of_nat (length index) :: u32) = length index"
proof -
  have "length index * 1 \<le> length index * entrySize kind" using entrySize_ge [of kind] by (intro mult_le_mono2) linarith
  moreover have "length index * entrySize kind < 2 ^ 31" using assms by (simp only: mult.commute)
  ultimately have "length index < 2 ^ 31" by linarith
  then have "length index < 2 ^ 32" by simp
  then show ?thesis by (simp add: unat_of_nat take_bit_nat_eq_self)
qed

lemma cache_entries_torn:
  assumes ok: "\<forall>e \<in> set index. entry_ok kind e"
    and small: "CACHE_HEADER_SIZE + entrySize kind * length index < 2 ^ 31"
    and buf: "buf = take n (cache_header env0 len (length index) @ concat (map entry_bytes index))" "CACHE_HEADER_SIZE \<le> length buf"
    and got: "cache_entries env kind tarSize buf = Some es"
  shows "es = index \<and> of_nat tarSize = (of_nat len :: u64) \<and> buf = cache_header env0 len (length index) @ concat (map entry_bytes index)"
proof -
  let ?hdr = "cache_header env0 len (length index)" and ?body = "concat (map entry_bytes index)"
  have blen: "length ?body = entrySize kind * length index" by (rule tar_layout.array_length [OF ok])
  have n: "CACHE_HEADER_SIZE \<le> n" using buf by simp
  then have b: "buf = ?hdr @ take (n - CACHE_HEADER_SIZE) ?body" using buf(1) by simp
  note f = cache_header_fields [of env0 len "length index" "take (n - CACHE_HEADER_SIZE) ?body", folded b]
  have cnt: "unat (of_le32 (drop 16 buf)) = length index" using f(4) index_count [OF small] by simp
  have pos: "0 < entrySize kind" using entrySize_ge [of kind] by linarith
  have "length index \<le> length (take (n - CACHE_HEADER_SIZE) ?body) div entrySize kind"
    using cache_entries_Some(3) [OF got] cnt b by simp
  then have "length index * entrySize kind \<le> length (take (n - CACHE_HEADER_SIZE) ?body)" using pos by (simp add: less_eq_div_iff_mult_less_eq)
  then have whole: "take (n - CACHE_HEADER_SIZE) ?body = ?body" using blen by (simp add: mult.commute)
  have "es = map entry_of_bytes (elements (entrySize kind) (take (length index * entrySize kind) ?body))"
    using cache_entries_Some(1) [OF got] cnt b whole by simp
  also have "\<dots> = index" using tar_layout.array_back [OF ok] blen by (simp add: mult.commute)
  finally show ?thesis using cache_entries_Some(2) [OF got] f(3) b whole by simp
qed

lemma cache_entries_whole:
  assumes "\<forall>e \<in> set index. entry_ok kind e \<and> unat (te_rawSize e) \<le> MAX_FILE_SIZE" "CACHE_HEADER_SIZE + entrySize kind * length index < 2 ^ 31"
    and "tar_delivers env" "of_nat tarSize = (of_nat len :: u64)"
  shows "cache_entries env kind tarSize (cache_header env0 len (length index) @ concat (map entry_bytes index)) = Some index"
proof -
  have ok: "\<forall>e \<in> set index. entry_ok kind e" using assms(1) by blast
  have blen: "length (concat (map entry_bytes index)) = length index * entrySize kind" using tar_layout.array_length [OF ok] by (simp add: mult.commute)
  have pos: "0 < entrySize kind" using entrySize_ge [of kind] by linarith
  define buf where "buf = cache_header env0 len (length index) @ concat (map entry_bytes index)"
  note f = cache_header_fields [of env0 len "length index" "concat (map entry_bytes index)", folded buf_def]
  have d: "drop CACHE_HEADER_SIZE buf = concat (map entry_bytes index)" "length buf = CACHE_HEADER_SIZE + length index * entrySize kind"
    using blen by (simp_all add: buf_def)
  have "cache_entries env kind tarSize buf = Some index"
    using assms pos blen tar_layout.array_back [OF ok] index_count [OF assms(2)] f(3,4) d
    by (simp add: cache_entries_def Let_def tar_delivers_def not_less)
  then show ?thesis by (simp add: buf_def)
qed

text \<open>C26. Whatever part of the cache file a write leaves behind, a later start either rejects it and reads the
  archive, or gets exactly the index that was written, and then the archive has the size it had; a
  complete cache of an archive of the same size is accepted when the device delivers.\<close>

theorem tar_cache_torn:
  assumes ok: "\<forall>e \<in> set index. entry_ok kind e \<and> unat (te_rawSize e) \<le> MAX_FILE_SIZE"
    and small: "CACHE_HEADER_SIZE + entrySize kind * length index < 2 ^ 31" "length tar < 2 ^ 64" "length tar2 < 2 ^ 64"
    and wr: "fs tarPath = Some tar" "tv_stat env tarPath" "tv_write env cachePath = Some n"
    and later: "fs2 cachePath = snd (tarWriteCache env fs cachePath tarPath kind index) cachePath" "fs2 tarPath = Some tar2"
  shows "case tarReadCache env2 fs2 cachePath tarPath kind of
      Some es \<Rightarrow> es = index \<and> length tar2 = length tar
    | None \<Rightarrow> \<not> (tar_delivers env2 \<and> length tar2 = length tar \<and> CACHE_HEADER_SIZE + entrySize kind * length index \<le> n)"
proof -
  let ?all = "cache_header env (length tar) (length index) @ concat (map entry_bytes index)"
  have ok': "\<forall>e \<in> set index. entry_ok kind e" using ok by blast
  have fl: "fs2 cachePath = Some (take n ?all)" using tarWriteCache_stored [of fs tarPath, OF wr ok'] later(1) by simp
  have len: "length ?all = CACHE_HEADER_SIZE + entrySize kind * length index" using tar_layout.array_length [OF ok'] by simp
  then have short: "length (take n ?all) < 2 ^ 31" using small(1) by (simp only: length_take)
  show ?thesis
  proof (cases "tarReadCache env2 fs2 cachePath tarPath kind")
    case (Some es)
    then obtain buf where b: "cache_buf env2 fs2 cachePath = Some buf" "cache_entries env2 kind (length tar2) buf = Some es"
      using later(2) by (auto simp: tarReadCache_def split: option.splits if_splits)
    have buf: "buf = take n ?all" "CACHE_HEADER_SIZE \<le> length buf" using cache_buf_Some [OF b(1) fl short] by auto
    have r: "es = index" "of_nat (length tar2) = (of_nat (length tar) :: u64)"
      using cache_entries_torn [OF ok' small(1) buf b(2)] by auto
    have "unat (of_nat (length tar2) :: u64) = unat (of_nat (length tar) :: u64)" using r(2) by simp
    then show ?thesis using Some r(1) small(2,3) by (simp add: unat_of_nat take_bit_nat_eq_self)
  next
    case None
    have False if c: "tar_delivers env2" "length tar2 = length tar" "CACHE_HEADER_SIZE + entrySize kind * length index \<le> n"
    proof -
      have whole: "take n ?all = ?all" using len c(3) by simp
      have "cache_buf env2 fs2 cachePath = Some ?all"
        using cache_buf_delivers [OF c(1)] fl short len unfolding whole by simp
      moreover have "tv_stat env2 tarPath" using c(1) by (simp add: tar_delivers_def)
      ultimately have "tarReadCache env2 fs2 cachePath tarPath kind = Some index"
        using later(2) c(2) cache_entries_whole [OF ok small(1) c(1)] using cache_header_fields(1,2) by (simp only: tarReadCache_def option.case if_False if_True de_Morgan_disj not_not simp_thms)
      then show False using None by simp
    qed
    then show ?thesis using None by auto
  qed
qed

section \<open>Archives\<close>

text \<open>An archive as its writer sees it: blocks of zeros (between concatenated archives and at the end), and
  members of a header, the data and padding to the next block.\<close>

datatype tar_item = Zeros | Member "char list" "char list" "char list"

fun item_bytes :: "tar_item \<Rightarrow> char list" where
  "item_bytes Zeros = replicate TAR_BLOCK_SIZE NUL"
| "item_bytes (Member header body pad) = header @ body @ pad"

fun tar_item_ok :: "tar_item \<Rightarrow> bool" where
  "tar_item_ok Zeros \<longleftrightarrow> True"
| "tar_item_ok (Member header body pad) \<longleftrightarrow> length header = TAR_BLOCK_SIZE \<and> \<not> isZeroBlock header \<and>
     parseOctal (drop 124 header) 12 = length body \<and> length (body @ pad) = padded (length body)"

text \<open>Regular files that are not too large are served.\<close>

definition is_served :: "char list \<Rightarrow> char list \<Rightarrow> bool" where
  "is_served header body \<longleftrightarrow> (header ! 156 = NUL \<or> header ! 156 = CHR ''0'') \<and> length body \<le> MAX_FILE_SIZE"

text \<open>The entries of the index with header and data of their members.\<close>

fun served :: "tar_env \<Rightarrow> TarKind \<Rightarrow> nat \<Rightarrow> tar_item list \<Rightarrow> (tar_entry \<times> char list \<times> char list) list" where
  "served env kind pos [] = []"
| "served env kind pos (Zeros # items) = served env kind (pos + TAR_BLOCK_SIZE) items"
| "served env kind pos (Member header body pad # items) =
     (let rest = served env kind (pos + TAR_BLOCK_SIZE + padded (length body)) items in
      if is_served header body
      then (header_entry env kind (pos + TAR_BLOCK_SIZE) (length body) (padded (length body)) header, header, body) # rest else rest)"

lemma take_drop_append: "length a = n \<Longrightarrow> pos = length pre \<Longrightarrow> take n (drop pos (pre @ a @ c)) = a"
  by simp

lemma header_loop_items:
  assumes "tar_delivers env" "\<forall>it \<in> set items. tar_item_ok it" "bytes = pre @ concat (map item_bytes items)" "pos = length pre"
  shows "\<exists>cap'. header_loop env path bytes kind pos index cap = Some (index @ map fst (served env kind pos items), cap') \<and>
    (cap' = 0 \<longleftrightarrow> cap = 0 \<and> served env kind pos items = [])"
  using assms(2-)
proof (induction items arbitrary: pre pos index cap)
  case Nil
  then show ?case using assms(1) by (subst header_loop.simps) simp
next
  case (Cons it items)
  have env: "tv_seek env path k" "tv_mem env k" for k using assms(1) by (simp_all add: tar_delivers_def)
  show ?case
  proof (cases it)
    case Zeros
    let ?z = "replicate TAR_BLOCK_SIZE NUL"
    have b: "take TAR_BLOCK_SIZE (drop pos bytes) = ?z" using Cons.prems(2,3) Zeros by simp
    then obtain c cs where cs: "take TAR_BLOCK_SIZE (drop pos bytes) = c # cs" "c # cs = ?z"
      by (cases "?z") (simp_all add: TAR_BLOCK_SIZE_def)
    have zero: "isZeroBlock (c # cs)" "length (c # cs) = TAR_BLOCK_SIZE" unfolding cs(2) by (simp_all add: isZeroBlock_def)
    have step: "header_loop env path bytes kind pos index cap = header_loop env path bytes kind (pos + TAR_BLOCK_SIZE) index cap"
      using assms(1) cs(1) zero by (subst header_loop.simps) (simp add: Let_def)
    show ?thesis unfolding step using Cons.IH [of "pre @ ?z" "pos + TAR_BLOCK_SIZE" index cap] Cons.prems Zeros by simp
  next
    case (Member header body pad)
    then have ok: "length header = TAR_BLOCK_SIZE" "\<not> isZeroBlock header" "parseOctal (drop 124 header) 12 = length body"
      "length body + length pad = padded (length body)" using Cons.prems(1) by auto
    have b: "take TAR_BLOCK_SIZE (drop pos bytes) = header" using Cons.prems(2,3) Member ok(1) by simp
    then obtain c cs where cs: "take TAR_BLOCK_SIZE (drop pos bytes) = c # cs" "c # cs = header"
      using ok(1) by (cases header) (simp_all add: TAR_BLOCK_SIZE_def)
    let ?behind = "pos + TAR_BLOCK_SIZE + padded (length body)"
    have step: "header_loop env path bytes kind pos index cap =
      (if is_served header body
       then header_loop env path bytes kind ?behind (index @ [header_entry env kind (pos + TAR_BLOCK_SIZE) (length body) (padded (length body)) header])
         (if cap \<le> length index then cap + 64 else cap)
       else header_loop env path bytes kind ?behind index cap)"
      using assms(1) cs(1) ok [unfolded cs(2) [symmetric]] env unfolding is_served_def cs(2) [symmetric]
      by (subst header_loop.simps) (simp add: Let_def not_less del: length_Cons)
    have IH: "\<exists>cap'. header_loop env path bytes kind ?behind index0 cap0 = Some (index0 @ map fst (served env kind ?behind items), cap') \<and>
      (cap' = 0 \<longleftrightarrow> cap0 = 0 \<and> served env kind ?behind items = [])" for index0 cap0
      using Cons.prems Member ok by (intro Cons.IH [of "pre @ header @ body @ pad"]) simp_all
    let ?e = "header_entry env kind (pos + TAR_BLOCK_SIZE) (length body) (padded (length body)) header"
    show ?thesis
      unfolding step
      using IH [of "index @ [?e]" "if cap \<le> length index then cap + 64 else cap"] IH [of index cap] Member
      by (cases "is_served header body") (auto simp: Let_def split: if_splits)
  qed
qed

section \<open>Looking up a member\<close>

text \<open>The name an index entry keeps of a header.\<close>

definition stored_name :: "TarKind \<Rightarrow> char list \<Rightarrow> cstring" where
  "stored_name kind header = take (nameMax kind - 1) (clean_name (full_path header))"

lemma no_NUL_cstr: "NUL \<notin> set (cstr s)"
  by (auto simp: cstr_def dest: set_takeWhileD)

lemma clean_no_NUL: "NUL \<notin> set s \<Longrightarrow> NUL \<notin> set (clean_name s)"
  unfolding clean_name_def Let_def by (auto dest: in_set_dropD)

lemma full_path_no_NUL: "NUL \<notin> set (full_path header)"
proof -
  have "NUL \<notin> set (header_field a b header)" for a b using no_NUL_cstr by (simp add: header_field_def)
  then show ?thesis unfolding full_path_def Let_def bounded_def by (auto dest!: in_set_takeD)
qed

lemma name_bytes_shape:
  assumes "NUL \<notin> set s"
  shows "\<exists>t. name_bytes env kind s = take (nameMax kind - 1) s @ NUL # t \<and> length (name_bytes env kind s) = entrySize kind - ENTRY_BASE_SIZE"
proof -
  let ?n = "nameMax kind"
  have n: "0 < ?n" "Suc ?n = entrySize kind - ENTRY_BASE_SIZE" by (cases kind; simp add: nameMax_def ENTRY_BASE_SIZE_def)+
  let ?a = "take ?n s @ replicate (?n - length s) NUL"
  have len: "length ?a = ?n" by simp
  have "?a[?n - 1 := NUL] = take (?n - 1) ?a @ NUL # drop (Suc (?n - 1)) ?a" using len n(1) by (intro upd_conv_take_nth_drop) simp
  also have "\<dots> = take (?n - 1) ?a @ [NUL]" using len n(1) by simp
  finally have u: "name_bytes env kind s = take (?n - 1) ?a @ [NUL, tv_junk env ! 0]" by (simp add: name_bytes_def)
  have "take (?n - 1) ?a = take (?n - 1) s @ replicate (?n - 1 - length s) NUL" by (simp add: min_def)
  moreover have "\<exists>t. replicate k NUL @ [NUL, tv_junk env ! 0] = NUL # t" for k by (cases k) auto
  ultimately have "\<exists>t. name_bytes env kind s = take (?n - 1) s @ NUL # t" unfolding u by (metis append.assoc)
  moreover have "length (name_bytes env kind s) = entrySize kind - ENTRY_BASE_SIZE" using len n(2) by (simp add: name_bytes_def)
  ultimately show ?thesis by blast
qed

lemma header_entry_name:
  "NUL \<in> set (te_name (header_entry env kind off raw pad header)) \<and> cstr (te_name (header_entry env kind off raw pad header)) = stored_name kind header \<and>
   entry_ok kind (header_entry env kind off raw pad header)"
proof -
  let ?s = "clean_name (full_path header)"
  have nul: "NUL \<notin> set ?s" by (rule clean_no_NUL [OF full_path_no_NUL])
  obtain t where t: "name_bytes env kind ?s = take (nameMax kind - 1) ?s @ NUL # t" "length (name_bytes env kind ?s) = entrySize kind - ENTRY_BASE_SIZE"
    using name_bytes_shape [OF nul] by blast
  have "NUL \<notin> set (take (nameMax kind - 1) ?s)" using nul by (auto dest: in_set_takeD)
  then have "cstr (take (nameMax kind - 1) ?s @ NUL # t) = take (nameMax kind - 1) ?s"
    by (simp add: cstr_def takeWhile_append)
  then show ?thesis using t by (simp add: header_entry_def stored_name_def entry_ok_def)
qed

lemma served_entry:
  assumes "(e, h, d) \<in> set (served env kind pos items)"
  shows "\<exists>off. e = header_entry env kind off (length d) (padded (length d)) h \<and> length d \<le> MAX_FILE_SIZE"
  using assms
proof (induction env kind pos items rule: served.induct)
  case (3 env kind pos header body pad items)
  then show ?case by (auto simp: Let_def is_served_def split: if_splits)
qed auto

lemma find_loop_served:
  "find_loop P (map fst (served env kind pos items)) =
     Some (map_option fst (List.find (\<lambda>(e, h, d). P (stored_name kind h)) (served env kind pos items)))"
proof (induction env kind pos items rule: served.induct)
  case (3 env kind pos header body pad items)
  have "entry_name (header_entry env kind off raw q header) es = Some (stored_name kind header)" for off raw q es
    using header_entry_name [of env kind off raw q header] by (simp add: entry_name_def cstr_append)
  then show ?case using 3 by (simp add: Let_def)
qed simp_all

lemma read_loop_exact:
  assumes "read_loop env path bytes offset rawSize dst = (True, out)" "length dst \<le> rawSize" "dst = take (length dst) (drop offset bytes)"
  shows "out = take rawSize (drop offset bytes) \<and> length out = rawSize"
  using assms
proof (induction env path bytes offset rawSize dst rule: read_loop.induct)
  case (1 env path bytes offset rawSize dst)
  show ?case
  proof (cases "length dst < rawSize")
    case False
    then show ?thesis using 1(2-) by (auto simp: read_loop.simps)
  next
    case True
    then obtain c cs where r: "rd env path bytes (offset + length dst) (rawSize - length dst) = Some (c # cs)"
      "read_loop env path bytes offset rawSize (dst @ c # cs) = (True, out)"
      using 1(2) by (subst (asm) read_loop.simps) (auto split: option.splits list.splits)
    obtain z where "take (min z (rawSize - length dst)) (drop (offset + length dst) bytes) = c # cs" using r(1) by (auto simp: rd_def)
    then obtain k where k: "c # cs = take k (drop (offset + length dst) bytes)" "k \<le> rawSize - length dst" by (metis min.cobounded2)
    have len: "length (c # cs) \<le> rawSize - length dst" using k by simp
    have "dst @ c # cs = take (length dst) (drop offset bytes) @ take (length (c # cs)) (drop (length dst) (drop offset bytes))"
      using k(1) 1(4) by (metis add.commute drop_drop length_take min.commute take_take take_all_iff nat_le_linear)
    then have "dst @ c # cs = take (length (dst @ c # cs)) (drop offset bytes)"
      by (metis length_append take_add)
    moreover have "length (dst @ c # cs) \<le> rawSize" using len True by simp
    ultimately show ?thesis using 1(1) [OF True r(1) refl r(2)] by blast
  qed
qed

lemma read_loop_delivers:
  assumes "tar_delivers env" "offset + rawSize \<le> length bytes"
  shows "read_loop env path bytes offset rawSize [] = (True, take rawSize (drop offset bytes))"
proof (cases "rawSize = 0")
  case False
  then obtain c cs where c: "take rawSize (drop offset bytes) = c # cs" using assms(2) by (cases "take rawSize (drop offset bytes)") auto
  moreover have "length (c # cs) = rawSize" using assms(2) unfolding c [symmetric] by simp
  ultimately show ?thesis using assms(1) False by (subst read_loop.simps) (simp, subst read_loop.simps, simp)
qed (simp add: read_loop.simps)

text \<open>The bytes at an entry's offset are the data of its member.\<close>

lemma served_content:
  assumes "\<forall>it \<in> set items. tar_item_ok it" "bytes = pre @ concat (map item_bytes items)" "pos = length pre" "length bytes < 2 ^ 64"
    and "(e, h, d) \<in> set (served env kind pos items)"
  shows "take (length d) (drop (unat (te_offset e)) bytes) = d \<and> unat (te_offset e) + length d \<le> length bytes \<and> unat (te_rawSize e) = length d"
  using assms
proof (induction items arbitrary: pre pos)
  case Nil
  then show ?case by simp
next
  case (Cons it items)
  show ?case
  proof (cases it)
    case Zeros
    then show ?thesis using Cons.IH [of "pre @ replicate TAR_BLOCK_SIZE NUL" "pos + TAR_BLOCK_SIZE"] Cons.prems by simp
  next
    case (Member header body pad)
    then have ok: "length header = TAR_BLOCK_SIZE" "length body + length pad = padded (length body)" using Cons.prems(1) by auto
    show ?thesis
    proof (cases "is_served header body \<and> (e, h, d) = (header_entry env kind (pos + TAR_BLOCK_SIZE) (length body) (padded (length body)) header, header, body)")
      case True
      have off: "pos + TAR_BLOCK_SIZE < 2 ^ 64" using Cons.prems(2-4) Member ok(1) by simp
      have "length body < 2 ^ 32" using True by (simp add: is_served_def MAX_FILE_SIZE_def)
      then have e: "unat (te_offset e) = length (pre @ header)" "unat (te_rawSize e) = length body" "d = body"
        using True off Cons.prems(3) ok(1) by (simp_all add: header_entry_def unat_of_nat take_bit_nat_eq_self del: of_nat_add)
      show ?thesis unfolding e using Cons.prems(2) Member by simp
    next
      case False
      then have mem: "(e, h, d) \<in> set (served env kind (pos + TAR_BLOCK_SIZE + padded (length body)) items)"
        using Cons.prems(5) Member by (auto simp: Let_def split: if_splits)
      have b: "bytes = (pre @ header @ body @ pad) @ concat (map item_bytes items)" using Cons.prems(2) Member by simp
      have p: "pos + TAR_BLOCK_SIZE + padded (length body) = length (pre @ header @ body @ pad)" using Cons.prems(3) ok by simp
      show ?thesis using Cons.prems(1) by (intro Cons.IH [OF _ b p Cons.prems(4) mem]) simp
    qed
  qed
qed

text \<open>Header and data of the members that are served, in their order.\<close>

fun members :: "tar_item list \<Rightarrow> (char list \<times> char list) list" where
  "members [] = []"
| "members (Zeros # items) = members items"
| "members (Member header body pad # items) = (if is_served header body then (header, body) # members items else members items)"

lemma served_members: "map snd (served env kind pos items) = members items"
  by (induction env kind pos items rule: served.induct) (simp_all add: Let_def)

lemma find_map_snd: "List.find (\<lambda>(h, d). P h) (map snd xs) = map_option snd (List.find (\<lambda>(e, h, d). P h) xs)"
  by (induction xs) auto

lemma device_path:
  assumes "dev \<in> set gDevices"
  shows "buildTarPath (Some dev) kind = Some (snd dev @ relPath kind)"
proof -
  have "length (snd dev) \<le> 7" "0 < length (snd dev)" using assms by (auto simp: gDevices_def)
  moreover have "length (relPath kind) = 11" by (cases kind) simp_all
  ultimately show ?thesis by (cases dev) (simp add: buildTarPath_def Let_def)
qed

lemma load_devices_first:
  assumes "\<forall>d \<in> set (pre @ [dev]). buildTarPath (Some d) kind = Some (snd d @ relPath kind)" "\<forall>d \<in> set pre. fs (snd d @ relPath kind) = None"
    and "fs (snd dev @ relPath kind) \<noteq> None" "tarParseFile env fs kind (snd dev @ relPath kind) (s\<lparr>ts_dev := Some dev\<rparr>) = (0, s', fs')"
  shows "load_devices env fs kind (pre @ dev # post) s = (True, s', fs')"
  using assms by (induction pre) auto

lemma tarWriteCache_other:
  "q \<noteq> cachePath \<Longrightarrow> snd (tarWriteCache env fs cachePath tarPath kind index) q = fs q"
  by (auto simp: tarWriteCache_def Let_def split: option.splits)

lemma parse_archive:
  assumes "tar_delivers env" "\<forall>it \<in> set items. tar_item_ok it" "fs path = Some (concat (map item_bytes items))" "fs (cache_path kind path) = None"
  shows "\<exists>cap fs'. tarParseFile env fs kind path s =
      (0, s\<lparr>ts_index := (if served env kind 0 items = [] then None else Some (map fst (served env kind 0 items))), ts_cap := cap\<rparr>, fs') \<and>
    fs' path = fs path"
proof -
  have "tarReadCache env fs (cache_path kind path) path kind = None" using assms(4) by (simp add: tarReadCache_def cache_buf_def)
  moreover have "path \<noteq> cache_path kind path" using assms(3,4) by auto
  ultimately show ?thesis
    using header_loop_items [OF assms(1,2), of "concat (map item_bytes items)" "[]" 0 path kind "[]" 0] assms(3) tarWriteCache_other
    by (auto simp: tarParseFile_def Let_def)
qed

text \<open>C8. Asking for a file by name, from a cold start, gives the data of the first served member of the first
  archive found whose name matches, byte for byte, and NULL when no member matches; blocks of zeros
  between concatenated archives, directories and oversized members are stepped over.\<close>

theorem tar_get_content:
  assumes env: "tar_delivers env" and items: "\<forall>it \<in> set items. tar_item_ok it" "length (concat (map item_bytes items)) < 2 ^ 64"
    and devs: "gDevices = pre @ dev # post" "\<forall>d \<in> set pre. fs (snd d @ relPath kind) = None"
    and fl: "fs (snd dev @ relPath kind) = Some (concat (map item_bytes items))" "fs (cache_path kind (snd dev @ relPath kind)) = None"
  shows "fst (tarGet env fs kind filename tar_slot_init) =
    Some (map_option snd (List.find (\<lambda>(header, body). name_matches filename (stored_name kind header)) (members items)))"
proof -
  let ?path = "snd dev @ relPath kind" and ?served = "served env kind 0 items" and ?P = "name_matches filename"
  have dev: "\<forall>d \<in> set (pre @ [dev]). buildTarPath (Some d) kind = Some (snd d @ relPath kind)" 
  proof
    fix d
    assume "d \<in> set (pre @ [dev])"
    then have "d \<in> set gDevices" unfolding devs(1) by auto
    then show "buildTarPath (Some d) kind = Some (snd d @ relPath kind)" by (rule device_path)
  qed
  obtain cap fs' where parse: "tarParseFile env fs kind ?path (tar_slot_init\<lparr>ts_dev := Some dev\<rparr>) =
      (0, tar_slot_init\<lparr>ts_dev := Some dev, ts_index := (if ?served = [] then None else Some (map fst ?served)), ts_cap := cap\<rparr>, fs')" "fs' ?path = fs ?path"
    using parse_archive [OF env items(1) fl] by blast
  define s' where "s' = tar_slot_init\<lparr>ts_dev := Some dev, ts_index := (if ?served = [] then None else Some (map fst ?served)), ts_cap := cap\<rparr>"
  have load: "tarLoadFromAnyDevice env fs kind tar_slot_init = (0, s', fs')"
    using load_devices_first [OF dev devs(2), of env tar_slot_init s' fs' post] fl(1) parse
    by (simp add: tarLoadFromAnyDevice_def tar_slot_init_def Let_def devs(1) s'_def)
  have find: "tarFind env fs kind filename tar_slot_init = (Some (map_option fst (List.find (\<lambda>(e, h, d). ?P (stored_name kind h)) ?served)), s', fs')"
    using load find_loop_served [of ?P env kind 0 items]
    by (simp add: tarFind_def find_generic_def tar_slot_init_def Let_def s'_def)
  have path: "read_path kind s' = Some ?path" using dev by (simp add: read_path_def s'_def tar_slot_init_def)
  have members: "List.find (\<lambda>(h, d). ?P (stored_name kind h)) (members items) = map_option snd (List.find (\<lambda>(e, h, d). ?P (stored_name kind h)) ?served)"
    unfolding served_members [of env kind 0, symmetric] by (rule find_map_snd)
  show ?thesis
  proof (cases "List.find (\<lambda>(e, h, d). ?P (stored_name kind h)) ?served")
    case None
    then show ?thesis using find members by (simp add: tarGet_def tar_slot_init_def)
  next
    case (Some x)
    obtain e h d where x: "x = (e, h, d)" by (cases x)
    have "(e, h, d) \<in> set ?served" using Some x nth_mem by (fastforce simp: find_Some_iff)
    then have c: "take (length d) (drop (unat (te_offset e)) (concat (map item_bytes items))) = d"
      "unat (te_offset e) + length d \<le> length (concat (map item_bytes items))" "unat (te_rawSize e) = length d"
      using served_content [OF items(1), of "concat (map item_bytes items)" "[]" 0 e h d env kind] items(2) by auto
    have "tarRead env fs' kind s' (Some e) (length d) = (length d, d)"
      using env path parse(2) fl(1) c read_loop_delivers [OF env c(2)] by (simp add: tarRead_def tar_delivers_def)
    moreover have "tv_mem env (length d)" using env by (simp add: tar_delivers_def)
    ultimately show ?thesis using find members Some x c(3) by (simp add: tarGet_def tar_slot_init_def)
  qed
qed

definition sample_header :: "cstring \<Rightarrow> cstring \<Rightarrow> char \<Rightarrow> char list" where
  "sample_header name octal flag = name @ replicate (124 - length name) NUL @ octal @ replicate (32 - length octal) NUL @ [flag] @ replicate 355 NUL"

definition sample_items :: "tar_item list" where
  "sample_items = [Member (sample_header ''./ART'' ''00000000000'' (CHR ''5'')) [] [], Zeros, Zeros,
     Member (sample_header ''./ART/SLUS_200.02_COV.png'' ''00000000003'' (CHR ''0'')) ''PNG'' (replicate 509 NUL), Zeros]"

definition sample_tar_env :: tar_env where
  "sample_tar_env = \<lparr>tv_stat = (\<lambda>_. True), tv_read = (\<lambda>_ _ n. Some n), tv_seek = (\<lambda>_ _. True), tv_mem = (\<lambda>_. True), tv_write = (\<lambda>_. None), tv_junk = ''jjjj''\<rparr>"

lemma sample_items_ok: "\<forall>it \<in> set sample_items. tar_item_ok it"
proof -
  have "tar_item_ok (Member (sample_header ''./ART'' ''00000000000'' (CHR ''5'')) [] [])"
    "tar_item_ok (Member (sample_header ''./ART/SLUS_200.02_COV.png'' ''00000000003'' (CHR ''0'')) ''PNG'' (replicate 509 NUL))"
    by code_simp+
  then show ?thesis by (auto simp: sample_items_def)
qed

theorem tar_get_content_witness:
  "fst (tarGet sample_tar_env [''mass1:/ART/art.tar'' \<mapsto> concat (map item_bytes sample_items)] TAR_KIND_ART ''slus_200.02_cov.PNG'' tar_slot_init) =
     Some (Some ''PNG'')"
proof -
  let ?fs = "[''mass1:/ART/art.tar'' \<mapsto> concat (map item_bytes sample_items)]"
  let ?dev = "(''mass1:'', ''mass1:/'')"
  have env: "tar_delivers sample_tar_env" by (simp add: tar_delivers_def sample_tar_env_def)
  have len: "length (concat (map item_bytes sample_items)) < 2 ^ 64" by (simp add: sample_items_def sample_header_def TAR_BLOCK_SIZE_def)
  have devs: "gDevices = [(''mass0:'', ''mass0:/'')] @ ?dev # drop 2 gDevices" by (simp add: gDevices_def)
  have pre: "\<forall>d \<in> set [(''mass0:'', ''mass0:/'')]. ?fs (snd d @ relPath TAR_KIND_ART) = None" by simp
  have c: "cache_path TAR_KIND_ART (snd ?dev @ relPath TAR_KIND_ART) = ''mass1:/ART/art_cache.bin''" by code_simp
  have fl: "?fs (snd ?dev @ relPath TAR_KIND_ART) = Some (concat (map item_bytes sample_items))"
    "?fs (cache_path TAR_KIND_ART (snd ?dev @ relPath TAR_KIND_ART)) = None"
    unfolding c by simp_all
  have "members sample_items = [(sample_header ''./ART/SLUS_200.02_COV.png'' ''00000000003'' (CHR ''0''), ''PNG'')]"
  proof -
    have "\<not> is_served (sample_header ''./ART'' ''00000000000'' (CHR ''5'')) []" "is_served (sample_header ''./ART/SLUS_200.02_COV.png'' ''00000000003'' (CHR ''0'')) ''PNG''"
      by (simp_all add: is_served_def sample_header_def nth_append MAX_FILE_SIZE_def)
    then show ?thesis by (simp add: sample_items_def)
  qed
  moreover have "name_matches ''slus_200.02_cov.PNG'' (stored_name TAR_KIND_ART (sample_header ''./ART/SLUS_200.02_COV.png'' ''00000000003'' (CHR ''0'')))"
    by code_simp
  ultimately show ?thesis using tar_get_content [OF env sample_items_ok len devs pre fl, of "''slus_200.02_cov.PNG''"] by (simp add: fun_upd_def)
qed

theorem tar_cache_torn_witness:
  "let e = \<lparr>te_offset = 512, te_rawSize = 3, te_paddedSize = 512, te_name = ''A'' @ replicate 47 NUL\<rparr>;
       fs = [''t'' \<mapsto> ''tar''];
       whole = snd (tarWriteCache (sample_tar_env\<lparr>tv_write := \<lambda>_. Some 88\<rparr>) fs ''c'' ''t'' TAR_KIND_ART [e])
   in tarReadCache sample_tar_env whole ''c'' ''t'' TAR_KIND_ART = Some [e]"
proof -
  let ?e = "\<lparr>te_offset = 512, te_rawSize = 3, te_paddedSize = 512, te_name = ''A'' @ replicate 47 NUL\<rparr>"
  let ?fs = "[''t'' \<mapsto> ''tar'']" and ?env = "sample_tar_env\<lparr>tv_write := \<lambda>_. Some 88\<rparr>"
  let ?whole = "snd (tarWriteCache ?env ?fs ''c'' ''t'' TAR_KIND_ART [?e])"
  have ok: "\<forall>e \<in> set [?e]. entry_ok TAR_KIND_ART e \<and> unat (te_rawSize e) \<le> MAX_FILE_SIZE"
    by (simp add: entry_ok_def ENTRY_BASE_SIZE_def MAX_FILE_SIZE_def)
  have sz: "CACHE_HEADER_SIZE + entrySize TAR_KIND_ART * length [?e] < 2 ^ 31" by (simp add: CACHE_HEADER_SIZE_def)
  have len: "length ''tar'' < 2 ^ 64" by simp
  have st: "?fs ''t'' = Some ''tar''" "tv_stat ?env ''t''" "tv_write ?env ''c'' = Some 88" by (simp_all add: sample_tar_env_def)
  have t: "?whole ''t'' = Some ''tar''" using tarWriteCache_other [of "''t''" "''c''"] by simp
  have d: "tar_delivers sample_tar_env" by (simp add: tar_delivers_def sample_tar_env_def)
  from tar_cache_torn [of "[?e]" TAR_KIND_ART "''tar''" "''tar''" ?fs "''t''" ?env "''c''" 88 ?whole sample_tar_env, OF ok sz len len st refl t] d
  show ?thesis unfolding Let_def by (simp add: CACHE_HEADER_SIZE_def split: option.splits)
qed

section \<open>The slot over time\<close>

text \<open>A moment: what the system answers and which files there are when an operation runs.  An index is the
  index of an archive over a set of moments when in one of them it is what the cache file beside that archive
  gives, or what the headers of that archive give.\<close>

type_synonym moment = "tar_env \<times> tar_files"

definition index_of :: "moment set \<Rightarrow> TarKind \<Rightarrow> cstring \<Rightarrow> tar_entry list \<Rightarrow> bool" where
  "index_of W kind path index \<longleftrightarrow> (\<exists>(env, fs) \<in> W. tarReadCache env fs (cache_path kind path) path kind = Some index \<or>
     (\<exists>bytes cap. fs path = Some bytes \<and> header_loop env path bytes kind 0 [] 0 = Some (index, cap)))"

text \<open>The path matters: where no moment has a file at a path, no index belongs to it.\<close>

lemma index_of_no_file:
  "\<forall>(env, fs) \<in> W. fs path = None \<Longrightarrow> \<not> index_of W kind path index"
  by (fastforce simp: index_of_def tarReadCache_def split: option.splits if_splits)

lemma index_of_mono: "index_of W kind path index \<Longrightarrow> W \<subseteq> V \<Longrightarrow> index_of V kind path index"
  unfolding index_of_def by blast

text \<open>The operations, each at one of the moments \<open>W\<close>, in any order.  Paths of archives that are named directly
  are not empty and fit the array.\<close>

inductive tar_step :: "moment set \<Rightarrow> TarKind \<Rightarrow> tar_slot \<Rightarrow> tar_slot \<Rightarrow> bool" for W kind where
  load_file: "(env, fs) \<in> W \<Longrightarrow> tarLoadFile env fs kind path s = (r, s', fs') \<Longrightarrow> path \<noteq> [] \<Longrightarrow> length path < 256 \<Longrightarrow> tar_step W kind s s'"
| load_any: "(env, fs) \<in> W \<Longrightarrow> tarLoadFromAnyDevice env fs kind s = (r, s', fs') \<Longrightarrow> tar_step W kind s s'"
| ensure: "(env, fs) \<in> W \<Longrightarrow> tarEnsureLoaded env fs kind s = (r, s', fs') \<Longrightarrow> tar_step W kind s s'"
| find: "(env, fs) \<in> W \<Longrightarrow> tarFind env fs kind filename s = (e, s', fs') \<Longrightarrow> tar_step W kind s s'"
| find_prefix: "(env, fs) \<in> W \<Longrightarrow> tarFindPrefix env fs kind pfx s = (e, s', fs') \<Longrightarrow> tar_step W kind s s'"
| get: "(env, fs) \<in> W \<Longrightarrow> tarGet env fs kind filename s = (b, s', fs') \<Longrightarrow> tar_step W kind s s'"
| close: "tarClose s = (r, s') \<Longrightarrow> tar_step W kind s s'"
| invalidate: "tarInvalidate s = s' \<Longrightarrow> tar_step W kind s s'"

definition tar_inv :: "moment set \<Rightarrow> TarKind \<Rightarrow> tar_slot \<Rightarrow> bool" where
  "tar_inv W kind s \<longleftrightarrow> (\<forall>index. ts_index s = Some index \<longrightarrow> (\<exists>path. read_path kind s = Some path \<and> index_of W kind path index)) \<and>
     (ts_isExact s \<longrightarrow> ts_exactPath s \<noteq> [])"

lemma closed_slot [simp]: "ts_index (tarCloseInternal s) = None" "ts_isExact (tarCloseInternal s) = False" "ts_dev (tarCloseInternal s) = None"
  "ts_inactive (tarCloseInternal s) = ts_inactive s"
  by (simp_all add: tarCloseInternal_def)

lemma tar_inv_closed [simp]: "tar_inv W kind (tarCloseInternal s)" "tar_inv W kind ((tarCloseInternal s)\<lparr>ts_inactive := b\<rparr>)"
  by (simp_all add: tar_inv_def)

lemma index_ofI:
  "(env, fs) \<in> W \<Longrightarrow> tarReadCache env fs (cache_path kind path) path kind = Some index \<Longrightarrow> index_of W kind path index"
  "(env, fs) \<in> W \<Longrightarrow> fs path = Some bytes \<Longrightarrow> header_loop env path bytes kind 0 [] 0 = Some (index, cap) \<Longrightarrow> index_of W kind path index"
  unfolding index_of_def by blast+

lemma parse_result:
  assumes "tarParseFile env fs kind path s = (r, s', fs')" "(env, fs) \<in> W"
  shows "r = 0 \<and> (\<forall>index. ts_index s' = Some index \<longrightarrow> index_of W kind path index) \<or> r = -1 \<and> fs' = fs"
    "ts_dev s' = ts_dev s \<and> ts_inactive s' = ts_inactive s \<and> ts_isExact s' = ts_isExact s \<and> ts_exactPath s' = ts_exactPath s"
  using assms unfolding tarParseFile_def Let_def by (auto split: option.splits if_splits intro: index_ofI)

lemma load_file_inv:
  assumes "tar_inv W kind s" "tarLoadFile env fs kind path s = (r, s', fs')" "(env, fs) \<in> W" "path \<noteq> []" "length path < 256"
  shows "tar_inv W kind s'" "ts_inactive s' = ts_inactive s"
proof -
  obtain r2 s2 fs2 where p: "tarParseFile env fs kind path ((tarCloseInternal s)\<lparr>ts_isExact := True\<rparr>) = (r2, s2, fs2)" by (metis prod_cases3)
  note q = parse_result [OF p assms(3)]
  show "tar_inv W kind s'" using assms p q
    by (auto simp: tarLoadFile_def tar_inv_def read_path_def bounded_def split: if_splits)
  show "ts_inactive s' = ts_inactive s" using assms p q(2) by (auto simp: tarLoadFile_def split: if_splits)
qed

lemma load_devices_inv:
  assumes "load_devices env fs kind devs s = (found, s', fs')" "set devs \<subseteq> set gDevices" "ts_index s = None" "\<not> ts_isExact s" "\<not> ts_inactive s"
    and W: "(env, fs) \<in> W"
  shows "tar_inv W kind s' \<and> \<not> ts_isExact s' \<and> \<not> ts_inactive s' \<and> (\<not> found \<longrightarrow> ts_index s' = None)"
  using assms(1-5)
proof (induction devs arbitrary: s)
  case Nil
  then show ?case by (simp add: tar_inv_def)
next
  case (Cons dev devs)
  have path: "buildTarPath (Some dev) kind = Some (snd dev @ relPath kind)" using Cons.prems(2) by (intro device_path) simp
  obtain r2 s2 fs2 where p: "tarParseFile env fs kind (snd dev @ relPath kind) (s\<lparr>ts_dev := Some dev\<rparr>) = (r2, s2, fs2)" by (metis prod_cases3)
  note q = parse_result [OF p W]
  have slot: "ts_dev s2 = Some dev" "\<not> ts_isExact s2" "\<not> ts_inactive s2" using q(2) Cons.prems(4,5) by simp_all
  consider (none) "fs (snd dev @ relPath kind) = None" | (fail) "fs (snd dev @ relPath kind) \<noteq> None" "r2 \<noteq> 0" | (hit) "fs (snd dev @ relPath kind) \<noteq> None" "r2 = 0" by blast
  then show ?case
  proof cases
    case none
    then have step: "load_devices env fs kind (dev # devs) s = load_devices env fs kind devs s" using path by simp
    show ?thesis by (rule Cons.IH [OF Cons.prems(1) [unfolded step]]) (use Cons.prems in simp_all)
  next
    case fail
    have step: "load_devices env fs kind (dev # devs) s = load_devices env fs kind devs (tarCloseInternal s2)" using path p fail q(1) by auto
    show ?thesis by (rule Cons.IH [OF Cons.prems(1) [unfolded step]]) (use Cons.prems(2) slot(3) in simp_all)
  next
    case hit
    then have "found \<and> s' = s2" using Cons.prems(1) path p by auto
    then show ?thesis using slot path q(1) hit by (auto simp: tar_inv_def read_path_def)
  qed
qed

lemma load_any_inv:
  assumes "tar_inv W kind s" "tarLoadFromAnyDevice env fs kind s = (r, s', fs')" "(env, fs) \<in> W"
  shows "tar_inv W kind s'" "\<not> ts_isExact s'" "r = 0 \<longrightarrow> \<not> ts_inactive s'" "ts_inactive s \<longrightarrow> ts_inactive s' \<and> r = -1 \<and> fs' = fs"
proof -
  define s1 where "s1 = (if ts_isExact s then tarCloseInternal s else s)"
  define s2 where "s2 = (if ts_index s1 \<noteq> None \<and> ts_dev s1 \<noteq> None then tarCloseInternal s1 else s1)"
  have s1: "tar_inv W kind s1" "\<not> ts_isExact s1" "ts_inactive s1 = ts_inactive s" using assms(1) by (simp_all add: s1_def)
  have s2: "ts_index s2 = None" "\<not> ts_isExact s2" "ts_inactive s2 = ts_inactive s" if "\<not> ts_inactive s"
    using s1 that by (cases "ts_index s1"; cases "ts_dev s1"; simp add: s2_def tar_inv_def read_path_def buildTarPath_def)+
  obtain found s3 fs3 where l: "load_devices env fs kind gDevices s2 = (found, s3, fs3)" by (metis prod_cases3)
  have "tarLoadFromAnyDevice env fs kind s = (if ts_inactive s1 then (-1, s1, fs)
      else if ts_index s1 \<noteq> None \<and> ts_dev s1 \<noteq> None \<and> (\<exists>p \<in> set_option (buildTarPath (ts_dev s1) kind). fs p \<noteq> None) then (0, s1, fs)
      else if found then (0, s3, fs3) else (-1, s3\<lparr>ts_inactive := True\<rparr>, fs3))"
    unfolding tarLoadFromAnyDevice_def Let_def s1_def [symmetric] s2_def [symmetric] l by simp
  note r = this [unfolded assms(2)]
  have l3: "tar_inv W kind s3 \<and> \<not> ts_isExact s3 \<and> \<not> ts_inactive s3 \<and> (\<not> found \<longrightarrow> ts_index s3 = None)" if "\<not> ts_inactive s"
    by (rule load_devices_inv [OF l]) (use s2 [OF that] that assms(3) in simp_all)
  show "tar_inv W kind s'" using r s1 l3 by (auto simp: tar_inv_def split: if_splits)
  show "\<not> ts_isExact s'" "r = 0 \<longrightarrow> \<not> ts_inactive s'" "ts_inactive s \<longrightarrow> ts_inactive s' \<and> r = -1 \<and> fs' = fs"
    using r s1 l3 by (auto split: if_splits)
qed

lemma find_generic_inv:
  assumes "tar_inv W kind s" "find_generic P env fs kind s = (e, s', fs')" "(env, fs) \<in> W"
  shows "tar_inv W kind s'" "\<not> ts_isExact s'" "ts_inactive s \<longrightarrow> ts_inactive s' \<and> e = Some None \<and> fs' = fs"
    "e = Some (Some x) \<longrightarrow> \<not> ts_inactive s' \<and> (\<exists>index. ts_index s' = Some index \<and> x \<in> set index)"
proof -
  define s1 where "s1 = (if ts_isExact s then tarCloseInternal s else s)"
  have s1: "tar_inv W kind s1" "\<not> ts_isExact s1" "ts_inactive s1 = ts_inactive s" using assms(1) by (simp_all add: s1_def)
  obtain r s2 fs2 where l: "(if ts_index s1 = None \<or> ts_count s1 = 0 then tarLoadFromAnyDevice env fs kind s1 else (0, s1, fs)) = (r, s2, fs2)" by (metis prod_cases3)
  have s2: "tar_inv W kind s2 \<and> \<not> ts_isExact s2 \<and> (0 \<le> r \<longrightarrow> \<not> ts_inactive s2)" if "\<not> ts_inactive s1"
  proof (cases "ts_index s1 = None \<or> ts_count s1 = 0")
    case True
    then have l': "tarLoadFromAnyDevice env fs kind s1 = (r, s2, fs2)" using l by simp
    have "r = 0 \<or> r = -1" using l' by (auto simp: tarLoadFromAnyDevice_def Let_def split: if_splits prod.splits)
    then show ?thesis using load_any_inv [OF s1(1) l' assms(3)] by auto
  qed (use l s1 that in auto)
  have "find_generic P env fs kind s = (if ts_inactive s1 then (Some None, s1, fs) else if r < 0 then (Some None, s2, fs2)
      else (case ts_index s2 of None \<Rightarrow> Some None | Some index \<Rightarrow> find_loop P index, s2, fs2))"
    unfolding find_generic_def Let_def s1_def [symmetric] l by simp
  note r = this [unfolded assms(2)]
  have mem: "find_loop P es = Some (Some x) \<Longrightarrow> x \<in> set es" for es by (induction es) (auto split: option.splits if_splits)
  show "tar_inv W kind s'" "\<not> ts_isExact s'" "ts_inactive s \<longrightarrow> ts_inactive s' \<and> e = Some None \<and> fs' = fs"
    "e = Some (Some x) \<longrightarrow> \<not> ts_inactive s' \<and> (\<exists>index. ts_index s' = Some index \<and> x \<in> set index)"
    using r s1 s2 mem by (auto split: if_splits option.splits)
qed

lemma get_slot:
  "tarGet env fs kind filename s = (b, s', fs') \<Longrightarrow> s' = s \<or> (\<exists>e. tarFind env fs kind filename s = (e, s', fs'))"
  by (auto simp: tarGet_def split: if_splits prod.splits option.splits)

lemma tar_step_inv:
  assumes "tar_step W kind s s'" "tar_inv W kind s"
  shows "tar_inv W kind s'"
  using assms
proof cases
  case (ensure env fs r fs')
  then show ?thesis using assms(2) load_any_inv(1) by (auto simp: tarEnsureLoaded_def split: if_splits)
next
  case (get env fs filename b fs')
  then show ?thesis using assms(2) get_slot find_generic_inv(1) unfolding tarFind_def by metis
next
  case (close r)
  then show ?thesis by (auto simp: tarClose_def)
next
  case invalidate
  then show ?thesis by (auto simp: tarInvalidate_def)
next
  case (load_file env fs path r fs')
  then show ?thesis using load_file_inv(1) [OF assms(2)] by blast
next
  case (load_any env fs r fs')
  then show ?thesis using load_any_inv(1) [OF assms(2)] by blast
next
  case (find env fs filename e fs')
  then show ?thesis using find_generic_inv(1) [OF assms(2)] unfolding tarFind_def by blast
next
  case (find_prefix env fs pfx e fs')
  then show ?thesis using find_generic_inv(1) [OF assms(2)] unfolding tarFindPrefix_def by blast
qed

lemma tar_step_latch:
  assumes "tar_step W kind s s'" "tar_inv W kind s" "ts_inactive s" "\<not> ts_inactive s'"
  shows "s' = tarInvalidate s"
  using assms
proof cases
  case (ensure env fs r fs')
  then show ?thesis using assms(3,4) by (auto simp: tarEnsureLoaded_def)
next
  case (get env fs filename b fs')
  then show ?thesis using assms(3,4) by (auto simp: tarGet_def)
next
  case (close r)
  then show ?thesis by (auto simp: tarClose_def tarInvalidate_def)
next
  case (load_file env fs path r fs')
  then show ?thesis using load_file_inv(2) [OF assms(2)] assms(3,4) by blast
next
  case (load_any env fs r fs')
  then show ?thesis using load_any_inv(4) [OF assms(2)] assms(3,4) by blast
next
  case (find env fs filename e fs')
  then show ?thesis using find_generic_inv(3) [OF assms(2)] assms(3,4) unfolding tarFind_def by blast
next
  case (find_prefix env fs pfx e fs')
  then show ?thesis using find_generic_inv(3) [OF assms(2)] assms(3,4) unfolding tarFindPrefix_def by blast
next
  case invalidate
  then show ?thesis by simp
qed

definition parse_ext :: "tar_env \<Rightarrow> TarKind \<Rightarrow> tar_entry list \<Rightarrow> tar_entry list \<Rightarrow> bool" where
  "parse_ext env kind index index1 \<longleftrightarrow>
     index1 = index \<or> (\<exists>off raw header. index1 = index @ [header_entry env kind off raw (padded raw) header] \<and> raw \<le> MAX_FILE_SIZE)"

lemma parse_ext_intros [simp]:
  "parse_ext env kind index index"
  "raw \<le> MAX_FILE_SIZE \<Longrightarrow> parse_ext env kind index (index @ [header_entry env kind off raw (padded raw) header])"
  unfolding parse_ext_def by blast+

definition parse_stepped :: "tar_env \<Rightarrow> cstring \<Rightarrow> char list \<Rightarrow> TarKind \<Rightarrow> nat \<Rightarrow> tar_entry list \<Rightarrow> nat \<Rightarrow> (tar_entry list \<times> nat) option \<Rightarrow> bool" where
  "parse_stepped env path bytes kind pos index cap r \<longleftrightarrow> r = None \<or> r = Some (index, cap) \<or>
     (\<exists>pos' index1 cap1. pos < pos' \<and> pos < length bytes \<and> r = header_loop env path bytes kind pos' index1 cap1 \<and> parse_ext env kind index index1)"

lemma header_loop_step: "parse_stepped env path bytes kind pos index cap (header_loop env path bytes kind pos index cap)"
proof (cases "rd env path bytes pos TAR_BLOCK_SIZE")
  case (Some block)
  have no [simp]: "parse_stepped env path bytes kind pos index cap None" by (simp add: parse_stepped_def)
  show ?thesis
  proof (cases block)
    case (Cons c cs)
    have pos: "pos < length bytes" using rd_nonempty Some Cons by blast
    have go [simp]: "parse_stepped env path bytes kind pos index cap (header_loop env path bytes kind (pos + TAR_BLOCK_SIZE + k) index1 cap1)"
      if "parse_ext env kind index index1" for k index1 cap1
    proof -
      have "pos < pos + TAR_BLOCK_SIZE + k" by (simp add: TAR_BLOCK_SIZE_def)
      then show ?thesis using pos that unfolding parse_stepped_def by blast
    qed
    note go [of index 0, unfolded add_0_right, simp]
    show ?thesis by (subst header_loop.simps) (simp add: Some Cons Let_def not_less del: length_Cons)
  qed (subst header_loop.simps, simp add: Some parse_stepped_def)
qed (subst header_loop.simps, simp add: parse_stepped_def)

lemma header_loop_sizes:
  assumes "header_loop env path bytes kind pos index cap = Some (index', cap')" "\<forall>e \<in> set index. unat (te_rawSize e) \<le> MAX_FILE_SIZE"
  shows "\<forall>e \<in> set index'. unat (te_rawSize e) \<le> MAX_FILE_SIZE"
  using assms
proof (induction "length bytes - pos" arbitrary: pos index cap rule: less_induct)
  case less
  have small: "unat (te_rawSize (header_entry env kind off n p header)) \<le> MAX_FILE_SIZE" if "n \<le> MAX_FILE_SIZE" for n off p header
    using that by (simp add: header_entry_def MAX_FILE_SIZE_def unat_of_nat take_bit_nat_eq_self)
  consider "index' = index" | pos' index1 cap1 where "pos < pos'" "pos < length bytes" "header_loop env path bytes kind pos' index1 cap1 = Some (index', cap')"
      "parse_ext env kind index index1"
    using header_loop_step [of env path bytes kind pos index cap] less.prems(1) unfolding parse_stepped_def by auto
  then show ?case
  proof cases
    case 2
    have "\<forall>e \<in> set index1. unat (te_rawSize e) \<le> MAX_FILE_SIZE" using 2(4) less.prems(2) small by (auto simp: parse_ext_def)
    moreover have "length bytes - pos' < length bytes - pos" using 2(1,2) by linarith
    ultimately show ?thesis using less.hyps 2(3) by blast
  qed (use less.prems(2) in simp)
qed

lemma index_of_sizes:
  assumes "index_of W kind path index"
  shows "\<forall>e \<in> set index. unat (te_rawSize e) \<le> MAX_FILE_SIZE"
proof -
  obtain env fs where "tarReadCache env fs (cache_path kind path) path kind = Some index \<or>
     (\<exists>bytes cap. fs path = Some bytes \<and> header_loop env path bytes kind 0 [] 0 = Some (index, cap))"
    using assms unfolding index_of_def by blast
  then show ?thesis
  proof
    assume "tarReadCache env fs (cache_path kind path) path kind = Some index"
    then obtain tarSize buf where "cache_entries env kind tarSize buf = Some index"
      by (auto simp: tarReadCache_def split: option.splits if_splits)
    then show ?thesis by (rule cache_entries_Some(4))
  next
    assume "\<exists>bytes cap. fs path = Some bytes \<and> header_loop env path bytes kind 0 [] 0 = Some (index, cap)"
    then show ?thesis using header_loop_sizes by fastforce
  qed
qed

text \<open>C12. Operations run at any of the moments \<open>W\<close> (the answers of the system and the files, which may change
  between operations), in any order.  In every state they can reach: an index in memory is, for one of these
  moments, what the cache file or the headers of the very archive give that reading a member opens, and no entry
  is larger than 4 MiB; a look-up that finds an entry leaves the slot so that the archive with this entry is
  opened; once no archive was found on any device, look-ups answer NULL without touching a device, until the slot
  is closed or invalidated.  Paths of archives that are named directly are not empty and shorter than 256 bytes.\<close>

theorem tar_slot_invariant:
  assumes "(tar_step W kind)\<^sup>*\<^sup>* tar_slot_init s"
  shows "(\<forall>index. ts_index s = Some index \<longrightarrow>
      (\<exists>path. read_path kind s = Some path \<and> index_of W kind path index) \<and> (\<forall>e \<in> set index. unat (te_rawSize e) \<le> MAX_FILE_SIZE)) \<and>
    (\<forall>env fs filename e s' fs'. tarFind env fs kind filename s = (Some (Some e), s', fs') \<longrightarrow>
      (\<exists>path index. read_path kind s' = Some path \<and> index_of (insert (env, fs) W) kind path index \<and> e \<in> set index)) \<and>
    (ts_inactive s \<longrightarrow> (\<forall>env fs filename. \<exists>s'. tarFind env fs kind filename s = (Some None, s', fs)) \<and>
      (\<forall>s'. tar_step W kind s s' \<longrightarrow> ts_inactive s' \<or> s' = tarInvalidate s))"
proof -
  have inv: "tar_inv W kind s"
    using assms
  proof (induction rule: rtranclp_induct)
    case base
    show ?case by (simp add: tar_inv_def tar_slot_init_def)
  qed (rule tar_step_inv)
  have more: "tar_inv (insert m W) kind s" for m using inv index_of_mono [OF _ subset_insertI] unfolding tar_inv_def by blast
  have "\<exists>path index. read_path kind s' = Some path \<and> index_of (insert (env, fs) W) kind path index \<and> e \<in> set index"
    if "tarFind env fs kind filename s = (Some (Some e), s', fs')" for env fs filename e s' fs'
    using find_generic_inv(1,4) [OF more that [unfolded tarFind_def] insertI1] unfolding tar_inv_def by blast
  moreover have "\<exists>s'. tarFind env fs kind filename s = (Some None, s', fs)" if "ts_inactive s" for env fs filename
  proof -
    obtain e s' fs' where f: "tarFind env fs kind filename s = (e, s', fs')" by (metis prod_cases3)
    then show ?thesis using find_generic_inv(3) [OF more f [unfolded tarFind_def] insertI1] that by blast
  qed
  moreover have "ts_inactive s' \<or> s' = tarInvalidate s" if "ts_inactive s" "tar_step W kind s s'" for s'
    using tar_step_latch [OF that(2) inv that(1)] by blast
  ultimately show ?thesis using inv index_of_sizes unfolding tar_inv_def by blast
qed

text \<open>At a moment with one archive, on the second device, the slot loads it and the index belongs to that path and,
  as no file is there, to no path of the first device.\<close>

theorem tar_slot_invariant_witness:
  "let W = {(sample_tar_env, [''mass1:/ART/art.tar'' \<mapsto> concat (map item_bytes sample_items)])} in
   \<exists>s index. (tar_step W TAR_KIND_ART)\<^sup>*\<^sup>* tar_slot_init s \<and> ts_index s = Some index \<and>
     read_path TAR_KIND_ART s = Some ''mass1:/ART/art.tar'' \<and> index_of W TAR_KIND_ART ''mass1:/ART/art.tar'' index \<and>
     \<not> index_of W TAR_KIND_ART ''mass0:/ART/art.tar'' index"
proof -
  let ?fs = "[''mass1:/ART/art.tar'' \<mapsto> concat (map item_bytes sample_items)]" and ?dev = "(''mass1:'', ''mass1:/'')"
  let ?W = "{(sample_tar_env, ?fs)}" and ?p = "''mass1:/ART/art.tar''"
  have path: "snd ?dev @ relPath TAR_KIND_ART = ?p" by simp
  have env: "tar_delivers sample_tar_env" by (simp add: tar_delivers_def sample_tar_env_def)
  have "cache_path TAR_KIND_ART ?p = ''mass1:/ART/art_cache.bin''" by code_simp
  then have c: "?fs (cache_path TAR_KIND_ART ?p) = None" by simp
  obtain cap fs' where parse: "tarParseFile sample_tar_env ?fs TAR_KIND_ART ?p (tar_slot_init\<lparr>ts_dev := Some ?dev\<rparr>) =
      (0, tar_slot_init\<lparr>ts_dev := Some ?dev, ts_index := (if served sample_tar_env TAR_KIND_ART 0 sample_items = [] then None
        else Some (map fst (served sample_tar_env TAR_KIND_ART 0 sample_items))), ts_cap := cap\<rparr>, fs')"
    using parse_archive [OF env sample_items_ok, of ?fs ?p TAR_KIND_ART "tar_slot_init\<lparr>ts_dev := Some ?dev\<rparr>"] c by auto
  have "is_served (sample_header ''./ART/SLUS_200.02_COV.png'' ''00000000003'' (CHR ''0'')) ''PNG''"
    by (simp add: is_served_def sample_header_def nth_append MAX_FILE_SIZE_def)
  then have some: "served sample_tar_env TAR_KIND_ART 0 sample_items \<noteq> []" by (simp add: sample_items_def Let_def)
  define index where "index = map fst (served sample_tar_env TAR_KIND_ART 0 sample_items)"
  define s where "s = tar_slot_init\<lparr>ts_dev := Some ?dev, ts_index := Some index, ts_cap := cap\<rparr>"
  have s: "ts_index s = Some index" "ts_dev s = Some ?dev" "\<not> ts_isExact s" "\<not> ts_inactive s"
    "tarParseFile sample_tar_env ?fs TAR_KIND_ART ?p (tar_slot_init\<lparr>ts_dev := Some ?dev\<rparr>) = (0, s, fs')"
    using parse some by (simp_all add: s_def index_def tar_slot_init_def)
  have "load_devices sample_tar_env ?fs TAR_KIND_ART ([(''mass0:'', ''mass0:/'')] @ ?dev # drop 2 gDevices) tar_slot_init = (True, s, fs')"
    using s(5) by (intro load_devices_first) (simp_all add: device_path gDevices_def)
  then have "load_devices sample_tar_env ?fs TAR_KIND_ART gDevices tar_slot_init = (True, s, fs')" by (simp add: gDevices_def)
  then have "tarLoadFromAnyDevice sample_tar_env ?fs TAR_KIND_ART tar_slot_init = (0, s, fs')"
    by (simp add: tarLoadFromAnyDevice_def tar_slot_init_def Let_def)
  then have run: "(tar_step ?W TAR_KIND_ART)\<^sup>*\<^sup>* tar_slot_init s" by (blast intro: tar_step.load_any)
  have rp: "read_path TAR_KIND_ART s = Some ?p" using s(2-4) device_path [of ?dev TAR_KIND_ART] by (simp add: read_path_def gDevices_def)
  have "index_of ?W TAR_KIND_ART ?p index" using tar_slot_invariant [OF run] s(1) rp by auto
  moreover have "\<not> index_of ?W TAR_KIND_ART ''mass0:/ART/art.tar'' index" by (rule index_of_no_file) simp
  ultimately show ?thesis using run s(1) rp unfolding Let_def by blast
qed

section \<open>Names without a terminator\<close>

text \<open>The cache check covers sizes and counts but not the names: a cache whose last name has no NUL is
  accepted, and a search that reaches it reads past the index.\<close>

lemma tar_cache_overread:
  assumes "tar_delivers env" "fs tarPath = Some tar" "entry_ok kind e" "NUL \<notin> set (te_name e)" "unat (te_rawSize e) \<le> MAX_FILE_SIZE"
    and "fs cachePath = Some (cache_header env0 (length tar) 1 @ entry_bytes e)"
  shows "tarReadCache env fs cachePath tarPath kind = Some [e]" "find_loop P [e] = None"
proof -
  have len: "length (entry_bytes e) = entrySize kind" by (rule tar_layout.enc_length [OF assms(3)])
  moreover have "entrySize kind \<le> 64" by (cases kind) simp_all
  ultimately have sz: "length (cache_header env0 (length tar) 1 @ entry_bytes e) < 2 ^ 31" "CACHE_HEADER_SIZE + entrySize kind * length [e] < 2 ^ 31"
    by (simp_all add: CACHE_HEADER_SIZE_def)
  have "cache_entries env kind (length tar) (cache_header env0 (length tar) (length [e]) @ concat (map entry_bytes [e])) = Some [e]"
    using assms(1,3,5) by (intro cache_entries_whole [OF _ sz(2)]) simp_all
  moreover have "cache_buf env fs cachePath = Some (cache_header env0 (length tar) 1 @ entry_bytes e)"
    using cache_buf_delivers [of env fs cachePath, OF assms(1,6) sz(1)] by simp
  moreover have "tv_stat env tarPath" using assms(1) by (simp add: tar_delivers_def)
  ultimately show "tarReadCache env fs cachePath tarPath kind = Some [e]"
    using assms(2) cache_header_fields(1,2) [of env0 "length tar" 1 "entry_bytes e"] by (simp only: tarReadCache_def option.case if_False simp_thms) simp
  show "find_loop P [e] = None" using assms(4) by (simp add: entry_name_def)
qed

text \<open>The size of a member does not wrap.\<close>

lemma octal_loop_bound: "octal_loop val cs < (val + 1) * 8 ^ length cs"
proof (induction cs arbitrary: val)
  case (Cons c cs)
  let ?v = "8 * val + (char_code c - 48)"
  have "octal_loop ?v cs < (val + 1) * 8 ^ length (c # cs)" if "char_code c \<le> 55"
  proof -
    have "octal_loop ?v cs < (?v + 1) * 8 ^ length cs" by (rule Cons)
    also have "\<dots> \<le> (8 * val + 8) * 8 ^ length cs" using that by (intro mult_le_mono1) simp
    also have "\<dots> = (val + 1) * 8 ^ length (c # cs)" by (simp add: algebra_simps)
    finally show ?thesis .
  qed
  moreover have "val < (val + 1) * 8 ^ length (c # cs)"
  proof -
    have "(val + 1) * 1 \<le> (val + 1) * 8 ^ length (c # cs)" by (intro mult_le_mono2) simp
    then show ?thesis by simp
  qed
  ultimately show ?case unfolding octal_loop.simps by presburger
qed simp

lemma parseOctal_bound: "parseOctal s 12 < 2 ^ 36"
proof -
  have "octal_loop 0 (take 12 s) < 8 ^ length (take 12 s)" using octal_loop_bound [of 0 "take 12 s"] by simp
  also have "\<dots> \<le> 8 ^ 12" by (intro power_increasing) simp_all
  finally show ?thesis by (simp add: parseOctal_def)
qed

end
