(* ===== verification/Favourites.thy ===== *)
theory Favourites
  imports LibView ByteLayout "HOL-Library.Monad_Syntax"
begin

text \<open>
  Favourites (\<^verbatim>\<open>src/favsupport.c\<close>): the file \<^verbatim>\<open>favourites.bin\<close> with its versions and the import of a foreign
  format, adding and removing, finding the source item of a stored favourite, and the list the tab shows.

  The file is its bytes, or \<open>None\<close> when it cannot be opened; a read that comes short fails.  A record list
  stands for the heap array and its count; the empty list is \<^verbatim>\<open>NULL\<close>, which the code never keeps apart
  from it.  The 32-bit fields that are only stored and compared are words.  The record \<open>fav_env\<close> says
  which allocations succeed and how many bytes of a write are stored.  The stars on the source pages are
  not modelled.
\<close>

section \<open>Records\<close>

definition FAV_TEXT_MAX :: nat where "FAV_TEXT_MAX = 256"
definition FAV_MAX_ITEMS :: nat where "FAV_MAX_ITEMS = 512"
definition FAV_MAGIC :: u32 where "FAV_MAGIC = 0x4641464F"
definition FAV_VERSION :: nat where "FAV_VERSION = 3"
definition WOPL_FAV_STRUCT_SIZE :: nat where "WOPL_FAV_STRUCT_SIZE = 32"

definition FAV_KIND_ISO :: int where "FAV_KIND_ISO = 0"
definition FAV_KIND_VCD :: int where "FAV_KIND_VCD = 1"
definition FAV_KIND_CUE :: int where "FAV_KIND_CUE = 2"
definition FAV_KIND_ELF :: int where "FAV_KIND_ELF = 3"

lemmas fav_consts = FAV_TEXT_MAX_def FAV_MAX_ITEMS_def FAV_VERSION_def WOPL_FAV_STRUCT_SIZE_def
lemmas fav_kinds = FAV_KIND_ISO_def FAV_KIND_VCD_def FAV_KIND_CUE_def FAV_KIND_ELF_def

record fav_raw =
  fr_mode :: int
  fr_id :: u32
  fr_icon_id :: u32
  fr_text_id :: u32
  fr_kind :: int
  fr_text :: cstring

definition CONFIG_OPL_FILENAME :: cstring where "CONFIG_OPL_FILENAME = ''settings_riptopl.cfg''"

text \<open>The path beside the master configuration; \<open>fn\<close> is the file name of its set, when it has one.\<close>

definition favGetFilePath :: "cstring option \<Rightarrow> nat \<Rightarrow> cstring" where
  "favGetFilePath fn outSize =
     (let fn = (case fn of Some f \<Rightarrow> f | None \<Rightarrow> ''mc0:OPL/'' @ CONFIG_OPL_FILENAME); blen = length CONFIG_OPL_FILENAME in
      if blen \<le> length fn \<and> drop (length fn - blen) fn = CONFIG_OPL_FILENAME
      then bounded outSize (bounded outSize (take (length fn - blen) fn) @ ''favourites.bin'')
      else bounded outSize ''mc0:OPL/favourites.bin'')"

section \<open>Reading\<close>

text \<open>A descriptor is the bytes still to be read.\<close>

definition rdBytes :: "nat \<Rightarrow> char list \<Rightarrow> (char list \<times> char list) option" where
  "rdBytes n fd = (if n \<le> length fd then Some (take n fd, drop n fd) else None)"

definition rdU16 :: "char list \<Rightarrow> (u16 \<times> char list) option" where
  "rdU16 fd = map_option (\<lambda>(b, r). (of_le16 b, r)) (rdBytes 2 fd)"

definition rdU32 :: "char list \<Rightarrow> (u32 \<times> char list) option" where
  "rdU32 fd = map_option (\<lambda>(b, r). (of_le32 b, r)) (rdBytes 4 fd)"

text \<open>The modes of the foreign builds.\<close>

definition favMapWoplMode :: "int \<Rightarrow> int" where
  "favMapWoplMode m =
     (if m = 5 then ETH_MODE else if m = 6 then HDD_MODE else if m = 7 then APP_MODE else if m = 8 then FAV_MODE
      else if m = 9 then MMCE_MODE else m)"

text \<open>The text of a record: its length counts the NUL, which is forced.\<close>

definition rd_text :: "nat \<Rightarrow> char list \<Rightarrow> (cstring \<times> char list) option" where
  "rd_text tlen fd =
     (if tlen = 0 \<or> FAV_TEXT_MAX < tlen then None else map_option (\<lambda>(b, r). (cstr (take (tlen - 1) b), r)) (rdBytes tlen fd))"

definition wopl_record :: "char list \<Rightarrow> (fav_raw \<times> char list) option" where
  "wopl_record fd = do {
     (st, fd) \<leftarrow> rdBytes WOPL_FAV_STRUCT_SIZE fd;
     (tlen, fd) \<leftarrow> rdU32 fd;
     (txt, fd) \<leftarrow> rd_text (unat tlen) fd;
     (mode, fd) \<leftarrow> rdU16 fd;
     Some (\<lparr>fr_mode = favMapWoplMode (sint mode), fr_id = of_le32 (drop 12 st), fr_icon_id = of_le32 st,
            fr_text_id = of_le32 (drop 8 st), fr_kind = FAV_KIND_ISO, fr_text = txt\<rparr>, fd)}"

text \<open>Records until one fails, at most \<open>n\<close>.\<close>

fun read_records :: "(char list \<Rightarrow> (fav_raw \<times> char list) option) \<Rightarrow> nat \<Rightarrow> char list \<Rightarrow> fav_raw list" where
  "read_records rec 0 fd = []"
| "read_records rec (Suc n) fd = (case rec fd of None \<Rightarrow> [] | Some (r, fd') \<Rightarrow> r # read_records rec n fd')"

definition favReadWoplFile :: "bool \<Rightarrow> char list \<Rightarrow> fav_raw list" where
  "favReadWoplFile mem fd = (if mem then read_records wopl_record FAV_MAX_ITEMS fd else [])"

text \<open>The kind of a record of each version.\<close>

definition record_kind :: "nat \<Rightarrow> nat \<Rightarrow> int \<Rightarrow> int" where
  "record_kind ver kindByte mode =
     (if 3 \<le> ver then if int kindByte \<le> FAV_KIND_ELF then int kindByte else FAV_KIND_ISO
      else if kindByte \<noteq> 0 then FAV_KIND_VCD
      else if mode = APP_MODE then FAV_KIND_ELF else FAV_KIND_ISO)"

definition fav_record :: "nat \<Rightarrow> char list \<Rightarrow> (fav_raw \<times> char list) option" where
  "fav_record ver fd = do {
     (mode, fd) \<leftarrow> rdU16 fd;
     (i, fd) \<leftarrow> rdU32 fd;
     (icon, fd) \<leftarrow> rdU32 fd;
     (tid, fd) \<leftarrow> rdU32 fd;
     (kb, fd) \<leftarrow> if 2 \<le> ver then rdBytes 1 fd else Some ([NUL], fd);
     (tlen, fd) \<leftarrow> rdU16 fd;
     (txt, fd) \<leftarrow> rd_text (unat tlen) fd;
     Some (\<lparr>fr_mode = int (unat mode), fr_id = i, fr_icon_id = icon, fr_text_id = tid,
            fr_kind = record_kind ver (of_char (kb ! 0)) (int (unat mode)), fr_text = txt\<rparr>, fd)}"

definition rd_header :: "char list \<Rightarrow> (u32 \<times> nat \<times> nat \<times> char list) option" where
  "rd_header fd = do {
     (magic, fd) \<leftarrow> rdU32 fd;
     (ver, fd) \<leftarrow> rdU16 fd;
     (cnt, fd) \<leftarrow> rdU16 fd;
     Some (magic, unat ver, unat cnt, fd)}"

definition favReadFile :: "bool \<Rightarrow> char list option \<Rightarrow> fav_raw list" where
  "favReadFile mem fl = (case fl of
     None \<Rightarrow> []
   | Some bytes \<Rightarrow>
       (case rd_header bytes of
          None \<Rightarrow> favReadWoplFile mem bytes
        | Some (magic, ver, cnt, fd) \<Rightarrow>
            if magic \<noteq> FAV_MAGIC then favReadWoplFile mem bytes
            else if ver < 1 \<or> FAV_VERSION < ver then []
            else if mem then read_records (fav_record ver) (min cnt FAV_MAX_ITEMS) fd else []))"

section \<open>Writing\<close>

definition record_image :: "fav_raw \<Rightarrow> char list" where
  "record_image r =
     (let tlen = min (length (fr_text r) + 1) FAV_TEXT_MAX in
      le16 (of_int (fr_mode r)) @ le32 (fr_id r) @ le32 (fr_icon_id r) @ le32 (fr_text_id r) @ [byte_char (of_int (fr_kind r))] @
      le16 (of_nat tlen) @ take (tlen - 1) (fr_text r) @ [NUL])"

definition fav_image :: "fav_raw list \<Rightarrow> char list" where
  "fav_image recs = le32 FAV_MAGIC @ le16 (of_nat FAV_VERSION) @ le16 (of_nat (length recs)) @ concat (map record_image recs)"

record fav_env =
  fv_read_mem :: bool
  fv_out_mem :: bool
  fv_image_mem :: bool
  fv_write :: "nat option"

text \<open>The result and the file afterwards; opening for writing empties it.\<close>

definition favWriteFile :: "fav_env \<Rightarrow> fav_raw list \<Rightarrow> char list option \<Rightarrow> int \<times> char list option" where
  "favWriteFile env recs fl =
     (let img = fav_image (take FAV_MAX_ITEMS recs) in
      if \<not> fv_image_mem env then (0, fl)
      else (case fv_write env of None \<Rightarrow> (0, fl) | Some n \<Rightarrow> (if n < length img then 0 else 1, Some (take n img))))"

section \<open>Identity, adding and removing\<close>

definition favModesMatch :: "int \<Rightarrow> int \<Rightarrow> bool" where
  "favModesMatch a b \<longleftrightarrow> (0 \<le> a \<and> a \<le> BDM_MODE_LAST) \<and> (0 \<le> b \<and> b \<le> BDM_MODE_LAST) \<or> a = b"

definition favIdsMatchForMode :: "int \<Rightarrow> u32 \<Rightarrow> u32 \<Rightarrow> bool" where
  "favIdsMatchForMode mode recId liveId \<longleftrightarrow> mode = APP_MODE \<or> recId = liveId"

definition is_fav :: "int \<Rightarrow> u32 \<Rightarrow> cstring \<Rightarrow> int \<Rightarrow> fav_raw \<Rightarrow> bool" where
  "is_fav mode i txt kind r \<longleftrightarrow>
     favModesMatch (fr_mode r) mode \<and> favIdsMatchForMode mode (fr_id r) i \<and> fr_kind r = kind \<and> fr_text r = txt"

definition addFavouriteItem :: "fav_env \<Rightarrow> int \<Rightarrow> u32 \<Rightarrow> u32 \<Rightarrow> u32 \<Rightarrow> cstring option \<Rightarrow> int \<Rightarrow> char list option \<Rightarrow> int \<times> char list option" where
  "addFavouriteItem env mode i icon_id text_id txt kind fl = (case txt of
     None \<Rightarrow> (0, fl)
   | Some t \<Rightarrow>
       if t = [] then (0, fl)
       else
         let recs = favReadFile (fv_read_mem env) fl in
         if \<exists>r \<in> set recs. is_fav mode i t kind r then (1, fl)
         else if FAV_MAX_ITEMS < length recs + 1 \<or> \<not> fv_out_mem env then (0, fl)
         else favWriteFile env (recs @ [\<lparr>fr_mode = mode, fr_id = i, fr_icon_id = icon_id, fr_text_id = text_id, fr_kind = kind,
           fr_text = bounded FAV_TEXT_MAX t\<rparr>]) fl)"

definition removeFavouriteByIdAndText :: "fav_env \<Rightarrow> int \<Rightarrow> u32 \<Rightarrow> cstring option \<Rightarrow> int \<Rightarrow> char list option \<Rightarrow> int \<times> char list option" where
  "removeFavouriteByIdAndText env mode i txt kind fl =
     (let recs = favReadFile (fv_read_mem env) fl in
      if recs = [] then (0, fl)
      else favWriteFile env (filter (\<lambda>r. \<not> (\<exists>t. txt = Some t \<and> is_fav mode i t kind r)) recs) fl)"

section \<open>The source of a favourite\<close>

definition favKindView :: "int \<Rightarrow> int" where
  "favKindView kind = (if kind = FAV_KIND_VCD \<or> kind = FAV_KIND_CUE then LIB_VIEW_PS1 else if kind = FAV_KIND_ELF then LIB_VIEW_ELF else LIB_VIEW_ISO)"

definition favKindIsNameAddressed :: "int \<Rightarrow> bool" where
  "favKindIsNameAddressed kind \<longleftrightarrow> kind = FAV_KIND_VCD \<or> kind = FAV_KIND_CUE"

text \<open>A loaded module with a support: what its list callbacks answer under the two forced views (\<open>None\<close>: a
  NULL name), whether it has them and the launch callbacks, and whether it is the UDPBD transport.\<close>

record fav_module =
  fm_iso :: "cstring option list"
  fm_ps1 :: "cstring option list"
  fm_lists :: bool
  fm_launchVcd :: bool
  fm_launchCue :: bool
  fm_udpbd :: bool

text \<open>The modules by mode, and the game names of the share when one is chosen and the network is up
  (\<^verbatim>\<open>ethResolveIsoFavourite\<close>).\<close>

record fav_sources =
  fs_module :: "int \<Rightarrow> fav_module option"
  fs_ethUp :: bool
  fs_ethGames :: "cstring list"

definition ethResolveIsoFavourite :: "fav_sources \<Rightarrow> u32 \<Rightarrow> cstring \<Rightarrow> u32 option" where
  "ethResolveIsoFavourite src i name =
     (if sint i < 0 \<or> \<not> fs_ethUp src then None
      else if int (length (fs_ethGames src)) \<le> sint i \<or> fs_ethGames src ! nat (sint i) \<noteq> name then None
      else Some i)"

fun find_title :: "cstring \<Rightarrow> nat \<Rightarrow> cstring option list \<Rightarrow> nat option" where
  "find_title txt k [] = None"
| "find_title txt k (n # ns) = (if n = Some txt then Some k else find_title txt (k + 1) ns)"

definition favResolveStoredId :: "fav_sources \<Rightarrow> int \<Rightarrow> fav_module \<Rightarrow> u32 \<Rightarrow> cstring \<Rightarrow> int \<Rightarrow> u32 option" where
  "favResolveStoredId src srcMode support i txt kind =
     (if \<not> fm_lists support then None
      else if srcMode = ETH_MODE \<and> kind = FAV_KIND_ISO then ethResolveIsoFavourite src i txt
      else
        let names = (if favKindIsNameAddressed kind then fm_ps1 support else fm_iso support) in
        if srcMode = APP_MODE then map_option of_nat (find_title txt 0 names)
        else if sint i < 0 \<or> int (length names) \<le> sint i then None
        else if names ! nat (sint i) \<noteq> Some txt then None
        else Some i)"

definition favSupportLaunches :: "fav_module \<Rightarrow> bool \<Rightarrow> bool" where
  "favSupportLaunches support needCue =
     (if \<not> needCue \<and> fm_udpbd support then False else if needCue then fm_launchCue support else fm_launchVcd support)"

fun first_launching :: "fav_sources \<Rightarrow> bool \<Rightarrow> int list \<Rightarrow> int option" where
  "first_launching src needCue [] = None"
| "first_launching src needCue (m # ms) = (case fs_module src m of
     Some support \<Rightarrow> if favSupportLaunches support needCue then Some m else first_launching src needCue ms
   | None \<Rightarrow> first_launching src needCue ms)"

fun first_holding :: "fav_sources \<Rightarrow> u32 \<Rightarrow> cstring \<Rightarrow> int list \<Rightarrow> (int \<times> u32) option" where
  "first_holding src i txt [] = None"
| "first_holding src i txt (m # ms) = (case fs_module src m of
     Some support \<Rightarrow> (case favResolveStoredId src m support i txt 0 of Some l \<Rightarrow> Some (m, l) | None \<Rightarrow> first_holding src i txt ms)
   | None \<Rightarrow> first_holding src i txt ms)"

definition bdm_modes :: "int list" where
  "bdm_modes = [0..BDM_MODE_LAST]"

text \<open>The mode and the id of the source item.\<close>

definition favResolve :: "fav_sources \<Rightarrow> int \<Rightarrow> u32 \<Rightarrow> cstring \<Rightarrow> int \<Rightarrow> (int \<times> u32) option" where
  "favResolve src mode i txt kind =
     (if favKindIsNameAddressed kind then
        (let needCue = (kind = FAV_KIND_CUE) in
         if 0 \<le> mode \<and> mode \<le> BDM_MODE_LAST then map_option (\<lambda>m. (m, i)) (first_launching src needCue (mode # bdm_modes))
         else if mode < 0 \<or> MODE_COUNT \<le> mode then None
         else map_option (\<lambda>m. (m, i)) (first_launching src needCue [mode]))
      else if 0 \<le> mode \<and> mode \<le> BDM_MODE_LAST then first_holding src i txt bdm_modes
      else if mode < 0 \<or> MODE_COUNT \<le> mode then None
      else first_holding src i txt [mode])"

text \<open>The list of the tab: the records of the shelf that resolve; \<open>dup k\<close> tells whether the copy of the \<open>k\<close>-th
  record's text could be allocated.\<close>

definition shown :: "fav_sources \<Rightarrow> int \<Rightarrow> (nat \<Rightarrow> bool) \<Rightarrow> nat \<Rightarrow> fav_raw \<Rightarrow> fav_raw option" where
  "shown src favShelf dup k r = (case favResolve src (fr_mode r) (fr_id r) (fr_text r) (fr_kind r) of
     None \<Rightarrow> None
   | Some (m, l) \<Rightarrow>
       if favShelf \<noteq> LIB_VIEW_ALL \<and> favKindView (fr_kind r) \<noteq> favShelf then None
       else if dup k then Some (r\<lparr>fr_mode := m, fr_id := l\<rparr>) else None)"

definition favUpdateItemList :: "fav_sources \<Rightarrow> int \<Rightarrow> (nat \<Rightarrow> bool) \<Rightarrow> bool \<Rightarrow> fav_env \<Rightarrow> char list option \<Rightarrow> fav_raw list" where
  "favUpdateItemList src favShelf dup array_mem env fl =
     (let recs = favReadFile (fv_read_mem env) fl in
      if array_mem then List.map_filter (\<lambda>(k, r). shown src favShelf dup k r) (enumerate 0 recs) else [])"

definition favValidIndex :: "fav_raw list \<Rightarrow> int \<Rightarrow> bool" where
  "favValidIndex favArray i \<longleftrightarrow> 0 \<le> i \<and> i < int (length favArray)"

definition favGetItemSourceMode :: "fav_raw list \<Rightarrow> int \<Rightarrow> int" where
  "favGetItemSourceMode favArray i = (if favValidIndex favArray i then fr_mode (favArray ! nat i) else -1)"

definition favGetItemView :: "fav_raw list \<Rightarrow> int \<Rightarrow> int" where
  "favGetItemView favArray i = (if favValidIndex favArray i then favKindView (fr_kind (favArray ! nat i)) else -1)"

definition favRemoveByIndex :: "fav_env \<Rightarrow> fav_raw list \<Rightarrow> int \<Rightarrow> char list option \<Rightarrow> char list option" where
  "favRemoveByIndex env favArray favIndex fl =
     (if favValidIndex favArray favIndex then
        let r = favArray ! nat favIndex in snd (removeFavouriteByIdAndText env (fr_mode r) (fr_id r) (Some (fr_text r)) (fr_kind r) fl)
      else fl)"

section \<open>A record and its bytes\<close>

lemma rdBytes_exact [simp]: "length b = n \<Longrightarrow> rdBytes n (b @ r) = Some (b, r)"
  by (simp add: rdBytes_def)

lemma rd_exact [simp]: "rdU16 (le16 a @ r) = Some (a, r)" "rdU32 (le32 b @ r) = Some (b, r)"
  using of_le16_append [of a "[]"] of_le32_append [of b "[]"] by (simp_all add: rdU16_def rdU32_def)

text \<open>Bytes behind a complete record do not change it.\<close>

lemma rdBytes_more: "rdBytes n fd = Some (b, r) \<Longrightarrow> rdBytes n (fd @ x) = Some (b, r @ x)"
  by (auto simp: rdBytes_def split: if_splits)

lemma rd_more:
  "rdU16 fd = Some (a, r) \<Longrightarrow> rdU16 (fd @ x) = Some (a, r @ x)"
  "rdU32 fd = Some (b, r) \<Longrightarrow> rdU32 (fd @ x) = Some (b, r @ x)"
  "rd_text n fd = Some (t, r) \<Longrightarrow> rd_text n (fd @ x) = Some (t, r @ x)"
  by (auto simp: rdU16_def rdU32_def rd_text_def dest: rdBytes_more split: if_splits)

lemma fav_record_more:
  assumes "fav_record ver fd = Some (r, rest)"
  shows "fav_record ver (fd @ x) = Some (r, rest @ x)"
proof -
  obtain mode fd1 where 1: "rdU16 fd = Some (mode, fd1)" using assms by (auto simp: fav_record_def bind_eq_Some_conv)
  obtain i fd2 where 2: "rdU32 fd1 = Some (i, fd2)" using assms 1 by (auto simp: fav_record_def bind_eq_Some_conv)
  obtain icon fd3 where 3: "rdU32 fd2 = Some (icon, fd3)" using assms 1 2 by (auto simp: fav_record_def bind_eq_Some_conv)
  obtain tid fd4 where 4: "rdU32 fd3 = Some (tid, fd4)" using assms 1 2 3 by (auto simp: fav_record_def bind_eq_Some_conv)
  obtain kb fd5 where 5: "(if 2 \<le> ver then rdBytes 1 fd4 else Some ([NUL], fd4)) = Some (kb, fd5)"
    using assms 1 2 3 4 by (auto simp: fav_record_def bind_eq_Some_conv)
  obtain tlen fd6 where 6: "rdU16 fd5 = Some (tlen, fd6)" using assms 1 2 3 4 5 by (simp add: fav_record_def) (auto simp: bind_eq_Some_conv)
  obtain tx fd7 where 7: "rd_text (unat tlen) fd6 = Some (tx, fd7)" using assms 1 2 3 4 5 6 by (simp add: fav_record_def) (auto simp: bind_eq_Some_conv)
  have kb5: "(if 2 \<le> ver then rdBytes 1 (fd4 @ x) else Some ([NUL], fd4 @ x)) = Some (kb, fd5 @ x)"
    using 5 rdBytes_more by (auto split: if_splits)
  show ?thesis
    using assms 1 2 3 4 5 6 7 rd_more(1) [OF 1, of x] rd_more(2) [OF 2, of x] rd_more(2) [OF 3, of x] rd_more(2) [OF 4, of x]
      kb5 rd_more(1) [OF 6, of x] rd_more(3) [OF 7, of x]
    by (simp add: fav_record_def)
qed

definition fav_ok :: "fav_raw \<Rightarrow> bool" where
  "fav_ok r \<longleftrightarrow> 0 \<le> fr_mode r \<and> fr_mode r < 65536 \<and> 0 \<le> fr_kind r \<and> fr_kind r \<le> FAV_KIND_ELF \<and>
     NUL \<notin> set (fr_text r) \<and> length (fr_text r) < FAV_TEXT_MAX"

lemma word_fields:
  "0 \<le> i \<Longrightarrow> i < 65536 \<Longrightarrow> int (unat (of_int i :: u16)) = i" "0 \<le> k \<Longrightarrow> k < 256 \<Longrightarrow> int (unat (of_int k :: u8)) = k"
  "n < 65536 \<Longrightarrow> unat (of_nat n :: u16) = n"
  by (simp_all add: unat_of_nat take_bit_nat_eq_self take_bit_int_eq_self unsigned_of_int)

lemma record_back:
  assumes "fav_ok r"
  shows "fav_record 3 (record_image r @ rest) = Some (r, rest)"
proof -
  let ?t = "fr_text r"
  have ok: "length ?t + 1 \<le> FAV_TEXT_MAX" "NUL \<notin> set ?t" "0 \<le> fr_kind r" "fr_kind r \<le> FAV_KIND_ELF" using assms by (auto simp: fav_ok_def)
  have mode: "int (unat (of_int (fr_mode r) :: u16)) = fr_mode r" using assms by (intro word_fields(1)) (simp_all add: fav_ok_def)
  have kb: "int (unat (of_int (fr_kind r) :: u8)) = fr_kind r" using ok(3,4) by (intro word_fields(2)) (simp_all add: fav_kinds)
  have byte: "of_char (byte_char (of_int (fr_kind r))) = unat (of_int (fr_kind r) :: u8)"
    using unsigned_less [of "of_int (fr_kind r) :: u8", where ?'a = nat] by (simp add: byte_char_def)
  have kind: "record_kind 3 (of_char (byte_char (of_int (fr_kind r)))) (fr_mode r) = fr_kind r" using ok(4) kb unfolding byte record_kind_def by (simp only: if_True order_refl)
  have tlen: "unat (of_nat (length ?t + 1) :: u16) = length ?t + 1" using ok(1) by (intro word_fields(3)) (simp add: FAV_TEXT_MAX_def)
  have img: "record_image r = le16 (of_int (fr_mode r)) @ le32 (fr_id r) @ le32 (fr_icon_id r) @ le32 (fr_text_id r) @ [byte_char (of_int (fr_kind r))] @
      le16 (of_nat (length ?t + 1)) @ ?t @ [NUL]" using ok(1) by (simp add: record_image_def Let_def min_def)
  have tx: "rd_text (length ?t + 1) (?t @ [NUL] @ rest) = Some (?t, rest)"
    using ok(1,2) rdBytes_exact [of "?t @ [NUL]" "length ?t + 1" rest] by (simp add: rd_text_def)
  have le: "(2 \<le> (3 :: nat)) = True" by simp
  have k1: "rdBytes 1 ([c] @ x) = Some ([c], x)" for c x by (simp add: rdBytes_def)
  show ?thesis
    unfolding img fav_record_def append.assoc
    by (simp only: rd_exact bind.bind_lunit prod.case le if_True k1 tlen tx mode nth_Cons_0 kind) simp
qed

text \<open>A record that was cut off is not read.\<close>

lemma record_torn:
  assumes "fav_ok r" "k < length (record_image r)"
  shows "fav_record 3 (take k (record_image r)) = None"
proof (rule ccontr)
  assume "fav_record 3 (take k (record_image r)) \<noteq> None"
  then obtain r' rest where "fav_record 3 (take k (record_image r)) = Some (r', rest)" by auto
  from fav_record_more [OF this, of "drop k (record_image r)"] record_back [OF assms(1), of "[]"]
  have "rest @ drop k (record_image r) = []" by simp
  then show False using assms(2) by simp
qed

lemma read_records_torn:
  assumes "\<forall>r \<in> set recs. fav_ok r"
  shows "\<exists>m \<le> length recs. read_records (fav_record 3) (length recs) (take n (concat (map record_image recs))) = take m recs \<and>
    (length (concat (map record_image recs)) \<le> n \<longrightarrow> m = length recs)"
  using assms
proof (induction recs arbitrary: n)
  case (Cons r recs)
  show ?case
  proof (cases "n < length (record_image r)")
    case True
    then have "fav_record 3 (take n (concat (map record_image (r # recs)))) = None" using record_torn Cons.prems by simp
    then show ?thesis using True by (intro exI [of _ 0]) simp
  next
    case False
    obtain m where m: "m \<le> length recs" "read_records (fav_record 3) (length recs) (take (n - length (record_image r)) (concat (map record_image recs))) = take m recs"
      "length (concat (map record_image recs)) \<le> n - length (record_image r) \<longrightarrow> m = length recs"
      using Cons.IH [of "n - length (record_image r)"] Cons.prems by auto
    have "fav_record 3 (take n (concat (map record_image (r # recs)))) = Some (r, take (n - length (record_image r)) (concat (map record_image recs)))"
      using False record_back Cons.prems by simp
    then show ?thesis using m False by (intro exI [of _ "Suc m"]) auto
  qed
qed simp

lemma header_back:
  "length recs \<le> FAV_MAX_ITEMS \<Longrightarrow> rd_header (le32 FAV_MAGIC @ le16 (of_nat FAV_VERSION) @ le16 (of_nat (length recs)) @ rest) = Some (FAV_MAGIC, 3, length recs, rest)"
  by (simp add: rd_header_def fav_consts word_fields)

lemma read_image_torn:
  assumes "\<forall>r \<in> set recs. fav_ok r" "length recs \<le> FAV_MAX_ITEMS"
  shows "\<exists>m \<le> length recs. favReadFile True (Some (take n (fav_image recs))) = take m recs \<and> (length (fav_image recs) \<le> n \<longrightarrow> m = length recs)"
proof -
  let ?hdr = "le32 FAV_MAGIC @ le16 (of_nat FAV_VERSION) @ le16 (of_nat (length recs))" and ?body = "concat (map record_image recs)"
  have img: "fav_image recs = ?hdr @ ?body" and len: "length ?hdr = 8" by (simp_all add: fav_image_def)
  show ?thesis
  proof (cases "n < 8")
    case True
    then have short: "length (take n (fav_image recs)) = n" using img len by simp
    have "rd_header fd = None" if "length fd < 8" for fd
      using that by (auto simp: rd_header_def rdU16_def rdU32_def rdBytes_def split: option.splits)
    moreover have "read_records wopl_record k fd = []" if "length fd < 8" for k fd
      using that by (cases k) (simp_all add: wopl_record_def rdBytes_def WOPL_FAV_STRUCT_SIZE_def)
    ultimately have "favReadFile True (Some (take n (fav_image recs))) = []"
      using True short by (simp add: favReadFile_def favReadWoplFile_def)
    then show ?thesis using True img len by (intro exI [of _ 0]) auto
  next
    case False
    then have "take n (fav_image recs) = ?hdr @ take (n - 8) ?body" using img len by simp
    then have "rd_header (take n (fav_image recs)) = Some (FAV_MAGIC, 3, length recs, take (n - 8) ?body)"
      using header_back [OF assms(2)] by simp
    then have "favReadFile True (Some (take n (fav_image recs))) = read_records (fav_record 3) (length recs) (take (n - 8) ?body)"
      using assms(2) by (simp add: favReadFile_def fav_consts min_def)
    moreover have "length (fav_image recs) \<le> n \<longleftrightarrow> length ?body \<le> n - 8" using False img len by auto
    ultimately show ?thesis using read_records_torn [OF assms(1), of "n - 8"] by auto
  qed
qed

section \<open>The file\<close>

text \<open>C27. Whatever part of the file a write stores, reading it back gives the first of the favourites written,
  unchanged and in order, and all of them when the write reported success.\<close>

theorem fav_file_torn:
  assumes "\<forall>r \<in> set recs. fav_ok r" "length recs \<le> FAV_MAX_ITEMS"
    and "favWriteFile env recs fl = (ok, fl')" "fv_image_mem env" "fv_write env = Some n"
  shows "\<exists>m \<le> length recs. favReadFile True fl' = take m recs \<and> (ok = 1 \<longrightarrow> favReadFile True fl' = recs)"
proof -
  have "fl' = Some (take n (fav_image recs))" "ok = 1 \<longrightarrow> length (fav_image recs) \<le> n"
    using assms(2-) by (auto simp: favWriteFile_def Let_def split: if_splits)
  then show ?thesis using read_image_torn [OF assms(1,2), of n] by auto
qed

definition sample_fav :: fav_raw where
  "sample_fav = \<lparr>fr_mode = 9, fr_id = 7, fr_icon_id = 1, fr_text_id = -1, fr_kind = 0, fr_text = ''Ico''\<rparr>"

theorem fav_file_torn_witness:
  "favReadFile True (snd (favWriteFile \<lparr>fv_read_mem = True, fv_out_mem = True, fv_image_mem = True, fv_write = Some 1000\<rparr> [sample_fav, sample_fav\<lparr>fr_id := 8\<rparr>] None)) =
     [sample_fav, sample_fav\<lparr>fr_id := 8\<rparr>]"
proof -
  let ?env = "\<lparr>fv_read_mem = True, fv_out_mem = True, fv_image_mem = True, fv_write = Some 1000\<rparr>" and ?recs = "[sample_fav, sample_fav\<lparr>fr_id := 8\<rparr>]"
  have ok: "\<forall>r \<in> set ?recs. fav_ok r" "length ?recs \<le> FAV_MAX_ITEMS" by (simp_all add: sample_fav_def fav_ok_def fav_kinds fav_consts)
  have w: "fst (favWriteFile ?env ?recs None) = 1"
    by (simp add: favWriteFile_def Let_def fav_image_def record_image_def sample_fav_def fav_consts)
  obtain r fl' where p: "favWriteFile ?env ?recs None = (r, fl')" by (metis surj_pair)
  have "r = 1" using w p by simp
  then show ?thesis using fav_file_torn [OF ok p, of 1000] p by auto
qed

section \<open>Adding and removing\<close>

text \<open>Enough memory, and room for the largest file.\<close>

definition fav_delivers :: "fav_env \<Rightarrow> bool" where
  "fav_delivers env \<longleftrightarrow> fv_read_mem env \<and> fv_out_mem env \<and> fv_image_mem env \<and> (\<exists>n \<ge> 8 + 273 * FAV_MAX_ITEMS. fv_write env = Some n)"

lemma length_fav_image: "length (fav_image recs) \<le> 8 + 273 * length recs"
proof -
  have "length (record_image r) \<le> 273" for r by (simp add: record_image_def Let_def FAV_TEXT_MAX_def)
  then have "length (concat (map record_image recs)) \<le> 273 * length recs" by (induction recs) (simp_all add: add_mono)
  then show ?thesis by (simp add: fav_image_def)
qed

lemma write_delivers:
  assumes "fav_delivers env" "\<forall>r \<in> set recs. fav_ok r" "length recs \<le> FAV_MAX_ITEMS"
  shows "fst (favWriteFile env recs fl) = 1 \<and> favReadFile True (snd (favWriteFile env recs fl)) = recs"
proof -
  obtain n where n: "fv_write env = Some n" "8 + 273 * FAV_MAX_ITEMS \<le> n" "fv_image_mem env" using assms(1) by (auto simp: fav_delivers_def)
  have "length (fav_image recs) \<le> n" using length_fav_image [of recs] assms(3) n(2) by linarith
  then show ?thesis using read_image_torn [OF assms(2,3), of n] n assms(3) by (auto simp: favWriteFile_def Let_def)
qed

definition new_fav :: "int \<Rightarrow> u32 \<Rightarrow> u32 \<Rightarrow> u32 \<Rightarrow> cstring \<Rightarrow> int \<Rightarrow> fav_raw" where
  "new_fav mode i icon_id text_id t kind =
     \<lparr>fr_mode = mode, fr_id = i, fr_icon_id = icon_id, fr_text_id = text_id, fr_kind = kind, fr_text = bounded FAV_TEXT_MAX t\<rparr>"

lemma remove_filters:
  assumes "fav_delivers env" "\<forall>r \<in> set (favReadFile True fl). fav_ok r" "length (favReadFile True fl) \<le> FAV_MAX_ITEMS"
  shows "favReadFile True (snd (removeFavouriteByIdAndText env mode i (Some t) kind fl)) = filter (\<lambda>r. \<not> is_fav mode i t kind r) (favReadFile True fl)"
proof -
  let ?new = "filter (\<lambda>r. \<not> is_fav mode i t kind r) (favReadFile True fl)"
  have mem: "fv_read_mem env" using assms(1) by (simp add: fav_delivers_def)
  have len: "length ?new \<le> FAV_MAX_ITEMS" using assms(3) length_filter_le order.trans by blast
  show ?thesis
    using write_delivers [OF assms(1) _ len, of fl] assms(2) mem by (simp add: removeFavouriteByIdAndText_def Let_def)
qed

text \<open>With a file that can be read and written: adding an item that is no favourite yet appends it and
  reports success, adding it again changes nothing, and removing it gives the favourites there were
  before; items are told apart by device (all block devices count as one), kind, title, and, except for
  applications, by their number.\<close>

lemma fav_add_remove:
  assumes env: "fav_delivers env" and recs: "\<forall>r \<in> set (favReadFile True fl). fav_ok r" "length (favReadFile True fl) < FAV_MAX_ITEMS"
    and new: "fav_ok (new_fav mode i icon_id text_id t kind)" "t \<noteq> []" "length t < FAV_TEXT_MAX" "\<forall>r \<in> set (favReadFile True fl). \<not> is_fav mode i t kind r"
    and fl': "fl' = snd (addFavouriteItem env mode i icon_id text_id (Some t) kind fl)"
  shows "fst (addFavouriteItem env mode i icon_id text_id (Some t) kind fl) = 1 \<and>
    favReadFile True fl' = favReadFile True fl @ [new_fav mode i icon_id text_id t kind] \<and>
    addFavouriteItem env mode i icon2 text2 (Some t) kind fl' = (1, fl') \<and>
    favReadFile True (snd (removeFavouriteByIdAndText env mode i (Some t) kind fl')) = favReadFile True fl"
proof -
  let ?new = "new_fav mode i icon_id text_id t kind" and ?recs = "favReadFile True fl"
  have mem: "fv_read_mem env" "fv_out_mem env" using env by (simp_all add: fav_delivers_def)
  have same: "is_fav mode i t kind ?new" using new(3) by (simp add: is_fav_def new_fav_def favModesMatch_def favIdsMatchForMode_def bounded_def)
  have all: "\<forall>r \<in> set (?recs @ [?new]). fav_ok r" "length (?recs @ [?new]) \<le> FAV_MAX_ITEMS" using recs new(1) by auto
  have add: "addFavouriteItem env mode i icon_id text_id (Some t) kind fl = favWriteFile env (?recs @ [?new]) fl"
    using recs(2) new(2,4) mem by (simp add: addFavouriteItem_def Let_def new_fav_def)
  have r: "fst (favWriteFile env (?recs @ [?new]) fl) = 1" "favReadFile True fl' = ?recs @ [?new]"
    using write_delivers [OF env all, of fl] fl' add by auto
  have again: "addFavouriteItem env mode i icon2 text2 (Some t) kind fl' = (1, fl')"
    using same new(2) mem r(2) by (simp add: addFavouriteItem_def Let_def)
  have "filter (\<lambda>r. \<not> is_fav mode i t kind r) (?recs @ [?new]) = ?recs" using same new(4) by simp
  then have "favReadFile True (snd (removeFavouriteByIdAndText env mode i (Some t) kind fl')) = ?recs"
    using remove_filters [OF env, of fl'] all unfolding r(2) by simp
  then show ?thesis using r again add by simp
qed

definition sample_fav_env :: fav_env where
  "sample_fav_env = \<lparr>fv_read_mem = True, fv_out_mem = True, fv_image_mem = True, fv_write = Some 200000\<rparr>"

lemma fav_add_remove_witness:
  "\<exists>fl'. addFavouriteItem sample_fav_env 9 7 1 2 (Some ''Ico'') 0 None = (1, fl') \<and> favReadFile True fl' = [new_fav 9 7 1 2 ''Ico'' 0] \<and>
     favReadFile True (snd (removeFavouriteByIdAndText sample_fav_env 9 7 (Some ''Ico'') 0 fl')) = []"
proof -
  have env: "fav_delivers sample_fav_env" by (simp add: fav_delivers_def sample_fav_env_def fav_consts)
  have none: "favReadFile True None = []" by (simp add: favReadFile_def)
  have new: "fav_ok (new_fav 9 7 1 2 ''Ico'' 0)" "''Ico'' \<noteq> []" "length ''Ico'' < FAV_TEXT_MAX"
    by (simp_all add: fav_ok_def new_fav_def bounded_def fav_kinds fav_consts)
  obtain r fl' where p: "addFavouriteItem sample_fav_env 9 7 1 2 (Some ''Ico'') 0 None = (r, fl')" by (metis surj_pair)
  have "fl' = snd (addFavouriteItem sample_fav_env 9 7 1 2 (Some ''Ico'') 0 None)" using p by simp
  from fav_add_remove [OF env _ _ new _ this, of 0 0] none p show ?thesis by (simp add: fav_consts)
qed

section \<open>The file over time\<close>

text \<open>Two records of different items, and a list a file may start with: no item twice, at most 512, every
  record storable (mode and kind in range, title shorter than 256 bytes and without NUL).\<close>

definition differ :: "fav_raw \<Rightarrow> fav_raw \<Rightarrow> bool" where
  "differ a b \<longleftrightarrow> \<not> is_fav (fr_mode b) (fr_id b) (fr_text b) (fr_kind b) a"

definition fav_list_ok :: "fav_raw list \<Rightarrow> bool" where
  "fav_list_ok recs \<longleftrightarrow> (\<forall>r \<in> set recs. fav_ok r) \<and> length recs \<le> FAV_MAX_ITEMS \<and> sorted_wrt differ recs"

text \<open>Every file that adding and removing can leave, with any outcome of allocations and writes, from no file
  or from a file, in any of the formats read, without duplicates.  Titles that are added are shorter than 256
  bytes.\<close>

inductive fav_reach :: "char list option \<Rightarrow> bool" where
  none: "fav_reach None"
| start: "fav_list_ok (favReadFile True fl) \<Longrightarrow> fav_reach fl"
| add: "fav_reach fl \<Longrightarrow> fav_ok (new_fav mode i icon_id text_id t kind) \<Longrightarrow> length t < FAV_TEXT_MAX \<Longrightarrow>
    fav_reach (snd (addFavouriteItem env mode i icon_id text_id (Some t) kind fl))"
| remove: "fav_reach fl \<Longrightarrow> fav_reach (snd (removeFavouriteByIdAndText env mode i t kind fl))"

definition fav_file_ok :: "char list option \<Rightarrow> bool" where
  "fav_file_ok fl \<longleftrightarrow> (\<forall>mem. fav_list_ok (favReadFile mem fl))"

lemma fav_list_ok_take: "fav_list_ok recs \<Longrightarrow> fav_list_ok (take m recs)"
  unfolding fav_list_ok_def by (auto dest: in_set_takeD simp: sorted_wrt_take)

lemma fav_list_ok_filter: "fav_list_ok recs \<Longrightarrow> fav_list_ok (filter P recs)"
  unfolding fav_list_ok_def by (auto intro: sorted_wrt_filter le_trans [OF length_filter_le])

lemma read_no_mem: "favReadFile False fl = []"
  by (auto simp: favReadFile_def favReadWoplFile_def split: option.splits prod.splits)

lemma write_keeps_ok:
  assumes "fav_file_ok fl" "fav_list_ok recs"
  shows "fav_file_ok (snd (favWriteFile env recs fl))"
proof -
  have t: "take FAV_MAX_ITEMS recs = recs" using assms(2) by (simp add: fav_list_ok_def)
  have "fav_list_ok (favReadFile mem (Some (take n (fav_image recs))))" for n mem
  proof (cases mem)
    case True
    obtain m where "favReadFile True (Some (take n (fav_image recs))) = take m recs"
      using read_image_torn [of recs n] assms(2) by (auto simp: fav_list_ok_def)
    then show ?thesis using True fav_list_ok_take [OF assms(2)] by simp
  next
    case False
    then show ?thesis by (simp add: read_no_mem fav_list_ok_def)
  qed
  then show ?thesis using assms(1) by (auto simp: favWriteFile_def t fav_file_ok_def Let_def split: option.splits)
qed

text \<open>C10. From no file, or from a file without duplicates, and for titles shorter than 256 bytes (a longer one
  is stored shortened and never recognised again, \<open>fav_long_title_unrecognised\<close>): however adding and removing
  are interleaved, and whichever allocations and writes fail, the file never lists the same favourite twice, has
  at most 512 of them, and every one can be written again.\<close>

theorem fav_no_duplicates:
  assumes "fav_reach fl"
  shows "sorted_wrt (\<lambda>a b. \<not> is_fav (fr_mode b) (fr_id b) (fr_text b) (fr_kind b) a) (favReadFile True fl) \<and>
    length (favReadFile True fl) \<le> FAV_MAX_ITEMS \<and> (\<forall>r \<in> set (favReadFile True fl). fav_ok r)"
proof -
  have "fav_file_ok fl"
    using assms
  proof induction
    case none
    then show ?case by (simp add: fav_file_ok_def favReadFile_def fav_list_ok_def)
  next
    case (start fl)
    then show ?case unfolding fav_file_ok_def by (metis (full_types) read_no_mem fav_list_ok_take take0)
  next
    case (add fl mode i icon_id text_id t kind env)
    let ?recs = "favReadFile (fv_read_mem env) fl" and ?new = "new_fav mode i icon_id text_id t kind"
    have ok: "fav_list_ok ?recs" using add.IH by (simp add: fav_file_ok_def)
    have "differ r ?new" if "\<not> is_fav mode i t kind r" for r using that add.hyps by (simp add: differ_def new_fav_def bounded_def)
    then have "fav_list_ok (?recs @ [?new])" if "\<forall>r \<in> set ?recs. \<not> is_fav mode i t kind r" "\<not> FAV_MAX_ITEMS < length ?recs + 1"
      using that ok add.hyps by (auto simp: fav_list_ok_def sorted_wrt_append)
    then have "fav_file_ok (snd (favWriteFile env (?recs @ [?new]) fl))" if "\<forall>r \<in> set ?recs. \<not> is_fav mode i t kind r" "\<not> FAV_MAX_ITEMS < length ?recs + 1"
      using that write_keeps_ok add.IH by blast
    then show ?case using add.IH by (auto simp: addFavouriteItem_def Let_def new_fav_def)
  next
    case (remove fl env mode i t kind)
    have "fav_list_ok (favReadFile (fv_read_mem env) fl)" using remove.IH by (simp add: fav_file_ok_def)
    then show ?case using remove.IH write_keeps_ok fav_list_ok_filter by (simp add: removeFavouriteByIdAndText_def Let_def)
  qed
  then show ?thesis unfolding fav_file_ok_def fav_list_ok_def differ_def [abs_def] by blast
qed

theorem fav_no_duplicates_witness:
  "\<exists>fl. fav_reach fl \<and> fl \<noteq> None \<and> length (favReadFile True fl) \<le> FAV_MAX_ITEMS"
proof -
  let ?fl = "snd (addFavouriteItem sample_fav_env 9 7 1 2 (Some ''Ico'') 0 None)"
  have "fav_ok (new_fav 9 7 1 2 ''Ico'' 0)" "length ''Ico'' < FAV_TEXT_MAX" by (simp_all add: fav_ok_def new_fav_def bounded_def fav_kinds fav_consts)
  then have r: "fav_reach ?fl" by (rule fav_reach.add [OF fav_reach.none])
  have "?fl \<noteq> None" by (simp add: addFavouriteItem_def Let_def favReadFile_def favWriteFile_def sample_fav_env_def fav_consts)
  then show ?thesis using r fav_no_duplicates [OF r] by blast
qed

section \<open>Removing what the tab shows\<close>

lemma first_launching_in: "first_launching src c ms = Some m \<Longrightarrow> m \<in> set ms"
  by (induction ms) (auto split: option.splits if_splits)

lemma first_holding_in: "first_holding src i t ms = Some (m, l) \<Longrightarrow> m \<in> set ms \<and> (m = APP_MODE \<or> l = i)"
proof (induction ms)
  case (Cons a ms)
  have "l' = i" if "favResolveStoredId src a sup i t 0 = Some l'" "a \<noteq> APP_MODE" for sup l'
    using that by (auto simp: favResolveStoredId_def ethResolveIsoFavourite_def Let_def split: if_splits)
  then show ?case using Cons by (auto split: option.splits)
qed simp

text \<open>The source found for a record has the identity of the record.\<close>

lemma resolve_identity:
  assumes "favResolve src mode i t kind = Some (m, l)"
  shows "favModesMatch mode m \<and> favIdsMatchForMode m i l"
proof -
  let ?bdm = "0 \<le> mode \<and> mode \<le> BDM_MODE_LAST"
  have "(?bdm \<and> m \<in> set (mode # bdm_modes) \<or> m = mode) \<and> (m = APP_MODE \<or> l = i)"
  proof (cases "favKindIsNameAddressed kind")
    case True
    obtain ms where "first_launching src (kind = FAV_KIND_CUE) ms = Some m" "l = i" "ms = [mode] \<or> ?bdm \<and> ms = mode # bdm_modes"
      using assms True by (auto simp: favResolve_def Let_def simp del: first_launching.simps split: if_splits)
    then show ?thesis using first_launching_in by fastforce
  next
    case False
    obtain ms where "first_holding src i t ms = Some (m, l)" "ms = [mode] \<or> ?bdm \<and> ms = bdm_modes"
      using assms False by (auto simp: favResolve_def simp del: first_holding.simps split: if_splits)
    then show ?thesis using first_holding_in by fastforce
  qed
  then show ?thesis by (auto simp: favModesMatch_def favIdsMatchForMode_def bdm_modes_def)
qed

text \<open>An item that is found carries the stored title.\<close>

lemma fav_resolve_sound:
  assumes "favResolve src mode i t kind = Some (m, l)" "\<not> favKindIsNameAddressed kind" "m \<noteq> ETH_MODE"
    and "\<forall>sup. fs_module src m = Some sup \<longrightarrow> length (fm_iso sup) < 2 ^ 31"
  shows "\<exists>sup. fs_module src m = Some sup \<and> sint l < int (length (fm_iso sup)) \<and> fm_iso sup ! nat (sint l) = Some t"
proof -
  have title: "find_title t k ns = Some j \<Longrightarrow> k \<le> j \<and> j < k + length ns \<and> ns ! (j - k) = Some t" for k ns j
    by (induction ns arbitrary: k) (fastforce split: if_splits simp: nth_Cons')+
  have stored: "sint l < int (length (fm_iso sup)) \<and> fm_iso sup ! nat (sint l) = Some t"
    if "favResolveStoredId src m sup i t 0 = Some l" "length (fm_iso sup) < 2 ^ 31" for sup
  proof (cases "m = APP_MODE")
    case True
    note st = that
    obtain j where j: "find_title t 0 (fm_iso sup) = Some j" "l = of_nat j"
      using st(1) True by (auto simp: favResolveStoredId_def favKindIsNameAddressed_def fav_kinds lib_consts split: if_splits)
    have "j < 2 ^ 31" using title [OF j(1)] st(2) by linarith
    then have "sint l = int j" unfolding j(2) by (simp add: signed_of_nat signed_take_bit_int_eq_self)
    then show ?thesis using title [OF j(1)] by simp
  next
    case False
    then show ?thesis using that(1) assms(3) by (auto simp: favResolveStoredId_def favKindIsNameAddressed_def fav_kinds Let_def split: if_splits)
  qed
  have "first_holding src i t ms = Some (m, l) \<Longrightarrow> \<exists>sup. fs_module src m = Some sup \<and> favResolveStoredId src m sup i t 0 = Some l" for ms
    by (induction ms) (auto split: option.splits)
  then obtain sup where "fs_module src m = Some sup" "favResolveStoredId src m sup i t 0 = Some l"
    using assms(1,2) by (auto simp: favResolve_def simp del: first_holding.simps split: if_splits)
  then show ?thesis using stored assms(4) by blast
qed

text \<open>C34. Removing a row of the favourites tab, whose device and number are those of the source found for it,
  removes the stored record the row was made from, and only records that stand for the same item.\<close>

theorem fav_remove_shown:
  assumes env: "fav_delivers env" and recs: "\<forall>r \<in> set (favReadFile True fl). fav_ok r" "length (favReadFile True fl) \<le> FAV_MAX_ITEMS"
    and arr: "arr = favUpdateItemList src favShelf dup array_mem env fl" "favValidIndex arr k"
  shows "\<exists>r \<in> set (favReadFile True fl). fr_text r = fr_text (arr ! nat k) \<and> fr_kind r = fr_kind (arr ! nat k) \<and>
    r \<notin> set (favReadFile True (favRemoveByIndex env arr k fl)) \<and>
    favReadFile True (favRemoveByIndex env arr k fl) =
      filter (\<lambda>x. \<not> is_fav (fr_mode (arr ! nat k)) (fr_id (arr ! nat k)) (fr_text r) (fr_kind r) x) (favReadFile True fl)"
proof -
  let ?recs = "favReadFile True fl" and ?a = "arr ! nat k"
  have mem: "fv_read_mem env" using env by (simp add: fav_delivers_def)
  have "?a \<in> set arr" using arr(2) by (auto simp: favValidIndex_def)
  then obtain j r where r: "(j, r) \<in> set (enumerate 0 ?recs)" "shown src favShelf dup j r = Some ?a"
    using arr(1) mem by (auto simp: favUpdateItemList_def Let_def map_filter_def split: if_splits)
  have "r \<in> set ?recs" using r(1) by (metis map_snd_enumerate image_eqI set_map snd_conv)
  obtain m l where f: "favResolve src (fr_mode r) (fr_id r) (fr_text r) (fr_kind r) = Some (m, l)"
    using r(2) by (auto simp: shown_def split: option.splits)
  then have a: "?a = r\<lparr>fr_mode := m, fr_id := l\<rparr>" using r(2) by (auto simp: shown_def split: if_splits)
  have same: "is_fav m l (fr_text r) (fr_kind r) r" using resolve_identity [OF f] by (simp add: is_fav_def)
  have rm: "favReadFile True (favRemoveByIndex env arr k fl) = filter (\<lambda>x. \<not> is_fav m l (fr_text r) (fr_kind r) x) ?recs"
    using remove_filters [OF env recs] arr(2) by (simp add: favRemoveByIndex_def Let_def a)
  show ?thesis using \<open>r \<in> set ?recs\<close> same rm by (intro bexI [of _ r]) (simp_all add: a)
qed

theorem fav_remove_shown_witness:
  "let fl = Some (fav_image [sample_fav\<lparr>fr_mode := 2\<rparr>, sample_fav\<lparr>fr_mode := 2, fr_text := ''Rez''\<rparr>]);
       src = \<lparr>fs_module = [5 \<mapsto> \<lparr>fm_iso = replicate 7 None @ [Some ''Ico''], fm_ps1 = [], fm_lists = True, fm_launchVcd = False, fm_launchCue = False, fm_udpbd = False\<rparr>],
              fs_ethUp = False, fs_ethGames = []\<rparr>;
       arr = favUpdateItemList src LIB_VIEW_ALL (\<lambda>_. True) True sample_fav_env fl
   in map fr_mode arr = [5] \<and> favReadFile True (favRemoveByIndex sample_fav_env arr 0 fl) = [sample_fav\<lparr>fr_mode := 2, fr_text := ''Rez''\<rparr>]"
proof -
  let ?r1 = "sample_fav\<lparr>fr_mode := 2\<rparr>" and ?r2 = "sample_fav\<lparr>fr_mode := 2, fr_text := ''Rez''\<rparr>"
  let ?fl = "Some (fav_image [?r1, ?r2])"
  let ?src = "\<lparr>fs_module = [5 \<mapsto> \<lparr>fm_iso = replicate 7 None @ [Some ''Ico''], fm_ps1 = [], fm_lists = True, fm_launchVcd = False, fm_launchCue = False, fm_udpbd = False\<rparr>],
    fs_ethUp = False, fs_ethGames = []\<rparr>"
  let ?arr = "favUpdateItemList ?src LIB_VIEW_ALL (\<lambda>_. True) True sample_fav_env ?fl"
  have env: "fav_delivers sample_fav_env" by (simp add: fav_delivers_def sample_fav_env_def fav_consts)
  have ok: "\<forall>r \<in> set [?r1, ?r2]. fav_ok r" by (simp add: sample_fav_def fav_ok_def fav_kinds fav_consts)
  have read: "favReadFile True ?fl = [?r1, ?r2]"
    using read_image_torn [OF ok, of "length (fav_image [?r1, ?r2])"] by (auto simp: fav_consts)
  have bdm: "bdm_modes = [0, 1, 2, 3, 4, 5, 6, 7]" by (simp add: bdm_modes_def BDM_MODE_LAST_def upto.simps)
  have s1: "shown ?src LIB_VIEW_ALL (\<lambda>_. True) 0 ?r1 = Some (sample_fav\<lparr>fr_mode := 5\<rparr>)"
    by (simp add: shown_def favResolve_def favResolveStoredId_def sample_fav_def favKindIsNameAddressed_def fav_kinds lib_consts bdm nth_append)
  have s2: "shown ?src LIB_VIEW_ALL (\<lambda>_. True) 1 ?r2 = None"
    by (simp add: shown_def favResolve_def favResolveStoredId_def sample_fav_def favKindIsNameAddressed_def fav_kinds lib_consts bdm nth_append)
  have arr: "?arr = [sample_fav\<lparr>fr_mode := 5\<rparr>]"
    using read s1 s2 by (simp add: favUpdateItemList_def Let_def sample_fav_env_def map_filter_def)
  define A where "A = ?arr"
  define F where "F = ?fl"
  have A: "A = favUpdateItemList ?src LIB_VIEW_ALL (\<lambda>_. True) True sample_fav_env F" "favValidIndex A 0"
    by (simp_all add: A_def F_def arr favValidIndex_def)
  have F: "\<forall>r \<in> set (favReadFile True F). fav_ok r" "length (favReadFile True F) \<le> FAV_MAX_ITEMS"
    unfolding F_def read using ok by (simp_all add: fav_consts)
  obtain r :: fav_raw where r: "fr_text r = fr_text (A ! nat 0)" "fr_kind r = fr_kind (A ! nat 0)"
    "favReadFile True (favRemoveByIndex sample_fav_env A 0 F) =
      filter (\<lambda>x. \<not> is_fav (fr_mode (A ! nat 0)) (fr_id (A ! nat 0)) (fr_text r) (fr_kind r) x) (favReadFile True F)"
    using fav_remove_shown [OF env F A] by blast
  have "favReadFile True (favRemoveByIndex sample_fav_env A 0 F) = [?r2]"
    unfolding r(3) unfolding r(1,2) unfolding A_def F_def read arr
    by (simp add: is_fav_def sample_fav_def favModesMatch_def favIdsMatchForMode_def lib_consts)
  then show ?thesis unfolding A_def F_def Let_def arr by (simp add: sample_fav_def)
qed

section \<open>Defects\<close>

text \<open>A file of a newer version reads as no favourites, and adding one then replaces it.\<close>

lemma fav_newer_version_lost:
  assumes "fav_delivers env" "rd_header bytes = Some (FAV_MAGIC, ver, cnt, fd)" "FAV_VERSION < ver"
    and "fav_ok (new_fav mode i icon_id text_id t kind)" "t \<noteq> []"
  shows "favReadFile True (snd (addFavouriteItem env mode i icon_id text_id (Some t) kind (Some bytes))) = [new_fav mode i icon_id text_id t kind]"
proof -
  have mem: "fv_read_mem env" "fv_out_mem env" using assms(1) by (simp_all add: fav_delivers_def)
  have "favReadFile True (Some bytes) = []" using assms(2,3) by (simp add: favReadFile_def)
  then have "addFavouriteItem env mode i icon_id text_id (Some t) kind (Some bytes) = favWriteFile env [new_fav mode i icon_id text_id t kind] (Some bytes)"
    using assms(5) mem by (simp add: addFavouriteItem_def Let_def new_fav_def fav_consts)
  then show ?thesis using write_delivers [OF assms(1), of "[new_fav mode i icon_id text_id t kind]"] assms(4) by (simp add: fav_consts)
qed

text \<open>A title of 256 bytes or more is stored shortened but compared in full: it is never recognised again.\<close>

lemma fav_long_title_unrecognised:
  assumes "FAV_TEXT_MAX \<le> length t" "\<forall>r \<in> set recs. fav_ok r"
  shows "filter (\<lambda>r. \<not> is_fav mode i t kind r) recs = recs"
  using assms by (auto simp: filter_id_conv is_fav_def fav_ok_def)

end
