(* ===== verification/FolderBrowse.thy ===== *)
theory FolderBrowse
  imports LibView GameList
begin

text \<open>
  Folder navigation (\<^verbatim>\<open>src/folderbrowse.c\<close>): the subpath below \<^verbatim>\<open>CD\<close> and \<^verbatim>\<open>DVD\<close> each page is in, its depth, and
  the flag that forces one rescan.  The arrays indexed by the mode are functions; out of range modes
  are rejected by every operation.  The names come from the folder rows of \<open>GameList\<close>, so they have no
  slash and are not empty.
\<close>

definition FOLDER_DEPTH_MAX :: nat where "FOLDER_DEPTH_MAX = 8"

record folder_state =
  gEnableFolderNav :: bool
  folderSub :: "int \<Rightarrow> cstring"
  folderDirtyFlag :: "int \<Rightarrow> bool"
  folderLevels :: "int \<Rightarrow> nat"

definition folder_init :: "bool \<Rightarrow> folder_state" where
  "folder_init nav = \<lparr>gEnableFolderNav = nav, folderSub = (\<lambda>_. []), folderDirtyFlag = (\<lambda>_. False), folderLevels = (\<lambda>_. 0)\<rparr>"

definition folderModeSupported :: "int \<Rightarrow> bool" where
  "folderModeSupported mode \<longleftrightarrow> 0 \<le> mode \<and> mode \<le> BDM_MODE_LAST \<or> mode = MMCE_MODE \<or> mode = UDPFS_MODE"

definition folder_on :: "folder_state \<Rightarrow> int \<Rightarrow> bool" where
  "folder_on s mode \<longleftrightarrow> gEnableFolderNav s \<and> mode_ok mode \<and> folderModeSupported mode"

definition folderGetSub :: "folder_state \<Rightarrow> int \<Rightarrow> cstring" where
  "folderGetSub s mode = (if folder_on s mode then folderSub s mode else [])"

definition folderDepth :: "folder_state \<Rightarrow> int \<Rightarrow> nat" where
  "folderDepth s mode = (if folder_on s mode then folderLevels s mode else 0)"

definition folderDescend :: "folder_state \<Rightarrow> int \<Rightarrow> cstring option \<Rightarrow> int \<times> folder_state" where
  "folderDescend s mode name =
     (if \<not> folder_on s mode then (0, s)
      else
        (case name of
           None \<Rightarrow> (0, s)
         | Some n \<Rightarrow>
             if n = [] \<or> FOLDER_DEPTH_MAX \<le> folderLevels s mode then (0, s)
             else
               let joined = (if folderSub s mode = [] then n else folderSub s mode @ ''/'' @ n) in
               if FOLDER_SUB_MAX \<le> length joined then (0, s)
               else (1, s\<lparr>folderSub := (folderSub s)(mode := joined), folderLevels := (folderLevels s)(mode := folderLevels s mode + 1),
                          folderDirtyFlag := (folderDirtyFlag s)(mode := True)\<rparr>)))"

definition folderAscend :: "folder_state \<Rightarrow> int \<Rightarrow> int \<times> folder_state" where
  "folderAscend s mode =
     (if \<not> folder_on s mode \<or> folderLevels s mode = 0 then (0, s)
      else
        let sub = (case strrchr (folderSub s mode) (CHR ''/'') of Some i \<Rightarrow> take i (folderSub s mode) | None \<Rightarrow> []) in
        (1, s\<lparr>folderSub := (folderSub s)(mode := sub), folderLevels := (folderLevels s)(mode := folderLevels s mode - 1),
              folderDirtyFlag := (folderDirtyFlag s)(mode := True)\<rparr>))"

definition folderReset :: "folder_state \<Rightarrow> int \<Rightarrow> folder_state" where
  "folderReset s mode =
     (if \<not> mode_ok mode then s
      else if folderSub s mode \<noteq> [] \<or> folderLevels s mode \<noteq> 0
      then s\<lparr>folderSub := (folderSub s)(mode := []), folderLevels := (folderLevels s)(mode := 0), folderDirtyFlag := (folderDirtyFlag s)(mode := True)\<rparr>
      else s)"

definition folderConsumeDirty :: "folder_state \<Rightarrow> int \<Rightarrow> int \<times> folder_state" where
  "folderConsumeDirty s mode =
     (if \<not> mode_ok mode \<or> \<not> folderDirtyFlag s mode then (0, s)
      else (1, s\<lparr>folderDirtyFlag := (folderDirtyFlag s)(mode := False)\<rparr>))"

section \<open>Paths of segments\<close>

definition segment_ok :: "cstring \<Rightarrow> bool" where
  "segment_ok n \<longleftrightarrow> n \<noteq> [] \<and> CHR ''/'' \<notin> set n"

fun join :: "cstring list \<Rightarrow> cstring" where
  "join [] = []"
| "join [n] = n"
| "join (n # m # ns) = n @ ''/'' @ join (m # ns)"

lemma join_snoc: "ns \<noteq> [] \<Longrightarrow> join (ns @ [n]) = join ns @ ''/'' @ n"
  by (induction ns rule: join.induct) simp_all

lemma join_Nil_iff: "\<forall>n \<in> set ns. segment_ok n \<Longrightarrow> join ns = [] \<longleftrightarrow> ns = []"
  by (cases ns rule: join.cases) (auto simp: segment_ok_def)

lemma strrchr_last: "CHR ''/'' \<notin> set n \<Longrightarrow> strrchr (s @ ''/'' @ n) (CHR ''/'') = Some (length s)"
  by (simp add: strrchr_def before_char_def takeWhile_append)

lemma strrchr_none: "CHR ''/'' \<notin> set n \<Longrightarrow> strrchr n (CHR ''/'') = None"
  by (simp add: strrchr_def)

text \<open>The abstract state of a page: the folders it is below, outermost first.\<close>

definition folder_repr :: "folder_state \<Rightarrow> int \<Rightarrow> cstring list \<Rightarrow> bool" where
  "folder_repr s mode ns \<longleftrightarrow> (\<forall>n \<in> set ns. segment_ok n) \<and> folderSub s mode = join ns \<and> folderLevels s mode = length ns \<and>
     length ns \<le> FOLDER_DEPTH_MAX \<and> length (join ns) < FOLDER_SUB_MAX"

text \<open>The operations of the interface.\<close>

inductive folder_step :: "folder_state \<Rightarrow> folder_state \<Rightarrow> bool" where
  descend: "segment_ok n \<Longrightarrow> folder_step s (snd (folderDescend s mode (Some n)))"
| ascend: "folder_step s (snd (folderAscend s mode))"
| reset: "folder_step s (folderReset s mode)"
| dirty: "folder_step s (snd (folderConsumeDirty s mode))"
| nav: "folder_step s (s\<lparr>gEnableFolderNav := b\<rparr>)"

lemma descend_repr:
  assumes "folder_repr s mode ns" "segment_ok n" "folder_on s mode"
  shows "if length ns < FOLDER_DEPTH_MAX \<and> length (join (ns @ [n])) < FOLDER_SUB_MAX
    then fst (folderDescend s mode (Some n)) = 1 \<and> folder_repr (snd (folderDescend s mode (Some n))) mode (ns @ [n])
    else folderDescend s mode (Some n) = (0, s)"
proof -
  have "(if folderSub s mode = [] then n else folderSub s mode @ ''/'' @ n) = join (ns @ [n])"
    using assms(1) join_Nil_iff [of ns] join_snoc [of ns n] by (cases "ns = []") (auto simp: folder_repr_def)
  then show ?thesis using assms by (auto simp: folderDescend_def folder_repr_def segment_ok_def Let_def not_less simp del: join.simps)
qed

lemma ascend_repr:
  assumes "folder_repr s mode (ns @ [n])" "folder_on s mode"
  shows "fst (folderAscend s mode) = 1 \<and> folder_repr (snd (folderAscend s mode)) mode ns"
proof -
  have n: "CHR ''/'' \<notin> set n" using assms(1) by (simp add: folder_repr_def segment_ok_def)
  have sub: "folderSub s mode = join (ns @ [n])" using assms(1) by (simp add: folder_repr_def)
  have "(case strrchr (folderSub s mode) (CHR ''/'') of Some i \<Rightarrow> take i (folderSub s mode) | None \<Rightarrow> []) = join ns \<and> length (join ns) \<le> length (join (ns @ [n]))"
    unfolding sub using strrchr_last [OF n, of "join ns"] strrchr_none [OF n] join_snoc [of ns n] by (cases "ns = []") simp_all
  then show ?thesis using assms by (auto simp: folderAscend_def folder_repr_def Let_def)
qed

lemma folder_repr_other:
  "folderSub s' mode = folderSub s mode \<Longrightarrow> folderLevels s' mode = folderLevels s mode \<Longrightarrow> folder_repr s mode ns \<Longrightarrow> folder_repr s' mode ns"
  by (simp add: folder_repr_def)

lemma folder_step_repr:
  assumes "folder_step s s'" "\<forall>mode. \<exists>ns. folder_repr s mode ns"
  shows "\<exists>ns. folder_repr s' mode ns"
  using assms(1)
proof cases
  case (descend n m)
  show ?thesis
  proof (cases "folder_on s m \<and> mode = m")
    case True
    obtain ns where "folder_repr s mode ns" using assms(2) by blast
    then show ?thesis using descend_repr [of s mode ns n] descend True by (auto split: if_splits)
  next
    case False
    then have "folderSub s' mode = folderSub s mode" "folderLevels s' mode = folderLevels s mode"
      using descend by (auto simp: folderDescend_def Let_def)
    then show ?thesis using assms(2) folder_repr_other by blast
  qed
next
  case (ascend m)
  show ?thesis
  proof (cases "folder_on s m \<and> mode = m \<and> folderLevels s m \<noteq> 0")
    case True
    obtain ns where ns: "folder_repr s mode ns" using assms(2) by blast
    then have "ns \<noteq> []" using True by (auto simp: folder_repr_def)
    then obtain ms n where "ns = ms @ [n]" by (cases ns rule: rev_cases) auto
    then show ?thesis using ascend_repr [of s mode ms n] ns ascend True by auto
  next
    case False
    then have "folderSub s' mode = folderSub s mode" "folderLevels s' mode = folderLevels s mode"
      using ascend by (auto simp: folderAscend_def Let_def)
    then show ?thesis using assms(2) folder_repr_other by blast
  qed
next
  case (reset m)
  have "folder_repr s' mode []" if "mode = m" "s' \<noteq> s"
    using that reset by (auto simp: folderReset_def folder_repr_def FOLDER_SUB_MAX_def split: if_splits)
  moreover have "folderSub s' mode = folderSub s mode \<and> folderLevels s' mode = folderLevels s mode" if "mode \<noteq> m"
    using that reset by (auto simp: folderReset_def)
  ultimately show ?thesis using assms(2) folder_repr_other by (metis)
next
  case (dirty m)
  then have "folderSub s' mode = folderSub s mode" "folderLevels s' mode = folderLevels s mode" by (auto simp: folderConsumeDirty_def)
  then show ?thesis using assms(2) folder_repr_other by blast
next
  case (nav b)
  then have "folderSub s' mode = folderSub s mode" "folderLevels s' mode = folderLevels s mode" by auto
  then show ?thesis using assms(2) folder_repr_other by blast
qed

text \<open>C35. Folder navigation is a stack: in every state the subpath of a page is its folders joined by slashes
  and the depth their number, within the limits; entering a folder pushes it, or is refused without a
  change when a limit would be exceeded, and going up right after it gives the page back.\<close>

theorem folder_stack:
  assumes "folder_step\<^sup>*\<^sup>* (folder_init nav) s"
  shows "\<exists>ns. folder_repr s mode ns \<and>
    (folder_on s mode \<longrightarrow> folderGetSub s mode = join ns \<and> folderDepth s mode = length ns \<and>
      (\<forall>n. segment_ok n \<longrightarrow>
        (if length ns < FOLDER_DEPTH_MAX \<and> length (join (ns @ [n])) < FOLDER_SUB_MAX
         then folder_repr (snd (folderDescend s mode (Some n))) mode (ns @ [n]) \<and>
           folder_repr (snd (folderAscend (snd (folderDescend s mode (Some n))) mode)) mode ns
         else folderDescend s mode (Some n) = (0, s))))"
proof -
  have "\<exists>ns. folder_repr s mode ns" for mode
    using assms
  proof (induction arbitrary: mode rule: rtranclp_induct)
    case base
    show ?case by (intro exI [of _ "[]"]) (simp add: folder_repr_def folder_init_def FOLDER_SUB_MAX_def)
  next
    case (step y z)
    then show ?case using folder_step_repr by blast
  qed
  then obtain ns where ns: "folder_repr s mode ns" by blast
  have on: "folder_on (snd (folderDescend s mode (Some n))) mode = folder_on s mode" for n
    by (simp add: folderDescend_def folder_on_def Let_def)
  have up: "folder_repr (snd (folderAscend (snd (folderDescend s mode (Some n))) mode)) mode ns"
    if "folder_on s mode" "folder_repr (snd (folderDescend s mode (Some n))) mode (ns @ [n])" for n
    using ascend_repr [OF that(2)] on that(1) by simp
  have "if length ns < FOLDER_DEPTH_MAX \<and> length (join (ns @ [n])) < FOLDER_SUB_MAX
      then folder_repr (snd (folderDescend s mode (Some n))) mode (ns @ [n]) \<and>
        folder_repr (snd (folderAscend (snd (folderDescend s mode (Some n))) mode)) mode ns
      else folderDescend s mode (Some n) = (0, s)" if "folder_on s mode" "segment_ok n" for n
    using descend_repr [OF ns that(2,1)] up [OF that(1)] by meson
  moreover have "folderGetSub s mode = join ns \<and> folderDepth s mode = length ns" if "folder_on s mode"
    using ns that by (simp add: folderGetSub_def folderDepth_def folder_repr_def)
  ultimately show ?thesis using ns by blast
qed

theorem folder_stack_witness:
  "folderGetSub (snd (folderDescend (folder_init True) 3 (Some ''RPG''))) 3 = ''RPG''"
proof -
  let ?s = "snd (folderDescend (folder_init True) 3 (Some ''RPG''))"
  have on: "folder_on ?s 3" by (simp add: folder_on_def folderDescend_def folder_init_def folderModeSupported_def mode_ok_def lib_consts Let_def)
  have "folder_step\<^sup>*\<^sup>* (folder_init True) ?s" by (rule r_into_rtranclp, rule folder_step.descend) (simp add: segment_ok_def)
  from folder_stack [OF this, of 3] obtain ns where "folder_repr ?s 3 ns" "folderGetSub ?s 3 = join ns" using on by blast
  then show ?thesis
    by (auto simp: folder_repr_def folderDescend_def folder_init_def folder_on_def folderModeSupported_def mode_ok_def lib_consts Let_def
        FOLDER_DEPTH_MAX_def FOLDER_SUB_MAX_def)
qed

end
