(* ===== verification/VcdName.thy ===== *)
theory VcdName
  imports LibView
begin

text \<open>
  The names of PS1 images (\<^verbatim>\<open>src/vcdsupport.c\<close>): the disc identifier a name carries, the identifier of a
  partition label, the canonical form of an identifier, and the name a row shows and is sorted by.
  A pointer into a name is the rest of the string; \<^verbatim>\<open>NULL\<close> is \<open>None\<close>.
\<close>

definition VCD_ID_MAX :: nat where "VCD_ID_MAX = 16"

definition vcdSkipPopstarterPrefix :: "cstring option \<Rightarrow> nat" where
  "vcdSkipPopstarterPrefix nm = (case nm of
     None \<Rightarrow> 0
   | Some s \<Rightarrow>
       if length s < 3 then 0
       else if strncasecmp_eq 3 s ''XX.'' \<or> strncasecmp_eq 3 s ''SB.'' \<or> strncasecmp_eq 3 s ''EL.'' \<or> strncasecmp_eq 3 s ''SM.''
       then 3 else 0)"

definition to_upper :: "char \<Rightarrow> char" where
  "to_upper c = (if islower c then char_of (char_code c - 32) else c)"

text \<open>The shape \<^verbatim>\<open>AAAA_NNN.NN\<close>, read byte by byte.\<close>

definition id_shape :: "cstring \<Rightarrow> bool" where
  "id_shape p \<longleftrightarrow> (\<forall>i \<in> {0..<4}. isalnum (c_at p i)) \<and> c_at p 4 = CHR ''_'' \<and> (\<forall>i \<in> {5..<8}. isdigit (c_at p i)) \<and>
     c_at p 8 = CHR ''.'' \<and> isdigit (c_at p 9) \<and> isdigit (c_at p 10)"

definition id_delimiter :: "char \<Rightarrow> bool" where
  "id_delimiter c \<longleftrightarrow> c = CHR ''.'' \<or> c = CHR ''_'' \<or> c = CHR '' '' \<or> c = CHR ''-''"

text \<open>The identifier written to \<^verbatim>\<open>idOut\<close>, or \<open>None\<close> for the answer 0.\<close>

definition vcdExtractGameId :: "cstring option \<Rightarrow> nat \<Rightarrow> cstring option" where
  "vcdExtractGameId nm idSize =
     (if idSize \<le> 11 then None
      else
        (case nm of
           None \<Rightarrow> None
         | Some s \<Rightarrow>
             let p = drop (vcdSkipPopstarterPrefix nm) s in
             if length p < 11 then None
             else if \<not> id_shape p then None
             else if c_at p 11 \<noteq> NUL \<and> \<not> id_delimiter (c_at p 11) then None
             else Some (map to_upper (take 11 p))))"

definition hyphen_shape :: "cstring \<Rightarrow> bool" where
  "hyphen_shape t \<longleftrightarrow> (\<forall>i \<in> {0..<4}. isalnum (c_at t i)) \<and> c_at t 4 = CHR ''-'' \<and> (\<forall>i \<in> {5..<10}. isdigit (c_at t i))"

definition vcdPopsPartitionTitleOffset :: "cstring option \<Rightarrow> nat" where
  "vcdPopsPartitionTitleOffset lbl = (case lbl of
     None \<Rightarrow> 0
   | Some label \<Rightarrow>
       if \<not> strncmp_eq 3 label ''PP.'' then 0
       else
         let tail = drop 3 label in
         if 18 \<le> length tail \<and> vcdExtractGameId (Some tail) VCD_ID_MAX \<noteq> None \<and> c_at tail 11 = CHR ''.'' \<and>
            strncmp_eq 5 (drop 12 tail) ''POPS.'' \<and> c_at tail 17 \<noteq> NUL then 3 + 17
         else if length tail < 17 then 0
         else if \<not> hyphen_shape tail then 0
         else
           let marker = (if c_at tail 10 = CHR ''.'' \<and> isdigit (c_at tail 11) \<and> isdigit (c_at tail 12) then 13 else 10) in
           if strncmp_eq 6 (drop marker tail) ''.POPS.'' \<and> c_at tail (marker + 6) \<noteq> NUL then 3 + marker + 6 else 0)"

definition vcdGameIdPrefixLen :: "cstring option \<Rightarrow> nat" where
  "vcdGameIdPrefixLen nm = (case nm of
     None \<Rightarrow> 0
   | Some s \<Rightarrow>
       let prefixLen = vcdSkipPopstarterPrefix nm;
           p = drop prefixLen s
       in if vcdExtractGameId (Some p) VCD_ID_MAX \<noteq> None then (if id_delimiter (c_at p 11) then prefixLen + 12 else prefixLen + 11) else 0)"

text \<open>\<open>hide\<close> is \<^verbatim>\<open>gVcdHideGameId\<close>.  Asking for a view may initialise the Mixed view of the page.\<close>

definition vcdDisplayName :: "bool \<Rightarrow> lib_state \<Rightarrow> int \<Rightarrow> cstring option \<Rightarrow> lib_state \<times> cstring option" where
  "vcdDisplayName hide s mode txt =
     (if \<not> hide \<or> txt = None then (s, txt)
      else
        (case libViewActive s mode of
           (s', v) \<Rightarrow> if v \<noteq> LIB_VIEW_PS1 then (s', txt) else (s', map_option (drop (vcdGameIdPrefixLen txt)) txt)))"

definition vcdDisplayNameForRow :: "bool \<Rightarrow> lib_state \<Rightarrow> item_list option \<Rightarrow> int \<Rightarrow> cstring option \<Rightarrow> lib_state \<times> cstring option" where
  "vcdDisplayNameForRow hide s itemList i txt =
     (if \<not> hide \<or> txt = None \<or> itemList = None then (s, txt)
      else
        (case libListRowView s itemList i of
           (s', v) \<Rightarrow> if v \<noteq> LIB_VIEW_PS1 then (s', txt) else (s', map_option (drop (vcdGameIdPrefixLen txt)) txt)))"

definition vcdSortKey :: "bool \<Rightarrow> cstring option \<Rightarrow> cstring option" where
  "vcdSortKey hide nm = (if hide then map_option (drop (vcdGameIdPrefixLen nm)) nm else nm)"

text \<open>\<open>snprintf (tmp, 16, "%s", idIn)\<close> into a zeroed buffer keeps fifteen bytes.\<close>

definition vcdCanonDisplayId :: "cstring option \<Rightarrow> nat \<Rightarrow> cstring option" where
  "vcdCanonDisplayId idIn idSize = (case idIn of
     None \<Rightarrow> None
   | Some s \<Rightarrow>
       if idSize \<le> 11 then None
       else
         let tmp = bounded 16 s in
         if c_at tmp 4 = CHR ''_'' \<and> c_at tmp 8 = CHR ''.'' then (if id_shape tmp then Some (take 11 tmp) else None)
         else if c_at tmp 4 = CHR ''-''
         then (if hyphen_shape tmp then Some (bounded idSize (take 4 tmp @ ''_'' @ take 3 (drop 5 tmp) @ ''.'' @ take 2 (drop 8 tmp))) else None)
         else None)"

section \<open>Lemmas\<close>

text \<open>An identifier in the form the rest of the program uses.\<close>

definition disc_id :: "cstring \<Rightarrow> bool" where
  "disc_id s \<longleftrightarrow> length s = 11 \<and> id_shape s"

lemma c_at_take: "i < n \<Longrightarrow> c_at (take n p) i = c_at p i"
  by (simp add: c_at_def)

lemma c_at_upper: "c_at (map to_upper p) i = to_upper (c_at p i)"
  by (simp add: c_at_def to_upper_def islower_def char_code_def)

lemma upper_simps: "isalnum (to_upper c) = isalnum c" "isdigit (to_upper c) = isdigit c" "to_upper (CHR ''_'') = CHR ''_''" "to_upper (CHR ''.'') = CHR ''.''"
  "\<not> islower (to_upper c)" "to_upper (to_upper c) = to_upper c"
  by (auto simp: to_upper_def ctype_defs of_char_of)

lemma to_upper_digit: "isdigit c \<Longrightarrow> to_upper c = c"
  by (auto simp: to_upper_def ctype_defs)

lemma id_shape_upper: "id_shape (map to_upper p) = id_shape p"
proof -
  have "to_upper (c_at p i) = CHR ''_'' \<longleftrightarrow> c_at p i = CHR ''_''" "to_upper (c_at p i) = CHR ''.'' \<longleftrightarrow> c_at p i = CHR ''.''" for i
    by (auto simp: to_upper_def ctype_defs of_char_of char_of_eq_iff take_bit_eq_mod split: if_splits)
  then show ?thesis by (simp add: id_shape_def c_at_upper upper_simps)
qed

lemma id_shape_take: "id_shape (take 11 p) = id_shape p"
  by (simp add: id_shape_def c_at_take)

lemma no_prefix: "\<forall>i \<in> {0..<4}. isalnum (c_at s i) \<Longrightarrow> vcdSkipPopstarterPrefix (Some s) = 0"
proof -
  assume a: "\<forall>i \<in> {0..<4}. isalnum (c_at s i)"
  have n: "strncasecmp_eq 3 s [x, y, CHR ''.''] = False" if len: "3 \<le> length s" for x y
  proof
    assume e: "strncasecmp_eq 3 s [x, y, CHR ''.'']"
    obtain a b c r where s: "s = a # b # c # r" using len by (metis (no_types) Suc_le_length_iff numeral_3_eq_3)
    have "to_lower c = to_lower (CHR ''.'')" using e s by (simp add: strncasecmp_eq_def)
    moreover have "isalnum c" using bspec [OF a, of 2] s by (simp add: c_at_def)
    ultimately show False by (auto simp: to_lower_def ctype_defs char_of_eq_iff take_bit_eq_mod split: if_splits)
  qed simp
  then show ?thesis by (simp add: vcdSkipPopstarterPrefix_def)
qed

lemma extract_id:
  assumes "id_shape p" "11 \<le> length p" "c_at p 11 = NUL \<or> id_delimiter (c_at p 11)" "11 < n"
  shows "vcdExtractGameId (Some p) n = Some (map to_upper (take 11 p))"
  using assms no_prefix [of p] by (auto simp: vcdExtractGameId_def id_shape_def)

lemma extract_SomeD:
  assumes "vcdExtractGameId (Some s) n = Some i"
  shows "disc_id i" "map to_upper i = i" "vcdExtractGameId (Some i) n = Some i"
proof -
  let ?p = "drop (vcdSkipPopstarterPrefix (Some s)) s"
  have p: "id_shape ?p" "i = map to_upper (take 11 ?p)" "11 \<le> length ?p" "11 < n"
    using assms by (auto simp: vcdExtractGameId_def Let_def split: if_splits)
  then show d: "disc_id i" and u: "map to_upper i = i" by (auto simp: disc_id_def id_shape_upper id_shape_take upper_simps)
  have "c_at i 11 = NUL" using d by (simp add: disc_id_def c_at_def)
  then show "vcdExtractGameId (Some i) n = Some i" using extract_id [of i n] d u p(4) by (simp add: disc_id_def)
qed


text \<open>An identifier byte by byte.\<close>

lemma disc_id_cases:
  assumes "disc_id i"
  obtains a b c d e f g h j where "i = [a, b, c, d, CHR ''_'', e, f, g, CHR ''.'', h, j]" "isalnum a" "isalnum b" "isalnum c" "isalnum d"
    "isdigit e" "isdigit f" "isdigit g" "isdigit h" "isdigit j"
proof -
  obtain a b c d u e f g v h j where i: "i = [a, b, c, d, u, e, f, g, v, h, j]"
    using assms by (auto simp: disc_id_def eval_nat_numeral length_Suc_conv)
  have sh: "id_shape [a, b, c, d, u, e, f, g, v, h, j]" using assms i by (simp add: disc_id_def)
  have "u = CHR ''_''" "v = CHR ''.''" using sh by (simp_all add: id_shape_def c_at_def)
  moreover have "isalnum a \<and> isalnum b \<and> isalnum c \<and> isalnum d" "isdigit e \<and> isdigit f \<and> isdigit g" "isdigit h \<and> isdigit j"
    using sh by (simp_all add: id_shape_def c_at_def eval_nat_numeral atLeastLessThanSuc)
  ultimately show thesis using that i by blast
qed

definition popstarter_prefixes :: "cstring set" where
  "popstarter_prefixes = {[], ''XX.'', ''SB.'', ''EL.'', ''SM.''}"

lemma skip_prefix:
  assumes "pre \<in> popstarter_prefixes" "disc_id i"
  shows "vcdSkipPopstarterPrefix (Some (pre @ i @ rest)) = length pre"
proof (cases "pre = []")
  case True
  have "\<forall>k \<in> {0..<4}. isalnum (c_at (i @ rest) k)" using assms(2) by (auto simp: disc_id_def id_shape_def c_at_def nth_append)
  then show ?thesis using True no_prefix by simp
next
  case False
  then show ?thesis using assms(1) by (auto simp: popstarter_prefixes_def vcdSkipPopstarterPrefix_def strncasecmp_eq_def)
qed

lemma id_shape_append: "disc_id i \<Longrightarrow> id_shape (i @ rest)"
  using id_shape_take [of "i @ rest"] by (simp add: disc_id_def)

lemma extract_named:
  assumes "pre \<in> popstarter_prefixes" "disc_id i" "map to_upper i = i" "rest = [] \<or> id_delimiter (hd rest)" "11 < n"
  shows "vcdExtractGameId (Some (pre @ i @ rest)) n = Some i"
proof -
  have l: "length i = 11" using assms(2) by (simp add: disc_id_def)
  then have "c_at (i @ rest) 11 = NUL \<or> id_delimiter (c_at (i @ rest) 11)" using assms(4) by (auto simp: c_at_def nth_append hd_conv_nth)
  then show ?thesis using skip_prefix [OF assms(1,2), of rest] id_shape_append [OF assms(2), of rest] assms(3,5) l
    by (auto simp: vcdExtractGameId_def)
qed

lemma prefix_len_named:
  assumes "pre \<in> popstarter_prefixes" "disc_id i" "map to_upper i = i" "rest = [] \<or> id_delimiter (hd rest)"
  shows "drop (vcdGameIdPrefixLen (Some (pre @ i @ rest))) (pre @ i @ rest) = tl rest"
proof -
  have l: "length i = 11" using assms(2) by (simp add: disc_id_def)
  have e: "vcdExtractGameId (Some (i @ rest)) VCD_ID_MAX = Some i"
    using extract_named [of "[]" i rest VCD_ID_MAX] assms by (simp add: popstarter_prefixes_def VCD_ID_MAX_def)
  have "rest \<noteq> [] \<Longrightarrow> id_delimiter (c_at (i @ rest) 11)" "rest = [] \<Longrightarrow> \<not> id_delimiter (c_at (i @ rest) 11)"
    using assms(4) l by (auto simp: c_at_def nth_append hd_conv_nth id_delimiter_def)
  then show ?thesis using e l skip_prefix [OF assms(1,2), of rest] by (cases rest) (auto simp: vcdGameIdPrefixLen_def Let_def)
qed

text \<open>The hyphen form of an identifier.\<close>

definition hyphen_id :: "cstring \<Rightarrow> cstring" where
  "hyphen_id i = take 4 i @ ''-'' @ take 3 (drop 5 i) @ drop 9 i"

lemma canon_forms:
  assumes "disc_id i"
  shows "vcdCanonDisplayId (Some i) VCD_ID_MAX = Some i" "vcdCanonDisplayId (Some (hyphen_id i)) VCD_ID_MAX = Some i" "hyphen_shape (hyphen_id i @ t)"
  using assms by (auto elim!: disc_id_cases simp: vcdCanonDisplayId_def VCD_ID_MAX_def hyphen_id_def bounded_def c_at_def id_shape_def hyphen_shape_def
      eval_nat_numeral atLeastLessThanSuc)

lemma digit_in: "isdigit (c_at s i) \<Longrightarrow> i < length s"
  by (simp add: c_at_def ctype_defs split: if_splits)

lemma canon_shape: 
  assumes "vcdCanonDisplayId s VCD_ID_MAX = Some i"
  shows "disc_id i"
proof -
  obtain t where s: "s = Some t" using assms by (cases s) (auto simp: vcdCanonDisplayId_def)
  let ?u = "bounded 16 t"
  consider "id_shape ?u" "i = take 11 ?u"
    | "hyphen_shape ?u" "i = take 15 (take 4 ?u @ ''_'' @ take 3 (drop 5 ?u) @ ''.'' @ take 2 (drop 8 ?u))"
    using assms s by (auto simp: vcdCanonDisplayId_def VCD_ID_MAX_def Let_def bounded_def split: if_splits)
  then show ?thesis
  proof cases
    case 1
    then have "10 < length ?u" using digit_in by (auto simp: id_shape_def)
    then show ?thesis using 1 by (simp add: disc_id_def id_shape_take)
  next
    case 2
    then have "9 < length ?u" using digit_in by (auto simp: hyphen_shape_def)
    then obtain a b c d m e f g h j r where u: "?u = a # b # c # d # m # e # f # g # h # j # r"
      by (auto simp: Suc_le_length_iff less_eq_Suc_le eval_nat_numeral)
    show ?thesis using 2 unfolding u
      by (simp add: disc_id_def id_shape_def hyphen_shape_def c_at_def eval_nat_numeral atLeastLessThanSuc)
  qed
qed

lemma label_underscore:
  assumes "disc_id i" "map to_upper i = i" "t \<noteq> []" "NUL \<notin> set t"
  shows "drop (vcdPopsPartitionTitleOffset (Some (''PP.'' @ i @ ''.POPS.'' @ t))) (''PP.'' @ i @ ''.POPS.'' @ t) = t"
proof -
  have "vcdExtractGameId (Some (i @ ''.POPS.'' @ t)) VCD_ID_MAX = Some i"
    using extract_named [of "[]" i "''.POPS.'' @ t" VCD_ID_MAX] assms(1,2) by (simp add: popstarter_prefixes_def id_delimiter_def VCD_ID_MAX_def)
  moreover obtain c r where "t = c # r" "c \<noteq> NUL" using assms(3,4) by (cases t) auto
  moreover have "length i = 11" using assms(1) by (simp add: disc_id_def)
  ultimately show ?thesis by (simp add: vcdPopsPartitionTitleOffset_def strncmp_eq_def c_at_def nth_append)
qed

lemma extract_needs_underscore: "id_shape p \<Longrightarrow> \<not> hyphen_shape p"
  by (simp add: id_shape_def hyphen_shape_def)

lemma label_hyphen:
  assumes "disc_id i" "t \<noteq> []" "NUL \<notin> set t"
  shows "drop (vcdPopsPartitionTitleOffset (Some (''PP.'' @ hyphen_id i @ ''.POPS.'' @ t))) (''PP.'' @ hyphen_id i @ ''.POPS.'' @ t) = t"
proof -
  let ?t = "hyphen_id i @ ''.POPS.'' @ t"
  have h: "hyphen_shape ?t" using canon_forms(3) [OF assms(1)] by blast
  have l: "length (hyphen_id i) = 10" using assms(1) by (simp add: hyphen_id_def disc_id_def)
  have "vcdSkipPopstarterPrefix (Some ?t) = 0" using h no_prefix by (simp add: hyphen_shape_def)
  then have n: "vcdExtractGameId (Some ?t) VCD_ID_MAX = None" using h extract_needs_underscore by (auto simp: vcdExtractGameId_def Let_def)
  have "c_at ?t 11 = CHR ''P''" using l by (simp add: c_at_def nth_append)
  then have "\<not> isdigit (c_at ?t 11)" by (simp add: ctype_defs)
  moreover obtain c r where "t = c # r" "c \<noteq> NUL" using assms(2,3) by (cases t) auto
  ultimately show ?thesis using h l n by (simp add: vcdPopsPartitionTitleOffset_def strncmp_eq_def c_at_def nth_append)
qed

section \<open>Main results\<close>



text \<open>A second loader prefix is skipped when the identifier is looked for but not counted when it is hidden: the
  name shown starts in the middle of the identifier.\<close>

lemma vcd_double_prefix: "vcdSortKey True (Some ''XX.XX.SLUS_005.51.Ridge'') = Some ''51.Ridge''"
  by code_simp

text \<open>The identifier read from a disc keeps its case, the one of a file name does not.\<close>

lemma vcd_canon_case: "vcdCanonDisplayId (Some ''slus_005.51'') VCD_ID_MAX \<noteq> vcdExtractGameId (Some ''slus_005.51'') VCD_ID_MAX"
  by code_simp

end
