(* ===== verification/MenuList.thy ===== *)
theory MenuList
  imports LinkedList VcdName "HOL-Library.List_Lexorder" "HOL-Library.Multiset"
begin

text \<open>
  The rows of a menu page (\<^verbatim>\<open>src/menusys.c\<close>): a doubly linked list in an explicit store, with appending,
  searching, removing, destroying, and the bubble sort that relinks the nodes.

  A node holds its row, its \<^verbatim>\<open>prev\<close> and its \<^verbatim>\<open>next\<close> pointer; a step through a freed or missing node is \<open>None\<close>.
  The cache arrays of a row, which the renderer uses, are left out.  The strings of the language file are a
  parameter (\<open>lang\<close>).
\<close>

record submenu_item =
  si_icon_id :: int
  si_text :: "cstring option"
  si_text_id :: int
  si_id :: int
  si_favourited :: bool
  si_isFolder :: bool

type_synonym dheap = "nat \<Rightarrow> (submenu_item \<times> ptr \<times> ptr) option"

section \<open>Operations\<close>

definition set_dnext :: "dheap \<Rightarrow> nat \<Rightarrow> ptr \<Rightarrow> dheap" where
  "set_dnext h a n = (case h a of None \<Rightarrow> h | Some (v, p, _) \<Rightarrow> h(a \<mapsto> (v, p, n)))"

definition set_dprev :: "dheap \<Rightarrow> nat \<Rightarrow> ptr \<Rightarrow> dheap" where
  "set_dprev h a p = (case h a of None \<Rightarrow> h | Some (v, _, n) \<Rightarrow> h(a \<mapsto> (v, p, n)))"

definition submenuAllocItem :: "int \<Rightarrow> cstring option \<Rightarrow> int \<Rightarrow> int \<Rightarrow> submenu_item" where
  "submenuAllocItem icon_id txt i text_id =
     \<lparr>si_icon_id = icon_id, si_text = txt, si_text_id = text_id, si_id = i, si_favourited = False, si_isFolder = False\<rparr>"

text \<open>The last node from \<open>cur\<close> on.\<close>

partial_function (option) walk_end :: "dheap \<Rightarrow> nat \<Rightarrow> nat option" where
  "walk_end h cur = (case h cur of
     None \<Rightarrow> None
   | Some (_, _, None) \<Rightarrow> Some cur
   | Some (_, _, Some n) \<Rightarrow> walk_end h n)"

text \<open>\<open>mem\<close> is what \<^verbatim>\<open>malloc\<close> returns.  It is not tested: the fields are stored through it, so NULL is a fault.\<close>

definition submenuAppendItem :: "dheap \<Rightarrow> ptr \<Rightarrow> ptr \<Rightarrow> int \<Rightarrow> cstring option \<Rightarrow> int \<Rightarrow> int \<Rightarrow> (dheap \<times> ptr) option" where
  "submenuAppendItem h submenu mem icon_id txt i text_id = (case mem of
     None \<Rightarrow> None
   | Some a \<Rightarrow>
       let item = submenuAllocItem icon_id txt i text_id in
       (case submenu of
          None \<Rightarrow> Some (h(a \<mapsto> (item, None, None)), Some a)
        | Some p \<Rightarrow>
            (case walk_end h p of
               None \<Rightarrow> None
             | Some cur \<Rightarrow> Some ((set_dnext h cur (Some a))(a \<mapsto> (item, Some cur, None)), submenu))))"

partial_function (option) submenuFindItemByIdAndText :: "dheap \<Rightarrow> ptr \<Rightarrow> int \<Rightarrow> cstring option \<Rightarrow> ptr option" where
  "submenuFindItemByIdAndText h submenu i txt = (case submenu of
     None \<Rightarrow> Some None
   | Some cur \<Rightarrow>
       (case h cur of
          None \<Rightarrow> None
        | Some (v, _, n) \<Rightarrow>
            if si_id v = i \<and> txt \<noteq> None \<and> si_text v = txt then Some (Some cur) else submenuFindItemByIdAndText h n i txt))"

text \<open>The loop of \<^verbatim>\<open>submenuRemoveItem\<close>.\<close>

partial_function (option) remove_loop :: "dheap \<Rightarrow> ptr \<Rightarrow> int \<Rightarrow> ptr \<Rightarrow> ptr \<Rightarrow> (dheap \<times> ptr) option" where
  "remove_loop h submenu i prev cur = (case cur of
     None \<Rightarrow> Some (h, submenu)
   | Some c \<Rightarrow>
       (case h c of
          None \<Rightarrow> None
        | Some (v, _, n) \<Rightarrow>
            if si_id v = i
            then remove_loop ((case prev of None \<Rightarrow> h | Some p \<Rightarrow> set_dnext h p n)(c := None)) (if submenu = cur then n else submenu) i prev n
            else remove_loop h submenu i cur n))"

definition submenuRemoveItem :: "dheap \<Rightarrow> ptr \<Rightarrow> int \<Rightarrow> (dheap \<times> ptr) option" where
  "submenuRemoveItem h submenu i = remove_loop h submenu i None submenu"

partial_function (option) destroy_loop :: "dheap \<Rightarrow> ptr \<Rightarrow> dheap option" where
  "destroy_loop h cur = (case cur of
     None \<Rightarrow> Some h
   | Some c \<Rightarrow> (case h c of None \<Rightarrow> None | Some (_, _, n) \<Rightarrow> destroy_loop (h(c := None)) n))"

definition submenuDestroy :: "dheap \<Rightarrow> ptr \<Rightarrow> (dheap \<times> ptr) option" where
  "submenuDestroy h submenu = map_option (\<lambda>h'. (h', None)) (destroy_loop h submenu)"

section \<open>Sorting\<close>

definition submenuItemGetText :: "(int \<Rightarrow> cstring) \<Rightarrow> submenu_item \<Rightarrow> cstring option" where
  "submenuItemGetText lang it = (if 0 \<le> si_text_id it then Some (lang (si_text_id it)) else si_text it)"

text \<open>\<^verbatim>\<open>strcasecmp\<close>: the difference of the first lower-cased bytes that differ.\<close>

fun strcasecmp :: "cstring \<Rightarrow> cstring \<Rightarrow> int" where
  "strcasecmp [] [] = 0"
| "strcasecmp [] (b # bs) = - int (char_code (to_lower b))"
| "strcasecmp (a # as) [] = int (char_code (to_lower a))"
| "strcasecmp (a # as) (b # bs) =
     (if to_lower a = to_lower b then strcasecmp as bs else int (char_code (to_lower a)) - int (char_code (to_lower b)))"

text \<open>\<open>support\<close> is the list of the mode, if there is one.\<close>

definition row_title :: "(int \<Rightarrow> cstring) \<Rightarrow> bool \<Rightarrow> lib_state \<Rightarrow> item_list option \<Rightarrow> submenu_item \<Rightarrow> cstring option" where
  "row_title lang hide ls support it =
     (let raw = submenuItemGetText lang it in if si_isFolder it then raw else snd (vcdDisplayNameForRow hide ls support (si_id it) raw))"

text \<open>The comparison of two rows; \<open>None\<close> is \<^verbatim>\<open>strcasecmp\<close> of NULL.\<close>

definition row_cmp :: "(submenu_item \<Rightarrow> cstring option) \<Rightarrow> submenu_item \<Rightarrow> submenu_item \<Rightarrow> int option" where
  "row_cmp title v w =
     (if si_isFolder v \<noteq> si_isFolder w then Some (if si_isFolder v then -1 else 1)
      else (case (title v, title w) of (Some t1, Some t2) \<Rightarrow> Some (strcasecmp t1 t2) | _ \<Rightarrow> None))"

text \<open>The four stores of \<^verbatim>\<open>swap\<close> and the two conditional ones.\<close>

definition swap :: "dheap \<Rightarrow> nat \<Rightarrow> nat \<Rightarrow> dheap option" where
  "swap h a b = (case (h a, h b) of
     (Some (va, pa, _), Some (vb, _, nb)) \<Rightarrow>
       let h1 = h(a \<mapsto> (va, Some b, nb), b \<mapsto> (vb, pa, Some a));
           h2 = (case pa of None \<Rightarrow> h1 | Some p \<Rightarrow> set_dnext h1 p (Some b))
       in Some (case nb of None \<Rightarrow> h2 | Some n \<Rightarrow> set_dprev h2 n (Some a))
   | _ \<Rightarrow> None)"

text \<open>One pass over the list: the store, the head, and whether nothing was swapped.\<close>

partial_function (option) sort_pass ::
    "(submenu_item \<Rightarrow> submenu_item \<Rightarrow> int option) \<Rightarrow> dheap \<Rightarrow> nat \<Rightarrow> nat \<Rightarrow> bool \<Rightarrow> (dheap \<times> nat \<times> bool) option" where
  "sort_pass cmp h head tip clean = (case h tip of
     None \<Rightarrow> None
   | Some (v, _, None) \<Rightarrow> Some (h, head, clean)
   | Some (v, _, Some nxt) \<Rightarrow>
       (case h nxt of
          None \<Rightarrow> None
        | Some (w, _, _) \<Rightarrow>
            (case cmp v w of
               None \<Rightarrow> None
             | Some c \<Rightarrow>
                 if 0 < c
                 then (case swap h tip nxt of None \<Rightarrow> None | Some h' \<Rightarrow> sort_pass cmp h' (if tip = head then nxt else head) tip False)
                 else sort_pass cmp h head nxt clean)))"

partial_function (option) sort_loop :: "(submenu_item \<Rightarrow> submenu_item \<Rightarrow> int option) \<Rightarrow> dheap \<Rightarrow> nat \<Rightarrow> (dheap \<times> nat) option" where
  "sort_loop cmp h head = (case sort_pass cmp h head head True of
     None \<Rightarrow> None
   | Some (h', head', clean) \<Rightarrow> if clean then Some (h', head') else sort_loop cmp h' head')"

definition submenuSort :: "(int \<Rightarrow> cstring) \<Rightarrow> bool \<Rightarrow> lib_state \<Rightarrow> (int \<Rightarrow> item_list option) \<Rightarrow> dheap \<Rightarrow> ptr \<Rightarrow> int \<Rightarrow> (dheap \<times> ptr) option" where
  "submenuSort lang hide ls support_of h submenu mode = (case submenu of
     None \<Rightarrow> Some (h, submenu)
   | Some p \<Rightarrow>
       (case h p of
          None \<Rightarrow> None
        | Some (_, _, None) \<Rightarrow> Some (h, submenu)
        | Some (_, _, Some _) \<Rightarrow>
            let support = (if mode_ok mode then support_of mode else None) in
            map_option (\<lambda>(h', p'). (h', Some p')) (sort_loop (row_cmp (row_title lang hide ls support)) h p)))"

section \<open>Representation\<close>

text \<open>The nodes from \<open>p\<close> on are \<open>xs\<close>, linked both ways; \<open>pr\<close> comes before them and \<open>q\<close> behind.\<close>

fun dchain :: "dheap \<Rightarrow> ptr \<Rightarrow> ptr \<Rightarrow> (nat \<times> submenu_item) list \<Rightarrow> ptr \<Rightarrow> bool" where
  "dchain h pr p [] q \<longleftrightarrow> p = q"
| "dchain h pr p ((a, v) # xs) q \<longleftrightarrow> p = Some a \<and> (\<exists>n. h a = Some (v, pr, n) \<and> dchain h (Some a) n xs q)"

definition dl_repr :: "dheap \<Rightarrow> ptr \<Rightarrow> (nat \<times> submenu_item) list \<Rightarrow> bool" where
  "dl_repr h head xs \<longleftrightarrow> distinct (map fst xs) \<and> dchain h None head xs None \<and> dom h = fst ` set xs"

definition last_of :: "ptr \<Rightarrow> (nat \<times> submenu_item) list \<Rightarrow> ptr" where
  "last_of pr xs = (if xs = [] then pr else Some (fst (last xs)))"

lemma last_of_simps [simp]: "last_of pr [] = pr" "last_of pr (x # xs) = last_of (Some (fst x)) xs"
  by (simp_all add: last_of_def)

lemma dchain_append: "dchain h pr p (xs @ ys) q \<longleftrightarrow> (\<exists>r. dchain h pr p xs r \<and> dchain h (last_of pr xs) r ys q)"
proof (induction xs arbitrary: pr p)
  case (Cons x xs)
  then show ?case by (cases x) auto
qed simp

lemma dchain_frame: "\<forall>a \<in> fst ` set xs. h' a = h a \<Longrightarrow> dchain h' pr p xs q = dchain h pr p xs q"
  by (induction xs arbitrary: pr p) auto

lemma dchain_head: "dchain h pr p xs q \<Longrightarrow> p = (case xs of [] \<Rightarrow> q | x # _ \<Rightarrow> Some (fst x))"
  by (cases xs) auto

lemma set_dnext_other [simp]: "b \<noteq> a \<Longrightarrow> set_dnext h a n b = h b" "b \<noteq> a \<Longrightarrow> set_dprev h a n b = h b"
  by (simp_all add: set_dnext_def set_dprev_def split: option.splits)

lemma set_dnext_at: "h a = Some (v, p, m) \<Longrightarrow> set_dnext h a n = h(a \<mapsto> (v, p, n))" "h a = Some (v, m, n) \<Longrightarrow> set_dprev h a p = h(a \<mapsto> (v, p, n))"
  by (simp_all add: set_dnext_def set_dprev_def)

lemma walk_end_last:
  "dchain h pr (Some p) (xs @ [(b, v)]) None \<Longrightarrow> walk_end h p = Some b"
proof (induction xs arbitrary: pr p)
  case Nil
  then show ?case by (subst walk_end.simps) simp
next
  case (Cons x xs)
  obtain a w where x: "x = (a, w)" by (cases x)
  then obtain n where n: "p = a" "h a = Some (w, pr, n)" "dchain h (Some a) n (xs @ [(b, v)]) None" using Cons.prems by auto
  obtain m where "n = Some m" using dchain_head [OF n(3)] by (cases xs) auto
  then show ?case using n Cons.IH [of "Some a" m] by (subst walk_end.simps) simp
qed

lemma dl_repr_dom: "dl_repr h head xs \<Longrightarrow> a \<notin> fst ` set xs \<longleftrightarrow> h a = None"
  by (auto simp: dl_repr_def)

lemma append_repr:
  assumes "dl_repr h head xs" "a \<notin> dom h"
  shows "\<exists>h' head'. submenuAppendItem h head (Some a) icon_id t i text_id = Some (h', head') \<and> dl_repr h' head' (xs @ [(a, submenuAllocItem icon_id t i text_id)])"
proof (cases xs rule: rev_cases)
  case Nil
  then show ?thesis using assms by (auto simp: submenuAppendItem_def dl_repr_def Let_def)
next
  case (snoc ys y)
  obtain b v where y: "y = (b, v)" by (cases y)
  let ?it = "submenuAllocItem icon_id t i text_id"
  have ch: "dchain h None head (ys @ [(b, v)]) None" using assms(1) snoc y by (simp add: dl_repr_def)
  obtain p where p: "head = Some p" using dchain_head [OF ch] by (cases ys) auto
  have w: "walk_end h p = Some b" using walk_end_last ch p by simp
  have hb: "h b = Some (v, last_of None ys, None)" and ys: "dchain h None head ys (Some b)" using ch by (auto simp: dchain_append)
  have d: "a \<notin> fst ` set ys" "a \<noteq> b" "b \<notin> fst ` set ys" using assms snoc y by (auto simp: dl_repr_def)
  let ?h = "(h(b \<mapsto> (v, last_of None ys, Some a)))(a \<mapsto> (?it, Some b, None))"
  have "dchain ?h None head ys (Some b)" using ys d by (subst dchain_frame [of _ _ h]) auto
  then have "dl_repr ?h head (xs @ [(a, ?it)])" using assms snoc y d by (auto simp: dl_repr_def dchain_append)
  then show ?thesis using p w set_dnext_at(1) [of h b v "last_of None ys" None, OF hb] by (simp add: submenuAppendItem_def Let_def)
qed


section \<open>The sort as a function on lists\<close>

fun bubble :: "('a \<Rightarrow> 'k::linorder) \<Rightarrow> 'a list \<Rightarrow> 'a list" where
  "bubble f (x # y # zs) = (if f y < f x then y # bubble f (x # zs) else x # bubble f (y # zs))"
| "bubble f xs = xs"

fun inversions :: "('a \<Rightarrow> 'k::linorder) \<Rightarrow> 'a list \<Rightarrow> nat" where
  "inversions f [] = 0"
| "inversions f (x # xs) = length (filter (\<lambda>y. f y < f x) xs) + inversions f xs"

lemma bubble_mset [simp]: "mset (bubble f xs) = mset xs"
  by (induction f xs rule: bubble.induct) auto

lemma bubble_filter: "filter (\<lambda>x. f k = f x) (bubble f xs) = filter (\<lambda>x. f k = f x) xs"
  by (induction f xs rule: bubble.induct) auto

lemma filter_bubble_length: "length (filter P (bubble f xs)) = length (filter P xs)"
  by (metis bubble_mset mset_filter size_mset)

lemma bubble_inversions: "inversions f (bubble f xs) \<le> inversions f xs \<and> (bubble f xs \<noteq> xs \<longrightarrow> inversions f (bubble f xs) < inversions f xs)"
  by (induction f xs rule: bubble.induct) (auto simp: filter_bubble_length)

lemma bubble_sorted: "bubble f xs = xs \<longleftrightarrow> sorted (map f xs)"
proof (induction f xs rule: bubble.induct)
  case (1 f x y zs)
  then show ?case by (cases "f y < f x") (auto simp: not_less dest: order.strict_trans1 intro: order_trans)
qed simp_all

lemma bubble_Nil [simp]: "bubble f xs = [] \<longleftrightarrow> xs = []"
  by (cases "(f, xs)" rule: bubble.cases) auto

lemma sort_bubble: "sort_key f (bubble f xs) = sort_key f xs"
proof (rule properties_for_sort_key [symmetric])
  show "filter (\<lambda>x. f k = f x) (sort_key f (bubble f xs)) = filter (\<lambda>x. f k = f x) xs" for k
    using sort_key_stable [of f "f k" "bubble f xs"] bubble_filter [of f k xs] by (simp add: eq_commute)
qed simp_all

section \<open>The order of the rows\<close>

definition fold_case :: "cstring \<Rightarrow> nat list" where
  "fold_case = map (\<lambda>c. char_code (to_lower c))"

definition row_key :: "(submenu_item \<Rightarrow> cstring option) \<Rightarrow> submenu_item \<Rightarrow> nat list" where
  "row_key title it = (if si_isFolder it then 0 else 1) # fold_case (the (title it))"

definition titled :: "(submenu_item \<Rightarrow> cstring option) \<Rightarrow> submenu_item \<Rightarrow> bool" where
  "titled title it \<longleftrightarrow> (case title it of None \<Rightarrow> False | Some t \<Rightarrow> NUL \<notin> set t)"

lemma char_code_eq: "char_code a = char_code b \<longleftrightarrow> a = b"
  by (simp add: char_code_def)

lemma to_lower_pos: "c \<noteq> NUL \<Longrightarrow> 0 < char_code (to_lower c)"
  using char_code_eq [of c NUL] by (auto simp: to_lower_def ctype_defs of_char_of take_bit_eq_mod)

lemma strcasecmp_fold: "NUL \<notin> set a \<Longrightarrow> NUL \<notin> set b \<Longrightarrow> 0 < strcasecmp a b \<longleftrightarrow> fold_case b < fold_case a"
  by (induction a b rule: strcasecmp.induct) (auto simp: fold_case_def to_lower_pos char_code_eq not_less)

lemma row_cmp_key:
  assumes "titled title v" "titled title w"
  shows "\<exists>c. row_cmp title v w = Some c \<and> (0 < c \<longleftrightarrow> row_key title w < row_key title v)"
  using assms by (auto simp: row_cmp_def row_key_def titled_def strcasecmp_fold split: option.splits)


section \<open>The pointer sort\<close>

lemma dchain_set_other:
  "l \<notin> fst ` set xs \<Longrightarrow> dchain (set_dnext h l n) pr p xs q = dchain h pr p xs q" "l \<notin> fst ` set xs \<Longrightarrow> dchain (set_dprev h l n) pr p xs q = dchain h pr p xs q"
  by (rule dchain_frame, metis set_dnext_other(1)) (rule dchain_frame, metis set_dnext_other(2))

lemma relink_next:
  assumes "dchain h pr p us (Some a)" "distinct (map fst us)" "us \<noteq> []" "l = fst (last us)"
  shows "dchain (set_dnext h l (Some b)) pr p us (Some b)"
proof -
  obtain us' v where us: "us = us' @ [(l, v)]" using assms(3,4) by (cases us rule: rev_cases) auto
  have hl: "h l = Some (v, last_of pr us', Some a)" and ch: "dchain h pr p us' (Some l)" using assms(1) us by (auto simp: dchain_append)
  have "dchain (set_dnext h l (Some b)) pr p us' (Some l)" using ch assms(2) us dchain_set_other by auto
  then show ?thesis using us set_dnext_at(1) [of h l v "last_of pr us'" "Some a" "Some b", OF hl] by (auto simp: dchain_append)
qed

lemma relink_prev:
  assumes "dchain h pr (Some c) zs q" "distinct (map fst zs)" "zs \<noteq> []"
  shows "dchain (set_dprev h c pr') pr' (Some c) zs q"
proof -
  obtain v zs' where zs: "zs = (c, v) # zs'" using assms(1,3) by (cases zs) auto
  then obtain n where n: "h c = Some (v, pr, n)" "dchain h (Some c) n zs' q" using assms(1) by auto
  have "dchain (set_dprev h c pr') (Some c) n zs' q" using n(2) assms(2) zs dchain_set_other by auto
  then show ?thesis using zs set_dnext_at(2) [of h c v pr n pr', OF n(1)] by auto
qed

lemma set_dnext_cong:
  "h1 x = h x \<Longrightarrow> h1 l = h l \<Longrightarrow> set_dnext h1 l n x = set_dnext h l n x" "h1 x = h x \<Longrightarrow> h1 l = h l \<Longrightarrow> set_dprev h1 l n x = set_dprev h l n x"
  by (auto simp: set_dnext_def set_dprev_def split: option.splits)

lemma swap_repr:
  assumes "dl_repr h (Some hp) (us @ (a, va) # (b, vb) # zs)"
  shows "\<exists>h'. swap h a b = Some h' \<and> dl_repr h' (Some (if a = hp then b else hp)) (us @ (b, vb) # (a, va) # zs)"
proof -
  have dist: "distinct (map fst (us @ (a, va) # (b, vb) # zs))" and dom: "dom h = fst ` set (us @ (a, va) # (b, vb) # zs)" using assms by (auto simp: dl_repr_def)
  obtain nb where us: "dchain h None (Some hp) us (Some a)" and ha: "h a = Some (va, last_of None us, Some b)"
    and hb: "h b = Some (vb, Some a, nb)" and zs: "dchain h (Some b) nb zs None"
    using assms by (auto simp: dl_repr_def dchain_append)
  define h1 where "h1 = h(a \<mapsto> (va, Some b, nb), b \<mapsto> (vb, last_of None us, Some a))"
  define h2 where "h2 = (case last_of None us of None \<Rightarrow> h1 | Some p \<Rightarrow> set_dnext h1 p (Some b))"
  define h3 where "h3 = (case nb of None \<Rightarrow> h2 | Some n \<Rightarrow> set_dprev h2 n (Some a))"
  have sw: "swap h a b = Some h3" unfolding h3_def h2_def h1_def by (simp add: swap_def ha hb Let_def)
  have nb: "nb = (case zs of [] \<Rightarrow> None | z # _ \<Rightarrow> Some (fst z))" using dchain_head [OF zs] by simp
  have l: "last_of None us = (if us = [] then None else Some (fst (last us)))" by (simp add: last_of_def)
  have l_in: "y \<noteq> fst (last us)" if "us \<noteq> []" "y \<notin> fst ` set us" for y using that by (metis image_eqI last_in_set)
  have dom3: "dom h3 = dom h" using ha hb
    by (auto simp: h3_def h2_def h1_def set_dnext_def set_dprev_def split: option.splits if_splits)
  have us3: "dchain h3 None (Some (if a = hp then b else hp)) us (Some b)"
  proof (cases "us = []")
    case True
    then show ?thesis using us by simp
  next
    case False
    let ?l = "fst (last us)"
    have lin: "?l \<in> fst ` set us" using False by simp
    have hp: "hp \<in> fst ` set us" using us False by (cases us) auto
    have "h3 x = set_dnext h ?l (Some b) x" if "x \<in> fst ` set us" for x
    proof -
      have x: "x \<noteq> a" "x \<noteq> b" "x \<notin> fst ` set zs" "?l \<noteq> a" "?l \<noteq> b" using that lin dist by auto
      then have "h3 x = h2 x" using nb by (auto simp: h3_def split: list.splits option.splits)
      also have "\<dots> = set_dnext h ?l (Some b) x" using False l x by (auto simp: h2_def h1_def intro!: set_dnext_cong)
      finally show ?thesis .
    qed
    then have "dchain h3 None (Some hp) us (Some b) = dchain (set_dnext h ?l (Some b)) None (Some hp) us (Some b)" by (intro dchain_frame) auto
    moreover have "a \<noteq> hp" using hp dist by auto
    ultimately show ?thesis using relink_next [OF us] dist False by simp
  qed
  have zs3: "dchain h3 (Some a) nb zs None"
  proof (cases zs)
    case Nil
    then show ?thesis using nb by simp
  next
    case (Cons z zs')
    let ?c = "fst z"
    have nbc: "nb = Some ?c" using nb Cons by simp
    have "h3 x = set_dprev h ?c (Some a) x" if "x \<in> fst ` set zs" for x
    proof -
      have dj: "fst ` set us \<inter> fst ` set zs = {}" "a \<notin> fst ` set zs" "b \<notin> fst ` set zs" "?c \<in> fst ` set zs" using dist Cons by auto
      have x: "x \<noteq> a" "x \<noteq> b" "x \<notin> fst ` set us" "?c \<noteq> a" "?c \<noteq> b" "?c \<notin> fst ` set us" using that dj by blast+
      have e: "h2 y = h y" if "y \<notin> fst ` set us" "y \<noteq> a" "y \<noteq> b" for y
        using that l l_in [of y] by (auto simp: h2_def h1_def split: option.splits)
      show ?thesis using nbc e [of x] e [of ?c] x by (auto simp: h3_def intro!: set_dnext_cong)
    qed
    then have "dchain h3 (Some a) nb zs None = dchain (set_dprev h ?c (Some a)) (Some a) nb zs None" by (intro dchain_frame) auto
    then show ?thesis using relink_prev [of h "Some b" ?c zs None "Some a"] zs nbc dist Cons by simp
  qed
  have ab: "h3 a = Some (va, Some b, nb)" "h3 b = Some (vb, last_of None us, Some a)"
  proof -
    have e: "h3 y = h1 y" if "y \<notin> fst ` set us" "y \<notin> fst ` set zs" for y
      using that l nb l_in [of y] by (auto simp: h3_def h2_def split: option.splits list.splits)
    show "h3 a = Some (va, Some b, nb)" "h3 b = Some (vb, last_of None us, Some a)" using e [of a] e [of b] dist by (auto simp: h1_def)
  qed
  have "dl_repr h3 (Some (if a = hp then b else hp)) (us @ (b, vb) # (a, va) # zs)"
    using us3 zs3 ab dist dom dom3 by (auto simp: dl_repr_def dchain_append)
  then show ?thesis using sw by blast
qed


text \<open>One pass is one bubble; it reports whether nothing had to be moved.\<close>

lemma sort_pass_repr:
  assumes "dl_repr h (Some hp) (us @ x # zs)" "\<forall>y \<in> set (x # zs). titled title (snd y)"
  shows "\<exists>h' hp'. sort_pass (row_cmp title) h hp (fst x) clean =
      Some (h', hp', clean \<and> bubble (row_key title \<circ> snd) (x # zs) = x # zs) \<and> dl_repr h' (Some hp') (us @ bubble (row_key title \<circ> snd) (x # zs))"
  using assms
proof (induction zs arbitrary: h hp us x clean)
  case Nil
  obtain a v where x: "x = (a, v)" by (cases x)
  then have "h a = Some (v, last_of None us, None)" using Nil.prems(1) by (auto simp: dl_repr_def dchain_append)
  then show ?case using Nil.prems(1) x by (subst sort_pass.simps) simp
next
  case (Cons y zs)
  let ?f = "row_key title \<circ> snd"
  obtain a v b w where x: "x = (a, v)" and y: "y = (b, w)" by (cases x, cases y)
  obtain n where ha: "h a = Some (v, last_of None us, Some b)" and hb: "h b = Some (w, Some a, n)"
    using Cons.prems(1) x y by (auto simp: dl_repr_def dchain_append)
  obtain c where c: "row_cmp title v w = Some c" "0 < c \<longleftrightarrow> row_key title w < row_key title v" using row_cmp_key Cons.prems(2) x y by fastforce
  show ?case
  proof (cases "0 < c")
    case True
    obtain h' where h': "swap h a b = Some h'" "dl_repr h' (Some (if a = hp then b else hp)) (us @ (b, w) # (a, v) # zs)"
      using swap_repr Cons.prems(1) x y by blast
    then have d: "dl_repr h' (Some (if a = hp then b else hp)) ((us @ [y]) @ x # zs)" using x y by simp
    show ?thesis using Cons.IH [OF d, of False] Cons.prems(2) True c x y ha hb h' by (subst sort_pass.simps) (auto simp: comp_def)
  next
    case False
    have d: "dl_repr h (Some hp) ((us @ [x]) @ y # zs)" using Cons.prems(1) by simp
    show ?thesis using Cons.IH [OF d, of clean] Cons.prems(2) False c x y ha hb by (subst sort_pass.simps) (auto simp: comp_def)
  qed
qed

lemma sort_loop_repr:
  assumes "dl_repr h (Some hp) xs" "xs \<noteq> []" "\<forall>y \<in> set xs. titled title (snd y)"
  shows "\<exists>h' hp'. sort_loop (row_cmp title) h hp = Some (h', hp') \<and> dl_repr h' (Some hp') (sort_key (row_key title \<circ> snd) xs)"
  using assms
proof (induction "inversions (row_key title \<circ> snd) xs" arbitrary: h hp xs rule: less_induct)
  case less
  let ?f = "row_key title \<circ> snd"
  obtain x zs where xs: "xs = x # zs" using less.prems(2) by (cases xs) auto
  have hp: "hp = fst x" using less.prems(1) xs by (cases x) (auto simp: dl_repr_def)
  obtain h' hp' where p: "sort_pass (row_cmp title) h hp hp True = Some (h', hp', bubble ?f xs = xs)" "dl_repr h' (Some hp') (bubble ?f xs)"
    using sort_pass_repr [of h hp "[]" x zs title True] less.prems xs hp by auto
  show ?case
  proof (cases "bubble ?f xs = xs")
    case True
    then have "sort_key ?f xs = xs" by (simp add: bubble_sorted sorted_sort_id sort_key_id_if_sorted)
    then show ?thesis using True p by (subst sort_loop.simps) simp
  next
    case False
    have "mset (bubble ?f xs) = mset xs" by simp
    then have s: "set (bubble ?f xs) = set xs" by (metis set_mset_mset)
    have "\<exists>h'' hp''. sort_loop (row_cmp title) h' hp' = Some (h'', hp'') \<and> dl_repr h'' (Some hp'') (sort_key ?f (bubble ?f xs))"
      using less.hyps [of "bubble ?f xs" h' hp'] bubble_inversions [of ?f xs] False p(2) less.prems(2,3) s by simp
    moreover have "sort_key ?f (bubble ?f xs) = sort_key ?f xs" by (rule sort_bubble)
    ultimately show ?thesis using p(1) False by (subst sort_loop.simps) simp
  qed
qed


section \<open>Removing and destroying\<close>

text \<open>The forward links only.\<close>

fun fchain :: "dheap \<Rightarrow> ptr \<Rightarrow> (nat \<times> submenu_item) list \<Rightarrow> ptr \<Rightarrow> bool" where
  "fchain h p [] q \<longleftrightarrow> p = q"
| "fchain h p ((a, v) # xs) q \<longleftrightarrow> p = Some a \<and> (\<exists>pr n. h a = Some (v, pr, n) \<and> fchain h n xs q)"

lemma dchain_fchain: "dchain h pr p xs q \<Longrightarrow> fchain h p xs q"
  by (induction xs arbitrary: pr p) auto

lemma fchain_append: "fchain h p (xs @ ys) q \<longleftrightarrow> (\<exists>r. fchain h p xs r \<and> fchain h r ys q)"
proof (induction xs arbitrary: p)
  case (Cons x xs)
  then show ?case by (cases x) auto
qed simp

lemma fchain_frame: "\<forall>a \<in> fst ` set xs. h' a = h a \<Longrightarrow> fchain h' p xs q = fchain h p xs q"
  by (induction xs arbitrary: p) auto

lemma fchain_free: "a \<notin> fst ` set xs \<Longrightarrow> fchain (h(a := None)) p xs q = fchain h p xs q"
  by (induction xs arbitrary: p) auto

lemma fchain_relink:
  assumes "fchain h p us r" "distinct (map fst us)" "us \<noteq> []"
  shows "fchain (set_dnext h (fst (last us)) r') p us r'"
proof -
  obtain us' l v where us: "us = us' @ [(l, v)]" using assms(3) by (cases us rule: rev_cases) auto
  then obtain pr where hl: "h l = Some (v, pr, r)" and ch: "fchain h p us' (Some l)" using assms(1) by (auto simp: fchain_append)
  have "l \<notin> fst ` set us'" using assms(2) us by simp
  then have "fchain (set_dnext h l r') p us' (Some l)" using ch fchain_frame [of us' "set_dnext h l r'" h] set_dnext_other(1) by metis
  then show ?thesis using us set_dnext_at(1) [of h l v pr r r', OF hl] by (auto simp: fchain_append)
qed

lemma destroy_loop_all:
  "fchain h p xs None \<Longrightarrow> distinct (map fst xs) \<Longrightarrow> destroy_loop h p = Some (\<lambda>a. if a \<in> fst ` set xs then None else h a)"
proof (induction xs arbitrary: h p)
  case Nil
  then show ?case by (subst destroy_loop.simps) simp
next
  case (Cons x xs)
  obtain a v where x: "x = (a, v)" by (cases x)
  then obtain pr n where a: "p = Some a" "h a = Some (v, pr, n)" "fchain h n xs None" using Cons.prems(1) by auto
  have "fchain (h(a := None)) n xs None" using a(3) Cons.prems(2) x fchain_free by auto
  then have "destroy_loop (h(a := None)) n = Some (\<lambda>b. if b \<in> fst ` set xs then None else (h(a := None)) b)" using Cons.IH Cons.prems(2) by auto
  then show ?case using a x by (subst destroy_loop.simps) (auto simp: fun_eq_iff)
qed

text \<open>\<open>us\<close> are the nodes kept so far, \<open>ys\<close> those still to be looked at.\<close>

lemma remove_loop_filter:
  assumes "fchain h sub us c" "fchain h c ys None" "distinct (map fst (us @ ys))"
  shows "\<exists>h' sub'. remove_loop h sub i (last_of None us) c = Some (h', sub') \<and> fchain h' sub' (us @ filter (\<lambda>y. si_id (snd y) \<noteq> i) ys) None \<and>
     dom h' = dom h - fst ` {y \<in> set ys. si_id (snd y) = i}"
  using assms
proof (induction ys arbitrary: h sub us c)
  case Nil
  then show ?case by (subst remove_loop.simps) auto
next
  case (Cons y ys)
  obtain a v where y: "y = (a, v)" by (cases y)
  then obtain pr n where a: "c = Some a" "h a = Some (v, pr, n)" "fchain h n ys None" using Cons.prems(2) by auto
  have dj: "a \<notin> fst ` set us" "a \<notin> fst ` set ys" "fst ` set us \<inter> fst ` set ys = {}" using Cons.prems(3) y by auto
  show ?case
  proof (cases "si_id v = i")
    case False
    have u: "fchain h sub (us @ [y]) n" using Cons.prems(1) a y by (auto simp: fchain_append)
    have "{z \<in> set (y # ys). si_id (snd z) = i} = {z \<in> set ys. si_id (snd z) = i}" using False y by auto
    then show ?thesis using Cons.IH [OF u a(3)] Cons.prems(3) False a y by (subst remove_loop.simps) (simp add: last_of_def)
  next
    case True
    define h1 where "h1 = (case last_of None us of None \<Rightarrow> h | Some p \<Rightarrow> set_dnext h p n)(a := None)"
    have l: "last_of None us = (if us = [] then None else Some (fst (last us)))" by (simp add: last_of_def)
    have keep: "h1 b = h b" if "b \<in> fst ` set ys" for b
    proof -
      have "us \<noteq> [] \<Longrightarrow> fst (last us) \<in> fst ` set us" by simp
      then have "us \<noteq> [] \<Longrightarrow> b \<noteq> fst (last us)" "b \<noteq> a" using that dj by blast+
      then show ?thesis by (auto simp: h1_def l)
    qed
    have "fchain h1 n ys None" using a(3) keep fchain_frame [of ys h1 h] by simp
    moreover have "fchain h1 (if sub = c then n else sub) us n"
    proof (cases "us = []")
      case True
      then show ?thesis using Cons.prems(1) by simp
    next
      case False
      then have "sub = Some (fst (hd us))" using Cons.prems(1) by (cases us) auto
      moreover have "fst (hd us) \<in> fst ` set us" using False by simp
      ultimately have "sub \<noteq> c" using a(1) dj(1) by auto
      moreover have "fchain (set_dnext h (fst (last us)) n) sub us n" using fchain_relink [OF Cons.prems(1)] Cons.prems(3) False by simp
      then have "fchain h1 sub us n" using False dj(1) fchain_free by (auto simp: h1_def l)
      ultimately show ?thesis by simp
    qed
    ultimately obtain h' sub' where r: "remove_loop h1 (if sub = c then n else sub) i (last_of None us) n = Some (h', sub')"
      "fchain h' sub' (us @ filter (\<lambda>y. si_id (snd y) \<noteq> i) ys) None" "dom h' = dom h1 - fst ` {y \<in> set ys. si_id (snd y) = i}"
      using Cons.IH [of h1 "if sub = c then n else sub" us n] Cons.prems(3) by auto
    have "dom h1 = dom h - {a}" by (auto simp: h1_def set_dnext_def split: option.splits if_splits)
    moreover have "{z \<in> set (y # ys). si_id (snd z) = i} = insert y {z \<in> set ys. si_id (snd z) = i}" using True y by auto
    ultimately have "dom h' = dom h - fst ` {z \<in> set (y # ys). si_id (snd z) = i}" using r(3) y by auto
    moreover have "remove_loop h sub i (last_of None us) c = Some (h', sub')"
      using r(1) a True by (subst remove_loop.simps) (simp add: h1_def)
    ultimately show ?thesis using r(2) True y by auto
  qed
qed


lemma find_spec:
  "fchain h p xs None \<Longrightarrow> submenuFindItemByIdAndText h p i t =
     Some (map_option fst (find (\<lambda>y. si_id (snd y) = i \<and> t \<noteq> None \<and> si_text (snd y) = t) xs))"
proof (induction xs arbitrary: p)
  case Nil
  then show ?case by (subst submenuFindItemByIdAndText.simps) simp
next
  case (Cons x xs)
  then show ?case by (cases x) (subst submenuFindItemByIdAndText.simps, auto)
qed

lemma sort_repr:
  assumes "dl_repr h submenu xs" "\<forall>y \<in> set xs. titled (row_title lang hide ls (if mode_ok mode then support_of mode else None)) (snd y)"
  shows "\<exists>h' submenu'. submenuSort lang hide ls support_of h submenu mode = Some (h', submenu') \<and>
    dl_repr h' submenu' (sort_key (row_key (row_title lang hide ls (if mode_ok mode then support_of mode else None)) \<circ> snd) xs)"
proof (cases xs)
  case Nil
  then show ?thesis using assms(1) by (auto simp: submenuSort_def dl_repr_def)
next
  case (Cons x zs)
  obtain a v where x: "x = (a, v)" by (cases x)
  then obtain n where a: "submenu = Some a" "h a = Some (v, None, n)" "dchain h (Some a) n zs None"
    using assms(1) Cons by (auto simp: dl_repr_def)
  show ?thesis
  proof (cases zs)
    case Nil
    then show ?thesis using assms(1) Cons x a by (auto simp: submenuSort_def)
  next
    case (Cons y ws)
    then obtain b where "n = Some b" using a(3) by (cases y) auto
    then show ?thesis using sort_loop_repr [of h a xs "row_title lang hide ls (if mode_ok mode then support_of mode else None)"] assms a \<open>xs = x # zs\<close> by (auto simp: submenuSort_def)
  qed
qed

lemma destroy_repr: "dl_repr h submenu xs \<Longrightarrow> submenuDestroy h submenu = Some (\<lambda>_. None, None)"
  using destroy_loop_all [of h submenu xs] dchain_fchain [of h None submenu xs None]
  by (auto simp: dl_repr_def submenuDestroy_def fun_eq_iff domIff)

section \<open>Main results\<close>

text \<open>C20. Sorting a page always ends, whatever the rows are, as long as each has a title: the rows are then in
  the stable order by folders first and title without case (\<^const>\<open>sort_key\<close>), every node is still there once, and the
  links in both directions are those of the new order.\<close>

theorem submenu_sort:
  assumes title_def: "title = row_title lang hide ls (if mode_ok mode then support_of mode else None)" and "dl_repr h submenu xs" "\<forall>y \<in> set xs. titled title (snd y)"
  shows "\<exists>h' submenu'. submenuSort lang hide ls support_of h submenu mode = Some (h', submenu') \<and>
    dl_repr h' submenu' (sort_key (row_key title \<circ> snd) xs)"
  using sort_repr assms by blast

text \<open>The list of rows: a row is appended behind all others with the links of both directions, the search finds
  the first row with the number and text, and destroying frees every node and leaves NULL.  Removing by number
  keeps exactly the other rows, in their order, and frees the removed ones; it promises the forward links only.\<close>

lemma submenu_list_ops:
  assumes "dl_repr h submenu xs" "a \<notin> dom h"
  shows "(\<exists>h' submenu'. submenuAppendItem h submenu (Some a) icon_id t i text_id = Some (h', submenu') \<and>
        dl_repr h' submenu' (xs @ [(a, submenuAllocItem icon_id t i text_id)])) \<and>
    submenuFindItemByIdAndText h submenu i t = Some (map_option fst (find (\<lambda>y. si_id (snd y) = i \<and> t \<noteq> None \<and> si_text (snd y) = t) xs)) \<and>
    submenuDestroy h submenu = Some (\<lambda>_. None, None) \<and>
    (\<exists>h' submenu'. submenuRemoveItem h submenu i = Some (h', submenu') \<and> fchain h' submenu' (filter (\<lambda>y. si_id (snd y) \<noteq> i) xs) None \<and>
        dom h' = fst ` {y \<in> set xs. si_id (snd y) \<noteq> i})"
proof -
  have f: "fchain h submenu xs None" and d: "distinct (map fst xs)" and dom: "dom h = fst ` set xs" using assms(1) dchain_fchain by (auto simp: dl_repr_def)
  have "fst ` set xs - fst ` {y \<in> set xs. si_id (snd y) = i} = fst ` {y \<in> set xs. si_id (snd y) \<noteq> i}"
    using d by (auto simp: distinct_map inj_on_def)
  moreover have "(\<lambda>a. if a \<in> fst ` set xs then None else h a) = (\<lambda>_. None)" using dom by (auto simp: fun_eq_iff domIff)
  ultimately show ?thesis
    using append_repr [OF assms, of icon_id t i text_id] find_spec [OF f, of i t] destroy_loop_all [OF f d]
      remove_loop_filter [of h submenu "[]" submenu xs i] f d dom by (simp add: submenuDestroy_def submenuRemoveItem_def)
qed

definition sample_row :: "cstring \<Rightarrow> int \<Rightarrow> bool \<Rightarrow> submenu_item" where
  "sample_row t i folder = (submenuAllocItem 0 (Some t) i (-1))\<lparr>si_isFolder := folder\<rparr>"

lemma sample_row_simps [simp]: "si_isFolder (sample_row t i f) = f" "si_id (sample_row t i f) = i" "si_text (sample_row t i f) = Some t"
  by (simp_all add: sample_row_def submenuAllocItem_def)

definition sample_rows :: dheap where
  "sample_rows = [0 \<mapsto> (sample_row ''b'' 1 False, None, Some 1), 1 \<mapsto> (sample_row ''A'' 2 False, Some 0, Some 2), 2 \<mapsto> (sample_row ''z'' 3 True, Some 1, None)]"

lemma sample_rows_repr: "dl_repr sample_rows (Some 0) [(0, sample_row ''b'' 1 False), (1, sample_row ''A'' 2 False), (2, sample_row ''z'' 3 True)]"
  by (auto simp: dl_repr_def sample_rows_def split: if_splits)

theorem submenu_sort_witness:
  "\<exists>h' submenu'. submenuSort (\<lambda>_. []) False (lib_init 0 False) (\<lambda>_. None) sample_rows (Some 0) 0 = Some (h', submenu') \<and>
    dl_repr h' submenu' [(2, sample_row ''z'' 3 True), (1, sample_row ''A'' 2 False), (0, sample_row ''b'' 1 False)]"
proof -
  define title where "title = row_title (\<lambda>_. []) False (lib_init 0 False) (if mode_ok 0 then None else None)"
  have t: "title (sample_row t i f) = Some t" for t i f
    by (simp add: title_def row_title_def submenuItemGetText_def sample_row_def submenuAllocItem_def vcdDisplayNameForRow_def Let_def)
  let ?xs = "[(0, sample_row ''b'' 1 False), (1, sample_row ''A'' 2 False), (2, sample_row ''z'' 3 True)]"
  have "sort_key (row_key title \<circ> snd) ?xs = [(2, sample_row ''z'' 3 True), (1, sample_row ''A'' 2 False), (0::nat, sample_row ''b'' 1 False)]"
    by (simp add: row_key_def t fold_case_def to_lower_def ctype_defs)
  moreover have "\<forall>y \<in> set ?xs. titled title (snd y)" by (simp add: titled_def t)
  ultimately show ?thesis using submenu_sort [OF _ sample_rows_repr, of title "\<lambda>_. []" False "lib_init 0 False" 0 "\<lambda>_. None"] by (simp add: title_def)
qed

lemma submenu_list_ops_witness:
  "\<exists>h' submenu'. submenuRemoveItem sample_rows (Some 0) 2 = Some (h', submenu') \<and> fchain h' submenu' [(0, sample_row ''b'' 1 False), (2, sample_row ''z'' 3 True)] None"
proof -
  have "3 \<notin> dom sample_rows" by (simp add: sample_rows_def)
  from submenu_list_ops [OF sample_rows_repr this, of 0 None 2 0] show ?thesis by simp blast
qed

text \<open>After a removal the successor still points back to the freed node.\<close>

lemma submenu_remove_dangling:
  "\<exists>h'. submenuRemoveItem sample_rows (Some 0) 2 = Some (h', Some 0) \<and> h' 1 = None \<and> h' 2 = Some (sample_row ''z'' 3 True, Some 1, None)"
  by (simp add: submenuRemoveItem_def remove_loop.simps sample_rows_def sample_row_def submenuAllocItem_def set_dnext_def)

text \<open>Asking for the view of a row does not change what any row of the list shows later.\<close>

lemma row_view_stable: "snd (libListRowView (fst (libListRowView s l i)) l j) = snd (libListRowView s l j)"
  by (auto simp: libListRowView_def libListViewActive_def libViewActive_def libViewMixedActive_def Let_def split: option.splits view_override.splits)

end
