(* ===== verification/MenuNav.thy ===== *)
theory MenuNav
  imports MenuList FolderBrowse
begin

text \<open>
  Moving through the pages and their rows (\<^verbatim>\<open>src/menusys.c\<close>) and the deferred operations that fill them
  (\<^verbatim>\<open>guiDeferUpdate\<close>, \<^verbatim>\<open>guiHandleOp\<close>, \<^verbatim>\<open>guiHandleDeferredOps\<close> of \<^verbatim>\<open>src/gui.c\<close>).

  A page holds pointers into its own row list: the head (once in the page, once in the module that owns the
  list), the selected row, the first row shown and the tail.  The pages that exist are a table; the menu is the
  list of those that were added, in order, and the selection a position of it.  \<open>d\<close> is the number of rows the
  theme shows.  Sounds, animations and hints on screen are left out.  \<open>alloc\<close> is what \<^verbatim>\<open>malloc\<close> gives for a new
  row; a row for which it gives NULL is a fault, because the code stores through it untested.

  Two threads are at work.  The worker queues operations (and counts each one after it has released the queue), shows or hides
  pages, and clears the list of a page under \<^verbatim>\<open>guiLock\<close>.  The user interface drains the queue inside that
  lock, but handles the pad after it has given it up, so a clear can fall between the
  point where a move reads the pointers of its page and the point where it follows them.  \<open>nav_step\<close> has whole
  moves; \<open>nav_conc\<close> and \<open>conc_step\<close> put these two points and the worker between them, and
  \<open>nc_raced\<close> records whether a list was cleared under a move.
\<close>

record page =
  pg_heap :: dheap
  pg_subMenu :: ptr
  pg_text :: "cstring option"
  pg_text_id :: int
  pg_visible :: bool
  pg_userdata :: "(int \<times> int) option"
  pg_submenu :: ptr
  pg_current :: ptr
  pg_pagestart :: ptr
  pg_last :: ptr
  pg_remindLast :: bool
  pg_hints :: "(int \<times> int) list"

definition dnext :: "dheap \<Rightarrow> nat \<Rightarrow> ptr option" where
  "dnext h a = map_option (\<lambda>(_, _, n). n) (h a)"

definition dprev :: "dheap \<Rightarrow> nat \<Rightarrow> ptr option" where
  "dprev h a = map_option (\<lambda>(_, p, _). p) (h a)"

section \<open>Moving inside a page\<close>

text \<open>\<^verbatim>\<open>while (--itms && cur->prev) cur = cur->prev;\<close> and the same forwards.\<close>

partial_function (option) back_loop :: "dheap \<Rightarrow> int \<Rightarrow> nat \<Rightarrow> nat option" where
  "back_loop h itms cur =
     (if itms - 1 = 0 then Some cur
      else (case dprev h cur of None \<Rightarrow> None | Some None \<Rightarrow> Some cur | Some (Some p) \<Rightarrow> back_loop h (itms - 1) p))"

partial_function (option) fwd_loop :: "dheap \<Rightarrow> int \<Rightarrow> nat \<Rightarrow> nat option" where
  "fwd_loop h itms cur =
     (if itms - 1 = 0 then Some cur
      else (case dnext h cur of None \<Rightarrow> None | Some None \<Rightarrow> Some cur | Some (Some n) \<Rightarrow> fwd_loop h (itms - 1) n))"

text \<open>Whether the selected row is among the rows shown.\<close>

partial_function (option) page_scan :: "dheap \<Rightarrow> int \<Rightarrow> ptr \<Rightarrow> ptr \<Rightarrow> bool option" where
  "page_scan h itms current cur =
     (if itms - 1 = 0 then Some False
      else (case cur of
        None \<Rightarrow> Some False
      | Some c \<Rightarrow> if current = cur then Some True
                  else (case dnext h c of None \<Rightarrow> None | Some n \<Rightarrow> page_scan h (itms - 1) current n)))"

partial_function (option) probe_loop :: "dheap \<Rightarrow> int \<Rightarrow> ptr \<Rightarrow> ptr option" where
  "probe_loop h n probe =
     (if n = 0 then Some probe
      else (case probe of
        None \<Rightarrow> Some None
      | Some c \<Rightarrow> (case dnext h c of None \<Rightarrow> None | Some m \<Rightarrow> probe_loop h (n - 1) m)))"

definition menuFirstPage :: "page \<Rightarrow> page" where
  "menuFirstPage pg =
     (if pg_current pg = None then pg else pg\<lparr>pg_current := pg_submenu pg, pg_pagestart := pg_submenu pg\<rparr>)"

definition menuLastPage :: "int \<Rightarrow> page \<Rightarrow> page option" where
  "menuLastPage d pg = (case pg_current pg of
     None \<Rightarrow> Some pg
   | Some c \<Rightarrow>
       (case walk_end (pg_heap pg) c of
          None \<Rightarrow> None
        | Some e \<Rightarrow>
            (case back_loop (pg_heap pg) d e of
               None \<Rightarrow> None
             | Some s \<Rightarrow> Some (pg\<lparr>pg_current := Some e, pg_pagestart := Some s\<rparr>))))"

definition menuNextV :: "int \<Rightarrow> page \<Rightarrow> page option" where
  "menuNextV d pg = (case pg_current pg of
     None \<Rightarrow> Some (menuFirstPage pg)
   | Some c \<Rightarrow>
       (case dnext (pg_heap pg) c of
          None \<Rightarrow> None
        | Some None \<Rightarrow> Some (menuFirstPage pg)
        | Some (Some n) \<Rightarrow>
            (case page_scan (pg_heap pg) (d + 1) (Some n) (pg_pagestart pg) of
               None \<Rightarrow> None
             | Some found \<Rightarrow> Some (if found then pg\<lparr>pg_current := Some n\<rparr> else pg\<lparr>pg_current := Some n, pg_pagestart := Some n\<rparr>))))"

definition menuPrevV :: "int \<Rightarrow> page \<Rightarrow> page option" where
  "menuPrevV d pg = (case pg_current pg of
     None \<Rightarrow> menuLastPage d pg
   | Some c \<Rightarrow>
       (case dprev (pg_heap pg) c of
          None \<Rightarrow> None
        | Some None \<Rightarrow> menuLastPage d pg
        | Some (Some p) \<Rightarrow>
            if pg_pagestart pg = Some c
            then map_option (\<lambda>s. pg\<lparr>pg_current := Some p, pg_pagestart := Some s\<rparr>) (back_loop (pg_heap pg) (d + 1) c)
            else Some (pg\<lparr>pg_current := Some p\<rparr>)))"

definition menuNextPage :: "int \<Rightarrow> page \<Rightarrow> page option" where
  "menuNextPage d pg = (case probe_loop (pg_heap pg) d (pg_pagestart pg) of
     None \<Rightarrow> None
   | Some probe \<Rightarrow>
       (case (pg_pagestart pg, probe) of
          (Some cur, Some _) \<Rightarrow>
            map_option (\<lambda>c. pg\<lparr>pg_current := Some c, pg_pagestart := Some c\<rparr>) (fwd_loop (pg_heap pg) (d + 1) cur)
        | _ \<Rightarrow> Some pg))"

definition menuPrevPage :: "int \<Rightarrow> page \<Rightarrow> page option" where
  "menuPrevPage d pg = (case pg_pagestart pg of
     None \<Rightarrow> menuLastPage d pg
   | Some cur \<Rightarrow>
       (case dprev (pg_heap pg) cur of
          None \<Rightarrow> None
        | Some None \<Rightarrow> menuLastPage d pg
        | Some (Some _) \<Rightarrow>
            map_option (\<lambda>c. pg\<lparr>pg_current := Some c, pg_pagestart := Some c\<rparr>) (back_loop (pg_heap pg) (d + 1) cur)))"

section \<open>Loops on a represented list\<close>

abbreviation addr :: "(nat \<times> submenu_item) list \<Rightarrow> nat \<Rightarrow> nat" where "addr xs i \<equiv> fst (xs ! i)"

definition ptr_at :: "(nat \<times> submenu_item) list \<Rightarrow> nat \<Rightarrow> ptr" where
  "ptr_at xs i = (if i < length xs then Some (addr xs i) else None)"

lemma dl_node:
  assumes "dl_repr h p xs" "i < length xs"
  shows "h (addr xs i) = Some (snd (xs ! i), if i = 0 then None else Some (addr xs (i - 1)), ptr_at xs (Suc i))"
proof -
  obtain a v where x: "xs ! i = (a, v)" by (cases "xs ! i")
  have xs: "xs = take i xs @ (a, v) # drop (Suc i) xs" using assms(2) x by (metis id_take_nth_drop)
  then have ch: "dchain h None p (take i xs @ (a, v) # drop (Suc i) xs) None" using assms(1) by (simp add: dl_repr_def)
  then obtain n where n: "h a = Some (v, last_of None (take i xs), n)" "dchain h (Some a) n (drop (Suc i) xs) None" by (auto simp: dchain_append)
  have "n = ptr_at xs (Suc i)" using dchain_head [OF n(2)] by (auto simp: ptr_at_def Cons_nth_drop_Suc [symmetric])
  moreover have "last_of None (take i xs) = (if i = 0 then None else Some (addr xs (i - 1)))"
    using assms(2) by (auto simp: last_of_def last_conv_nth)
  ultimately show ?thesis using n x by simp
qed

lemma dl_links:
  assumes "dl_repr h p xs" "i < length xs"
  shows "dnext h (addr xs i) = Some (ptr_at xs (Suc i))" "dprev h (addr xs i) = Some (if i = 0 then None else Some (addr xs (i - 1)))"
  using dl_node [OF assms] by (simp_all add: dnext_def dprev_def)

lemma dl_head: "dl_repr h p xs \<Longrightarrow> p = ptr_at xs 0"
  using dchain_head [of h None p xs None] by (auto simp: dl_repr_def ptr_at_def split: list.splits)

lemma addr_inj: "dl_repr h p xs \<Longrightarrow> i < length xs \<Longrightarrow> j < length xs \<Longrightarrow> addr xs i = addr xs j \<longleftrightarrow> i = j"
  by (metis dl_repr_def length_map nth_eq_iff_index_eq nth_map)

lemma back_loop_at: "dl_repr h p xs \<Longrightarrow> i < length xs \<Longrightarrow> back_loop h (int k + 1) (addr xs i) = Some (addr xs (i - k))"
proof (induction k arbitrary: i)
  case 0
  then show ?case by (subst back_loop.simps) simp
next
  case (Suc k)
  then show ?case using Suc.IH [of "i - 1"] dl_links(2) [of h p xs i] by (subst back_loop.simps) (auto simp: ac_simps)
qed

lemma fwd_loop_at: "dl_repr h p xs \<Longrightarrow> i + k < length xs \<Longrightarrow> fwd_loop h (int k + 1) (addr xs i) = Some (addr xs (i + k))"
proof (induction k arbitrary: i)
  case 0
  then show ?case by (subst fwd_loop.simps) simp
next
  case (Suc k)
  then show ?case using Suc.IH [of "Suc i"] dl_links(1) [of h p xs i] by (subst fwd_loop.simps) (auto simp: ac_simps ptr_at_def)
qed

lemma page_scan_at:
  "dl_repr h p xs \<Longrightarrow> c < length xs \<Longrightarrow> page_scan h (int k + 1) (Some (addr xs c)) (ptr_at xs j) = Some (j \<le> c \<and> c < j + k)"
proof (induction k arbitrary: j)
  case 0
  then show ?case by (subst page_scan.simps) simp
next
  case (Suc k)
  show ?case
  proof (cases "j < length xs")
    case True
    then show ?thesis using Suc.IH [of "Suc j"] Suc.prems dl_links(1) [of h p xs j] addr_inj [of h p xs c j]
      by (subst page_scan.simps) (auto simp: ptr_at_def ac_simps)
  next
    case False
    then show ?thesis using Suc.prems by (subst page_scan.simps) (auto simp: ptr_at_def)
  qed
qed

lemma probe_loop_at: "dl_repr h p xs \<Longrightarrow> probe_loop h (int k) (ptr_at xs j) = Some (ptr_at xs (j + k))"
proof (induction k arbitrary: j)
  case 0
  then show ?case by (subst probe_loop.simps) simp
next
  case (Suc k)
  show ?case
  proof (cases "j < length xs")
    case True
    then have "ptr_at xs j = Some (addr xs j)" by (simp add: ptr_at_def)
    then show ?thesis using Suc.IH [of "Suc j"] Suc.prems dl_links(1) [of h p xs j] True by (subst probe_loop.simps) simp
  next
    case False
    then show ?thesis by (subst probe_loop.simps) (simp add: ptr_at_def)
  qed
qed

lemma walk_end_at: "dl_repr h p xs \<Longrightarrow> i < length xs \<Longrightarrow> walk_end h (addr xs i) = Some (addr xs (length xs - 1))"
proof (induction "length xs - i" arbitrary: i)
  case (Suc k)
  show ?case
  proof (cases "Suc i < length xs")
    case True
    then show ?thesis using Suc.hyps(1) [of "Suc i"] Suc.hyps(2) Suc.prems dl_node [of h p xs i]
      by (subst walk_end.simps) (auto simp: ptr_at_def)
  next
    case False
    then have "i = length xs - 1" using Suc.prems by simp
    then show ?thesis using Suc.prems dl_node [of h p xs i] by (subst walk_end.simps) (auto simp: ptr_at_def)
  qed
qed simp


section \<open>The position of a page\<close>

text \<open>The rows are \<open>xs\<close>, row \<open>i\<close> is selected and \<open>j\<close> is the first one shown.\<close>

definition page_at :: "page \<Rightarrow> (nat \<times> submenu_item) list \<Rightarrow> nat \<Rightarrow> nat \<Rightarrow> bool" where
  "page_at pg xs i j \<longleftrightarrow> dl_repr (pg_heap pg) (pg_subMenu pg) xs \<and> pg_submenu pg = pg_subMenu pg \<and> pg_last pg = last_of None xs \<and>
     pg_current pg = ptr_at xs i \<and> pg_pagestart pg = ptr_at xs j \<and> (xs = [] \<and> i = 0 \<and> j = 0 \<or> i < length xs \<and> j \<le> i)"

lemma page_at_lt: "page_at pg xs i j \<Longrightarrow> xs \<noteq> [] \<Longrightarrow> i < length xs \<and> j \<le> i \<and> pg_current pg = Some (addr xs i) \<and> pg_pagestart pg = Some (addr xs j)"
  by (auto simp: page_at_def ptr_at_def)

lemma page_at_move:
  "page_at pg xs i j \<Longrightarrow> i' < length xs \<Longrightarrow> j' \<le> i' \<Longrightarrow> page_at (pg\<lparr>pg_current := Some (addr xs i'), pg_pagestart := Some (addr xs j')\<rparr>) xs i' j'"
  by (auto simp: page_at_def ptr_at_def)

lemma page_at_first: "page_at pg xs i j \<Longrightarrow> page_at (menuFirstPage pg) xs 0 0"
  by (auto simp: page_at_def menuFirstPage_def ptr_at_def dest: dl_head)

lemma page_at_last:
  assumes "page_at pg xs i j" "1 \<le> d"
  shows "\<exists>pg'. menuLastPage (int d) pg = Some pg' \<and> page_at pg' xs (length xs - 1) (length xs - d)"
proof (cases "xs = []")
  case True
  then show ?thesis using assms by (auto simp: menuLastPage_def page_at_def ptr_at_def)
next
  case False
  have c: "i < length xs" "pg_current pg = Some (addr xs i)" and r: "dl_repr (pg_heap pg) (pg_subMenu pg) xs"
    using page_at_lt [OF assms(1) False] assms(1) by (auto simp: page_at_def)
  have "back_loop (pg_heap pg) (int d) (addr xs (length xs - 1)) = Some (addr xs (length xs - d))"
    using back_loop_at [OF r, of "length xs - 1" "d - 1"] assms(2) False by (simp add: of_nat_diff)
  moreover have "page_at (pg\<lparr>pg_current := Some (addr xs (length xs - 1)), pg_pagestart := Some (addr xs (length xs - d))\<rparr>) xs (length xs - 1) (length xs - d)"
    using page_at_move [OF assms(1), of "length xs - 1" "length xs - d"] assms(2) False by (simp add: diff_le_mono2)
  ultimately show ?thesis using walk_end_at [OF r c(1)] c(2) by (simp add: menuLastPage_def)
qed

lemma page_at_next:
  assumes "page_at pg xs i j"
  shows "\<exists>pg'. menuNextV (int d) pg = Some pg' \<and>
    page_at pg' xs (if Suc i < length xs then Suc i else 0) (if length xs \<le> Suc i then 0 else if Suc i < j + d then j else Suc i)"
proof (cases "xs = []")
  case True
  then show ?thesis using assms page_at_first [OF assms] by (auto simp: menuNextV_def page_at_def ptr_at_def)
next
  case False
  have c: "i < length xs" "j \<le> i" "pg_current pg = Some (addr xs i)" "pg_pagestart pg = Some (addr xs j)" and r: "dl_repr (pg_heap pg) (pg_subMenu pg) xs"
    using page_at_lt [OF assms False] assms by (auto simp: page_at_def)
  show ?thesis
  proof (cases "Suc i < length xs")
    case True
    have "page_scan (pg_heap pg) (int d + 1) (Some (addr xs (Suc i))) (pg_pagestart pg) = Some (Suc i < j + d)"
      using page_scan_at [OF r True, of d j] c by (simp add: ptr_at_def)
    moreover have "page_at (pg\<lparr>pg_current := Some (addr xs (Suc i))\<rparr>) xs (Suc i) j"
      using assms True c by (auto simp: page_at_def ptr_at_def)
    ultimately show ?thesis using True c dl_links(1) [OF r c(1)] page_at_move [OF assms True, of "Suc i"]
      by (simp add: menuNextV_def ptr_at_def)
  next
    case False
    then show ?thesis using c dl_links(1) [OF r c(1)] page_at_first [OF assms] by (simp add: menuNextV_def ptr_at_def)
  qed
qed

lemma page_at_prev:
  assumes "page_at pg xs i j" "1 \<le> d"
  shows "\<exists>pg'. menuPrevV (int d) pg = Some pg' \<and>
    page_at pg' xs (if i = 0 then length xs - 1 else i - 1) (if i = 0 then length xs - d else if j = i then i - d else j)"
proof (cases "xs = []")
  case True
  then show ?thesis using assms page_at_last [OF assms] by (auto simp: menuPrevV_def page_at_def ptr_at_def)
next
  case False
  have c: "i < length xs" "j \<le> i" "pg_current pg = Some (addr xs i)" "pg_pagestart pg = Some (addr xs j)" and r: "dl_repr (pg_heap pg) (pg_subMenu pg) xs"
    using page_at_lt [OF assms(1) False] assms(1) by (auto simp: page_at_def)
  show ?thesis
  proof (cases "i = 0")
    case True
    then show ?thesis using c dl_links(2) [OF r c(1)] page_at_last [OF assms] by (simp add: menuPrevV_def)
  next
    case False
    have "page_at (pg\<lparr>pg_current := Some (addr xs (i - 1))\<rparr>) xs (i - 1) j" if "j \<noteq> i"
      using assms(1) c False that by (auto simp: page_at_def ptr_at_def)
    moreover have "page_at (pg\<lparr>pg_current := Some (addr xs (i - 1)), pg_pagestart := Some (addr xs (i - d))\<rparr>) xs (i - 1) (i - d)"
      using page_at_move [OF assms(1), of "i - 1" "i - d"] c assms(2) by (simp add: diff_le_mono2)
    moreover have "back_loop (pg_heap pg) (int d + 1) (addr xs i) = Some (addr xs (i - d))" using back_loop_at [OF r c(1)] .
    ultimately show ?thesis using False c dl_links(2) [OF r c(1)] addr_inj [OF r, of j i] by (auto simp: menuPrevV_def)
  qed
qed

lemma page_at_next_page:
  assumes "page_at pg xs i j"
  shows "\<exists>pg'. menuNextPage (int d) pg = Some pg' \<and> (if j + d < length xs then page_at pg' xs (j + d) (j + d) else pg' = pg)"
proof -
  have r: "dl_repr (pg_heap pg) (pg_subMenu pg) xs" and s: "pg_pagestart pg = ptr_at xs j" using assms by (auto simp: page_at_def)
  show ?thesis
  proof (cases "j + d < length xs")
    case True
    then show ?thesis using probe_loop_at [OF r, of d j] fwd_loop_at [OF r True] s page_at_move [OF assms True, of "j + d"]
      by (simp add: menuNextPage_def ptr_at_def)
  next
    case False
    then show ?thesis using probe_loop_at [OF r, of d j] s by (simp add: menuNextPage_def ptr_at_def split: option.splits)
  qed
qed

lemma page_at_prev_page:
  assumes "page_at pg xs i j" "1 \<le> d"
  shows "\<exists>pg'. menuPrevPage (int d) pg = Some pg' \<and> (if j = 0 then page_at pg' xs (length xs - 1) (length xs - d) else page_at pg' xs (j - d) (j - d))"
proof (cases "xs = []")
  case True
  then show ?thesis using assms page_at_last [OF assms] by (auto simp: menuPrevPage_def page_at_def ptr_at_def)
next
  case False
  have c: "i < length xs" "j < length xs" "pg_pagestart pg = Some (addr xs j)" and r: "dl_repr (pg_heap pg) (pg_subMenu pg) xs"
    using page_at_lt [OF assms(1) False] assms(1) by (auto simp: page_at_def)
  show ?thesis using c dl_links(2) [OF r c(2)] page_at_last [OF assms] back_loop_at [OF r c(2), of d] page_at_move [OF assms(1), of "j - d" "j - d"]
    by (auto simp: menuPrevPage_def)
qed

section \<open>Filling a page\<close>

definition set_folder :: "dheap \<Rightarrow> nat \<Rightarrow> bool \<Rightarrow> dheap" where
  "set_folder h a f = (case h a of None \<Rightarrow> h | Some (v, p, n) \<Rightarrow> h(a \<mapsto> (v\<lparr>si_isFolder := f\<rparr>, p, n)))"

record row_op =
  ro_icon_id :: int
  ro_text :: "cstring option"
  ro_id :: int
  ro_text_id :: int
  ro_selected :: bool
  ro_isFolder :: bool

definition op_append :: "ptr \<Rightarrow> row_op \<Rightarrow> page \<Rightarrow> page option" where
  "op_append mem ro pg = (case submenuAppendItem (pg_heap pg) (pg_subMenu pg) mem (ro_icon_id ro) (ro_text ro) (ro_id ro) (ro_text_id ro) of
     None \<Rightarrow> None
   | Some (h, p) \<Rightarrow>
       let h1 = (case mem of None \<Rightarrow> h | Some a \<Rightarrow> set_folder h a (ro_isFolder ro));
           pg1 = pg\<lparr>pg_heap := h1, pg_subMenu := p, pg_last := mem\<rparr>;
           pg2 = (if pg_submenu pg1 = None
                  then if ro_selected ro then pg1\<lparr>pg_submenu := mem\<rparr> else pg1\<lparr>pg_submenu := mem, pg_current := mem, pg_pagestart := mem\<rparr>
                  else pg1)
       in Some (if ro_selected ro then pg2\<lparr>pg_current := mem, pg_pagestart := mem, pg_remindLast := True\<rparr> else pg2))"

lemma op_append_NULL: "op_append None ro pg = None"
  by (simp add: op_append_def submenuAppendItem_def)

definition op_clear :: "page \<Rightarrow> page option" where
  "op_clear pg = (case submenuDestroy (pg_heap pg) (pg_subMenu pg) of
     None \<Rightarrow> None
   | Some (h, p) \<Rightarrow> Some (pg\<lparr>pg_heap := h, pg_subMenu := p, pg_submenu := None, pg_current := None, pg_pagestart := None, pg_last := None\<rparr>))"

definition clearMenuGameList :: "page \<Rightarrow> page option" where
  "clearMenuGameList pg = (if pg_subMenu pg = None then Some pg else map_option (\<lambda>p. p\<lparr>pg_remindLast := False\<rparr>) (op_clear pg))"

definition op_sort :: "(dheap \<Rightarrow> ptr \<Rightarrow> int \<Rightarrow> (dheap \<times> ptr) option) \<Rightarrow> page \<Rightarrow> page option" where
  "op_sort sorter pg =
     (let mode = (case pg_userdata pg of None \<Rightarrow> -1 | Some (m, _) \<Rightarrow> m) in
      case sorter (pg_heap pg) (pg_subMenu pg) mode of
        None \<Rightarrow> None
      | Some (h, p) \<Rightarrow>
          (case (case p of None \<Rightarrow> Some None | Some c \<Rightarrow> map_option Some (walk_end h c)) of
             None \<Rightarrow> None
           | Some tail \<Rightarrow>
               let pg1 = pg\<lparr>pg_heap := h, pg_subMenu := p, pg_submenu := p, pg_last := tail\<rparr>;
                   pg2 = (if pg_remindLast pg1 then pg1 else pg1\<lparr>pg_current := p\<rparr>)
               in Some (pg2\<lparr>pg_pagestart := pg_current pg2\<rparr>)))"

text \<open>The rows the game lists produce: a text of their own, no number of the language file.\<close>

definition menu_row_ok :: "submenu_item \<Rightarrow> bool" where
  "menu_row_ok v \<longleftrightarrow> si_text_id v < 0 \<and> (case si_text v of None \<Rightarrow> False | Some t \<Rightarrow> NUL \<notin> set t)"

definition page_ok :: "nat \<Rightarrow> page \<Rightarrow> bool" where
  "page_ok d pg \<longleftrightarrow> (\<exists>xs i j. page_at pg xs i j \<and> (\<forall>y \<in> set xs. menu_row_ok (snd y)) \<and> (xs \<noteq> [] \<longrightarrow> i < j + d))"

lemma page_okI: "page_at pg xs i j \<Longrightarrow> \<forall>y \<in> set xs. menu_row_ok (snd y) \<Longrightarrow> xs \<noteq> [] \<longrightarrow> i < j + d \<Longrightarrow> page_ok d pg"
  by (auto simp: page_ok_def)

lemma menu_row_titled: "menu_row_ok v \<Longrightarrow> titled (row_title lang hide ls support) v"
  by (auto simp: menu_row_ok_def titled_def row_title_def submenuItemGetText_def vcdDisplayNameForRow_def Let_def
      split: option.splits prod.splits dest: in_set_dropD)

lemma dchain_set_folder:
  "a \<notin> fst ` set xs \<Longrightarrow> dchain (set_folder h a f) pr p xs q = dchain h pr p xs q"
  by (rule dchain_frame) (auto simp: set_folder_def split: option.splits)

lemma set_folder_repr:
  assumes "dl_repr h p (xs @ [(a, v)])"
  shows "dl_repr (set_folder h a f) p (xs @ [(a, v\<lparr>si_isFolder := f\<rparr>)])"
proof -
  have d: "a \<notin> fst ` set xs" and ch: "dchain h None p xs (Some a)" and ha: "h a = Some (v, last_of None xs, None)" and dom: "dom h = insert a (fst ` set xs)"
    using assms by (auto simp: dl_repr_def dchain_append)
  have s: "set_folder h a f = h(a \<mapsto> (v\<lparr>si_isFolder := f\<rparr>, last_of None xs, None))" using ha by (simp add: set_folder_def)
  have "dchain (set_folder h a f) None p xs (Some a)" using ch dchain_set_folder [OF d] by simp
  then show ?thesis using assms d dom by (auto simp: dl_repr_def dchain_append s)
qed

lemma ptr_at_append: "ptr_at (xs @ [(a, v)]) i = (if i < length xs then ptr_at xs i else if i = length xs then Some a else None)"
  by (auto simp: ptr_at_def nth_append)

lemma op_append_ok:
  assumes "page_ok d pg" "a \<notin> dom (pg_heap pg)" "ro_text_id ro < 0" "ro_text ro = Some t" "NUL \<notin> set t" "1 \<le> d"
  shows "\<exists>pg'. op_append (Some a) ro pg = Some pg' \<and> page_ok d pg' \<and> pg_userdata pg' = pg_userdata pg"
proof -
  obtain xs i j where at: "page_at pg xs i j" and rows: "\<forall>y \<in> set xs. menu_row_ok (snd y)" and w: "xs \<noteq> [] \<longrightarrow> i < j + d" using assms(1) by (auto simp: page_ok_def)
  let ?v = "submenuAllocItem (ro_icon_id ro) (ro_text ro) (ro_id ro) (ro_text_id ro)"
  let ?ys = "xs @ [(a, ?v\<lparr>si_isFolder := ro_isFolder ro\<rparr>)]"
  obtain h p where ap: "submenuAppendItem (pg_heap pg) (pg_subMenu pg) (Some a) (ro_icon_id ro) (ro_text ro) (ro_id ro) (ro_text_id ro) = Some (h, p)"
    and r0: "dl_repr h p (xs @ [(a, ?v)])"
    using append_repr [of "pg_heap pg" "pg_subMenu pg" xs a] at assms(2) unfolding page_at_def by blast
  have r: "dl_repr (set_folder h a (ro_isFolder ro)) p ?ys" using set_folder_repr [OF r0] .
  have p: "p = (if xs = [] then Some a else pg_subMenu pg)" using dl_head [OF r] dl_head [of "pg_heap pg" "pg_subMenu pg" xs] at
    by (cases xs) (auto simp: ptr_at_def page_at_def)
  obtain pg' where pg': "op_append (Some a) ro pg = Some pg'" using ap by (simp add: op_append_def Let_def)
  define i' where "i' = (if ro_selected ro then length xs else i)"
  define j' where "j' = (if ro_selected ro then length xs else j)"
  have head: "pg_submenu pg = pg_subMenu pg" "pg_subMenu pg = ptr_at xs 0" using at dl_head [of "pg_heap pg" "pg_subMenu pg" xs] by (auto simp: page_at_def)
  have new: "pg_heap pg' = set_folder h a (ro_isFolder ro)" "pg_subMenu pg' = p" "pg_last pg' = Some a"
    "pg_submenu pg' = (if xs = [] then Some a else pg_submenu pg)"
    "pg_current pg' = (if ro_selected ro \<or> xs = [] then Some a else pg_current pg)" "pg_pagestart pg' = (if ro_selected ro \<or> xs = [] then Some a else pg_pagestart pg)"
    using pg' ap head by (auto simp: op_append_def Let_def ptr_at_def)
  have "pg_current pg' = ptr_at ?ys i'" "pg_pagestart pg' = ptr_at ?ys j'" "i' < length ?ys" "j' \<le> i'"
    using at new by (auto simp: page_at_def ptr_at_append i'_def j'_def)
  then have "page_at pg' ?ys i' j'" using r p new head by (simp add: page_at_def last_of_def)
  moreover have "\<forall>y \<in> set ?ys. menu_row_ok (snd y)" using rows assms(3,4,5) by (auto simp: menu_row_ok_def submenuAllocItem_def)
  moreover have "i' < j' + d" using w assms(6) at by (cases "xs = []") (auto simp: i'_def j'_def page_at_def)
  ultimately have "page_ok d pg'" by (intro page_okI) auto
  moreover have "pg_userdata pg' = pg_userdata pg" using pg' ap by (auto simp: op_append_def Let_def)
  ultimately show ?thesis using pg' by blast
qed

lemma op_clear_ok:
  assumes "page_ok d pg"
  shows "\<exists>pg'. op_clear pg = Some pg' \<and> page_ok d pg' \<and> pg_userdata pg' = pg_userdata pg"
proof -
  obtain xs where r: "dl_repr (pg_heap pg) (pg_subMenu pg) xs" using assms by (auto simp: page_ok_def page_at_def)
  have "submenuDestroy (pg_heap pg) (pg_subMenu pg) = Some (\<lambda>_. None, None)" using destroy_repr [OF r] .
  then show ?thesis by (auto simp: op_clear_def page_at_def dl_repr_def ptr_at_def intro!: page_okI [of _ "[]" 0 0])
qed

text \<open>What the menu relies on from sorting: a list of rows with titles comes back linked, with the same rows.\<close>

locale row_sorter =
  fixes sorter :: "dheap \<Rightarrow> ptr \<Rightarrow> int \<Rightarrow> (dheap \<times> ptr) option"
  assumes sorter_perm: "dl_repr h p xs \<Longrightarrow> \<forall>y \<in> set xs. menu_row_ok (snd y) \<Longrightarrow>
     \<exists>h' p' ys. sorter h p mode = Some (h', p') \<and> dl_repr h' p' ys \<and> mset ys = mset xs"
begin

lemma op_sort_ok:
  assumes "page_ok d pg" "1 \<le> d"
  shows "\<exists>pg'. op_sort sorter pg = Some pg' \<and> page_ok d pg' \<and> pg_userdata pg' = pg_userdata pg"
proof -
  obtain xs i j where at: "page_at pg xs i j" and rows: "\<forall>y \<in> set xs. menu_row_ok (snd y)" using assms(1) by (auto simp: page_ok_def)
  define mode where "mode = (case pg_userdata pg of None \<Rightarrow> -1 | Some (m, _) \<Rightarrow> m)"
  obtain h p ys where s: "sorter (pg_heap pg) (pg_subMenu pg) mode = Some (h, p)" "dl_repr h p ys" "mset ys = mset xs"
    using sorter_perm [of "pg_heap pg" "pg_subMenu pg" xs mode] at rows unfolding page_at_def by blast
  have set: "set ys = set xs" and len: "length ys = length xs" using s(3) by (metis set_mset_mset, metis size_mset)
  have p: "p = ptr_at ys 0" using dl_head [OF s(2)] .
  have tail: "(case p of None \<Rightarrow> Some None | Some c \<Rightarrow> map_option Some (walk_end h c)) = Some (last_of None ys)"
    using p walk_end_at [OF s(2), of 0] by (auto simp: ptr_at_def last_of_def last_conv_nth)
  obtain k where k: "(if pg_remindLast pg then pg_current pg else p) = ptr_at ys k" "ys = [] \<and> k = 0 \<or> k < length ys"
  proof (cases "pg_remindLast pg \<and> xs \<noteq> []")
    case True
    then have "i < length xs" "pg_current pg = Some (addr xs i)" using page_at_lt [OF at] by auto
    then have "xs ! i \<in> set ys" using set by simp
    then obtain k where "k < length ys" "ys ! k = xs ! i" by (metis in_set_conv_nth)
    then show ?thesis using that [of k] True \<open>pg_current pg = Some (addr xs i)\<close> by (simp add: ptr_at_def)
  next
    case False
    then show ?thesis using that [of 0] p at len by (cases "xs = []") (auto simp: page_at_def ptr_at_def)
  qed
  obtain pg' where pg': "op_sort sorter pg = Some pg'" using s(1) tail by (simp add: op_sort_def mode_def Let_def)
  have "page_at pg' ys k k" using pg' s(1,2) tail k p by (auto simp: op_sort_def mode_def page_at_def Let_def split: if_splits)
  then have "page_ok d pg'" using rows set assms(2) by (intro page_okI [of _ ys k k]) auto
  moreover have "pg_userdata pg' = pg_userdata pg" using pg' s(1) tail by (auto simp: op_sort_def mode_def Let_def split: if_splits)
  ultimately show ?thesis using pg' by blast
qed

end

interpretation submenu_sorter: row_sorter "submenuSort lang hide ls support_of"
proof
  fix h :: dheap and p xs mode
  assume "dl_repr h p xs" "\<forall>y \<in> set xs. menu_row_ok (snd y)"
  then show "\<exists>h' p' ys. submenuSort lang hide ls support_of h p mode = Some (h', p') \<and> dl_repr h' p' ys \<and> mset ys = mset xs"
    using sort_repr [of h p xs lang hide ls mode support_of] menu_row_titled mset_sort by metis
qed

section \<open>The menu\<close>

text \<open>The operations other threads leave for the user interface; \<open>k\<close> names the page.\<close>

datatype gui_op =
    GUI_INIT_DONE
  | GUI_OP_ADD_MENU nat
  | GUI_OP_APPEND_MENU nat row_op
  | GUI_OP_SELECT_MENU nat
  | GUI_OP_CLEAR_SUBMENU nat
  | GUI_OP_SORT nat
  | GUI_OP_ADD_HINT nat int int

record nav =
  nv_items :: "nat \<Rightarrow> page option"
  nv_menu :: "nat list"
  nv_selected :: "nat option"
  nv_itemConfigId :: int
  nv_folder :: folder_state
  nv_requests :: "int list"
  gUpdateList :: "gui_op list"
  gScheduledOps :: nat
  nv_unannounced :: nat
  gCompletedOps :: nat
  gInitComplete :: bool

text \<open>\<open>nv_unannounced\<close> counts the operations queued whose \<^verbatim>\<open>gScheduledOps++\<close> is still to come.\<close>

definition on_page :: "nat \<Rightarrow> (page \<Rightarrow> page option) \<Rightarrow> nav \<Rightarrow> nav option" where
  "on_page k f s = (case nv_items s k of
     None \<Rightarrow> None
   | Some pg \<Rightarrow> map_option (\<lambda>pg'. s\<lparr>nv_items := (nv_items s)(k \<mapsto> pg')\<rparr>) (f pg))"

definition menuAppendItem :: "nat \<Rightarrow> nav \<Rightarrow> nav" where
  "menuAppendItem k s = s\<lparr>nv_menu := nv_menu s @ [k], nv_selected := (if nv_menu s = [] then Some 0 else nv_selected s)\<rparr>"

definition menuSetSelectedItem :: "nat \<Rightarrow> nav \<Rightarrow> nav" where
  "menuSetSelectedItem k s = (case find (\<lambda>i. nv_menu s ! i = k) [0..<length (nv_menu s)] of
     None \<Rightarrow> s
   | Some i \<Rightarrow> s\<lparr>nv_selected := Some i\<rparr>)"

definition menuAddHint :: "int \<Rightarrow> int \<Rightarrow> page \<Rightarrow> page option" where
  "menuAddHint text_id icon_id pg = Some (pg\<lparr>pg_hints := pg_hints pg @ [(text_id, icon_id)]\<rparr>)"

text \<open>\<open>alloc\<close> is what the allocator gives for a node beside those of a list, \<open>sorter\<close> is \<^const>\<open>submenuSort\<close>.\<close>

definition guiHandleOp :: "(dheap \<Rightarrow> ptr) \<Rightarrow> (dheap \<Rightarrow> ptr \<Rightarrow> int \<Rightarrow> (dheap \<times> ptr) option) \<Rightarrow> gui_op \<Rightarrow> nav \<Rightarrow> nav option" where
  "guiHandleOp alloc sorter op s = (case op of
     GUI_INIT_DONE \<Rightarrow> Some (s\<lparr>gInitComplete := True\<rparr>)
   | GUI_OP_ADD_MENU k \<Rightarrow> Some (menuAppendItem k s)
   | GUI_OP_APPEND_MENU k ro \<Rightarrow> on_page k (\<lambda>pg. op_append (alloc (pg_heap pg)) ro pg) s
   | GUI_OP_SELECT_MENU k \<Rightarrow> Some (menuSetSelectedItem k s)
   | GUI_OP_CLEAR_SUBMENU k \<Rightarrow> on_page k op_clear s
   | GUI_OP_SORT k \<Rightarrow> on_page k (op_sort sorter) s
   | GUI_OP_ADD_HINT k text_id icon_id \<Rightarrow> on_page k (menuAddHint text_id icon_id) s)"

text \<open>\<^verbatim>\<open>guiDeferUpdate\<close>: the operation is queued under the semaphore, and counted after the semaphore is given up.\<close>

definition defer_enqueue :: "gui_op \<Rightarrow> nav \<Rightarrow> nav" where
  "defer_enqueue op s = s\<lparr>gUpdateList := gUpdateList s @ [op], nv_unannounced := nv_unannounced s + 1\<rparr>"

definition defer_announce :: "nav \<Rightarrow> int \<times> nav" where
  "defer_announce s = (int (gScheduledOps s), s\<lparr>gScheduledOps := gScheduledOps s + 1, nv_unannounced := nv_unannounced s - 1\<rparr>)"

definition guiDeferUpdate :: "bool \<Rightarrow> gui_op \<Rightarrow> nav \<Rightarrow> int \<times> nav" where
  "guiDeferUpdate mem op s = (if \<not> mem then (-1, s) else defer_announce (defer_enqueue op s))"

definition guiGetOpCompleted :: "int \<Rightarrow> nav \<Rightarrow> bool" where
  "guiGetOpCompleted opid s \<longleftrightarrow> opid < int (gCompletedOps s)"

fun deferred_loop :: "(dheap \<Rightarrow> ptr) \<Rightarrow> (dheap \<Rightarrow> ptr \<Rightarrow> int \<Rightarrow> (dheap \<times> ptr) option) \<Rightarrow> gui_op list \<Rightarrow> nav \<Rightarrow> nav option" where
  "deferred_loop alloc sorter [] s = Some (s\<lparr>gUpdateList := []\<rparr>)"
| "deferred_loop alloc sorter (op # ops) s = (case guiHandleOp alloc sorter op s of
     None \<Rightarrow> None
   | Some s' \<Rightarrow> deferred_loop alloc sorter ops (s'\<lparr>gUpdateList := ops, gCompletedOps := gCompletedOps s' + 1\<rparr>))"

definition guiHandleDeferredOps :: "(dheap \<Rightarrow> ptr) \<Rightarrow> (dheap \<Rightarrow> ptr \<Rightarrow> int \<Rightarrow> (dheap \<times> ptr) option) \<Rightarrow> nav \<Rightarrow> nav option" where
  "guiHandleDeferredOps alloc sorter s = deferred_loop alloc sorter (gUpdateList s) s"

text \<open>Leaving a page, and moving to the next visible one.\<close>

definition page_of :: "nav \<Rightarrow> nat \<Rightarrow> page option" where
  "page_of s i = (if i < length (nv_menu s) then nv_items s (nv_menu s ! i) else None)"

definition visible_at :: "nav \<Rightarrow> nat \<Rightarrow> bool" where
  "visible_at s i \<longleftrightarrow> (case page_of s i of None \<Rightarrow> False | Some pg \<Rightarrow> pg_visible pg)"

definition menuFolderResetLeaving :: "nat \<Rightarrow> nav \<Rightarrow> nav" where
  "menuFolderResetLeaving i s = (case page_of s i of
     None \<Rightarrow> s
   | Some pg \<Rightarrow>
       (case pg_userdata pg of
          None \<Rightarrow> s
        | Some (mode, itemTextId) \<Rightarrow>
            if \<not> folderModeSupported mode \<or> folderDepth (nv_folder s) mode = 0 then s
            else s\<lparr>nv_folder := folderReset (nv_folder s) mode,
                   nv_items := (nv_items s)(nv_menu s ! i \<mapsto> pg\<lparr>pg_text := None, pg_text_id := itemTextId\<rparr>),
                   nv_requests := nv_requests s @ [mode]\<rparr>))"

definition move_to :: "nat option \<Rightarrow> nat \<Rightarrow> nav \<Rightarrow> nav" where
  "move_to target i s = (case target of
     None \<Rightarrow> s
   | Some k \<Rightarrow> (menuFolderResetLeaving i s)\<lparr>nv_selected := Some k, nv_itemConfigId := -1\<rparr>)"

definition menuNextH :: "nav \<Rightarrow> nav option" where
  "menuNextH s = map_option (\<lambda>i. move_to (find (visible_at s) [Suc i..<length (nv_menu s)]) i s) (nv_selected s)"

definition menuPrevH :: "nav \<Rightarrow> nav option" where
  "menuPrevH s = map_option (\<lambda>i. move_to (find (visible_at s) (rev [0..<i])) i s) (nv_selected s)"

definition refreshMenuPosition :: "nav \<Rightarrow> nav" where
  "refreshMenuPosition s =
     (if nv_menu s = [] then s
      else if \<exists>i. nv_selected s = Some i \<and> visible_at s i then s
      else s\<lparr>nv_selected := Some (case find (visible_at s) [0..<length (nv_menu s)] of None \<Rightarrow> 0 | Some k \<Rightarrow> k)\<rparr>)"

text \<open>Entering a folder row of the selected page, and going up.\<close>

definition select_folder :: "bool \<Rightarrow> nat \<Rightarrow> nav \<Rightarrow> nav" where
  "select_folder enabled i s = (case page_of s i of
     None \<Rightarrow> s
   | Some pg \<Rightarrow>
       (case (pg_userdata pg, pg_current pg) of
          (Some (mode, _), Some c) \<Rightarrow>
            (case pg_heap pg c of
               Some (row, _) \<Rightarrow>
                 if enabled \<and> si_isFolder row
                 then (case folderDescend (nv_folder s) mode (si_text row) of
                         (r, fs) \<Rightarrow> if r = 0 then s\<lparr>nv_folder := fs\<rparr> else s\<lparr>nv_folder := fs, nv_requests := nv_requests s @ [mode]\<rparr>)
                 else s
             | None \<Rightarrow> s)
        | _ \<Rightarrow> s))"

definition itemFolderAscend :: "nat \<Rightarrow> nav \<Rightarrow> nav" where
  "itemFolderAscend i s = (case page_of s i of
     None \<Rightarrow> s
   | Some pg \<Rightarrow>
       (case pg_userdata pg of
          None \<Rightarrow> s
        | Some (mode, _) \<Rightarrow>
            if folderDepth (nv_folder s) mode = 0 then s
            else (case folderAscend (nv_folder s) mode of
                    (r, fs) \<Rightarrow> if r = 0 then s\<lparr>nv_folder := fs\<rparr> else s\<lparr>nv_folder := fs, nv_requests := nv_requests s @ [mode]\<rparr>)))"

section \<open>Reachable states\<close>

definition op_ok :: "(nat \<Rightarrow> page option) \<Rightarrow> bool \<Rightarrow> gui_op \<Rightarrow> bool" where
  "op_ok items jump op \<longleftrightarrow> (case op of
     GUI_INIT_DONE \<Rightarrow> True
   | GUI_OP_ADD_MENU k \<Rightarrow> k \<in> dom items
   | GUI_OP_APPEND_MENU k ro \<Rightarrow> k \<in> dom items \<and> ro_text_id ro < 0 \<and> (case ro_text ro of None \<Rightarrow> False | Some t \<Rightarrow> NUL \<notin> set t)
   | GUI_OP_SELECT_MENU k \<Rightarrow> jump \<and> k \<in> dom items
   | GUI_OP_CLEAR_SUBMENU k \<Rightarrow> k \<in> dom items
   | GUI_OP_SORT k \<Rightarrow> k \<in> dom items
   | GUI_OP_ADD_HINT k text_id icon_id \<Rightarrow> k \<in> dom items)"

datatype v_move = NextV | PrevV | NextPage | PrevPage | FirstPage | LastPage

definition move_v :: "v_move \<Rightarrow> int \<Rightarrow> page \<Rightarrow> page option" where
  "move_v v d = (case v of NextV \<Rightarrow> menuNextV d | PrevV \<Rightarrow> menuPrevV d | NextPage \<Rightarrow> menuNextPage d | PrevPage \<Rightarrow> menuPrevPage d
     | FirstPage \<Rightarrow> (\<lambda>pg. Some (menuFirstPage pg)) | LastPage \<Rightarrow> menuLastPage d)"

text \<open>\<open>jump\<close> says whether the selection may also change without leaving the page through \<^verbatim>\<open>menuNextH\<close> and \<^verbatim>\<open>menuPrevH\<close>.\<close>

inductive nav_step :: "(dheap \<Rightarrow> ptr) \<Rightarrow> (dheap \<Rightarrow> ptr \<Rightarrow> int \<Rightarrow> (dheap \<times> ptr) option) \<Rightarrow> nat \<Rightarrow> bool \<Rightarrow> nav \<Rightarrow> nav \<Rightarrow> bool"
  for alloc sorter d jump where
  put: "op_ok (nv_items s) jump op \<Longrightarrow> nav_step alloc sorter d jump s (defer_enqueue op s)"
| announce: "0 < nv_unannounced s \<Longrightarrow> nav_step alloc sorter d jump s (snd (defer_announce s))"
| drain: "guiHandleDeferredOps alloc sorter s = Some s' \<Longrightarrow> nav_step alloc sorter d jump s s'"
| clear: "on_page k clearMenuGameList s = Some s' \<Longrightarrow> nav_step alloc sorter d jump s s'"
| next_page: "menuNextH s = Some s' \<Longrightarrow> nav_step alloc sorter d jump s s'"
| prev_page: "menuPrevH s = Some s' \<Longrightarrow> nav_step alloc sorter d jump s s'"
| move: "nv_selected s = Some i \<Longrightarrow> i < length (nv_menu s) \<Longrightarrow> on_page (nv_menu s ! i) (move_v v (int d)) s = Some s' \<Longrightarrow> nav_step alloc sorter d jump s s'"
| enter: "nv_selected s = Some i \<Longrightarrow> nav_step alloc sorter d jump s (select_folder enabled i s)"
| ascend_page: "nv_selected s = Some i \<Longrightarrow> nav_step alloc sorter d jump s (itemFolderAscend i s)"
| shown: "on_page k (\<lambda>pg. Some (pg\<lparr>pg_visible := b\<rparr>)) s = Some s' \<Longrightarrow> nav_step alloc sorter d jump s s'"
| refresh: "jump \<Longrightarrow> nav_step alloc sorter d jump s (refreshMenuPosition s)"

text \<open>Allocations succeed, with new addresses.\<close>

definition fresh_node :: "(dheap \<Rightarrow> ptr) \<Rightarrow> bool" where
  "fresh_node alloc \<longleftrightarrow> (\<forall>h. finite (dom h) \<longrightarrow> (\<exists>a. alloc h = Some a \<and> a \<notin> dom h))"

definition nav_ok :: "nat \<Rightarrow> bool \<Rightarrow> nav \<Rightarrow> bool" where
  "nav_ok d jump s \<longleftrightarrow> (\<forall>k pg. nv_items s k = Some pg \<longrightarrow> page_ok d pg) \<and> set (nv_menu s) \<subseteq> dom (nv_items s) \<and>
     (case nv_selected s of None \<Rightarrow> nv_menu s = [] | Some i \<Rightarrow> i < length (nv_menu s)) \<and>
     (\<forall>op \<in> set (gUpdateList s). op_ok (nv_items s) jump op) \<and> gScheduledOps s + nv_unannounced s = gCompletedOps s + length (gUpdateList s)"

definition nav_init :: "(nat \<Rightarrow> page option) \<Rightarrow> bool \<Rightarrow> nav" where
  "nav_init items folders = \<lparr>nv_items = items, nv_menu = [], nv_selected = None, nv_itemConfigId = -1, nv_folder = folder_init folders,
     nv_requests = [], gUpdateList = [], gScheduledOps = 0, nv_unannounced = 0, gCompletedOps = 0, gInitComplete = False\<rparr>"

definition empty_page :: "page \<Rightarrow> bool" where
  "empty_page pg \<longleftrightarrow> pg_heap pg = (\<lambda>_. None) \<and> pg_subMenu pg = None \<and> pg_submenu pg = None \<and> pg_current pg = None \<and> pg_pagestart pg = None \<and> pg_last pg = None"

lemma op_ok_dom: "dom items' = dom items \<Longrightarrow> op_ok items' jump op = op_ok items jump op"
  by (simp add: op_ok_def split: gui_op.splits)

lemma page_ok_finite: "page_ok d pg \<Longrightarrow> finite (dom (pg_heap pg))"
  by (auto simp: page_ok_def page_at_def dl_repr_def)

lemma page_ok_frame [simp]:
  "page_ok d (pg\<lparr>pg_visible := b\<rparr>) = page_ok d pg" "page_ok d (pg\<lparr>pg_hints := hs\<rparr>) = page_ok d pg"
  "page_ok d (pg\<lparr>pg_text := t, pg_text_id := ti\<rparr>) = page_ok d pg" "page_ok d (pg\<lparr>pg_remindLast := b\<rparr>) = page_ok d pg"
  by (simp_all add: page_ok_def page_at_def)

lemma empty_page_ok: "empty_page pg \<Longrightarrow> page_ok d pg"
  by (rule page_okI [of _ "[]" 0 0]) (auto simp: empty_page_def page_at_def dl_repr_def ptr_at_def)

lemma move_v_ok:
  assumes "page_ok d pg" "1 \<le> d"
  shows "\<exists>pg'. move_v v (int d) pg = Some pg' \<and> page_ok d pg' \<and> pg_userdata pg' = pg_userdata pg"
proof -
  obtain xs i j where at: "page_at pg xs i j" and rows: "\<forall>y \<in> set xs. menu_row_ok (snd y)" and w: "xs \<noteq> [] \<longrightarrow> i < j + d" using assms(1) by (auto simp: page_ok_def)
  have u: "pg_userdata pg' = pg_userdata pg" if "move_v v (int d) pg = Some pg'" for pg'
    using that by (auto simp: move_v_def menuNextV_def menuPrevV_def menuNextPage_def menuPrevPage_def menuFirstPage_def menuLastPage_def
        split: v_move.splits option.splits if_splits)
  have "\<exists>pg' i' j'. move_v v (int d) pg = Some pg' \<and> page_at pg' xs i' j' \<and> (xs \<noteq> [] \<longrightarrow> i' < j' + d)"
  proof (cases v)
    case NextV
    have "xs \<noteq> [] \<longrightarrow> (if Suc i < length xs then Suc i else 0) < (if length xs \<le> Suc i then 0 else if Suc i < j + d then j else Suc i) + d"
      using assms(2) by auto
    then show ?thesis using page_at_next [OF at, of d] unfolding NextV move_v_def v_move.case by blast
  next
    case PrevV
    have "xs \<noteq> [] \<longrightarrow> (if i = 0 then length xs - 1 else i - 1) < (if i = 0 then length xs - d else if j = i then i - d else j) + d"
      using assms(2) w by (cases "i = 0"; cases "j = i") (auto simp: less_Suc_eq_le)
    then show ?thesis using page_at_prev [OF at assms(2)] unfolding PrevV move_v_def v_move.case by blast
  next
    case NextPage
    have k: "j + d < j + d + d" using assms(2) by simp
    obtain pg' where "menuNextPage (int d) pg = Some pg'" "if j + d < length xs then page_at pg' xs (j + d) (j + d) else pg' = pg" using page_at_next_page [OF at] by blast
    then show ?thesis using at w k unfolding NextPage move_v_def v_move.case by (metis (full_types))
  next
    case PrevPage
    have "xs \<noteq> [] \<longrightarrow> length xs - 1 < length xs - d + d" using assms(2) by (cases xs) auto
    then show ?thesis using page_at_prev_page [OF at assms(2)] assms(2) PrevPage by (cases "j = 0") (fastforce simp: move_v_def)+
  next
    case FirstPage
    then show ?thesis using page_at_first [OF at] assms(2) by (fastforce simp: move_v_def)
  next
    case LastPage
    have "xs \<noteq> [] \<longrightarrow> length xs - 1 < length xs - d + d" using assms(2) by (cases xs) auto
    then show ?thesis using page_at_last [OF at assms(2)] LastPage by (fastforce simp: move_v_def)
  qed
  then show ?thesis using rows u page_okI by metis
qed

definition userdata_of :: "nav \<Rightarrow> nat \<Rightarrow> (int \<times> int) option" where
  "userdata_of s k = (case nv_items s k of None \<Rightarrow> None | Some pg \<Rightarrow> pg_userdata pg)"

text \<open>A step on one page keeps the state well formed when the step on the page does.\<close>

lemma on_page_ok:
  assumes "nav_ok d jump s" "k \<in> dom (nv_items s)" "\<And>pg. page_ok d pg \<Longrightarrow> \<exists>pg'. f pg = Some pg' \<and> page_ok d pg' \<and> pg_userdata pg' = pg_userdata pg"
  shows "\<exists>items. on_page k f s = Some (s\<lparr>nv_items := items\<rparr>) \<and> nav_ok d jump (s\<lparr>nv_items := items\<rparr>) \<and>
     userdata_of (s\<lparr>nv_items := items\<rparr>) = userdata_of s \<and> dom items = dom (nv_items s)"
proof -
  obtain pg where pg: "nv_items s k = Some pg" using assms(2) by blast
  then obtain pg' where pg': "f pg = Some pg'" "page_ok d pg'" "pg_userdata pg' = pg_userdata pg" using assms(1,3) by (metis nav_ok_def)
  let ?items = "(nv_items s)(k \<mapsto> pg')"
  have dom: "dom ?items = dom (nv_items s)" using pg by auto
  then have "nav_ok d jump (s\<lparr>nv_items := ?items\<rparr>)" using assms(1) pg'(2) op_ok_dom [OF dom] by (auto simp: nav_ok_def split: option.splits)
  moreover have "userdata_of (s\<lparr>nv_items := ?items\<rparr>) = userdata_of s" using pg pg'(3) by (auto simp: userdata_of_def)
  ultimately show ?thesis using pg pg'(1) dom by (intro exI [of _ ?items]) (simp add: on_page_def)
qed

definition sel_item :: "nav \<Rightarrow> nat option" where
  "sel_item s = map_option (\<lambda>i. nv_menu s ! i) (nv_selected s)"

text \<open>What the deferred operations leave alone when they do not select a page.\<close>

definition same_place :: "nav \<Rightarrow> nav \<Rightarrow> bool" where
  "same_place s s' \<longleftrightarrow> userdata_of s' = userdata_of s \<and> nv_folder s' = nv_folder s \<and> dom (nv_items s') = dom (nv_items s) \<and> (sel_item s' = sel_item s \<or> sel_item s = None)"

lemma same_place_trans: "same_place s t \<Longrightarrow> same_place t u \<Longrightarrow> same_place s u"
  by (auto simp: same_place_def)

lemma on_page_same:
  assumes "nav_ok d jump s" "k \<in> dom (nv_items s)" "\<And>pg. page_ok d pg \<Longrightarrow> \<exists>pg'. f pg = Some pg' \<and> page_ok d pg' \<and> pg_userdata pg' = pg_userdata pg"
  shows "\<exists>s'. on_page k f s = Some s' \<and> nav_ok d jump s' \<and> same_place s s' \<and> gUpdateList s' = gUpdateList s"
proof -
  obtain items where i: "on_page k f s = Some (s\<lparr>nv_items := items\<rparr>)" "nav_ok d jump (s\<lparr>nv_items := items\<rparr>)"
    "userdata_of (s\<lparr>nv_items := items\<rparr>) = userdata_of s" "dom items = dom (nv_items s)"
    using on_page_ok [OF assms] by blast
  then have "same_place s (s\<lparr>nv_items := items\<rparr>)" by (simp add: same_place_def sel_item_def)
  then show ?thesis using i(1,2) by simp
qed

lemma menuAppend_ok:
  assumes "nav_ok d jump s" "k \<in> dom (nv_items s)"
  shows "nav_ok d jump (menuAppendItem k s) \<and> same_place s (menuAppendItem k s)"
  using assms by (cases "nv_selected s") (auto simp: nav_ok_def menuAppendItem_def same_place_def userdata_of_def sel_item_def nth_append)

lemma find_SomeD: "find P xs = Some x \<Longrightarrow> x \<in> set xs \<and> P x"
  by (auto simp: find_Some_iff)

lemma menuSelect_ok: "nav_ok d jump s \<Longrightarrow> nav_ok d jump (menuSetSelectedItem k s)"
  by (auto simp: nav_ok_def menuSetSelectedItem_def split: option.splits dest: find_SomeD)

lemma handle_op_ok:
  assumes ok: "nav_ok d jump s" and op: "op_ok (nv_items s) jump op" and env: "fresh_node alloc" "row_sorter sorter" "1 \<le> d"
  shows "\<exists>s'. guiHandleOp alloc sorter op s = Some s' \<and> nav_ok d jump s' \<and> gUpdateList s' = gUpdateList s \<and> (\<not> jump \<longrightarrow> same_place s s')"
proof (cases op)
  case GUI_INIT_DONE
  then show ?thesis using ok by (auto simp: guiHandleOp_def nav_ok_def same_place_def userdata_of_def sel_item_def split: option.splits)
next
  case (GUI_OP_ADD_MENU k)
  then show ?thesis using menuAppend_ok [OF ok] op by (auto simp: guiHandleOp_def op_ok_def menuAppendItem_def)
next
  case (GUI_OP_APPEND_MENU k ro)
  then obtain t where t: "k \<in> dom (nv_items s)" "ro_text_id ro < 0" "ro_text ro = Some t" "NUL \<notin> set t" using op by (auto simp: op_ok_def split: option.splits)
  have "\<exists>pg'. op_append (alloc (pg_heap pg)) ro pg = Some pg' \<and> page_ok d pg' \<and> pg_userdata pg' = pg_userdata pg" if p: "page_ok d pg" for pg
  proof -
    obtain a where "alloc (pg_heap pg) = Some a" "a \<notin> dom (pg_heap pg)" using env(1) page_ok_finite [OF p] unfolding fresh_node_def by blast
    then show ?thesis using op_append_ok [OF p _ t(2,3,4) env(3), of a] by simp
  qed
  from on_page_same [OF ok t(1) this] show ?thesis using GUI_OP_APPEND_MENU by (auto simp: guiHandleOp_def)
next
  case (GUI_OP_SELECT_MENU k)
  then show ?thesis using menuSelect_ok [OF ok, of k] op by (auto simp: guiHandleOp_def op_ok_def menuSetSelectedItem_def split: option.splits)
next
  case (GUI_OP_CLEAR_SUBMENU k)
  then show ?thesis using on_page_same [OF ok, of k op_clear] op_clear_ok op by (auto simp: guiHandleOp_def op_ok_def)
next
  case (GUI_OP_SORT k)
  then show ?thesis using on_page_same [OF ok, of k "op_sort sorter"] row_sorter.op_sort_ok [OF env(2) _ env(3)] op by (auto simp: guiHandleOp_def op_ok_def)
next
  case (GUI_OP_ADD_HINT k text_id icon_id)
  then show ?thesis using on_page_same [OF ok, of k "menuAddHint text_id icon_id"] op by (auto simp: guiHandleOp_def op_ok_def menuAddHint_def)
qed

lemma deferred_ok:
  assumes "nav_ok d jump s" "gUpdateList s = ops" "fresh_node alloc" "row_sorter sorter" "1 \<le> d"
  shows "\<exists>s'. deferred_loop alloc sorter ops s = Some s' \<and> nav_ok d jump s' \<and> gUpdateList s' = [] \<and> (\<not> jump \<longrightarrow> same_place s s')"
  using assms(1,2)
proof (induction ops arbitrary: s)
  case Nil
  then show ?case by (auto simp: nav_ok_def same_place_def userdata_of_def sel_item_def split: option.splits)
next
  case (Cons op ops)
  obtain s1 where s1: "guiHandleOp alloc sorter op s = Some s1" "nav_ok d jump s1" "gUpdateList s1 = op # ops" "\<not> jump \<longrightarrow> same_place s s1"
  proof -
    have "op_ok (nv_items s) jump op" using Cons.prems by (simp add: nav_ok_def)
    then show thesis using handle_op_ok [OF Cons.prems(1) _ assms(3-5)] Cons.prems(2) that by metis
  qed
  let ?s2 = "s1\<lparr>gUpdateList := ops, gCompletedOps := gCompletedOps s1 + 1\<rparr>"
  have "nav_ok d jump ?s2" using s1(2,3) by (auto simp: nav_ok_def split: option.splits)
  then obtain s' where "deferred_loop alloc sorter ops ?s2 = Some s'" "nav_ok d jump s'" "gUpdateList s' = []" "\<not> jump \<longrightarrow> same_place ?s2 s'"
    using Cons.IH by fastforce
  moreover have "same_place s1 ?s2" by (simp add: same_place_def userdata_of_def sel_item_def fun_eq_iff)
  ultimately show ?case using s1 same_place_trans by (auto intro: same_place_trans)
qed

lemma nav_ok_item: "nav_ok d jump s \<Longrightarrow> i < length (nv_menu s) \<Longrightarrow> nv_menu s ! i \<in> dom (nv_items s)"
  by (meson nav_ok_def nth_mem subsetD)

lemma leaving_ok: "nav_ok d jump s \<Longrightarrow> nav_ok d jump (menuFolderResetLeaving i s)"
proof -
  assume ok: "nav_ok d jump s"
  have "nav_ok d jump (s\<lparr>nv_folder := fs, nv_items := (nv_items s)(nv_menu s ! i \<mapsto> pg\<lparr>pg_text := None, pg_text_id := t\<rparr>), nv_requests := q\<rparr>)"
    if "page_of s i = Some pg" for pg t fs q
  proof -
    have it: "nv_items s (nv_menu s ! i) = Some pg" using that by (simp add: page_of_def split: if_splits)
    then have dom: "dom ((nv_items s)(nv_menu s ! i \<mapsto> pg\<lparr>pg_text := None, pg_text_id := t\<rparr>)) = dom (nv_items s)" by auto
    show ?thesis using ok it op_ok_dom [OF dom] by (auto simp: nav_ok_def split: option.splits)
  qed
  then show ?thesis using ok by (auto simp: menuFolderResetLeaving_def split: option.splits)
qed

lemma leaving_frame [simp]:
  "nv_menu (menuFolderResetLeaving i s) = nv_menu s" "nv_selected (menuFolderResetLeaving i s) = nv_selected s"
  by (auto simp: menuFolderResetLeaving_def split: option.splits)

lemma leaving_userdata: "userdata_of (menuFolderResetLeaving i s) = userdata_of s"
  by (auto simp: menuFolderResetLeaving_def userdata_of_def page_of_def fun_eq_iff split: option.splits if_splits)

lemma reset_depth: "folderDepth (folderReset fs mode) m = (if m = mode then 0 else folderDepth fs m)"
  by (auto simp: folderDepth_def folderReset_def folder_on_def)

lemma depth_unsupported: "\<not> folderModeSupported m \<Longrightarrow> folderDepth fs m = 0"
  by (simp add: folderDepth_def folder_on_def)

lemma leaving_depth:
  assumes "i < length (nv_menu s)"
  shows "folderDepth (nv_folder (menuFolderResetLeaving i s)) m =
    (if \<exists>t. userdata_of s (nv_menu s ! i) = Some (m, t) then 0 else folderDepth (nv_folder s) m)"
  using assms by (auto simp: menuFolderResetLeaving_def userdata_of_def page_of_def reset_depth depth_unsupported split: option.splits)

lemma move_to_ok:
  assumes "nav_ok d jump s" "\<And>k. target = Some k \<Longrightarrow> k < length (nv_menu s)"
  shows "nav_ok d jump (move_to target i s)"
proof (cases target)
  case None
  then show ?thesis using assms(1) by (simp add: move_to_def)
next
  case (Some k)
  let ?s = "menuFolderResetLeaving i s"
  have l: "nav_ok d jump ?s" "k < length (nv_menu ?s)" using leaving_ok [OF assms(1)] assms(2) [OF Some] by auto
  have "nav_ok d jump (?s\<lparr>nv_selected := Some k, nv_itemConfigId := -1\<rparr>)" using l by (simp add: nav_ok_def)
  then show ?thesis using Some by (simp add: move_to_def)
qed

definition roots :: "nav \<Rightarrow> bool" where
  "roots s \<longleftrightarrow> (\<forall>k m t. userdata_of s k = Some (m, t) \<and> sel_item s \<noteq> Some k \<longrightarrow> folderDepth (nv_folder s) m = 0)"

definition modes_distinct :: "nav \<Rightarrow> bool" where
  "modes_distinct s \<longleftrightarrow> (\<forall>k k' m t t'. userdata_of s k = Some (m, t) \<and> userdata_of s k' = Some (m, t') \<longrightarrow> k = k')"

lemma rootsI: "(\<And>k m t. userdata_of s k = Some (m, t) \<Longrightarrow> sel_item s \<noteq> Some k \<Longrightarrow> folderDepth (nv_folder s) m = 0) \<Longrightarrow> roots s"
  unfolding roots_def by blast

lemma rootsD: "roots s \<Longrightarrow> userdata_of s k = Some (m, t) \<Longrightarrow> sel_item s \<noteq> Some k \<Longrightarrow> folderDepth (nv_folder s) m = 0"
  unfolding roots_def by blast

lemma roots_same: "roots s \<Longrightarrow> same_place s s' \<Longrightarrow> roots s'"
  unfolding roots_def same_place_def by (metis option.distinct(1))

lemma move_to_roots:
  assumes "roots s" "nv_selected s = Some i" "i < length (nv_menu s)"
  shows "roots (move_to target i s) \<and> userdata_of (move_to target i s) = userdata_of s"
proof (cases target)
  case None
  then show ?thesis using assms(1) by (simp add: move_to_def)
next
  case (Some k)
  let ?s = "(menuFolderResetLeaving i s)\<lparr>nv_selected := Some k, nv_itemConfigId := -1\<rparr>"
  have u: "userdata_of ?s = userdata_of s" using leaving_userdata [of i s] by (simp add: userdata_of_def fun_eq_iff)
  have "folderDepth (nv_folder ?s) m = 0" if "userdata_of s a = Some (m, t)" for a m t
    using assms that leaving_depth [OF assms(3), of m] by (cases "a = nv_menu s ! i") (auto simp: roots_def sel_item_def)
  then have "roots ?s" using u by (intro rootsI) simp
  then show ?thesis using Some u by (simp add: move_to_def)
qed

text \<open>Entering and leaving folders changes the depth of the selected page only.\<close>

lemma descend_depth: "m \<noteq> mode \<Longrightarrow> folderDepth (snd (folderDescend fs mode nm)) m = folderDepth fs m" "m \<noteq> mode \<Longrightarrow> folderDepth (snd (folderAscend fs mode)) m = folderDepth fs m"
  by (auto simp: folderDescend_def folderAscend_def folderDepth_def folder_on_def Let_def split: option.splits)

lemma folder_move_frame:
  assumes "s' = select_folder en i s \<or> s' = itemFolderAscend i s"
  shows "nv_items s' = nv_items s" "nv_menu s' = nv_menu s" "nv_selected s' = nv_selected s" "gUpdateList s' = gUpdateList s"
    "gScheduledOps s' = gScheduledOps s" "nv_unannounced s' = nv_unannounced s" "gCompletedOps s' = gCompletedOps s"
  using assms by (auto simp: select_folder_def itemFolderAscend_def split: option.splits prod.splits)

lemma folder_move_ok:
  assumes "s' = select_folder en i s \<or> s' = itemFolderAscend i s" "nav_ok d jump s"
  shows "nav_ok d jump s'"
  using assms(2) unfolding nav_ok_def folder_move_frame [OF assms(1)] .

lemma folder_move_depth:
  assumes "s' = select_folder en i s \<or> s' = itemFolderAscend i s" "\<nexists>t. userdata_of s (nv_menu s ! i) = Some (m, t)"
  shows "folderDepth (nv_folder s') m = folderDepth (nv_folder s) m"
proof -
  have "m \<noteq> mode" if "page_of s i = Some pg" "pg_userdata pg = Some (mode, t)" for pg mode t
    using assms(2) that by (auto simp: userdata_of_def page_of_def split: if_splits)
  then show ?thesis using assms(1) descend_depth
    by (auto simp: select_folder_def itemFolderAscend_def split: option.splits prod.splits) (metis snd_conv)+
qed

lemma folder_move_roots:
  assumes "roots s" "modes_distinct s" "nv_selected s = Some i" "s' = select_folder en i s \<or> s' = itemFolderAscend i s"
  shows "roots s' \<and> userdata_of s' = userdata_of s"
proof -
  have u: "userdata_of s' = userdata_of s" "sel_item s' = sel_item s" using folder_move_frame [OF assms(4)] by (auto simp: userdata_of_def sel_item_def fun_eq_iff)
  have "folderDepth (nv_folder s') m = 0" if k: "userdata_of s k = Some (m, t)" "sel_item s \<noteq> Some k" for k m t
  proof -
    have "\<nexists>t. userdata_of s (nv_menu s ! i) = Some (m, t)" using k assms(2,3) by (auto simp: modes_distinct_def sel_item_def)
    then show ?thesis using folder_move_depth [OF assms(4)] rootsD [OF assms(1) k] by simp
  qed
  then have "roots s'" using u by (intro rootsI) simp
  then show ?thesis using u by simp
qed

lemma clear_list_ok: "page_ok d pg \<Longrightarrow> \<exists>pg'. clearMenuGameList pg = Some pg' \<and> page_ok d pg' \<and> pg_userdata pg' = pg_userdata pg"
  using op_clear_ok [of d pg] by (auto simp: clearMenuGameList_def)

lemma nav_step_ok:
  assumes "nav_step alloc sorter d jump s s'" "nav_ok d jump s" "fresh_node alloc" "row_sorter sorter" "1 \<le> d"
  shows "nav_ok d jump s'"
  using assms(1,2)
proof (cases rule: nav_step.cases)
  case (put op)
  then show ?thesis using assms(2) by (auto simp: defer_enqueue_def nav_ok_def split: option.splits)
next
  case announce
  then show ?thesis using assms(2) by (auto simp: defer_announce_def nav_ok_def split: option.splits)
next
  case drain
  then show ?thesis using deferred_ok [OF assms(2) refl assms(3-5)] by (auto simp: guiHandleDeferredOps_def)
next
  case (clear k)
  then have "k \<in> dom (nv_items s)" by (auto simp: on_page_def split: option.splits)
  then show ?thesis using on_page_same [OF assms(2) _ clear_list_ok] clear by fastforce
next
  case next_page
  then obtain i where i: "s' = move_to (find (visible_at s) [Suc i..<length (nv_menu s)]) i s" by (auto simp: menuNextH_def)
  have "k < length (nv_menu s)" if "find (visible_at s) [Suc i..<length (nv_menu s)] = Some k" for k
    using find_SomeD [OF that] by simp
  then show ?thesis using move_to_ok [OF assms(2)] i by blast
next
  case prev_page
  then obtain i where i: "nv_selected s = Some i" "s' = move_to (find (visible_at s) (rev [0..<i])) i s" by (auto simp: menuPrevH_def)
  have "k < length (nv_menu s)" if "find (visible_at s) (rev [0..<i]) = Some k" for k
    using find_SomeD [OF that] i(1) assms(2) by (auto simp: nav_ok_def)
  then show ?thesis using move_to_ok [OF assms(2)] i(2) by blast
next
  case (move i v)
  then have "nv_menu s ! i \<in> dom (nv_items s)" using nav_ok_item [OF assms(2)] by simp
  from on_page_same [OF assms(2) this move_v_ok [where v = v, OF _ assms(5)]] show ?thesis using move(3) by force
next
  case (enter i enabled)
  then show ?thesis using folder_move_ok assms(2) by blast
next
  case (ascend_page i)
  then show ?thesis using folder_move_ok assms(2) by blast
next
  case (shown k b)
  then have "k \<in> dom (nv_items s)" by (auto simp: on_page_def split: option.splits)
  then show ?thesis using on_page_same [OF assms(2), of k "\<lambda>pg. Some (pg\<lparr>pg_visible := b\<rparr>)"] shown by auto
next
  case refresh
  then show ?thesis using assms(2) by (auto simp: refreshMenuPosition_def nav_ok_def split: option.splits dest: find_SomeD)
qed

lemma nav_step_roots:
  assumes "nav_step alloc sorter d False s s'" "nav_ok d False s" "roots s" "modes_distinct s" "fresh_node alloc" "row_sorter sorter" "1 \<le> d"
  shows "roots s' \<and> userdata_of s' = userdata_of s"
  using assms(1)
proof (cases rule: nav_step.cases)
  case (put op)
  then have "same_place s s'" by (auto simp: defer_enqueue_def same_place_def userdata_of_def sel_item_def)
  then show ?thesis using roots_same [OF assms(3)] by (auto simp: same_place_def)
next
  case announce
  then have "same_place s s'" by (auto simp: defer_announce_def same_place_def userdata_of_def sel_item_def)
  then show ?thesis using roots_same [OF assms(3)] by (auto simp: same_place_def)
next
  case drain
  then have "same_place s s'" using deferred_ok [OF assms(2) refl assms(5-7)] by (auto simp: guiHandleDeferredOps_def)
  then show ?thesis using roots_same [OF assms(3)] by (auto simp: same_place_def)
next
  case (clear k)
  then have "k \<in> dom (nv_items s)" by (auto simp: on_page_def split: option.splits)
  from on_page_same [OF assms(2) this clear_list_ok] have "same_place s s'" using clear by (metis option.inject)
  then show ?thesis using roots_same [OF assms(3)] by (auto simp: same_place_def)
next
  case next_page
  then show ?thesis using move_to_roots [OF assms(3)] assms(2) by (auto simp: menuNextH_def nav_ok_def)
next
  case prev_page
  then show ?thesis using move_to_roots [OF assms(3)] assms(2) by (auto simp: menuPrevH_def nav_ok_def)
next
  case (move i v)
  then have "nv_menu s ! i \<in> dom (nv_items s)" using nav_ok_item [OF assms(2)] by simp
  from on_page_same [OF assms(2) this move_v_ok [where v = v, OF _ assms(7)]] have "same_place s s'" using move(3) by force
  then show ?thesis using roots_same [OF assms(3)] by (auto simp: same_place_def)
next
  case (enter i enabled)
  then show ?thesis using folder_move_roots [OF assms(3,4)] by blast
next
  case (ascend_page i)
  then show ?thesis using folder_move_roots [OF assms(3,4)] by blast
next
  case (shown k b)
  then have "k \<in> dom (nv_items s)" by (auto simp: on_page_def split: option.splits)
  from on_page_same [OF assms(2) this, of "\<lambda>pg. Some (pg\<lparr>pg_visible := b\<rparr>)"] have "same_place s s'" using shown by simp
  then show ?thesis using roots_same [OF assms(3)] by (auto simp: same_place_def)
next
  case refresh
  then show ?thesis by simp
qed

lemma nav_init_ok: "\<forall>k pg. items k = Some pg \<longrightarrow> empty_page pg \<Longrightarrow> nav_ok d jump (nav_init items f)"
  by (auto simp: nav_ok_def nav_init_def empty_page_ok)

lemma nav_reach_ok:
  assumes "(nav_step alloc sorter d jump)\<^sup>*\<^sup>* (nav_init items f) s" "\<forall>k pg. items k = Some pg \<longrightarrow> empty_page pg" "fresh_node alloc" "row_sorter sorter" "1 \<le> d"
  shows "nav_ok d jump s"
  using assms(1) by (induction rule: rtranclp_induct) (use nav_init_ok [OF assms(2)] nav_step_ok [OF _ _ assms(3-5)] in auto)

section \<open>Two threads\<close>

text \<open>\<open>nc_moving\<close> is the move under way: its page with the pointers it has read.  \<open>nc_raced\<close> is set when the
  list of that page is cleared meanwhile.\<close>

record nav_conc =
  nc_nav :: nav
  nc_moving :: "(nat \<times> page) option"
  nc_raced :: bool

definition conc_init :: "(nat \<Rightarrow> page option) \<Rightarrow> bool \<Rightarrow> nav_conc" where
  "conc_init items folders = \<lparr>nc_nav = nav_init items folders, nc_moving = None, nc_raced = False\<rparr>"

text \<open>The move goes on with the pointers \<open>pg0\<close> in the list as it is now, and stores where it ends.\<close>

definition finish_move :: "v_move \<Rightarrow> nat \<Rightarrow> nat \<Rightarrow> page \<Rightarrow> nav \<Rightarrow> nav option" where
  "finish_move v d k pg0 s = (case nv_items s k of
     None \<Rightarrow> None
   | Some pg \<Rightarrow>
       map_option (\<lambda>pg'. s\<lparr>nv_items := (nv_items s)(k \<mapsto> pg\<lparr>pg_current := pg_current pg', pg_pagestart := pg_pagestart pg'\<rparr>)\<rparr>)
         (move_v v (int d) (pg0\<lparr>pg_heap := pg_heap pg\<rparr>)))"

text \<open>The same for the row that is entered.\<close>

definition finish_enter :: "bool \<Rightarrow> nat \<Rightarrow> nat \<Rightarrow> page \<Rightarrow> nav \<Rightarrow> nav option" where
  "finish_enter enabled i k pg0 s = (case (nv_items s k, pg_current pg0) of
     (Some pg, Some c) \<Rightarrow> if pg_heap pg c = None then None else Some (select_folder enabled i s)
   | (Some pg, None) \<Rightarrow> Some s
   | (None, _) \<Rightarrow> None)"

text \<open>What the worker does.\<close>

inductive worker_step :: "bool \<Rightarrow> nav \<Rightarrow> nav \<Rightarrow> bool" for jump where
  put: "op_ok (nv_items s) jump op \<Longrightarrow> worker_step jump s (defer_enqueue op s)"
| announce: "0 < nv_unannounced s \<Longrightarrow> worker_step jump s (snd (defer_announce s))"
| clear: "on_page k clearMenuGameList s = Some s' \<Longrightarrow> worker_step jump s s'"
| shown: "on_page k (\<lambda>pg. Some (pg\<lparr>pg_visible := b\<rparr>)) s = Some s' \<Longrightarrow> worker_step jump s s'"

text \<open>The pointers of a page to rows, and the rows.\<close>

definition rows_of :: "page \<Rightarrow> dheap \<times> ptr list" where
  "rows_of pg = (pg_heap pg, [pg_subMenu pg, pg_submenu pg, pg_current pg, pg_pagestart pg, pg_last pg])"

definition rows_at :: "nav \<Rightarrow> nat \<Rightarrow> (dheap \<times> ptr list) option" where
  "rows_at s k = map_option rows_of (nv_items s k)"

inductive conc_step :: "(dheap \<Rightarrow> ptr) \<Rightarrow> (dheap \<Rightarrow> ptr \<Rightarrow> int \<Rightarrow> (dheap \<times> ptr) option) \<Rightarrow> nat \<Rightarrow> bool \<Rightarrow> nav_conc \<Rightarrow> nav_conc \<Rightarrow> bool"
  for alloc sorter d jump where
  whole: "nc_moving c = None \<Longrightarrow> nav_step alloc sorter d jump (nc_nav c) s \<Longrightarrow> conc_step alloc sorter d jump c (c\<lparr>nc_nav := s\<rparr>)"
| begin_move: "nc_moving c = None \<Longrightarrow> nv_selected (nc_nav c) = Some i \<Longrightarrow> i < length (nv_menu (nc_nav c)) \<Longrightarrow>
    nv_items (nc_nav c) (nv_menu (nc_nav c) ! i) = Some pg \<Longrightarrow>
    conc_step alloc sorter d jump c (c\<lparr>nc_moving := Some (nv_menu (nc_nav c) ! i, pg)\<rparr>)"
| worker: "nc_moving c = Some (k, pg0) \<Longrightarrow> worker_step jump (nc_nav c) s \<Longrightarrow>
    conc_step alloc sorter d jump c (c\<lparr>nc_nav := s, nc_raced := nc_raced c \<or> rows_at s k \<noteq> rows_at (nc_nav c) k\<rparr>)"
| end_move: "nc_moving c = Some (k, pg0) \<Longrightarrow> finish_move v d k pg0 (nc_nav c) = Some s \<Longrightarrow>
    conc_step alloc sorter d jump c (c\<lparr>nc_nav := s, nc_moving := None\<rparr>)"
| end_enter: "nc_moving c = Some (k, pg0) \<Longrightarrow> nv_selected (nc_nav c) = Some i \<Longrightarrow> finish_enter enabled i k pg0 (nc_nav c) = Some s \<Longrightarrow>
    conc_step alloc sorter d jump c (c\<lparr>nc_nav := s, nc_moving := None\<rparr>)"

lemma worker_nav: "worker_step jump s s' \<Longrightarrow> nav_step alloc sorter d jump s s'"
  by (induction rule: worker_step.induct) (auto intro: nav_step.intros)

lemma finish_move_whole:
  assumes "nv_items s k = Some pg" "rows_of pg0 = rows_of pg"
  shows "finish_move v d k pg0 s = on_page k (move_v v (int d)) s"
proof -
  have r: "pg_heap pg0 = pg_heap pg" "pg_subMenu pg0 = pg_subMenu pg" "pg_submenu pg0 = pg_submenu pg" "pg_current pg0 = pg_current pg"
    "pg_pagestart pg0 = pg_pagestart pg" "pg_last pg0 = pg_last pg" using assms(2) by (simp_all add: rows_of_def)
  have "map_option (\<lambda>pg'. pg\<lparr>pg_current := pg_current pg', pg_pagestart := pg_pagestart pg'\<rparr>) (move_v v (int d) (pg0\<lparr>pg_heap := pg_heap pg\<rparr>)) = move_v v (int d) pg"
    using r by (cases v)
      (auto simp: move_v_def menuNextV_def menuPrevV_def menuNextPage_def menuPrevPage_def menuFirstPage_def menuLastPage_def
        option.map_comp comp_def split: option.splits)
  from arg_cong [OF this, of "map_option (\<lambda>q. s\<lparr>nv_items := (nv_items s)(k \<mapsto> q)\<rparr>)"] show ?thesis
    using assms(1) by (simp add: finish_move_def on_page_def option.map_comp comp_def)
qed

definition conc_ok :: "nat \<Rightarrow> bool \<Rightarrow> nav_conc \<Rightarrow> bool" where
  "conc_ok d jump c \<longleftrightarrow> nav_ok d jump (nc_nav c) \<and>
     (\<forall>k pg0. nc_moving c = Some (k, pg0) \<longrightarrow> (\<exists>pg. nv_items (nc_nav c) k = Some pg \<and> rows_of pg0 = rows_of pg))"

lemma page_ok_row:
  assumes "page_ok d pg" "pg_current pg = Some a"
  shows "pg_heap pg a \<noteq> None"
proof -
  obtain xs i j where at: "page_at pg xs i j" using assms(1) by (auto simp: page_ok_def)
  then have "i < length xs" "a = addr xs i" using assms(2) by (auto simp: page_at_def ptr_at_def split: if_splits)
  then show ?thesis using dl_node [of "pg_heap pg" "pg_subMenu pg" xs i] at by (auto simp: page_at_def)
qed

lemma finish_ok:
  assumes ok: "conc_ok d jump c" and m: "nc_moving c = Some (k, pg0)" and d: "1 \<le> d"
  shows "\<exists>s. finish_move v d k pg0 (nc_nav c) = Some s \<and> nav_ok d jump s" "\<exists>s. finish_enter en i k pg0 (nc_nav c) = Some s \<and> nav_ok d jump s"
proof -
  obtain pg where pg: "nv_items (nc_nav c) k = Some pg" "rows_of pg0 = rows_of pg" and n: "nav_ok d jump (nc_nav c)" using ok m by (auto simp: conc_ok_def)
  have "k \<in> dom (nv_items (nc_nav c))" using pg(1) by blast
  from on_page_same [OF n this move_v_ok [where v = v, OF _ d]] show "\<exists>s. finish_move v d k pg0 (nc_nav c) = Some s \<and> nav_ok d jump s"
    using finish_move_whole [OF pg, of v d] by auto
  have "page_ok d pg" using n pg(1) by (auto simp: nav_ok_def)
  then have "pg_current pg0 = Some a \<longrightarrow> pg_heap pg a \<noteq> None" for a using page_ok_row pg(2) by (simp add: rows_of_def)
  then show "\<exists>s. finish_enter en i k pg0 (nc_nav c) = Some s \<and> nav_ok d jump s"
    using n folder_move_ok [OF _ n] pg(1) by (cases "pg_current pg0") (auto simp: finish_enter_def)
qed

lemma conc_step_ok:
  assumes "conc_step alloc sorter d jump c c'" "nc_raced c \<or> conc_ok d jump c" "fresh_node alloc" "row_sorter sorter" "1 \<le> d"
  shows "nc_raced c' \<or> conc_ok d jump c'"
  using assms(1)
proof (cases rule: conc_step.cases)
  case (whole s)
  then show ?thesis using assms(2) nav_step_ok [OF whole(3) _ assms(3-5)] by (auto simp: conc_ok_def)
next
  case (begin_move i pg)
  then show ?thesis using assms(2) by (auto simp: conc_ok_def)
next
  case (worker k pg0 s)
  show ?thesis
  proof (cases "nc_raced c'")
    case False
    then have c: "conc_ok d jump c" "rows_at s k = rows_at (nc_nav c) k" using worker(1) assms(2) by auto
    then obtain pg where "nv_items (nc_nav c) k = Some pg" "rows_of pg0 = rows_of pg" using worker(2) by (auto simp: conc_ok_def)
    moreover from this obtain pg' where "nv_items s k = Some pg'" "rows_of pg' = rows_of pg" using c(2) by (auto simp: rows_at_def)
    moreover have "nav_ok d jump s" using c(1) nav_step_ok [OF worker_nav [OF worker(3)] _ assms(3-5)] by (simp add: conc_ok_def)
    ultimately show ?thesis using worker(1,2) by (simp add: conc_ok_def)
  qed simp
next
  case (end_move k pg0 v s)
  then show ?thesis using assms(2) finish_ok(1) [OF _ end_move(2) assms(5), of jump v] by (auto simp: conc_ok_def)
next
  case (end_enter k pg0 i enabled s)
  then show ?thesis using assms(2) finish_ok(2) [OF _ end_enter(2) assms(5), of jump enabled i] by (auto simp: conc_ok_def)
qed

section \<open>Main results\<close>

text \<open>C38. Where the cursor goes: with \<open>n\<close> rows, row \<open>i\<close> selected, \<open>j\<close> the first row shown and \<open>d\<close> rows on the screen,
  down and up move by one and wrap around, a page down moves by a screen or does nothing when the rest is already
  shown, a page up moves back by a screen or wraps to the end, and the first row shown follows as stated; no
  pointer of the list is missed and no row is lost.\<close>

theorem menu_moves:
  assumes "page_at pg xs i j" "1 \<le> d"
  shows "(\<exists>pg'. menuNextV (int d) pg = Some pg' \<and>
        page_at pg' xs (if Suc i < length xs then Suc i else 0) (if length xs \<le> Suc i then 0 else if Suc i < j + d then j else Suc i)) \<and>
    (\<exists>pg'. menuPrevV (int d) pg = Some pg' \<and>
        page_at pg' xs (if i = 0 then length xs - 1 else i - 1) (if i = 0 then length xs - d else if j = i then i - d else j)) \<and>
    (\<exists>pg'. menuNextPage (int d) pg = Some pg' \<and> (if j + d < length xs then page_at pg' xs (j + d) (j + d) else pg' = pg)) \<and>
    (\<exists>pg'. menuPrevPage (int d) pg = Some pg' \<and>
        (if j = 0 then page_at pg' xs (length xs - 1) (length xs - d) else page_at pg' xs (j - d) (j - d))) \<and>
    page_at (menuFirstPage pg) xs 0 0 \<and> (\<exists>pg'. menuLastPage (int d) pg = Some pg' \<and> page_at pg' xs (length xs - 1) (length xs - d))"
  using page_at_next [OF assms(1)] page_at_prev [OF assms] page_at_next_page [OF assms(1)] page_at_prev_page [OF assms]
    page_at_first [OF assms(1)] page_at_last [OF assms] by blast



section \<open>Examples\<close>

definition sample_page :: "int \<Rightarrow> page" where
  "sample_page mode = \<lparr>pg_heap = (\<lambda>_. None), pg_subMenu = None, pg_text = None, pg_text_id = 0, pg_visible = True, pg_userdata = Some (mode, 1),
     pg_submenu = None, pg_current = None, pg_pagestart = None, pg_last = None, pg_remindLast = False, pg_hints = []\<rparr>"

definition sample_pages :: "nat \<Rightarrow> page option" where
  "sample_pages k = (if k < 2 then Some (sample_page (int k)) else None)"

definition some_free :: "dheap \<Rightarrow> ptr" where
  "some_free h = Some (if dom h = {} then 0 else Suc (Max (dom h)))"

lemma fresh_node_some_free: "fresh_node some_free"
proof -
  have "Suc (Max (dom h)) \<notin> dom h" if "finite (dom h)" for h :: dheap
    using Max_ge [OF that, of "Suc (Max (dom h))"] by auto
  then show ?thesis by (simp add: fresh_node_def some_free_def)
qed

lemma sample_pages_ok: "\<forall>k pg. sample_pages k = Some pg \<longrightarrow> empty_page pg" "modes_distinct (nav_init sample_pages True)"
  by (auto simp: sample_pages_def sample_page_def empty_page_def modes_distinct_def userdata_of_def nav_init_def split: if_splits)

theorem menu_moves_witness:
  "\<exists>pg'. menuNextV 1 ((sample_page 0)\<lparr>pg_heap := sample_rows, pg_subMenu := Some 0, pg_submenu := Some 0, pg_current := Some 2, pg_pagestart := Some 2, pg_last := Some 2\<rparr>) =
     Some pg' \<and> pg_current pg' = Some 0"
proof -
  let ?pg = "(sample_page 0)\<lparr>pg_heap := sample_rows, pg_subMenu := Some 0, pg_submenu := Some 0, pg_current := Some 2, pg_pagestart := Some 2, pg_last := Some 2\<rparr>"
  let ?xs = "[(0, sample_row ''b'' 1 False), (1, sample_row ''A'' 2 False), (2, sample_row ''z'' 3 True)]"
  have "page_at ?pg ?xs 2 2" using sample_rows_repr by (simp add: page_at_def ptr_at_def)
  from menu_moves [OF this, of 1] obtain pg' where "menuNextV 1 ?pg = Some pg'" "page_at pg' ?xs 0 0" by auto
  then show ?thesis by (auto simp: page_at_def ptr_at_def)
qed


text \<open>Two pages are added, then a row is put on the first one.\<close>

definition sample_row_op :: row_op where
  "sample_row_op = \<lparr>ro_icon_id = -1, ro_text = Some ''RPG'', ro_id = 0, ro_text_id = -1, ro_selected = False, ro_isFolder = True\<rparr>"

definition put_op :: "gui_op \<Rightarrow> nav \<Rightarrow> nav" where
  "put_op op s = snd (guiDeferUpdate True op s)"

lemma put_op_steps: "op_ok (nv_items s) jump op \<Longrightarrow> (nav_step alloc sorter d jump)\<^sup>*\<^sup>* s (put_op op s)"
proof -
  assume "op_ok (nv_items s) jump op"
  then have "nav_step alloc sorter d jump s (defer_enqueue op s)" by (rule nav_step.put)
  moreover have "nav_step alloc sorter d jump (defer_enqueue op s) (put_op op s)"
    unfolding put_op_def guiDeferUpdate_def by simp (rule nav_step.announce, simp add: defer_enqueue_def)
  ultimately show ?thesis by (meson r_into_rtranclp rtranclp.rtrancl_into_rtrancl)
qed

definition sample_queue :: nav where
  "sample_queue = put_op (GUI_OP_APPEND_MENU 0 sample_row_op) (put_op (GUI_OP_ADD_MENU 1) (put_op (GUI_OP_ADD_MENU 0) (nav_init sample_pages True)))"

lemma sample_queue_reach: "(nav_step alloc sorter d jump)\<^sup>*\<^sup>* (nav_init sample_pages True) sample_queue"
proof -
  have i: "nv_items (put_op op s) = nv_items s" for op s by (simp add: put_op_def guiDeferUpdate_def defer_enqueue_def defer_announce_def)
  have ok: "op_ok sample_pages jump (GUI_OP_ADD_MENU 0)" "op_ok sample_pages jump (GUI_OP_ADD_MENU 1)" "op_ok sample_pages jump (GUI_OP_APPEND_MENU 0 sample_row_op)"
    by (auto simp: op_ok_def sample_pages_def sample_row_op_def)
  have n: "nv_items (nav_init sample_pages True) = sample_pages" by (simp add: nav_init_def)
  let ?s0 = "nav_init sample_pages True"
  let ?s1 = "put_op (GUI_OP_ADD_MENU 0) ?s0"
  let ?s2 = "put_op (GUI_OP_ADD_MENU 1) ?s1"
  have "(nav_step alloc sorter d jump)\<^sup>*\<^sup>* ?s0 ?s1" "(nav_step alloc sorter d jump)\<^sup>*\<^sup>* ?s1 ?s2" "(nav_step alloc sorter d jump)\<^sup>*\<^sup>* ?s2 sample_queue"
    unfolding sample_queue_def by (rule put_op_steps, simp add: i n ok del: One_nat_def)+
  then show ?thesis by (meson rtranclp_trans)
qed

abbreviation sample_sorter :: "dheap \<Rightarrow> ptr \<Rightarrow> int \<Rightarrow> (dheap \<times> ptr) option" where
  "sample_sorter \<equiv> submenuSort (\<lambda>_. []) False (lib_init 0 False) (\<lambda>_. None)"

lemma conc_whole_run:
  assumes "(nav_step alloc sorter d jump)\<^sup>*\<^sup>* (nav_init items f) s"
  shows "(conc_step alloc sorter d jump)\<^sup>*\<^sup>* (conc_init items f) ((conc_init items f)\<lparr>nc_nav := s\<rparr>)"
  using assms
proof (induction rule: rtranclp_induct)
  case base
  then show ?case by (simp add: conc_init_def)
next
  case (step y z)
  have "conc_step alloc sorter d jump ((conc_init items f)\<lparr>nc_nav := y\<rparr>) (((conc_init items f)\<lparr>nc_nav := y\<rparr>)\<lparr>nc_nav := z\<rparr>)"
    by (rule conc_step.whole) (use step(2) in \<open>simp_all add: conc_init_def\<close>)
  then show ?case using step(3) by (simp add: rtranclp.rtrancl_into_rtrancl)
qed

text \<open>Then the queue is drained, and a move begins on the first page, which holds one row.\<close>

definition sample_filled :: page where
  "sample_filled = (sample_page 0)\<lparr>pg_heap := [0 \<mapsto> ((submenuAllocItem (-1) (Some ''RPG'') 0 (-1))\<lparr>si_isFolder := True\<rparr>, None, None)],
     pg_subMenu := Some 0, pg_submenu := Some 0, pg_current := Some 0, pg_pagestart := Some 0, pg_last := Some 0\<rparr>"

definition sample_drained :: nav where
  "sample_drained = (nav_init sample_pages True)\<lparr>nv_items := sample_pages(0 \<mapsto> sample_filled), nv_menu := [0, 1], nv_selected := Some 0,
     gScheduledOps := 3, gCompletedOps := 3\<rparr>"

definition sample_begun :: nav_conc where
  "sample_begun = \<lparr>nc_nav = sample_drained, nc_moving = Some (0, sample_filled), nc_raced = False\<rparr>"

lemma sample_drain: "guiHandleDeferredOps some_free sample_sorter sample_queue = Some sample_drained"
proof -
  have "some_free (\<lambda>_. None) = Some 0" by (simp add: some_free_def)
  then show ?thesis
    by (simp add: sample_queue_def put_op_def guiDeferUpdate_def defer_enqueue_def defer_announce_def nav_init_def guiHandleDeferredOps_def guiHandleOp_def
      menuAppendItem_def on_page_def sample_pages_def sample_page_def op_append_def submenuAppendItem_def sample_row_op_def set_folder_def sample_drained_def sample_filled_def
      Let_def)
qed

lemma sample_cleared:
  "clearMenuGameList sample_filled = Some ((sample_page 0)\<lparr>pg_remindLast := False\<rparr>)"
  by (simp add: clearMenuGameList_def op_clear_def submenuDestroy_def destroy_loop.simps sample_filled_def sample_page_def fun_eq_iff)

lemma sample_begun_reach: "(conc_step some_free sample_sorter d jump)\<^sup>*\<^sup>* (conc_init sample_pages True) sample_begun"
proof -
  let ?c = "(conc_init sample_pages True)\<lparr>nc_nav := sample_drained\<rparr>"
  have "nav_step some_free sample_sorter d jump sample_queue sample_drained" using sample_drain by (rule nav_step.drain)
  then have "(nav_step some_free sample_sorter d jump)\<^sup>*\<^sup>* (nav_init sample_pages True) sample_drained" using sample_queue_reach by (meson rtranclp.rtrancl_into_rtrancl)
  from conc_whole_run [OF this] have r: "(conc_step some_free sample_sorter d jump)\<^sup>*\<^sup>* (conc_init sample_pages True) ?c" .
  have "conc_step some_free sample_sorter d jump ?c (?c\<lparr>nc_moving := Some (nv_menu (nc_nav ?c) ! 0, sample_filled)\<rparr>)"
    by (rule conc_step.begin_move) (simp_all add: conc_init_def sample_drained_def)
  then have "conc_step some_free sample_sorter d jump ?c sample_begun" by (simp add: sample_begun_def conc_init_def sample_drained_def)
  then show ?thesis using r by (meson rtranclp.rtrancl_into_rtrancl)
qed


text \<open>The worker clears the list between the two points of the move: the move goes on through a freed row.\<close>

lemma menu_clear_race:
  "\<exists>c k pg0. (conc_step some_free sample_sorter d jump)\<^sup>*\<^sup>* (conc_init sample_pages True) c \<and> nc_raced c \<and> nc_moving c = Some (k, pg0) \<and>
     finish_move NextV d k pg0 (nc_nav c) = None"
proof -
  let ?pg = "(sample_page 0)\<lparr>pg_remindLast := False\<rparr>"
  let ?s = "sample_drained\<lparr>nv_items := (nv_items sample_drained)(0 \<mapsto> ?pg)\<rparr>"
  let ?c = "sample_begun\<lparr>nc_nav := ?s, nc_raced := nc_raced sample_begun \<or> rows_at ?s 0 \<noteq> rows_at (nc_nav sample_begun) 0\<rparr>"
  have "on_page 0 clearMenuGameList sample_drained = Some ?s" using sample_cleared by (simp add: on_page_def sample_drained_def)
  then have "worker_step jump (nc_nav sample_begun) ?s" by (intro worker_step.clear) (simp add: sample_begun_def)
  then have "conc_step some_free sample_sorter d jump sample_begun ?c" by (intro conc_step.worker) (simp_all add: sample_begun_def)
  then have r: "(conc_step some_free sample_sorter d jump)\<^sup>*\<^sup>* (conc_init sample_pages True) ?c" using sample_begun_reach by (meson rtranclp.rtrancl_into_rtrancl)
  have "nc_raced ?c" by (simp add: sample_begun_def rows_at_def sample_drained_def rows_of_def sample_filled_def sample_page_def)
  moreover have "finish_move NextV d 0 sample_filled (nc_nav ?c) = None"
    by (simp add: finish_move_def move_v_def menuNextV_def sample_filled_def sample_page_def dnext_def)
  moreover have "nc_moving ?c = Some (0, sample_filled)" by (simp add: sample_begun_def)
  ultimately show ?thesis using r by blast
qed


text \<open>Selecting a page through a deferred operation does not return the page that is left to its root.\<close>

lemma menu_select_keeps_folder:
  defines "s \<equiv> (nav_init sample_pages True)\<lparr>nv_menu := [0, 1], nv_selected := Some 0, nv_folder := snd (folderDescend (folder_init True) 0 (Some ''RPG''))\<rparr>"
  shows "folderDepth (nv_folder (menuSetSelectedItem 1 s)) 0 = 1 \<and> sel_item (menuSetSelectedItem 1 s) = Some 1"
  unfolding s_def by code_simp

end
