(* ===== verification/VcdId.thy ===== *)
theory VcdId
  imports VcdName
begin

text \<open>
  The disc identifier shown for a PS1 image (\<^verbatim>\<open>src/vcdsupport.c\<close>): the scan notes where an image lies, the user
  interface asks for the identifier of the row the cursor rests on, the worker of \<open>Ioman\<close> reads the image, and the
  renderer shows what is known.

  The memo is a list of nodes with their addresses, newest first; a pointer is an address, and a store through a node
  that was freed is a fault.  The steps that interleave are those of two threads.  The user interface: a request up to the
  end of its section between \<^verbatim>\<open>DIntr\<close> and \<^verbatim>\<open>EIntr\<close>, the call of \<^verbatim>\<open>ioPutRequest\<close> with what follows
  it, a change of the media, which frees the memo, and a frame (the frame counter is not bounded here).  The worker: a directory entry noted by a scan,
  taking the request, what follows up to the disc, and the store after the disc was read.
  \<open>rd\<close> is what \<^verbatim>\<open>retrogemGetVcdGameID\<close> reads from the image at a path.
\<close>

definition VCD_ID_MEMO_MAX :: nat where "VCD_ID_MEMO_MAX = 512"
definition VCD_ID_MAX_RETRIES :: nat where "VCD_ID_MAX_RETRIES = 3"

datatype vcd_id_state = VCD_ID_UNREQUESTED | VCD_ID_QUEUED | VCD_ID_DEFERRED | VCD_ID_RESOLVED | VCD_ID_ABSENT

record vcd_id_memo =
  mm_name :: cstring
  mm_id :: cstring
  mm_dir :: "cstring option"
  mm_state :: vcd_id_state
  mm_retries :: nat
  mm_retryFrame :: nat

text \<open>\<open>WReading\<close> holds the node and the path the worker is reading.\<close>

datatype worker = WIdle | WTaken cstring | WReading nat cstring

record vcd_ids =
  gVcdIdMemo :: "(nat \<times> vcd_id_memo) list"
  gVcdIdMemoCount :: nat
  gVcdIdReqName :: cstring
  gVcdIdReqPending :: bool
  vi_requests :: nat
  vi_worker :: worker
  vi_frame :: nat
  vi_asking :: "nat option"

text \<open>\<open>vi_asking\<close> is the node of a request that is published but not yet handed to the queue of the worker.\<close>

definition vcd_ids_init :: vcd_ids where
  "vcd_ids_init = \<lparr>gVcdIdMemo = [], gVcdIdMemoCount = 0, gVcdIdReqName = [], gVcdIdReqPending = False, vi_requests = 0, vi_worker = WIdle, vi_frame = 0, vi_asking = None\<rparr>"

definition vcdIdMemoFind :: "vcd_ids \<Rightarrow> cstring \<Rightarrow> (nat \<times> vcd_id_memo) option" where
  "vcdIdMemoFind s nm = find (\<lambda>x. mm_name (snd x) = nm) (gVcdIdMemo s)"

text \<open>A store through the node at \<open>a\<close>.\<close>

definition set_memo :: "nat \<Rightarrow> (vcd_id_memo \<Rightarrow> vcd_id_memo) \<Rightarrow> vcd_ids \<Rightarrow> vcd_ids" where
  "set_memo a f s = s\<lparr>gVcdIdMemo := map (\<lambda>(b, m). (b, if b = a then f m else m)) (gVcdIdMemo s)\<rparr>"

definition live :: "nat \<Rightarrow> vcd_ids \<Rightarrow> bool" where
  "live a s \<longleftrightarrow> a \<in> fst ` set (gVcdIdMemo s)"

text \<open>\<open>mem\<close> says whether the node and the copy of the directory can be allocated; the node is placed at \<open>a\<close>.\<close>

definition vcdNoteScanDir :: "bool \<times> bool \<Rightarrow> nat \<Rightarrow> cstring option \<Rightarrow> cstring option \<Rightarrow> vcd_ids \<Rightarrow> vcd_ids" where
  "vcdNoteScanDir mem a name dirPath s = (case (name, dirPath) of
     (Some nm, Some dp) \<Rightarrow>
       if nm = [] then s
       else
         (case vcdIdMemoFind s nm of
            Some (b, m) \<Rightarrow>
              if mm_dir m \<noteq> Some dp
              then set_memo b (\<lambda>m. m\<lparr>mm_dir := (if snd mem then Some dp else None), mm_state := VCD_ID_UNREQUESTED, mm_retries := 0, mm_retryFrame := 0, mm_id := []\<rparr>) s
              else s
          | None \<Rightarrow>
              if VCD_ID_MEMO_MAX \<le> gVcdIdMemoCount s \<or> \<not> fst mem then s
              else s\<lparr>gVcdIdMemo := (a, \<lparr>mm_name = nm, mm_id = [], mm_dir = (if snd mem then Some dp else None), mm_state = VCD_ID_UNREQUESTED,
                        mm_retries = 0, mm_retryFrame = 0\<rparr>) # gVcdIdMemo s, gVcdIdMemoCount := gVcdIdMemoCount s + 1\<rparr>)
   | _ \<Rightarrow> s)"

definition vcdInvalidateGameIds :: "vcd_ids \<Rightarrow> vcd_ids" where
  "vcdInvalidateGameIds s = s\<lparr>gVcdIdMemo := [], gVcdIdMemoCount := 0\<rparr>"

definition vcdDisplayIdCached :: "vcd_ids \<Rightarrow> cstring option \<Rightarrow> nat \<Rightarrow> cstring option" where
  "vcdDisplayIdCached s name idSize = (case name of
     None \<Rightarrow> None
   | Some nm \<Rightarrow>
       if idSize = 0 then None
       else (case vcdIdMemoFind s nm of
               None \<Rightarrow> None
             | Some (_, m) \<Rightarrow> if mm_state m \<noteq> VCD_ID_RESOLVED \<or> mm_id m = [] then None else Some (bounded idSize (mm_id m))))"

text \<open>A request: it is published, and then put into the queue of the worker; \<open>put\<close> is whether the queue accepts it.\<close>

definition request_publish :: "cstring option \<Rightarrow> vcd_ids \<Rightarrow> vcd_ids" where
  "request_publish name s = (case name of
     None \<Rightarrow> s
   | Some nm \<Rightarrow>
       if nm = [] \<or> vcdExtractGameId name VCD_ID_MAX \<noteq> None then s
       else
         (case vcdIdMemoFind s nm of
            None \<Rightarrow> s
          | Some (a, m) \<Rightarrow>
              if mm_dir m = None then s
              else if mm_state m = VCD_ID_RESOLVED \<or> mm_state m = VCD_ID_ABSENT \<or> mm_state m = VCD_ID_QUEUED then s
              else if mm_state m = VCD_ID_DEFERRED \<and> vi_frame s < mm_retryFrame m then s
              else if 256 \<le> length nm \<or> gVcdIdReqPending s then s
              else (set_memo a (\<lambda>m. m\<lparr>mm_state := VCD_ID_QUEUED\<rparr>) s)\<lparr>gVcdIdReqName := nm, gVcdIdReqPending := True, vi_asking := Some a\<rparr>))"

definition request_put :: "bool \<Rightarrow> vcd_ids \<Rightarrow> vcd_ids" where
  "request_put put s = (case vi_asking s of
     None \<Rightarrow> s
   | Some a \<Rightarrow>
       if put then s\<lparr>vi_requests := vi_requests s + 1, vi_asking := None\<rparr>
       else (set_memo a (\<lambda>m. m\<lparr>mm_state := VCD_ID_DEFERRED, mm_retryFrame := vi_frame s + 60\<rparr>) s)\<lparr>gVcdIdReqPending := False, vi_asking := None\<rparr>)"

definition vcdRequestDisplayId :: "bool \<Rightarrow> cstring option \<Rightarrow> vcd_ids \<Rightarrow> vcd_ids" where
  "vcdRequestDisplayId put name s = request_put put (request_publish name s)"

section \<open>The worker\<close>

definition vcd_path :: "cstring \<Rightarrow> cstring \<Rightarrow> cstring" where
  "vcd_path dir nm = dir @ (if dir \<noteq> [] \<and> last dir = CHR ''/'' then [] else ''/'') @ nm @ ''.VCD''"

text \<open>\<^verbatim>\<open>vcdResolveDisplayId\<close> up to the disc: the node and path to read, or the state the call leaves without reading.\<close>

definition resolve_begin :: "cstring \<Rightarrow> vcd_ids \<Rightarrow> vcd_ids" where
  "resolve_begin nm s = (case vcdIdMemoFind s nm of
     None \<Rightarrow> s\<lparr>vi_worker := WIdle\<rparr>
   | Some (a, m) \<Rightarrow>
       (case mm_dir m of
          None \<Rightarrow> s\<lparr>vi_worker := WIdle\<rparr>
        | Some dir \<Rightarrow>
            if mm_state m = VCD_ID_RESOLVED \<or> mm_state m = VCD_ID_ABSENT then s\<lparr>vi_worker := WIdle\<rparr>
            else if 256 \<le> length (vcd_path dir nm) then (set_memo a (\<lambda>m. m\<lparr>mm_state := VCD_ID_ABSENT\<rparr>) s)\<lparr>vi_worker := WIdle\<rparr>
            else s\<lparr>vi_worker := WReading a (vcd_path dir nm)\<rparr>))"

definition RETROGEM_GAMEID_MAX :: nat where "RETROGEM_GAMEID_MAX = 12"

definition stored_id :: "cstring \<Rightarrow> cstring" where
  "stored_id discId = bounded VCD_ID_MAX (case vcdCanonDisplayId (Some discId) RETROGEM_GAMEID_MAX of Some c \<Rightarrow> c | None \<Rightarrow> discId)"

text \<open>What is stored once the disc has answered.\<close>

definition answer :: "nat \<Rightarrow> cstring option \<Rightarrow> vcd_id_memo \<Rightarrow> vcd_id_memo" where
  "answer frame disc m = (case disc of
     Some discId \<Rightarrow>
       if discId \<noteq> [] then m\<lparr>mm_id := stored_id discId, mm_state := VCD_ID_RESOLVED, mm_retries := 0\<rparr>
       else if mm_retries m < VCD_ID_MAX_RETRIES then m\<lparr>mm_retries := mm_retries m + 1, mm_state := VCD_ID_DEFERRED, mm_retryFrame := frame + 120\<rparr>
       else m\<lparr>mm_state := VCD_ID_ABSENT, mm_id := []\<rparr>
   | None \<Rightarrow>
       if mm_retries m < VCD_ID_MAX_RETRIES then m\<lparr>mm_retries := mm_retries m + 1, mm_state := VCD_ID_DEFERRED, mm_retryFrame := frame + 120\<rparr>
       else m\<lparr>mm_state := VCD_ID_ABSENT, mm_id := []\<rparr>)"

definition resolve_end :: "(cstring \<Rightarrow> cstring option) \<Rightarrow> vcd_ids \<Rightarrow> vcd_ids option" where
  "resolve_end rd s = (case vi_worker s of
     WReading a path \<Rightarrow> if live a s then Some ((set_memo a (answer (vi_frame s) (rd path)) s)\<lparr>vi_worker := WIdle\<rparr>) else None
   | _ \<Rightarrow> Some s)"

text \<open>\<^verbatim>\<open>vcdResolveQueuedDisplayId\<close>: taking the request, and what follows; \<open>busy\<close> is whether art or music needs the device.\<close>

definition take_request :: "vcd_ids \<Rightarrow> vcd_ids" where
  "take_request s =
     (if \<not> gVcdIdReqPending s then s\<lparr>vi_requests := vi_requests s - 1\<rparr>
      else s\<lparr>vi_requests := vi_requests s - 1, gVcdIdReqPending := False, vi_worker := WTaken (bounded 256 (gVcdIdReqName s))\<rparr>)"

definition after_take :: "bool \<Rightarrow> cstring \<Rightarrow> vcd_ids \<Rightarrow> vcd_ids" where
  "after_take busy nm s =
     (if busy
      then (case vcdIdMemoFind s nm of
              Some (a, m) \<Rightarrow>
                if mm_state m = VCD_ID_QUEUED
                then (set_memo a (\<lambda>m. m\<lparr>mm_state := VCD_ID_DEFERRED, mm_retryFrame := vi_frame s + 90\<rparr>) s)\<lparr>vi_worker := WIdle\<rparr>
                else s\<lparr>vi_worker := WIdle\<rparr>
            | None \<Rightarrow> s\<lparr>vi_worker := WIdle\<rparr>)
      else resolve_begin nm s)"

text \<open>The steps.  The user interface does not ask again, and the media do not change, between publishing a request and putting it,
  because all three are done by its thread; scans run on the worker, and the allocations of a scan succeed.\<close>

inductive vcd_step :: "(cstring \<Rightarrow> cstring option) \<Rightarrow> vcd_ids \<Rightarrow> vcd_ids \<Rightarrow> bool" for rd where
  noted: "vi_worker s = WIdle \<Longrightarrow> \<not> live a s \<Longrightarrow> vcd_step rd s (vcdNoteScanDir (True, True) a name dirPath s)"
| publish: "vi_asking s = None \<Longrightarrow> vcd_step rd s (request_publish name s)"
| put: "vi_asking s = Some a \<Longrightarrow> vcd_step rd s (request_put ok s)"
| invalidate: "vi_asking s = None \<Longrightarrow> vcd_step rd s (vcdInvalidateGameIds s)"
| frame: "vcd_step rd s (s\<lparr>vi_frame := vi_frame s + 1\<rparr>)"
| take_req: "vi_worker s = WIdle \<Longrightarrow> 0 < vi_requests s \<Longrightarrow> vcd_step rd s (take_request s)"
| taken: "vi_worker s = WTaken nm \<Longrightarrow> vcd_step rd s (after_take busy nm s)"
| read_end: "vi_worker s = WReading a path \<Longrightarrow> resolve_end rd s = Some s' \<Longrightarrow> vcd_step rd s s'"

definition vcdResolveDisplayId :: "(cstring \<Rightarrow> cstring option) \<Rightarrow> cstring \<Rightarrow> vcd_ids \<Rightarrow> vcd_ids option" where
  "vcdResolveDisplayId rd nm s = resolve_end rd (resolve_begin nm s)"

definition vcdResolveQueuedDisplayId :: "(cstring \<Rightarrow> cstring option) \<Rightarrow> bool \<Rightarrow> vcd_ids \<Rightarrow> vcd_ids option" where
  "vcdResolveQueuedDisplayId rd busy s = (let s1 = take_request s in
     case vi_worker s1 of WTaken nm \<Rightarrow> resolve_end rd (after_take busy nm s1) | _ \<Rightarrow> Some s1)"

section \<open>Invariant\<close>

definition in_service :: "vcd_ids \<Rightarrow> nat \<Rightarrow> vcd_id_memo \<Rightarrow> bool" where
  "in_service s a m \<longleftrightarrow> gVcdIdReqPending s \<and> gVcdIdReqName s = mm_name m \<or> vi_worker s = WTaken (mm_name m) \<or> (\<exists>p. vi_worker s = WReading a p)"

definition memo_ok :: "(cstring \<Rightarrow> cstring option) \<Rightarrow> nat \<times> vcd_id_memo \<Rightarrow> bool" where
  "memo_ok rd x \<longleftrightarrow> mm_retries (snd x) \<le> VCD_ID_MAX_RETRIES \<and> (\<exists>dir. mm_dir (snd x) = Some dir \<and>
     (mm_state (snd x) = VCD_ID_RESOLVED \<longrightarrow> (\<exists>disc. disc \<noteq> [] \<and> rd (vcd_path dir (mm_name (snd x))) = Some disc \<and> mm_id (snd x) = stored_id disc)))"

text \<open>The node being read is there, unless the media have changed since: then the memo is empty until the worker is done.\<close>

definition reading_ok :: "vcd_ids \<Rightarrow> bool" where
  "reading_ok s \<longleftrightarrow> (\<forall>a p. vi_worker s = WReading a p \<longrightarrow> gVcdIdMemo s = [] \<or>
     (\<exists>m dir. (a, m) \<in> set (gVcdIdMemo s) \<and> mm_dir m = Some dir \<and> p = vcd_path dir (mm_name m)))"

definition asking_ok :: "vcd_ids \<Rightarrow> bool" where
  "asking_ok s \<longleftrightarrow> (\<forall>a. vi_asking s = Some a \<longrightarrow> gVcdIdReqPending s \<and> (\<exists>m. (a, m) \<in> set (gVcdIdMemo s) \<and> mm_name m = gVcdIdReqName s))"

lemma asking_ok_frame [simp]: "asking_ok (s\<lparr>vi_worker := w\<rparr>) = asking_ok s" "asking_ok (s\<lparr>vi_frame := k\<rparr>) = asking_ok s"
  by (simp_all add: asking_ok_def)

lemma asking_okD: "asking_ok s \<Longrightarrow> vi_asking s = Some b \<Longrightarrow> gVcdIdReqPending s \<and> (\<exists>m. (b, m) \<in> set (gVcdIdMemo s) \<and> mm_name m = gVcdIdReqName s)"
  unfolding asking_ok_def by blast

definition vi_ok :: "(cstring \<Rightarrow> cstring option) \<Rightarrow> vcd_ids \<Rightarrow> bool" where
  "vi_ok rd s \<longleftrightarrow> distinct (map (mm_name \<circ> snd) (gVcdIdMemo s)) \<and> distinct (map fst (gVcdIdMemo s)) \<and>
     gVcdIdMemoCount s = length (gVcdIdMemo s) \<and> length (gVcdIdMemo s) \<le> VCD_ID_MEMO_MAX \<and>
     vi_requests s = (if gVcdIdReqPending s \<and> vi_asking s = None then 1 else 0) \<and> asking_ok s \<and> (gVcdIdReqPending s \<longrightarrow> length (gVcdIdReqName s) < 256) \<and>
     (\<forall>x \<in> set (gVcdIdMemo s). memo_ok rd x) \<and> (\<forall>(a, m) \<in> set (gVcdIdMemo s). mm_state m = VCD_ID_QUEUED \<longrightarrow> in_service s a m) \<and> reading_ok s"

lemma find_memo:
  "vcdIdMemoFind s nm = Some (a, m) \<Longrightarrow> (a, m) \<in> set (gVcdIdMemo s) \<and> mm_name m = nm"
  "vcdIdMemoFind s nm = None \<Longrightarrow> x \<in> set (gVcdIdMemo s) \<Longrightarrow> mm_name (snd x) \<noteq> nm"
proof -
  show "(a, m) \<in> set (gVcdIdMemo s) \<and> mm_name m = nm" if "vcdIdMemoFind s nm = Some (a, m)"
    using that unfolding vcdIdMemoFind_def find_Some_iff by (metis nth_mem snd_conv)
  show "mm_name (snd x) \<noteq> nm" if "vcdIdMemoFind s nm = None" "x \<in> set (gVcdIdMemo s)"
    using that by (cases x) (auto simp: vcdIdMemoFind_def find_None_iff)
qed

lemma set_memo_simps [simp]:
  "gVcdIdMemoCount (set_memo a f s) = gVcdIdMemoCount s" "gVcdIdReqName (set_memo a f s) = gVcdIdReqName s"
  "gVcdIdReqPending (set_memo a f s) = gVcdIdReqPending s" "vi_requests (set_memo a f s) = vi_requests s" "vi_worker (set_memo a f s) = vi_worker s" "vi_asking (set_memo a f s) = vi_asking s"
  "vi_frame (set_memo a f s) = vi_frame s" "length (gVcdIdMemo (set_memo a f s)) = length (gVcdIdMemo s)"
  "map fst (gVcdIdMemo (set_memo a f s)) = map fst (gVcdIdMemo s)"
  by (simp_all add: set_memo_def comp_def case_prod_unfold)

lemma set_memo_names: "(\<And>m. mm_name (f m) = mm_name m) \<Longrightarrow> map (mm_name \<circ> snd) (gVcdIdMemo (set_memo a f s)) = map (mm_name \<circ> snd) (gVcdIdMemo s)"
  by (simp add: set_memo_def comp_def case_prod_unfold)

lemma set_memo_set: "set (gVcdIdMemo (set_memo a f s)) = {(b, if b = a then f m else m) | b m. (b, m) \<in> set (gVcdIdMemo s)}"
  by (force simp: set_memo_def)

lemma set_memo_iff: "(b, m') \<in> set (gVcdIdMemo (set_memo a f s)) \<longleftrightarrow> (\<exists>m. (b, m) \<in> set (gVcdIdMemo s) \<and> m' = (if b = a then f m else m))"
  by (auto simp: set_memo_set)

text \<open>Two nodes with the same address, or with the same name, are the same.\<close>

lemma vi_ok_unique:
  assumes "vi_ok rd s" "(a, m) \<in> set (gVcdIdMemo s)" "(b, n) \<in> set (gVcdIdMemo s)" "a = b \<or> mm_name m = mm_name n"
  shows "a = b \<and> m = n"
proof -
  have "inj_on fst (set (gVcdIdMemo s))" "inj_on (mm_name \<circ> snd) (set (gVcdIdMemo s))" using assms(1) by (auto simp: vi_ok_def distinct_map)
  then show ?thesis using assms(2-4) unfolding inj_on_def by fastforce
qed

text \<open>A store that keeps the name, with the rest of the state free to change as long as requests stay answered.\<close>

lemma vi_ok_set_memo:
  assumes ok: "vi_ok rd s" and am: "(a, m) \<in> set (gVcdIdMemo s)"
    and f: "\<And>m. mm_name (f m) = mm_name m" "\<And>m. mm_dir (f m) = mm_dir m" "memo_ok rd (a, f m)"
    and t: "gVcdIdMemo t = gVcdIdMemo (set_memo a f s)" "gVcdIdMemoCount t = gVcdIdMemoCount s" "vi_requests t = (if gVcdIdReqPending t \<and> vi_asking t = None then 1 else 0)"
      "gVcdIdReqPending t \<longrightarrow> length (gVcdIdReqName t) < 256" "vi_worker t = WIdle \<or> vi_worker t = vi_worker s"
      "\<And>b n. (b, n) \<in> set (gVcdIdMemo s) \<Longrightarrow> b \<noteq> a \<Longrightarrow> mm_state n = VCD_ID_QUEUED \<Longrightarrow> in_service t b n"
      "mm_state (f m) = VCD_ID_QUEUED \<Longrightarrow> in_service t a (f m)"
      "\<And>b. vi_asking t = Some b \<Longrightarrow> gVcdIdReqPending t \<and> (\<exists>n. (b, n) \<in> set (gVcdIdMemo s) \<and> mm_name n = gVcdIdReqName t)"
  shows "vi_ok rd t"
proof -
  have m: "n = m" if "(a, n) \<in> set (gVcdIdMemo s)" for n using vi_ok_unique [OF ok am that] by simp
  have "\<forall>x \<in> set (gVcdIdMemo t). memo_ok rd x" using ok f(3) m by (auto simp: t(1) set_memo_set vi_ok_def)
  moreover have "\<forall>(b, n) \<in> set (gVcdIdMemo t). mm_state n = VCD_ID_QUEUED \<longrightarrow> in_service t b n"
  proof (intro ballI, clarify)
    fix b n
    assume "(b, n) \<in> set (gVcdIdMemo t)" and q: "mm_state n = VCD_ID_QUEUED"
    then obtain n' where n': "(b, n') \<in> set (gVcdIdMemo s)" "n = (if b = a then f n' else n')" by (auto simp: t(1) set_memo_iff)
    then show "in_service t b n" using t(6) [OF n'(1)] t(7) q m by (cases "b = a") auto
  qed
  moreover have "reading_ok t"
    unfolding reading_ok_def
  proof (intro allI impI)
    fix b p
    assume "vi_worker t = WReading b p"
    then have "vi_worker s = WReading b p" using t(5) by auto
    then obtain n dir where "(b, n) \<in> set (gVcdIdMemo s)" "mm_dir n = Some dir" "p = vcd_path dir (mm_name n)" using ok am by (auto simp: vi_ok_def reading_ok_def)
    then have "\<exists>m dir. (b, m) \<in> set (gVcdIdMemo t) \<and> mm_dir m = Some dir \<and> p = vcd_path dir (mm_name m)"
      using f by (intro exI [of _ "if b = a then f n else n"] exI [of _ dir]) (auto simp: t(1) set_memo_iff)
    then show "gVcdIdMemo t = [] \<or> (\<exists>m dir. (b, m) \<in> set (gVcdIdMemo t) \<and> mm_dir m = Some dir \<and> p = vcd_path dir (mm_name m))" by blast
  qed
  moreover have "asking_ok t"
    unfolding asking_ok_def
  proof (intro allI impI)
    fix b
    assume "vi_asking t = Some b"
    from t(8) [OF this] obtain n where "gVcdIdReqPending t" "(b, n) \<in> set (gVcdIdMemo s)" "mm_name n = gVcdIdReqName t" by blast
    then show "gVcdIdReqPending t \<and> (\<exists>m. (b, m) \<in> set (gVcdIdMemo t) \<and> mm_name m = gVcdIdReqName t)"
      using f(1) by (intro conjI exI [of _ "if b = a then f n else n"]) (auto simp: t(1) set_memo_iff)
  qed
  ultimately show ?thesis using ok t(2-4) set_memo_names [of f a s, OF f(1)] unfolding vi_ok_def t(1) by simp
qed

text \<open>A change that leaves the memo alone.\<close>

lemma vi_ok_frame:
  assumes "vi_ok rd s" "gVcdIdMemo t = gVcdIdMemo s" "gVcdIdMemoCount t = gVcdIdMemoCount s" "vi_requests t = (if gVcdIdReqPending t \<and> vi_asking t = None then 1 else 0)"
    "gVcdIdReqPending t \<longrightarrow> length (gVcdIdReqName t) < 256" "reading_ok t" "asking_ok t" "\<And>b n. (b, n) \<in> set (gVcdIdMemo s) \<Longrightarrow> mm_state n = VCD_ID_QUEUED \<Longrightarrow> in_service t b n"
  shows "vi_ok rd t"
  using assms unfolding vi_ok_def by auto

lemma answer_ok:
  assumes "memo_ok rd (a, m)" "mm_dir m = Some dir"
  shows "memo_ok rd (a, answer frame (rd (vcd_path dir (mm_name m))) m)" "mm_state (answer frame d m) \<noteq> VCD_ID_QUEUED"
    "mm_name (answer frame d m) = mm_name m" "mm_dir (answer frame d m) = mm_dir m"
  using assms by (auto simp: answer_def memo_ok_def VCD_ID_MAX_RETRIES_def split: option.splits)

lemma publish_ok:
  assumes ok: "vi_ok rd s" and ask: "vi_asking s = None"
  shows "vi_ok rd (request_publish name s)"
proof (cases "request_publish name s = s")
  case False
  then obtain nm a m where n: "name = Some nm" "vcdIdMemoFind s nm = Some (a, m)" "length nm < 256" "\<not> gVcdIdReqPending s" "mm_state m \<noteq> VCD_ID_RESOLVED"
    and r: "request_publish name s =
      (set_memo a (\<lambda>m. m\<lparr>mm_state := VCD_ID_QUEUED\<rparr>) s)\<lparr>gVcdIdReqName := nm, gVcdIdReqPending := True, vi_asking := Some a\<rparr>"
    by (auto simp: request_publish_def not_le split: option.splits if_splits)
  have am: "(a, m) \<in> set (gVcdIdMemo s)" "mm_name m = nm" using find_memo(1) [OF n(2)] by auto
  have mo: "memo_ok rd (a, m)" using ok am(1) by (auto simp: vi_ok_def)
  have v0: "vi_requests s = 0" using ok n(4) by (simp add: vi_ok_def)
  have sv: "in_service s b k" if "(b, k) \<in> set (gVcdIdMemo s)" "mm_state k = VCD_ID_QUEUED" for b k using ok that by (auto simp: vi_ok_def)
  show ?thesis using r mo v0 n(3,4) am sv
    by (intro vi_ok_set_memo [OF ok am(1), of "\<lambda>m. m\<lparr>mm_state := VCD_ID_QUEUED\<rparr>"]) (auto simp: memo_ok_def in_service_def)
qed (simp add: ok)

lemma put_ok:
  assumes ok: "vi_ok rd s"
  shows "vi_ok rd (request_put put s)"
proof (cases "vi_asking s")
  case (Some a)
  then obtain m where am: "(a, m) \<in> set (gVcdIdMemo s)" "mm_name m = gVcdIdReqName s" and p: "gVcdIdReqPending s" "vi_requests s = 0"
    using ok by (auto simp: vi_ok_def asking_ok_def)
  have mo: "memo_ok rd (a, m)" using ok am(1) by (auto simp: vi_ok_def)
  have sv: "in_service s b k" if "(b, k) \<in> set (gVcdIdMemo s)" "mm_state k = VCD_ID_QUEUED" for b k using ok that by (auto simp: vi_ok_def)
  show ?thesis
  proof (cases put)
    case True
    then show ?thesis using Some p sv ok
      by (intro vi_ok_frame [OF ok]) (auto simp: request_put_def vi_ok_def reading_ok_def asking_ok_def in_service_def)
  next
    case put: False
    have other: "mm_name n \<noteq> gVcdIdReqName s" if "(b, n) \<in> set (gVcdIdMemo s)" "b \<noteq> a" for b n
      using vi_ok_unique [OF ok that(1) am(1)] that(2) am(2) by auto
    show ?thesis
    proof (rule vi_ok_set_memo [OF ok am(1), of "\<lambda>m. m\<lparr>mm_state := VCD_ID_DEFERRED, mm_retryFrame := vi_frame s + 60\<rparr>"])
      fix b n
      assume b: "(b, n) \<in> set (gVcdIdMemo s)" "b \<noteq> a" "mm_state n = VCD_ID_QUEUED"
      then show "in_service (request_put put s) b n" using sv [OF b(1,3)] other [OF b(1,2)] Some put by (auto simp: in_service_def request_put_def)
    qed (use Some put p mo in \<open>auto simp: request_put_def memo_ok_def\<close>)
  qed
qed (simp add: request_put_def ok)

lemma note_ok:
  assumes ok: "vi_ok rd s" and a: "\<not> live a s" and w: "vi_worker s = WIdle"
  shows "vi_ok rd (vcdNoteScanDir (True, True) a name dirPath s)"
proof (cases "vcdNoteScanDir (True, True) a name dirPath s = s")
  case False
  then obtain nm dp where n: "name = Some nm" "dirPath = Some dp" "nm \<noteq> []" by (auto simp: vcdNoteScanDir_def split: option.splits if_splits)
  show ?thesis
  proof (cases "vcdIdMemoFind s nm")
    case None
    let ?m = "\<lparr>mm_name = nm, mm_id = [], mm_dir = Some dp, mm_state = VCD_ID_UNREQUESTED, mm_retries = 0, mm_retryFrame = 0\<rparr>"
    have t: "vcdNoteScanDir (True, True) a name dirPath s = s\<lparr>gVcdIdMemo := (a, ?m) # gVcdIdMemo s, gVcdIdMemoCount := gVcdIdMemoCount s + 1\<rparr>" "gVcdIdMemoCount s < VCD_ID_MEMO_MAX"
      using False None n by (auto simp: vcdNoteScanDir_def split: if_splits)
    have "nm \<notin> (mm_name \<circ> snd) ` set (gVcdIdMemo s)" using find_memo(2) [OF None] by auto
    moreover have "asking_ok (vcdNoteScanDir (True, True) a name dirPath s)" using ok unfolding t by (auto simp: vi_ok_def asking_ok_def)
    ultimately show ?thesis using ok a t w by (auto simp: vi_ok_def live_def memo_ok_def in_service_def reading_ok_def)
  next
    case (Some x)
    obtain b m where x: "x = (b, m)" by (cases x)
    let ?f = "\<lambda>m. m\<lparr>mm_dir := Some dp, mm_state := VCD_ID_UNREQUESTED, mm_retries := 0, mm_retryFrame := 0, mm_id := []\<rparr>"
    have t: "vcdNoteScanDir (True, True) a name dirPath s = set_memo b ?f s" using False Some n x by (auto simp: vcdNoteScanDir_def split: if_splits)
    have "distinct (map (mm_name \<circ> snd) (gVcdIdMemo (set_memo b ?f s)))" using set_memo_names [of ?f b s] ok by (simp add: vi_ok_def)
    moreover have "asking_ok (set_memo b ?f s)"
      unfolding asking_ok_def
    proof (intro allI impI)
      fix c
      assume "vi_asking (set_memo b ?f s) = Some c"
      then obtain n where "gVcdIdReqPending s" "(c, n) \<in> set (gVcdIdMemo s)" "mm_name n = gVcdIdReqName s" using ok by (auto simp: vi_ok_def asking_ok_def)
      then show "gVcdIdReqPending (set_memo b ?f s) \<and> (\<exists>m. (c, m) \<in> set (gVcdIdMemo (set_memo b ?f s)) \<and> mm_name m = gVcdIdReqName (set_memo b ?f s))"
        by (intro conjI exI [of _ "if c = b then ?f n else n"]) (auto simp: set_memo_iff)
    qed
    ultimately show ?thesis using ok w unfolding t vi_ok_def
      by (auto simp: set_memo_set memo_ok_def in_service_def reading_ok_def)
  qed
qed (simp add: ok)

lemma take_ok:
  assumes "vi_ok rd s" "vi_worker s = WIdle" "vi_asking s = None"
  shows "vi_ok rd (take_request s)"
proof (rule vi_ok_frame [OF assms(1)])
  fix b n
  assume "(b, n) \<in> set (gVcdIdMemo s)" "mm_state n = VCD_ID_QUEUED"
  then have "in_service s b n" using assms(1) by (auto simp: vi_ok_def)
  then show "in_service (take_request s) b n" using assms by (auto simp: in_service_def take_request_def vi_ok_def bounded_def)
qed (use assms in \<open>auto simp: take_request_def vi_ok_def reading_ok_def asking_ok_def\<close>)

text \<open>The worker gives up a name without reading.\<close>

lemma drop_taken:
  assumes ok: "vi_ok rd s" and w: "vi_worker s = WTaken nm" and q: "\<And>b n. (b, n) \<in> set (gVcdIdMemo s) \<Longrightarrow> mm_name n = nm \<Longrightarrow> mm_state n \<noteq> VCD_ID_QUEUED"
  shows "vi_ok rd (s\<lparr>vi_worker := WIdle\<rparr>)"
proof (rule vi_ok_frame [OF ok])
  fix b n
  assume bn: "(b, n) \<in> set (gVcdIdMemo s)" "mm_state n = VCD_ID_QUEUED"
  then have "in_service s b n" using ok by (auto simp: vi_ok_def)
  then show "in_service (s\<lparr>vi_worker := WIdle\<rparr>) b n" using w q [OF bn(1)] bn(2) by (auto simp: in_service_def)
qed (use ok in \<open>auto simp: vi_ok_def reading_ok_def\<close>)

text \<open>The worker settles the node it was asked for.\<close>

lemma settle_taken:
  assumes ok: "vi_ok rd s" and w: "vi_worker s = WTaken nm" and am: "(a, m) \<in> set (gVcdIdMemo s)" "mm_name m = nm"
    and f: "\<And>m. mm_name (f m) = mm_name m" "\<And>m. mm_dir (f m) = mm_dir m" "memo_ok rd (a, f m)" "mm_state (f m) \<noteq> VCD_ID_QUEUED"
  shows "vi_ok rd ((set_memo a f s)\<lparr>vi_worker := WIdle\<rparr>)"
proof (rule vi_ok_set_memo [OF ok am(1) f(1,2,3)])
  fix b n
  assume bn: "(b, n) \<in> set (gVcdIdMemo s)" "b \<noteq> a" "mm_state n = VCD_ID_QUEUED"
  have "mm_name n \<noteq> nm" using vi_ok_unique [OF ok bn(1) am(1)] bn(2) am(2) by auto
  moreover have "in_service s b n" using ok bn(1,3) by (auto simp: vi_ok_def)
  ultimately show "in_service ((set_memo a f s)\<lparr>vi_worker := WIdle\<rparr>) b n" using w by (auto simp: in_service_def)
qed (use ok f(4) in \<open>auto simp: vi_ok_def dest: asking_okD\<close>)

lemma after_take_ok:
  assumes ok: "vi_ok rd s" and w: "vi_worker s = WTaken nm"
  shows "vi_ok rd (after_take busy nm s)"
proof (cases "vcdIdMemoFind s nm")
  case None
  then have "vi_ok rd (s\<lparr>vi_worker := WIdle\<rparr>)" using drop_taken [OF ok w] find_memo(2) [OF None] by force
  then show ?thesis using None by (simp add: after_take_def resolve_begin_def)
next
  case (Some x)
  obtain a m where x: "x = (a, m)" by (cases x)
  have am: "(a, m) \<in> set (gVcdIdMemo s)" "mm_name m = nm" using find_memo(1) Some x by auto
  have mo: "memo_ok rd (a, m)" using ok am(1) by (auto simp: vi_ok_def)
  obtain dir where dir: "mm_dir m = Some dir" using mo by (auto simp: memo_ok_def)
  have uniq: "n = m" if "(b, n) \<in> set (gVcdIdMemo s)" "mm_name n = nm" for b n using vi_ok_unique [OF ok that(1) am(1)] am(2) that(2) by auto
  have skip: "mm_state m \<noteq> VCD_ID_QUEUED \<Longrightarrow> vi_ok rd (s\<lparr>vi_worker := WIdle\<rparr>)" using drop_taken [OF ok w] uniq by blast
  have later: "vi_ok rd ((set_memo a (\<lambda>m. m\<lparr>mm_state := VCD_ID_DEFERRED, mm_retryFrame := vi_frame s + 90\<rparr>) s)\<lparr>vi_worker := WIdle\<rparr>)"
    "vi_ok rd ((set_memo a (\<lambda>m. m\<lparr>mm_state := VCD_ID_ABSENT\<rparr>) s)\<lparr>vi_worker := WIdle\<rparr>)"
    using mo by (auto intro!: settle_taken [OF ok w am] simp: memo_ok_def)
  have "vi_ok rd (s\<lparr>vi_worker := WReading a (vcd_path dir nm)\<rparr>)"
  proof (rule vi_ok_frame [OF ok])
    fix b n
    assume bn: "(b, n) \<in> set (gVcdIdMemo s)" "mm_state n = VCD_ID_QUEUED"
    then have "in_service s b n" using ok by (auto simp: vi_ok_def)
    moreover have "mm_name n = nm \<Longrightarrow> b = a" using vi_ok_unique [OF ok bn(1) am(1)] am(2) by auto
    ultimately show "in_service (s\<lparr>vi_worker := WReading a (vcd_path dir nm)\<rparr>) b n" using w by (auto simp: in_service_def)
  qed (use ok am dir in \<open>auto simp: vi_ok_def reading_ok_def\<close>)
  then show ?thesis using Some x dir skip later by (auto simp: after_take_def resolve_begin_def)
qed

lemma resolve_end_ok:
  assumes ok: "vi_ok rd s" and kept: "\<forall>a p. vi_worker s = WReading a p \<longrightarrow> gVcdIdMemo s \<noteq> []"
  shows "\<exists>s'. resolve_end rd s = Some s' \<and> vi_ok rd s'"
proof (cases "vi_worker s")
  case (WReading a p)
  then obtain m dir where m: "(a, m) \<in> set (gVcdIdMemo s)" "mm_dir m = Some dir" "p = vcd_path dir (mm_name m)" using ok kept by (auto simp: vi_ok_def reading_ok_def)
  have mo: "memo_ok rd (a, m)" using ok m(1) by (auto simp: vi_ok_def)
  have nm: "mm_name (answer fr d n) = mm_name n" "mm_dir (answer fr d n) = mm_dir n" for fr d n by (auto simp: answer_def split: option.splits)
  have "vi_ok rd ((set_memo a (answer (vi_frame s) (rd p)) s)\<lparr>vi_worker := WIdle\<rparr>)"
  proof (rule vi_ok_set_memo [OF ok m(1) nm])
    fix b n
    assume bn: "(b, n) \<in> set (gVcdIdMemo s)" "b \<noteq> a" "mm_state n = VCD_ID_QUEUED"
    then have "in_service s b n" using ok by (auto simp: vi_ok_def)
    then show "in_service ((set_memo a (answer (vi_frame s) (rd p)) s)\<lparr>vi_worker := WIdle\<rparr>) b n" using WReading bn(2) by (auto simp: in_service_def)
  qed (use ok m answer_ok [OF mo m(2)] in \<open>auto simp: vi_ok_def dest: asking_okD\<close>)
  moreover have "live a s" using m(1) by (force simp: live_def)
  ultimately show ?thesis using WReading by (simp add: resolve_end_def)
qed (simp_all add: resolve_end_def ok)

text \<open>The store faults exactly when the media have changed since the worker began to read.\<close>

lemma resolve_end_fault:
  assumes "vi_ok rd s"
  shows "resolve_end rd s = None \<longleftrightarrow> (\<exists>a p. vi_worker s = WReading a p) \<and> gVcdIdMemo s = []"
proof (cases "(\<exists>a p. vi_worker s = WReading a p) \<and> gVcdIdMemo s = []")
  case True
  then show ?thesis by (auto simp: resolve_end_def live_def)
next
  case False
  then show ?thesis using resolve_end_ok [OF assms] by fastforce
qed

lemma vcd_step_ok: "vcd_step rd s s' \<Longrightarrow> vi_ok rd s \<Longrightarrow> vi_ok rd s'"
proof (induction rule: vcd_step.induct)
  case (noted s a name dirPath)
  then show ?case using note_ok by blast
next
  case (publish s name)
  then show ?case using publish_ok by blast
next
  case (put s a ok)
  then show ?case using put_ok by blast
next
  case (invalidate s)
  then show ?case by (auto simp: vcdInvalidateGameIds_def vi_ok_def reading_ok_def asking_ok_def)
next
  case (frame s)
  then show ?case by (auto intro!: vi_ok_frame [OF frame] simp: vi_ok_def reading_ok_def asking_ok_def in_service_def)
next
  case (take_req s)
  then have "vi_asking s = None" by (auto simp: vi_ok_def split: if_splits)
  then show ?case using take_req take_ok by blast
next
  case (taken s nm busy)
  then show ?case using after_take_ok by blast
next
  case (read_end s a path s')
  then show ?case using resolve_end_ok [of rd s] resolve_end_fault [of rd s] by force
qed

lemma vcd_init_ok: "vi_ok rd vcd_ids_init"
  by (simp add: vi_ok_def vcd_ids_init_def reading_ok_def asking_ok_def)

lemma cached_id:
  assumes "vi_ok rd s" "vcdDisplayIdCached s (Some nm) VCD_ID_MAX = Some i"
  shows "\<exists>a m dir disc. (a, m) \<in> set (gVcdIdMemo s) \<and> mm_name m = nm \<and> mm_dir m = Some dir \<and> rd (vcd_path dir nm) = Some disc \<and> i = stored_id disc"
proof -
  obtain a m where f: "vcdIdMemoFind s nm = Some (a, m)" "mm_state m = VCD_ID_RESOLVED" "i = bounded VCD_ID_MAX (mm_id m)"
    using assms(2) by (auto simp: vcdDisplayIdCached_def VCD_ID_MAX_def split: option.splits if_splits)
  have am: "(a, m) \<in> set (gVcdIdMemo s)" "mm_name m = nm" using find_memo(1) [OF f(1)] by auto
  then have "memo_ok rd (a, m)" using assms(1) by (auto simp: vi_ok_def)
  then obtain dir disc where d: "mm_dir m = Some dir" "rd (vcd_path dir nm) = Some disc" "mm_id m = stored_id disc" using f(2) am(2) by (auto simp: memo_ok_def)
  have "i = stored_id disc" using f(3) d(3) by (simp add: stored_id_def bounded_def)
  then show ?thesis using am d(1,2) by blast
qed

lemma idle_not_waiting:
  assumes "vi_ok rd s" "vi_worker s = WIdle" "\<not> gVcdIdReqPending s"
  shows "\<forall>(a, m) \<in> set (gVcdIdMemo s). mm_state m \<noteq> VCD_ID_QUEUED"
  using assms by (auto simp: vi_ok_def in_service_def)

lemma after_take_worker: "vi_worker (after_take busy nm s) \<noteq> WTaken k" "gVcdIdReqPending (after_take busy nm s) = gVcdIdReqPending s"
  by (auto simp: after_take_def resolve_begin_def split: option.splits)

lemma resolve_end_worker: "resolve_end rd s = Some s' \<Longrightarrow> (\<forall>k. vi_worker s \<noteq> WTaken k) \<Longrightarrow> vi_worker s' = WIdle \<and> gVcdIdReqPending s' = gVcdIdReqPending s"
  by (auto simp: resolve_end_def split: worker.splits if_splits)

lemma after_take_kept:
  assumes "vi_worker s = WTaken nm" "vi_worker (after_take busy nm s) = WReading a p"
  shows "gVcdIdMemo (after_take busy nm s) \<noteq> []"
proof -
  obtain m where "vcdIdMemoFind s nm = Some (a, m)" "gVcdIdMemo (after_take busy nm s) = gVcdIdMemo s"
    using assms by (auto simp: after_take_def resolve_begin_def split: option.splits if_splits)
  then show ?thesis using find_memo(1) by fastforce
qed

lemma worker_run:
  assumes ok: "vi_ok rd s" and w: "vi_worker s = WIdle" and ask: "vi_asking s = None"
  shows "\<exists>s'. vcdResolveQueuedDisplayId rd busy s = Some s' \<and> vi_worker s' = WIdle \<and> \<not> gVcdIdReqPending s' \<and> (\<forall>(a, m) \<in> set (gVcdIdMemo s'). mm_state m \<noteq> VCD_ID_QUEUED)"
proof (cases "gVcdIdReqPending s")
  case True
  let ?s1 = "take_request s"
  obtain nm where nm: "vi_worker ?s1 = WTaken nm" "\<not> gVcdIdReqPending ?s1" using True by (simp add: take_request_def)
  have ok2: "vi_ok rd (after_take busy nm ?s1)" using after_take_ok [OF take_ok [OF ok w ask] nm(1)] .
  then obtain s' where s': "resolve_end rd (after_take busy nm ?s1) = Some s'" "vi_ok rd s'" using resolve_end_ok after_take_kept [OF nm(1)] by blast
  have "vi_worker s' = WIdle" "\<not> gVcdIdReqPending s'" using resolve_end_worker [OF s'(1)] after_take_worker nm(2) by auto
  then show ?thesis using s' nm(1) idle_not_waiting by (auto simp: vcdResolveQueuedDisplayId_def Let_def)
next
  case False
  then have "vcdResolveQueuedDisplayId rd busy s = Some (s\<lparr>vi_requests := vi_requests s - 1\<rparr>)" using w by (simp add: vcdResolveQueuedDisplayId_def take_request_def Let_def)
  then show ?thesis using w False idle_not_waiting [OF ok w False] by simp
qed

section \<open>Main results\<close>


definition sample_disc :: "cstring \<Rightarrow> cstring option" where
  "sample_disc p = (if p = ''mass0:/POPS/Ridge.VCD'' then Some ''SLUS-00551'' else None)"

definition sample_noted :: vcd_ids where
  "sample_noted = vcdNoteScanDir (True, True) 7 (Some ''Ridge'') (Some ''mass0:/POPS'') vcd_ids_init"

definition sample_asked :: vcd_ids where
  "sample_asked = vcdRequestDisplayId True (Some ''Ridge'') sample_noted"

lemma sample_asked_reach: "(vcd_step rd)\<^sup>*\<^sup>* vcd_ids_init sample_asked"
proof -
  have "vcd_step rd vcd_ids_init sample_noted" unfolding sample_noted_def by (rule vcd_step.noted) (simp_all add: vcd_ids_init_def live_def)
  moreover have "vcd_step rd sample_noted (request_publish (Some ''Ridge'') sample_noted)"
    by (rule vcd_step.publish) code_simp
  moreover have "vi_asking (request_publish (Some ''Ridge'') sample_noted) = Some 7" by code_simp
  then have "vcd_step rd (request_publish (Some ''Ridge'') sample_noted) sample_asked"
    unfolding sample_asked_def vcdRequestDisplayId_def by (rule vcd_step.put)
  ultimately show ?thesis by (meson r_into_rtranclp rtranclp.rtrancl_into_rtrancl)
qed


lemma vcd_id_shown:
  "map_option (\<lambda>s. vcdDisplayIdCached s (Some ''Ridge'') VCD_ID_MAX) (vcdResolveQueuedDisplayId sample_disc False sample_asked) = Some (Some ''SLUS_005.51'')"
  by code_simp

text \<open>When the media changes while the worker reads, the memo is freed under it, and its store goes through a freed node.\<close>

lemma vcd_ids_use_after_free: "\<exists>s. (vcd_step rd)\<^sup>*\<^sup>* vcd_ids_init s \<and> resolve_end rd s = None"
proof -
  define s1 where "s1 = take_request sample_asked"
  define s2 where "s2 = after_take False ''Ridge'' s1"
  have w: "vi_worker sample_asked = WIdle" "0 < vi_requests sample_asked" "vi_asking s2 = None" "vi_worker s1 = WTaken ''Ridge''" "vi_worker s2 = WReading 7 ''mass0:/POPS/Ridge.VCD''"
    unfolding s1_def s2_def by code_simp+
  have "vcd_step rd sample_asked s1" unfolding s1_def by (rule vcd_step.take_req) (use w in simp_all)
  moreover have "vcd_step rd s1 s2" unfolding s2_def by (rule vcd_step.taken) (use w in simp)
  moreover have "vcd_step rd s2 (vcdInvalidateGameIds s2)" by (rule vcd_step.invalidate) (rule w(3))
  ultimately have "(vcd_step rd)\<^sup>*\<^sup>* vcd_ids_init (vcdInvalidateGameIds s2)"
    using sample_asked_reach by (meson rtranclp.rtrancl_into_rtrancl)
  moreover have "resolve_end rd (vcdInvalidateGameIds s2) = None" using w(5) by (simp add: resolve_end_def vcdInvalidateGameIds_def live_def)
  ultimately show ?thesis by blast
qed

end
