(* ===== verification/OsdHistory.thy ===== *)
theory OsdHistory
  imports ByteLayout
begin

text \<open>
  The play history of the console's browser (\<^verbatim>\<open>src/OSDHistory.c\<close>): 21 records of 22 bytes in the file \<^verbatim>\<open>history\<close> of
  the system data folder on a memory card, and \<^verbatim>\<open>history.old\<close>, to which replaced records are appended.

  \<open>osd_env\<close> is what the cards, the clock and the files answer; \<open>rands\<close> are the values \<^verbatim>\<open>rand\<close> will return, and a
  loop that needs more than there are is \<open>None\<close>.
\<close>

unbundle bit_operations_syntax

definition MAX_HISTORY_ENTRIES :: nat where "MAX_HISTORY_ENTRIES = 21"
definition OSD_EIO :: int where "OSD_EIO = 5"

record HistoryEntry =
  he_name :: "char list"
  he_LaunchCount :: u8
  he_bitmask :: u8
  he_ShiftAmount :: u8
  he_padding :: u8
  he_DateStamp :: u16

definition HISTORY_ENTRY_SIZE :: nat where "HISTORY_ENTRY_SIZE = 22"

definition zero_record :: HistoryEntry where
  "zero_record = \<lparr>he_name = replicate 16 NUL, he_LaunchCount = 0, he_bitmask = 0, he_ShiftAmount = 0, he_padding = 0, he_DateStamp = 0\<rparr>"

definition history_bytes :: "HistoryEntry \<Rightarrow> char list" where
  "history_bytes e = he_name e @ [byte_char (he_LaunchCount e), byte_char (he_bitmask e), byte_char (he_ShiftAmount e), byte_char (he_padding e)] @
     le16 (he_DateStamp e)"

definition history_of_bytes :: "char list \<Rightarrow> HistoryEntry" where
  "history_of_bytes b = \<lparr>he_name = take 16 b, he_LaunchCount = char_byte (b ! 16), he_bitmask = char_byte (b ! 17), he_ShiftAmount = char_byte (b ! 18),
     he_padding = char_byte (b ! 19), he_DateStamp = of_le16 (drop 20 b)\<rparr>"

definition entry_name_ok :: "HistoryEntry \<Rightarrow> bool" where
  "entry_name_ok e \<longleftrightarrow> length (he_name e) = 16"

text \<open>The date macros; the stored stamp is 16 bits wide.\<close>

definition OSD_HISTORY_SET_DATE :: "nat \<Rightarrow> nat \<Rightarrow> nat \<Rightarrow> u16" where
  "OSD_HISTORY_SET_DATE year month date = push_bit 9 (of_nat year) OR push_bit 5 (of_nat month AND 15) OR (of_nat date AND 31)"

definition OSD_HISTORY_GET_YEAR :: "u16 \<Rightarrow> u16" where "OSD_HISTORY_GET_YEAR s = drop_bit 9 s AND 127"
definition OSD_HISTORY_GET_MONTH :: "u16 \<Rightarrow> u16" where "OSD_HISTORY_GET_MONTH s = drop_bit 5 s AND 15"
definition OSD_HISTORY_GET_DATE :: "u16 \<Rightarrow> u16" where "OSD_HISTORY_GET_DATE s = s AND 31"

section \<open>Files\<close>

record osd_files =
  of_icon :: bool
  of_history :: "char list option"
  of_old :: "char list option"

record osd_env =
  oe_card :: "nat \<Rightarrow> bool"
  oe_open_history :: "int option"
  oe_read :: "nat option"
  oe_create_icon :: "int option"
  oe_write_icon :: bool
  oe_create_history :: "int option"
  oe_write :: nat
  oe_append :: nat
  oe_stamp :: u16
  oe_letter :: char

text \<open>\<open>oe_open_history\<close>, \<open>oe_create_icon\<close> and \<open>oe_create_history\<close> are errors of an open, \<open>oe_read\<close> and \<open>oe_write\<close> how
  many bytes a read or write handles.\<close>

definition CreateSystemDataFolder :: "osd_env \<Rightarrow> osd_files \<Rightarrow> int \<times> osd_files" where
  "CreateSystemDataFolder env fs =
     (if of_icon fs then (0, fs)
      else (case oe_create_icon env of
              Some err \<Rightarrow> (err, fs)
            | None \<Rightarrow> (if oe_write_icon env then 0 else - OSD_EIO, fs\<lparr>of_icon := True\<rparr>)))"

definition LoadHistoryFile :: "osd_env \<Rightarrow> osd_files \<Rightarrow> int + HistoryEntry list" where
  "LoadHistoryFile env fs = (case (of_history fs, oe_open_history env) of
     (Some bytes, None) \<Rightarrow>
       let got = (case oe_read env of None \<Rightarrow> bytes | Some k \<Rightarrow> take k bytes);
           buf = take (MAX_HISTORY_ENTRIES * HISTORY_ENTRY_SIZE) got
       in if length buf = MAX_HISTORY_ENTRIES * HISTORY_ENTRY_SIZE then Inr (map history_of_bytes (elements HISTORY_ENTRY_SIZE buf)) else Inl (- OSD_EIO)
   | (Some _, Some err) \<Rightarrow> Inl err
   | (None, _) \<Rightarrow> Inl (-2))"

definition SaveHistoryFile :: "osd_env \<Rightarrow> osd_files \<Rightarrow> HistoryEntry list \<Rightarrow> int \<times> osd_files" where
  "SaveHistoryFile env fs es = (case oe_create_history env of
     Some err \<Rightarrow> (err, fs)
   | None \<Rightarrow>
       let bytes = concat (map history_bytes es) in
       (if oe_write env < length bytes then - OSD_EIO else 0, fs\<lparr>of_history := Some (take (oe_write env) bytes)\<rparr>))"

text \<open>\<^verbatim>\<open>history.old\<close> is opened without creating it.\<close>

definition AddOldHistoryFileRecord :: "osd_env \<Rightarrow> osd_files \<Rightarrow> HistoryEntry \<Rightarrow> int \<times> osd_files" where
  "AddOldHistoryFileRecord env fs e = (case of_old fs of
     None \<Rightarrow> (-2, fs)
   | Some old \<Rightarrow>
       (if oe_append env < HISTORY_ENTRY_SIZE then - OSD_EIO else 0, fs\<lparr>of_old := Some (old @ take (oe_append env) (history_bytes e))\<rparr>))"

section \<open>Counting a launch\<close>

text \<open>\<^verbatim>\<open>while ((bitmask >> (value = rand() % 6)) & 1) {}\<close>.\<close>

fun free_bit :: "u8 \<Rightarrow> nat list \<Rightarrow> (nat \<times> nat list) option" where
  "free_bit m [] = None"
| "free_bit m (r # rands) = (if bit m (r mod 6) then free_bit m rands else Some (r mod 6, rands))"

definition bump :: "u16 \<Rightarrow> HistoryEntry \<Rightarrow> nat list \<Rightarrow> (HistoryEntry \<times> nat list) option" where
  "bump stamp e0 rands =
     (let e = e0\<lparr>he_DateStamp := stamp\<rparr> in
      if he_bitmask e AND 0x3F \<noteq> 0x3F then
        let n = min (unat (he_LaunchCount e) + 1) 0x7F in
        if 14 \<le> n \<and> (n - 14) mod 10 = 0
        then map_option (\<lambda>(value, rest). (e\<lparr>he_ShiftAmount := of_nat value, he_bitmask := he_bitmask e OR push_bit value 1, he_LaunchCount := of_nat n\<rparr>, rest))
               (free_bit (he_bitmask e) rands)
        else Some (e\<lparr>he_LaunchCount := of_nat n\<rparr>, rands)
      else if he_LaunchCount e < 0x3F then Some (e\<lparr>he_LaunchCount := he_LaunchCount e + 1\<rparr>, rands)
      else Some (e\<lparr>he_LaunchCount := he_bitmask e AND 0x3F, he_ShiftAmount := 7\<rparr>, rands))"

record scan_state =
  ss_least :: nat
  ss_count :: nat
  ss_stamp :: nat
  ss_new :: bool

definition INT_MAX :: nat where "INT_MAX = 0x7FFFFFFF"

definition scan_init :: scan_state where
  "scan_init = \<lparr>ss_least = 0, ss_count = INT_MAX, ss_stamp = INT_MAX, ss_new = True\<rparr>"

definition least_step :: "nat \<Rightarrow> HistoryEntry \<Rightarrow> scan_state \<Rightarrow> scan_state" where
  "least_step i e s =
     (let s1 = (if unat (he_LaunchCount e) < ss_count s then s\<lparr>ss_least := i, ss_count := unat (he_LaunchCount e)\<rparr> else s) in
      if ss_count s1 = unat (he_LaunchCount e) \<and> unat (he_DateStamp e) < ss_stamp s1
      then s1\<lparr>ss_stamp := unat (he_DateStamp e), ss_least := i\<rparr> else s1)"

definition is_record :: "cstring \<Rightarrow> HistoryEntry \<Rightarrow> bool" where
  "is_record nm e \<longleftrightarrow> strncmp_eq 16 (cstr (he_name e)) nm"

text \<open>The loop over the records from number \<open>i\<close> on.\<close>

fun record_loop :: "u16 \<Rightarrow> cstring \<Rightarrow> nat \<Rightarrow> HistoryEntry list \<Rightarrow> scan_state \<Rightarrow> nat list \<Rightarrow> (HistoryEntry list \<times> scan_state \<times> nat list) option" where
  "record_loop stamp nm i [] s rands = Some ([], s, rands)"
| "record_loop stamp nm i (e # es) s rands =
     (let s1 = least_step i e s in
      if is_record nm e
      then (case bump stamp e rands of
              None \<Rightarrow> None
            | Some (e', rest) \<Rightarrow> map_option (\<lambda>(es', s2, r). (e' # es', s2, r)) (record_loop stamp nm (Suc i) es (s1\<lparr>ss_new := False\<rparr>) rest))
      else map_option (\<lambda>(es', s2, r). (e # es', s2, r)) (record_loop stamp nm (Suc i) es s1 rands))"

definition blank_slot :: "HistoryEntry \<Rightarrow> bool" where
  "blank_slot e \<longleftrightarrow> c_at (he_name e) 0 = NUL"

definition BlankSlotList :: "HistoryEntry list \<Rightarrow> nat list" where
  "BlankSlotList es = filter (\<lambda>i. blank_slot (es ! i)) [0..<length es]"

definition NumSlotsUsed :: "HistoryEntry list \<Rightarrow> nat" where
  "NumSlotsUsed es = length (filter (\<lambda>e. \<not> blank_slot e \<and> he_ShiftAmount e = 7) es)"

text \<open>\<^verbatim>\<open>strncpy\<close> of fifteen bytes leaves the last byte of the name as it was.\<close>

definition new_entry :: "u16 \<Rightarrow> cstring \<Rightarrow> HistoryEntry \<Rightarrow> HistoryEntry" where
  "new_entry stamp nm e =
     e\<lparr>he_name := take 15 nm @ replicate (15 - length nm) NUL @ drop 15 (he_name e), he_LaunchCount := 1, he_bitmask := 1, he_ShiftAmount := 0, he_DateStamp := stamp\<rparr>"

definition add_new :: "osd_env \<Rightarrow> osd_files \<Rightarrow> cstring \<Rightarrow> HistoryEntry list \<Rightarrow> nat \<Rightarrow> nat list \<Rightarrow> (HistoryEntry list \<times> osd_files) option" where
  "add_new env fs nm es least rands =
     (if NumSlotsUsed es = MAX_HISTORY_ENTRIES then Some (es, fs)
      else if BlankSlotList es \<noteq> [] then
        (case rands of
           [] \<Rightarrow> None
         | r # _ \<Rightarrow> let i = BlankSlotList es ! (r mod length (BlankSlotList es)) in Some (es[i := new_entry (oe_stamp env) nm (es ! i)], fs))
      else
        let fs' = snd (AddOldHistoryFileRecord env fs (es ! least)) in
        Some (es[least := new_entry (oe_stamp env) nm (es ! least)], fs'))"

definition AddHistoryRecord :: "osd_env \<Rightarrow> osd_files \<Rightarrow> nat list \<Rightarrow> cstring \<Rightarrow> (int \<times> osd_files) option" where
  "AddHistoryRecord env fs rands nm =
     (if \<not> oe_card env 0 \<and> \<not> oe_card env 1 then Some (-1, fs)
      else
        let loaded = (case LoadHistoryFile env fs of
              Inr es \<Rightarrow> Inr (es, fs)
            | Inl _ \<Rightarrow>
                if oe_letter env = CHR ''R'' then Inl (-2, fs)
                else (case CreateSystemDataFolder env fs of
                        (r, fs') \<Rightarrow> if r \<noteq> 0 then Inl (r, fs') else Inr (replicate MAX_HISTORY_ENTRIES zero_record, fs')))
        in case loaded of
             Inl res \<Rightarrow> Some res
           | Inr (es, fs') \<Rightarrow>
               (case record_loop (oe_stamp env) nm 0 es scan_init rands of
                  None \<Rightarrow> None
                | Some (es', s, rest) \<Rightarrow>
                    (case (if ss_new s then add_new env fs' nm es' (ss_least s) rest else Some (es', fs')) of
                       None \<Rightarrow> None
                     | Some (es'', fs'') \<Rightarrow> Some (SaveHistoryFile env fs'' es''))))"

text \<open>The name behind the last separator, without the version \<^verbatim>\<open>;1\<close>.\<close>

definition is_separator :: "char \<Rightarrow> bool" where
  "is_separator c \<longleftrightarrow> c = CHR 0x5C \<or> c = CHR '':'' \<or> c = CHR ''/''"

definition GetBootFilename :: "cstring \<Rightarrow> cstring" where
  "GetBootFilename bootpath =
     (case find (\<lambda>i. is_separator (c_at bootpath i)) (rev [1..<Suc (length bootpath)]) of
        None \<Rightarrow> bootpath
      | Some i \<Rightarrow>
          let len = length bootpath;
              len' = (if 2 < len \<and> bootpath ! (len - 1) = CHR ''1'' \<and> bootpath ! (len - 2) = CHR '';'' then len - 2 else len)
          in take (len' - (i + 1)) (drop (i + 1) bootpath))"

definition AddHistoryRecordUsingFullPath :: "osd_env \<Rightarrow> osd_files \<Rightarrow> nat list \<Rightarrow> cstring \<Rightarrow> (int \<times> osd_files) option" where
  "AddHistoryRecordUsingFullPath env fs rands path = AddHistoryRecord env fs rands (GetBootFilename path)"

section \<open>Lemmas\<close>

interpretation history_layout: fixed_layout entry_name_ok history_bytes history_of_bytes HISTORY_ENTRY_SIZE
proof
  show "history_of_bytes (history_bytes x) = x" if "entry_name_ok x" for x
    using that of_le16_append [of "he_DateStamp x" "[]"] by (simp add: entry_name_ok_def history_bytes_def history_of_bytes_def nth_append)
qed (simp_all add: HISTORY_ENTRY_SIZE_def entry_name_ok_def history_bytes_def)

text \<open>The loop that looks for a free bit ends as soon as \<^verbatim>\<open>rand\<close> has given every remainder, because one bit is free.\<close>

lemma free_bit_finds:
  assumes "v < 6" "\<not> bit m v" "\<exists>r \<in> set rands. r mod 6 = v"
  shows "\<exists>w rest. free_bit m rands = Some (w, rest) \<and> w < 6 \<and> \<not> bit m w"
  using assms(3) by (induction rands) (use assms(2) in auto)

lemma not_full_bit: "m AND 0x3F \<noteq> (0x3F :: u8) \<Longrightarrow> \<exists>v < 6. \<not> bit m v"
proof (rule ccontr)
  assume a: "m AND 0x3F \<noteq> (0x3F :: u8)" and "\<not> (\<exists>v < 6. \<not> bit m v)"
  then have b: "bit m 0" "bit m 1" "bit m 2" "bit m 3" "bit m 4" "bit m 5" by auto
  have "m AND 0x3F = (0x3F :: u8)"
  proof (rule bit_word_eqI)
    fix n
    assume "n < LENGTH(8)"
    then consider "n = 0" | "n = 1" | "n = 2" | "n = 3" | "n = 4" | "n = 5" | "n = 6" | "n = 7" by force
    then show "bit (m AND 0x3F) n = bit (0x3F :: u8) n" using b by cases (simp_all add: bit_simps)
  qed
  then show False using a by simp
qed

definition all_remainders :: "nat list \<Rightarrow> bool" where
  "all_remainders rands \<longleftrightarrow> (\<forall>v < 6. \<exists>r \<in> set rands. r mod 6 = v)"

lemma bump_total:
  assumes "all_remainders rands"
  shows "\<exists>e' rest. bump stamp e rands = Some (e', rest) \<and> he_name e' = he_name e \<and> he_DateStamp e' = stamp"
proof (cases "he_bitmask e AND 0x3F = 0x3F")
  case False
  then obtain v where "v < 6" "\<not> bit (he_bitmask e) v" using not_full_bit by blast
  then obtain w rest where "free_bit (he_bitmask e) rands = Some (w, rest)" using free_bit_finds assms by (metis all_remainders_def)
  then show ?thesis using False by (simp add: bump_def Let_def)
qed (simp add: bump_def Let_def)

definition least_inv :: "HistoryEntry list \<Rightarrow> scan_state \<Rightarrow> bool" where
  "least_inv ps s \<longleftrightarrow> ps = [] \<and> ss_count s = INT_MAX \<or>
     ss_least s < length ps \<and> ss_count s = unat (he_LaunchCount (ps ! ss_least s)) \<and> (\<forall>e \<in> set ps. ss_count s \<le> unat (he_LaunchCount e))"

lemma least_step_inv:
  assumes "least_inv ps s"
  shows "least_inv (ps @ [e]) (least_step (length ps) e s)"
proof -
  have "unat (he_LaunchCount e) < INT_MAX" using unsigned_less [of "he_LaunchCount e", where ?'a = nat] by (simp add: INT_MAX_def)
  then show ?thesis using assms by (auto simp: least_inv_def least_step_def Let_def nth_append)
qed

lemma least_step_new [simp]: "ss_new (least_step i e s) = ss_new s"
  by (simp add: least_step_def Let_def)

lemma record_loop_none:
  assumes "\<forall>e \<in> set es. \<not> is_record nm e"
  shows "\<exists>s'. record_loop stamp nm i es s rands = Some (es, s', rands) \<and> ss_new s' = ss_new s \<and> (i = length ps \<and> least_inv ps s \<longrightarrow> least_inv (ps @ es) s')"
  using assms
proof (induction es arbitrary: i s ps)
  case (Cons e es)
  obtain s' where s': "record_loop stamp nm (Suc i) es (least_step i e s) rands = Some (es, s', rands)" "ss_new s' = ss_new (least_step i e s)"
    "Suc i = length (ps @ [e]) \<and> least_inv (ps @ [e]) (least_step i e s) \<longrightarrow> least_inv ((ps @ [e]) @ es) s'"
    using Cons.IH [of "Suc i" "least_step i e s" "ps @ [e]"] Cons.prems by auto
  then show ?case using Cons.prems least_step_inv [of ps s e] by (auto simp: Let_def)
qed simp

lemma record_loop_one:
  assumes "\<forall>x \<in> set as \<union> set bs. \<not> is_record nm x" "is_record nm e" "bump stamp e rands = Some (e', rest)"
  shows "\<exists>s'. record_loop stamp nm i (as @ e # bs) s rands = Some (as @ e' # bs, s', rest) \<and> \<not> ss_new s'"
  using assms(1)
proof (induction as arbitrary: i s)
  case Nil
  then show ?case using record_loop_none [of bs nm stamp "Suc i" "(least_step i e s)\<lparr>ss_new := False\<rparr>" rest] assms(2,3) by (auto simp: Let_def)
next
  case (Cons a as)
  then show ?case using Cons.IH [of "Suc i" "least_step i a s"] by (auto simp: Let_def)
qed

lemma new_entry_ok: "entry_name_ok e \<Longrightarrow> entry_name_ok (new_entry stamp nm e)"
  by (auto simp: entry_name_ok_def new_entry_def)

lemma new_entry_record:
  assumes "length nm < 15" "NUL \<notin> set nm"
  shows "is_record nm (new_entry stamp nm e)"
proof -
  have "he_name (new_entry stamp nm e) = nm @ NUL # replicate (14 - length nm) NUL @ drop 15 (he_name e)"
    using assms(1) by (simp add: new_entry_def Cons_replicate_eq Suc_diff_Suc [symmetric] numeral_eq_Suc)
  then show ?thesis using assms(2) by (simp add: is_record_def)
qed

text \<open>A card whose file holds the records \<open>es\<close> and whose operations succeed.\<close>

definition history_holds :: "osd_env \<Rightarrow> osd_files \<Rightarrow> HistoryEntry list \<Rightarrow> bool" where
  "history_holds env fs es \<longleftrightarrow> length es = MAX_HISTORY_ENTRIES \<and> (\<forall>e \<in> set es. entry_name_ok e) \<and> of_history fs = Some (concat (map history_bytes es)) \<and>
     (oe_card env 0 \<or> oe_card env 1) \<and> oe_open_history env = None \<and> oe_read env = None \<and> oe_create_history env = None \<and>
     MAX_HISTORY_ENTRIES * HISTORY_ENTRY_SIZE \<le> oe_write env"

lemma load_holds: "history_holds env fs es \<Longrightarrow> LoadHistoryFile env fs = Inr es"
  using history_layout.array_back [of es] history_layout.array_length [of es]
  by (simp add: history_holds_def LoadHistoryFile_def Let_def mult.commute)

lemma save_holds:
  assumes "history_holds env fs es" "length es' = MAX_HISTORY_ENTRIES" "\<forall>e \<in> set es'. entry_name_ok e"
  shows "\<exists>fs''. SaveHistoryFile env fs' es' = (0, fs'') \<and> history_holds env fs'' es' \<and> of_old fs'' = of_old fs'"
proof -
  have "length (concat (map history_bytes es')) = MAX_HISTORY_ENTRIES * HISTORY_ENTRY_SIZE" using history_layout.array_length [OF assms(3)] assms(2) by simp
  then show ?thesis using assms by (simp add: history_holds_def SaveHistoryFile_def Let_def)
qed

lemma old_frame: "of_history (snd (AddOldHistoryFileRecord env fs e)) = of_history fs"
  by (simp add: AddOldHistoryFileRecord_def split: option.splits)

lemma add_record_cases:
  assumes "history_holds env fs es" "all_remainders rands" "length (filter (is_record nm) es) \<le> 1"
  shows "\<exists>fs' es'. AddHistoryRecord env fs rands nm = Some (0, fs') \<and> history_holds env fs' es' \<and>
    ((\<exists>k e' rest. k < length es \<and> is_record nm (es ! k) \<and> bump (oe_stamp env) (es ! k) rands = Some (e', rest) \<and> es' = es[k := e'] \<and> of_old fs' = of_old fs) \<or>
     (\<forall>e \<in> set es. \<not> is_record nm e) \<and>
       (NumSlotsUsed es = MAX_HISTORY_ENTRIES \<and> es' = es \<or>
        NumSlotsUsed es \<noteq> MAX_HISTORY_ENTRIES \<and> (\<exists>i < length es. blank_slot (es ! i) \<and> es' = es[i := new_entry (oe_stamp env) nm (es ! i)] \<and> of_old fs' = of_old fs) \<or>
        NumSlotsUsed es \<noteq> MAX_HISTORY_ENTRIES \<and> (\<exists>i < length es. (\<forall>e \<in> set es. \<not> blank_slot e \<and> he_LaunchCount (es ! i) \<le> he_LaunchCount e) \<and> es' = es[i := new_entry (oe_stamp env) nm (es ! i)] \<and>
           of_old fs' = of_old (snd (AddOldHistoryFileRecord env fs (es ! i))))))"
proof (cases "\<exists>e \<in> set es. is_record nm e")
  case True
  then obtain as e bs where es: "es = as @ e # bs" "is_record nm e" by (metis split_list)
  have none: "\<forall>x \<in> set as \<union> set bs. \<not> is_record nm x" using assms(3) es by (auto simp: filter_empty_conv)
  obtain e' rest where b: "bump (oe_stamp env) e rands = Some (e', rest)" "he_name e' = he_name e" using bump_total [OF assms(2)] by blast
  obtain s' where r: "record_loop (oe_stamp env) nm 0 es scan_init rands = Some (as @ e' # bs, s', rest)" "\<not> ss_new s'"
    using record_loop_one [OF none es(2) b(1)] es(1) by blast
  have ok: "length (as @ e' # bs) = MAX_HISTORY_ENTRIES" "\<forall>x \<in> set (as @ e' # bs). entry_name_ok x"
    using assms(1) es(1) b(2) by (auto simp: history_holds_def entry_name_ok_def)
  obtain fs' where s: "SaveHistoryFile env fs (as @ e' # bs) = (0, fs')" "history_holds env fs' (as @ e' # bs)" "of_old fs' = of_old fs"
    using save_holds [OF assms(1) ok, of fs] by blast
  have "AddHistoryRecord env fs rands nm = Some (0, fs')"
    using assms(1) load_holds [OF assms(1)] r s(1) by (auto simp: AddHistoryRecord_def history_holds_def)
  moreover have "\<exists>k e'' r. k < length es \<and> is_record nm (es ! k) \<and> bump (oe_stamp env) (es ! k) rands = Some (e'', r) \<and> as @ e' # bs = es[k := e''] \<and> of_old fs' = of_old fs"
    by (intro exI [of _ "length as"] exI [of _ e'] exI [of _ rest]) (simp add: es b(1) s(3))
  ultimately show ?thesis using s(2) by blast
next
  case False
  then have none: "\<forall>e \<in> set es. \<not> is_record nm e" by blast
  obtain s' where r: "record_loop (oe_stamp env) nm 0 es scan_init rands = Some (es, s', rands)" "ss_new s'" "least_inv es s'"
    using record_loop_none [OF none, of "oe_stamp env" 0 scan_init rands "[]"] by (auto simp: scan_init_def least_inv_def)
  have len: "length es = MAX_HISTORY_ENTRIES" and names: "\<forall>e \<in> set es. entry_name_ok e" using assms(1) by (auto simp: history_holds_def)
  have run: "AddHistoryRecord env fs rands nm = Some (SaveHistoryFile env fs'' es'')" if "add_new env fs nm es (ss_least s') rands = Some (es'', fs'')" for es'' fs''
    using assms(1) load_holds [OF assms(1)] r that by (auto simp: AddHistoryRecord_def history_holds_def)
  have upd: "\<exists>fs'. SaveHistoryFile env fs'' (es[i := new_entry (oe_stamp env) nm (es ! i)]) = (0, fs') \<and>
      history_holds env fs' (es[i := new_entry (oe_stamp env) nm (es ! i)]) \<and> of_old fs' = of_old fs''" if "i < length es" for i fs''
  proof (rule save_holds [OF assms(1)])
    show "\<forall>e \<in> set (es[i := new_entry (oe_stamp env) nm (es ! i)]). entry_name_ok e"
      using names new_entry_ok [of "es ! i"] nth_mem [OF that] set_update_subset_insert [of es i] by blast
  qed (simp add: len)
  consider "NumSlotsUsed es = MAX_HISTORY_ENTRIES" | "NumSlotsUsed es \<noteq> MAX_HISTORY_ENTRIES" "BlankSlotList es \<noteq> []" | "NumSlotsUsed es \<noteq> MAX_HISTORY_ENTRIES" "BlankSlotList es = []" by blast
  then show ?thesis
  proof cases
    case 1
    then show ?thesis using run [of es fs] save_holds [OF assms(1) len names, of fs] none by (auto simp: add_new_def)
  next
    case 2
    obtain q rr where q: "rands = q # rr" using assms(2) by (cases rands) (auto simp: all_remainders_def dest: spec [of _ 0])
    let ?i = "BlankSlotList es ! (q mod length (BlankSlotList es))"
    have "?i \<in> set (BlankSlotList es)" using 2 by simp
    then have i: "?i < length es" "blank_slot (es ! ?i)" by (auto simp: BlankSlotList_def)
    have "add_new env fs nm es (ss_least s') rands = Some (es[?i := new_entry (oe_stamp env) nm (es ! ?i)], fs)" using 2 q by (simp add: add_new_def Let_def)
    then show ?thesis using run upd [OF i(1), of fs] i none 2(1) by metis
  next
    case 3
    let ?i = "ss_least s'"
    have "es \<noteq> []" using len by (auto simp: MAX_HISTORY_ENTRIES_def)
    then have i: "?i < length es" "\<forall>e \<in> set es. he_LaunchCount (es ! ?i) \<le> he_LaunchCount e" using r(3) by (auto simp: least_inv_def word_le_nat_alt)
    have nb: "\<forall>e \<in> set es. \<not> blank_slot e" using 3(2) by (auto simp: BlankSlotList_def filter_empty_conv in_set_conv_nth)
    have "add_new env fs nm es (ss_least s') rands = Some (es[?i := new_entry (oe_stamp env) nm (es ! ?i)], snd (AddOldHistoryFileRecord env fs (es ! ?i)))"
      using 3 by (simp add: add_new_def Let_def)
    then show ?thesis using run upd [OF i(1), of "snd (AddOldHistoryFileRecord env fs (es ! ?i))"] i nb none 3(1) by metis
  qed
qed

lemma bump_record: "bump stamp e rands = Some (e', rest) \<Longrightarrow> he_name e' = he_name e"
  by (auto simp: bump_def Let_def split: if_splits)

lemma count_update:
  assumes "i < length es" "\<not> P (es ! i)" "P e" "\<forall>x \<in> set es. \<not> P x"
  shows "length (filter P (es[i := e])) = 1"
proof -
  have "es[i := e] = take i es @ e # drop (Suc i) es" using assms(1) by (simp add: upd_conv_take_nth_drop)
  moreover have "\<not> (\<exists>x \<in> set (take i es). P x)" "\<not> (\<exists>x \<in> set (drop (Suc i) es). P x)" using assms(4) by (auto dest: in_set_takeD in_set_dropD)
  ultimately show ?thesis using assms(3) by (auto simp: filter_empty_conv)
qed

lemma count_map: "map P xs = map P ys \<Longrightarrow> length (filter P xs) = length (filter P ys)"
proof -
  assume e: "map P xs = map P ys"
  have "length (filter P zs) = length (filter (\<lambda>b. b) (map P zs))" for zs by (simp add: filter_map comp_def)
  then show ?thesis using e by metis
qed

section \<open>What recording a launch means\<close>

text \<open>The slots a record has drawn so far, of six.\<close>

definition drawn_slots :: "HistoryEntry \<Rightarrow> nat set" where
  "drawn_slots e = {v. v < 6 \<and> bit (he_bitmask e) v}"

text \<open>A record counted up: name and padding stay, the date is now.  While a slot is free the count goes up to at most
  127, and at 14, 24, \<open>\<dots>\<close>, 124 one more slot is drawn, which becomes the shift amount.  When all six are drawn the
  count goes up to 63, and a launch at 63 or more sets it to 63 and saturates the record (shift amount 7).\<close>

definition counted_up :: "u16 \<Rightarrow> HistoryEntry \<Rightarrow> HistoryEntry \<Rightarrow> bool" where
  "counted_up stamp e e' \<longleftrightarrow>
     he_name e' = he_name e \<and> he_padding e' = he_padding e \<and> he_DateStamp e' = stamp \<and>
     (if drawn_slots e \<noteq> {0..<6} then
        unat (he_LaunchCount e') = min (unat (he_LaunchCount e) + 1) 127 \<and>
        (if unat (he_LaunchCount e') \<in> (\<lambda>k. 14 + 10 * k) ` {0..11} then
           (\<exists>v < 6. v \<notin> drawn_slots e \<and> drawn_slots e' = insert v (drawn_slots e) \<and> unat (he_ShiftAmount e') = v)
         else he_bitmask e' = he_bitmask e \<and> he_ShiftAmount e' = he_ShiftAmount e)
      else
        he_bitmask e' = he_bitmask e \<and>
        (if unat (he_LaunchCount e) < 63 then unat (he_LaunchCount e') = unat (he_LaunchCount e) + 1 \<and> he_ShiftAmount e' = he_ShiftAmount e
         else unat (he_LaunchCount e') = 63 \<and> he_ShiftAmount e' = 7))"

text \<open>A record for a game launched for the first time.\<close>

definition first_launch :: "u16 \<Rightarrow> cstring \<Rightarrow> HistoryEntry \<Rightarrow> bool" where
  "first_launch stamp nm e \<longleftrightarrow> cstr (he_name e) = nm \<and> he_LaunchCount e = 1 \<and> he_bitmask e = 1 \<and> he_ShiftAmount e = 0 \<and> he_DateStamp e = stamp"

text \<open>No record can be replaced.\<close>

definition all_saturated :: "HistoryEntry list \<Rightarrow> bool" where
  "all_saturated es \<longleftrightarrow> (\<forall>e \<in> set es. \<not> blank_slot e \<and> he_ShiftAmount e = 7)"

lemma six_slots: "m AND 0x3F = (0x3F :: u8) \<longleftrightarrow> (\<forall>v < 6. bit m v)"
proof
  assume a: "m AND 0x3F = (0x3F :: u8)"
  have "(0x3F :: u8) = mask 6" by (simp add: mask_eq_exp_minus_1)
  then have eq: "bit (m AND mask 6) v = bit (mask 6 :: u8) v" for v using a by simp
  show "\<forall>v < 6. bit m v"
  proof (intro allI impI)
    fix v :: nat
    assume "v < 6"
    then show "bit m v" using eq [of v] by (simp add: bit_and_iff bit_mask_iff)
  qed
qed (use not_full_bit in blast)

lemma all_drawn: "drawn_slots e = {0..<6} \<longleftrightarrow> he_bitmask e AND 0x3F = 0x3F"
  unfolding six_slots drawn_slots_def set_eq_iff mem_Collect_eq atLeastLessThan_iff by (simp only: le0 simp_thms) blast

lemma draw_count: "n \<le> 127 \<Longrightarrow> n \<in> (\<lambda>k. 14 + 10 * k) ` {0..11} \<longleftrightarrow> 14 \<le> n \<and> (n - 14) mod 10 = (0 :: nat)"
proof
  assume n: "n \<le> 127" "14 \<le> n \<and> (n - 14) mod 10 = 0"
  then have "n = 14 + 10 * ((n - 14) div 10)" "(n - 14) div 10 \<in> {0..11}" by simp_all presburger
  then show "n \<in> (\<lambda>k. 14 + 10 * k) ` {0..11}" by (rule image_eqI)
qed auto

lemma bump_counted_up:
  assumes "bump stamp e rands = Some (e', rest)"
  shows "counted_up stamp e e'"
proof (cases "he_bitmask e AND 0x3F = 0x3F")
  case True
  have "unat (he_LaunchCount e + 1) = unat (he_LaunchCount e) + 1" if "he_LaunchCount e < 0x3F"
    using that by (simp add: unat_word_ariths word_less_nat_alt)
  then show ?thesis using True assms all_drawn [of e] by (auto simp: counted_up_def bump_def Let_def word_less_nat_alt split: if_splits)
next
  case False
  let ?n = "min (unat (he_LaunchCount e) + 1) 0x7F"
  have "k \<le> 127 \<Longrightarrow> unat (of_nat k :: u8) = k" for k by (simp add: unat_of_nat take_bit_nat_eq_self)
  from this [of ?n] have n: "unat (of_nat ?n :: u8) = ?n" by linarith
  have d: "?n \<in> (\<lambda>k. 14 + 10 * k) ` {0..11} \<longleftrightarrow> 14 \<le> ?n \<and> (?n - 14) mod 10 = 0" by (rule draw_count) simp
  show ?thesis
  proof (cases "14 \<le> ?n \<and> (?n - 14) mod 10 = 0")
    case draw: True
    obtain v where v: "free_bit (he_bitmask e) rands = Some (v, rest)"
      "e' = e\<lparr>he_DateStamp := stamp, he_ShiftAmount := of_nat v, he_bitmask := he_bitmask e OR push_bit v 1, he_LaunchCount := of_nat ?n\<rparr>"
      using False draw assms by (auto simp: bump_def Let_def)
    have "w < 6 \<and> \<not> bit m w" if "free_bit m rs = Some (w, r)" for m rs w r
      using that by (induction m rs rule: free_bit.induct) (auto split: if_splits)
    then have free: "v < 6" "\<not> bit (he_bitmask e) v" using v(1) by blast+
    then have "drawn_slots e' = insert v (drawn_slots e)" "v \<notin> drawn_slots e" "unat (of_nat v :: u8) = v"
      by (auto simp: drawn_slots_def v(2) bit_simps unat_of_nat take_bit_nat_eq_self)
    then show ?thesis using False draw d n free(1) all_drawn [of e] unfolding counted_up_def v(2) by auto
  next
    case keep: False
    then have "e' = e\<lparr>he_DateStamp := stamp, he_LaunchCount := of_nat ?n\<rparr>" using False assms by (auto simp: bump_def Let_def)
    then show ?thesis using False keep d n all_drawn [of e] unfolding counted_up_def by auto
  qed
qed

lemma new_entry_first:
  assumes "length nm < 15" "NUL \<notin> set nm"
  shows "first_launch stamp nm (new_entry stamp nm e)"
proof -
  have "he_name (new_entry stamp nm e) = nm @ NUL # replicate (14 - length nm) NUL @ drop 15 (he_name e)"
    using assms(1) by (simp add: new_entry_def Cons_replicate_eq Suc_diff_Suc [symmetric] numeral_eq_Suc)
  then show ?thesis using assms(2) by (simp add: first_launch_def) (simp add: new_entry_def)
qed

lemma saturated_slots:
  assumes "length es = MAX_HISTORY_ENTRIES"
  shows "NumSlotsUsed es = MAX_HISTORY_ENTRIES \<longleftrightarrow> all_saturated es"
proof -
  have all: "length (filter P xs) = length xs \<longleftrightarrow> (\<forall>x \<in> set xs. P x)" for P and xs :: "HistoryEntry list"
    by (metis filter_True filter_id_conv length_filter_less less_irrefl)
  show ?thesis using all [of "\<lambda>e. \<not> blank_slot e \<and> he_ShiftAmount e = 7" es] assms by (simp add: NumSlotsUsed_def all_saturated_def)
qed

section \<open>Main results\<close>

text \<open>C25. Recording a launch on a card that works, for a name shorter than 15 bytes of which there is at most one
  record: when \<^verbatim>\<open>rand\<close> gives every remainder by six at some time, the call ends and saves.  A game that has a
  record keeps its place and its record is counted up (\<^term>\<open>counted_up\<close>, stated without the code).  Otherwise, when every record is
  saturated, nothing is recorded and the table stays; else the game gets a first record in a blank
  place, or, in a full table, in the place of a record with the smallest launch count, which is appended to the old
  history (as much as the card takes, and only when the file \<^verbatim>\<open>history.old\<close> exists: it is not created, and the
  record is lost without it).  No other record changes, the file read back is exactly the table saved,
  and a game never gets a second record (\<open>osd_long_name\<close> shows that long names do).\<close>

theorem osd_history_update:
  assumes "history_holds env fs es" "all_remainders rands" "length (filter (is_record nm) es) \<le> 1" "length nm < 15" "NUL \<notin> set nm"
  shows "\<exists>fs' es'. AddHistoryRecord env fs rands nm = Some (0, fs') \<and> LoadHistoryFile env fs' = Inr es' \<and> length es' = MAX_HISTORY_ENTRIES \<and>
    length (filter (is_record nm) es') = (if all_saturated es \<and> (\<forall>e \<in> set es. \<not> is_record nm e) then 0 else 1) \<and>
    ((\<exists>k e'. k < length es \<and> is_record nm (es ! k) \<and> counted_up (oe_stamp env) (es ! k) e' \<and> es' = es[k := e'] \<and> of_old fs' = of_old fs) \<or>
     (\<forall>e \<in> set es. \<not> is_record nm e) \<and>
       (all_saturated es \<and> es' = es \<or>
        \<not> all_saturated es \<and> (\<exists>i e'. i < length es \<and> first_launch (oe_stamp env) nm e' \<and> es' = es[i := e'] \<and>
          (blank_slot (es ! i) \<and> of_old fs' = of_old fs \<or>
           (\<forall>e \<in> set es. \<not> blank_slot e \<and> he_LaunchCount (es ! i) \<le> he_LaunchCount e) \<and>
           of_old fs' = map_option (\<lambda>old. old @ take (oe_append env) (history_bytes (es ! i))) (of_old fs)))))"
proof -
  have sat: "NumSlotsUsed es = MAX_HISTORY_ENTRIES \<longleftrightarrow> all_saturated es" using assms(1) saturated_slots by (simp add: history_holds_def)
  have old: "of_old (snd (AddOldHistoryFileRecord env fs e)) = map_option (\<lambda>old. old @ take (oe_append env) (history_bytes e)) (of_old fs)" for e
    by (simp add: AddOldHistoryFileRecord_def split: option.splits)
  from add_record_cases [OF assms(1-3), unfolded sat old] obtain fs' es' where r: "AddHistoryRecord env fs rands nm = Some (0, fs')" "history_holds env fs' es'"
    and c: "(\<exists>k e' rest. k < length es \<and> is_record nm (es ! k) \<and> bump (oe_stamp env) (es ! k) rands = Some (e', rest) \<and> es' = es[k := e'] \<and> of_old fs' = of_old fs) \<or>
     (\<forall>e \<in> set es. \<not> is_record nm e) \<and>
       (all_saturated es \<and> es' = es \<or>
        \<not> all_saturated es \<and> (\<exists>i < length es. blank_slot (es ! i) \<and> es' = es[i := new_entry (oe_stamp env) nm (es ! i)] \<and> of_old fs' = of_old fs) \<or>
        \<not> all_saturated es \<and> (\<exists>i < length es. (\<forall>e \<in> set es. \<not> blank_slot e \<and> he_LaunchCount (es ! i) \<le> he_LaunchCount e) \<and>
           es' = es[i := new_entry (oe_stamp env) nm (es ! i)] \<and> of_old fs' = map_option (\<lambda>old. old @ take (oe_append env) (history_bytes (es ! i))) (of_old fs)))"
    by blast
  have one: "length (filter (is_record nm) (es[i := new_entry (oe_stamp env) nm (es ! i)])) = 1" if "i < length es" "\<forall>e \<in> set es. \<not> is_record nm e" for i
    using count_update [OF that(1) _ new_entry_record [OF assms(4,5)] that(2)] that nth_mem by blast
  have "length (filter (is_record nm) (es[k := e'])) = 1" if "k < length es" "is_record nm (es ! k)" "bump (oe_stamp env) (es ! k) rands = Some (e', rest)" for k e' rest
  proof -
    have "is_record nm e' = is_record nm (es ! k)" using bump_record [OF that(3)] by (simp add: is_record_def)
    then have "map (is_record nm) (es[k := e']) = map (is_record nm) es" using that(1) by (intro nth_equalityI) (auto simp: nth_list_update)
    then have "length (filter (is_record nm) (es[k := e'])) = length (filter (is_record nm) es)" by (rule count_map)
    moreover have "filter (is_record nm) es \<noteq> []" using that(1,2) nth_mem by (auto simp: filter_empty_conv)
    ultimately show ?thesis using assms(3) by (cases "filter (is_record nm) es") auto
  qed
  moreover have "k < length es \<Longrightarrow> is_record nm (es ! k) \<Longrightarrow> \<not> (\<forall>e \<in> set es. \<not> is_record nm e)" for k using nth_mem by blast
  moreover have "(\<forall>e \<in> set es. \<not> is_record nm e) \<Longrightarrow> length (filter (is_record nm) es) = 0" by (simp add: filter_empty_conv)
  ultimately have n: "length (filter (is_record nm) es') = (if all_saturated es \<and> (\<forall>e \<in> set es. \<not> is_record nm e) then 0 else 1)"
    using c one by (elim disjE conjE exE) simp_all
  have "AddHistoryRecord env fs rands nm = Some (0, fs') \<and> LoadHistoryFile env fs' = Inr es' \<and> length es' = MAX_HISTORY_ENTRIES"
    using r load_holds [OF r(2)] by (simp add: history_holds_def)
  then show ?thesis using n c bump_counted_up new_entry_first [OF assms(4,5)] by (intro exI [of _ fs'] exI [of _ es'] conjI; blast)
qed

text \<open>The date of a record is the date it was made from.\<close>

lemma osd_date_back:
  assumes "y < 128" "m < 16" "d < 32"
  shows "OSD_HISTORY_GET_YEAR (OSD_HISTORY_SET_DATE y m d) = of_nat y" "OSD_HISTORY_GET_MONTH (OSD_HISTORY_SET_DATE y m d) = of_nat m"
    "OSD_HISTORY_GET_DATE (OSD_HISTORY_SET_DATE y m d) = of_nat d"
proof -
  have masks: "(127 :: u16) = mask 7" "(15 :: u16) = mask 4" "(31 :: u16) = mask 5" by (simp_all add: mask_eq_exp_minus_1)
  have t: "y = take_bit 7 y" "m = take_bit 4 m" "d = take_bit 5 d" using assms by (simp_all add: take_bit_nat_eq_self)
  have b: "bit y n \<longrightarrow> n < 7" "bit m n \<longrightarrow> n < 4" "bit d n \<longrightarrow> n < 5" for n using t by (metis bit_take_bit_iff)+
  show "OSD_HISTORY_GET_YEAR (OSD_HISTORY_SET_DATE y m d) = of_nat y" "OSD_HISTORY_GET_MONTH (OSD_HISTORY_SET_DATE y m d) = of_nat m"
    "OSD_HISTORY_GET_DATE (OSD_HISTORY_SET_DATE y m d) = of_nat d"
    unfolding OSD_HISTORY_GET_YEAR_def OSD_HISTORY_GET_MONTH_def OSD_HISTORY_GET_DATE_def OSD_HISTORY_SET_DATE_def masks
    by (rule bit_word_eqI, force simp: bit_simps dest: b [THEN mp])+
qed

section \<open>Examples\<close>

definition sample_osd :: osd_env where
  "sample_osd = \<lparr>oe_card = (\<lambda>i. i = 0), oe_open_history = None, oe_read = None, oe_create_icon = None, oe_write_icon = True, oe_create_history = None,
     oe_write = 462, oe_append = 22, oe_stamp = 0x1A75, oe_letter = CHR ''E''\<rparr>"

definition sample_card :: osd_files where
  "sample_card = \<lparr>of_icon = True, of_history = Some (concat (map history_bytes (replicate 21 zero_record))), of_old = None\<rparr>"

lemma sample_card_holds: "history_holds sample_osd sample_card (replicate 21 zero_record)"
  by (simp add: history_holds_def sample_osd_def sample_card_def MAX_HISTORY_ENTRIES_def HISTORY_ENTRY_SIZE_def zero_record_def entry_name_ok_def)

lemma sample_remainders: "all_remainders [0, 1, 2, 3, 4, 5]"
proof -
  have "v = 0 \<or> v = 1 \<or> v = 2 \<or> v = 3 \<or> v = 4 \<or> v = 5" if "v < 6" for v :: nat using that by linarith
  then show ?thesis by (force simp: all_remainders_def)
qed

theorem osd_history_update_witness:
  "\<exists>fs' es'. AddHistoryRecord sample_osd sample_card [0, 1, 2, 3, 4, 5] ''SLPM_550.52'' = Some (0, fs') \<and> LoadHistoryFile sample_osd fs' = Inr es' \<and>
     length (filter (is_record ''SLPM_550.52'') es') = 1"
proof -
  have z: "\<not> is_record ''SLPM_550.52'' zero_record" by (simp add: is_record_def zero_record_def strncmp_eq_def)
  then have f: "filter (is_record ''SLPM_550.52'') (replicate 21 zero_record) = []" by simp
  have n: "\<not> all_saturated (replicate 21 zero_record)" by (simp add: all_saturated_def zero_record_def)
  show ?thesis using osd_history_update [OF sample_card_holds sample_remainders, of "''SLPM_550.52''"] f n by auto
qed

text \<open>The time stamp is not reset when a smaller launch count is found: of two records with the smallest count, the
  newer one is taken when an older record with a larger count came first.\<close>

lemma osd_least_not_oldest:
  defines "e n t \<equiv> zero_record\<lparr>he_LaunchCount := n, he_DateStamp := t\<rparr>"
  shows "map_option (\<lambda>(_, s, _). ss_least s) (record_loop 0 ''X'' 0 [e 5 10, e 3 100, e 3 50] scan_init []) = Some 1"
  unfolding e_def by (simp add: least_step_def scan_init_def INT_MAX_def is_record_def strncmp_eq_def zero_record_def Let_def)

text \<open>The path without a directory: a separator at the very start is not seen, and the whole path is the name.\<close>

lemma osd_boot_filename:
  "GetBootFilename ''cdrom0:/SLUS_200.02;1'' = ''SLUS_200.02''" "GetBootFilename ''/SLUS_200.02'' = ''/SLUS_200.02''" "GetBootFilename ''SLUS_200.02;1'' = ''SLUS_200.02;1''"
  by code_simp+

text \<open>The name goes into an array of 17 bytes, but its length is not limited.\<close>

lemma osd_filename_overflow: "17 < length (GetBootFilename ''cdrom0:/A_VERY_LONG_BOOT_FILE.ELF;1'') + 1"
  by code_simp

text \<open>A name of sixteen bytes or more is stored shortened and not found again: each launch makes a new record.\<close>

lemma osd_long_name: "\<not> is_record ''ABCDEFGHIJKLMNOP'' (new_entry 0 ''ABCDEFGHIJKLMNOP'' zero_record)"
  by code_simp

end
