(* ===== verification/Spec2Isabelle.thy ===== *)
theory Spec2Isabelle
  imports Util Ioman ConfigFile HttpCatalog LibView ArtIndex CheatMan Udprdma Atlas GameList Neutrino Tar Favourites FolderBrowse MenuNav VcdId OsdHistory
begin

text \<open>
  Open PS2 Loader (the RiptOPL/MMCE fork) is a game and application launcher for the PlayStation 2.
  The user interface runs on the EE; slow work is handed to one worker thread; settings, cheats
  and catalogues are text files on cards, disks and the network; network storage goes through a small
  reliable transport on the IOP.  This development models the parts of the program that carry its own
  logic and whose behaviour is determined by the C sources.

  \<^bold>\<open>Parts and theories\<close>

  \<^item> \<open>OplPrelude\<close>: C strings (the bytes before the NUL), the C library functions the sources call, the C
    locale's character classes, decimal numerals, lemmas on lists.  \<open>LinkedList\<close>: singly linked lists
    with head and tail pointers as heap nodes (\<open>plist\<close>), their representation predicates \<open>pl_repr\<close> and
    \<open>q_repr\<close>, and the locale \<open>value_queue\<close>, the contract of a first-in first-out queue.
  \<^item> \<open>Util\<close> models \<^verbatim>\<open>src/util.c\<close>: the buffered line reader and writer (\<^verbatim>\<open>readFileBuffer\<close>,
    \<^verbatim>\<open>writeFileBuffer\<close>, \<^verbatim>\<open>closeFileBuffer\<close>), hex digits, memory card choice, console region.  Reading is
    refined to a specification on the text (\<open>spec_next\<close>, \<open>text_lines\<close>).
  \<^item> \<open>Ioman\<close> models \<^verbatim>\<open>src/ioman.c\<close>: handler table, request queue as heap nodes, counters, blocking, and
    the worker, as the step relation \<open>io_step\<close> that interleaves callers and worker, and as a function that drains the
    queue when nobody interferes (used for what is reached by draining, not for progress).  \<open>value_queue\<close> is interpreted on the queue operations (\<open>io_queue\<close>).
  \<^item> \<open>ConfigStore\<close>, \<open>ConfigFormat\<close>, \<open>ConfigFile\<close> model \<^verbatim>\<open>src/config.c\<close>: sets of bounded key/value strings
    with typed accessors (as lists, and again as pointer code refining the lists); the two file
    syntaxes, the line classifier, key translation and grouping; opening, reading, saving with
    snapshot, verification and rollback, the global sets and their moves between devices.  The locale
    \<open>string_store\<close> states what clients may rely on and is interpreted on the set operations
    (\<open>config_store\<close>).
  \<^item> \<open>HttpCatalog\<close> models \<^verbatim>\<open>src/httpcatalog.c\<close>, the parser of \<^verbatim>\<open>games.csv\<close>.
  \<^item> \<open>LibView\<close> models \<^verbatim>\<open>src/libview.c\<close>: which list each page shows, the two-phase change of view and
    the positions kept in a configuration set, through \<open>config_store\<close>.
  \<^item> \<open>ArtIndex\<close> models \<^verbatim>\<open>src/artindex.c\<close>: the index of art directories, with invalidations that arrive
    from other threads in the middle of a probe.
  \<^item> \<open>CheatMan\<close> models \<^verbatim>\<open>src/cheatman.c\<close>: cheat settings, the parser of cheat files, the cheat table and
    the list for the in-game core.
  \<^item> \<open>Udprdma\<close> models \<^verbatim>\<open>modules/network/udpfs_bd/src/udprdma.c\<close>: the reliable datagram transport.
  \<^item> \<open>Atlas\<close> models \<^verbatim>\<open>src/atlas.c\<close>: the tree that packs glyphs into one texture, and the texture's bytes.
  \<^item> \<open>Ps2Cnf\<close> models \<^verbatim>\<open>src/ps2cnf.c\<close> and \<^verbatim>\<open>GetStartupExecName\<close>: the identifier of a disc image.
    \<open>GameList\<close> models the game lists of \<^verbatim>\<open>src/supportbase.c\<close>: scanning, the cache \<^verbatim>\<open>games.bin\<close>, folder rows,
    the split games of \<^verbatim>\<open>ul.cfg\<close>, the published list, paths, deleting and renaming.
  \<^item> \<open>Neutrino\<close> models the external core: finding it, the argument editor and memory card arguments of
    \<^verbatim>\<open>src/supportbase.c\<close>, the preflight and the argument vector of \<^verbatim>\<open>src/system.c\<close>.
  \<^item> \<open>ByteLayout\<close>: little-endian words and arrays of structures in files; the locale \<open>fixed_layout\<close> is the
    contract of a structure that is written and read back, interpreted on the entries of \<^verbatim>\<open>games.bin\<close>
    (\<open>game_layout\<close>) and of the archive index (\<open>tar_layout\<close>).
  \<^item> \<open>Tar\<close> models \<^verbatim>\<open>src/tar.c\<close>: the archive parser, its cache file, the search over devices, look-up and
    reading, and the life of a slot as the step relation \<open>tar_step\<close> over a set of moments, each the answers of the
    system and the files when an operation runs.
  \<^item> \<open>Favourites\<close> models the store of \<^verbatim>\<open>src/favsupport.c\<close>: \<^verbatim>\<open>favourites.bin\<close> in its versions, adding and
    removing, and finding the source item of a favourite.
  \<^item> \<open>FolderBrowse\<close> models \<^verbatim>\<open>src/folderbrowse.c\<close>: the folder each page is in.
  \<^item> \<open>MenuList\<close> models the rows of a page in \<^verbatim>\<open>src/menusys.c\<close>: a doubly linked list (\<open>dl_repr\<close>) with appending, searching,
    removing and the sort that relinks it, refined to \<^const>\<open>sort_key\<close>.  \<open>MenuNav\<close> models moving through rows and pages,
    the deferred operations of \<^verbatim>\<open>src/gui.c\<close> that fill them, and entering folders, as the step relation \<open>nav_step\<close> of whole moves
    and as \<open>conc_step\<close>, where the worker acts between the two halves of a move; the locale
    \<open>row_sorter\<close> is what it relies on from sorting, interpreted on \<^verbatim>\<open>submenuSort\<close> (\<open>submenu_sorter\<close>).
  \<^item> \<open>VcdName\<close> and \<open>VcdId\<close> model the names and disc identifiers of PS1 images in \<^verbatim>\<open>src/vcdsupport.c\<close>, the second the memo that
    scan, user interface and worker share, as the step relation \<open>vcd_step\<close>, in which the media may change at any time and
    a request has two halves.
  \<^item> \<open>OsdHistory\<close> models \<^verbatim>\<open>src/OSDHistory.c\<close>: the play history; its records are a third \<open>fixed_layout\<close> (\<open>history_layout\<close>).

  \<^bold>\<open>How parts interact\<close>

  The configuration code reads and writes through the buffers of \<open>Util\<close>; the settings code of \<open>CheatMan\<close>
  and the positions of \<open>LibView\<close> read and write configuration sets; saves and art loads run as requests
  of \<open>Ioman\<close>.  The rows of a menu page are sorted by the names \<open>VcdName\<close> shows in the view \<open>LibView\<close> has, and pages
  reset the folders of \<open>FolderBrowse\<close> when they are left.  The theorems on saving and loading (\<open>config_save_load\<close>) and on remembered positions
  (\<open>libview_remembered\<close>) compose these models.

  \<^bold>\<open>What the theorems show\<close>

  \<^item> Refinement: the chunked reader yields the lines of the text; pointer code does what the list
    operations say; the cheat parser builds the cheats the text describes.
  \<^item> Invariants of reachable states: order and exactly-once of requests and memory safety of the queue
    walks under every interleaving; supported views; soundness of the answer "absent";
    glyphs that stay intact and disjoint on the atlas.  Progress: every waiting request is called within a bounded
    number of steps of the worker, whatever others put meanwhile.
  \<^item> Round trips: integers, colours, both configuration syntaxes, saving and loading, catalogue rows,
    view positions, paths of scanned images, launch arguments, archive cache and favourites, the last
    two also when a write stores only part of the file.
  \<^item> Menus: the sort gives the stable order and ends, every pointer of a page stays valid under the interleavings of
    updates and moves in which no list is cleared under a move (the other ones fault, and are exhibited), where each move goes, and that a page is left at the root of its folders.
  \<^item> PS1 images: the identifier is the same from every form of a name, no row waits for ever for its identifier,
    and the worker stores through a freed node exactly when the media change while it reads.
    Play history: one record per game, how a record is counted up, and that one of the least used is replaced.
  \<^item> Archives: what is returned for a name, over concatenated archives and padding; which archive an
    index belongs to.  Favourites: no duplicates among titles that fit, and removal of exactly the item shown.
  \<^item> Game lists: what is published, that the cache changes nothing, what a failed scan keeps.
  \<^item> Bounds and termination: cheat parser, cheat list, art search, draining the queue, blocking,
    sending and receiving, the sort, the argument vector of the external core.
  \<^item> Error behaviour: what a failed save leaves, which paths are refused, and a number of defects stated
    as theorems (a NULL dereference in the reader, a race in the request count, escapes that are not
    undone, a list cleared under a move, a memo freed under its reader, an acknowledgement check that never rejects, an unchecked header size, hidden dot names,
    indented comments taken as names).

  \<^bold>\<open>Modelling choices\<close>

  \<^item> Memory faults (NULL, freed nodes, stores outside an array) are values: \<open>None\<close> or a fault
    constructor; the theorems say that they do not occur, or when they do.
  \<^item> Machine integers are words where they wrap (hashes, codes, counters, sequence numbers) and \<open>int\<close> or
    \<open>nat\<close> where the code keeps them in range: frame and operation counters and the coordinates of the atlas (whose sums
    would wrap only near the limits of \<^verbatim>\<open>int\<close> and \<^verbatim>\<open>size_t\<close>, beyond any glyph or texture) are unbounded here.
  \<^item> Steps of a relation are atomic.  Where the code gives up a lock or a critical section inside an operation the
    operation is divided there (\<^verbatim>\<open>guiDeferUpdate\<close>, moves, \<^verbatim>\<open>vcdRequestDisplayId\<close>, the worker's read of a disc).
  \<^item> Devices are records of what they will do: which opens fail, how many bytes a write accepts, whether
    the close fails, which names a directory lists.  Theorems quantify over them.
  \<^item> Fuel: the line reader uses the bytes still to be read, the receive loop of \<open>Udprdma\<close> the number of
    events plus two; both are proved to be enough.  Other loops are structural or have a measure.
  \<^item> Parameters for code outside the repository: what \<^verbatim>\<open>WEF_CLEAR\<close> of the IOP kernel leaves set (\<open>clr\<close>), the
    results of \<^verbatim>\<open>malloc\<close> (\<open>mem\<close>), directory listings (\<open>ix_opendir\<close>).

  \<^bold>\<open>Not modelled\<close>

  Rendering, the settings menus, dialogs, themes, sound and pads (their results are pixels and sound); the device
  back ends, which enumerate hardware and load IOP modules; the in-game core, which patches the kernel
  and the game with assembly; the IOP drivers and the vendored TCP/IP stack; the PC tools.  Planned
  next: disc image access and memory card emulation.
\<close>

end
